(* ===== verification/Js_Prelude.thy ===== *)
theory Js_Prelude
  imports Main "HOL-Library.Monad_Syntax" "HOL-Library.Multiset"
begin

unbundle bit_operations_syntax

text \<open>
  Shared ground of the development: the 32-bit shift operators of the source language,
  arrays with checked reads and writes, and the block copies that the array code uses.

  An array is a list and an index is an \<open>int\<close>, because the code lets some cursors
  run to \<open>-1\<close>. A read outside the array gives \<open>None\<close>: the running program would
  see the value \<open>undefined\<close> there, so a theorem that a function gives \<open>Some\<close> also
  says that no such read happens. A write at the end of the array extends it, as the
  program's arrays do; a write further out would leave a hole and is \<open>None\<close>.
\<close>

named_theorems js_bits "evaluation of the 32-bit operators inside their exact range"
named_theorems arr_simps "reads, writes and segments of arrays"

section \<open>32-bit operators\<close>

definition to_int32 :: "int \<Rightarrow> int" where
  "to_int32 x = signed_take_bit 31 x"

definition to_uint32 :: "int \<Rightarrow> int" where
  "to_uint32 x = take_bit 32 x"

definition js_shl :: "int \<Rightarrow> nat \<Rightarrow> int" where
  "js_shl x n = to_int32 (push_bit n (to_int32 x))"

definition js_shr :: "int \<Rightarrow> nat \<Rightarrow> int" where
  "js_shr x n = drop_bit n (to_int32 x)"

definition js_ushr :: "int \<Rightarrow> nat \<Rightarrow> int" where
  "js_ushr x n = drop_bit n (to_uint32 x)"

definition js_or :: "int \<Rightarrow> int \<Rightarrow> int" where
  "js_or x y = (to_int32 x OR to_int32 y)"

definition js_and :: "int \<Rightarrow> int \<Rightarrow> int" where
  "js_and x y = (to_int32 x AND to_int32 y)"

lemma to_int32_id [js_bits]: "- (2 ^ 31) \<le> x \<Longrightarrow> x < 2 ^ 31 \<Longrightarrow> to_int32 x = x"
  unfolding to_int32_def by (simp add: signed_take_bit_int_eq_self)

lemma to_uint32_id [js_bits]: "0 \<le> x \<Longrightarrow> x < 2 ^ 32 \<Longrightarrow> to_uint32 x = x"
  unfolding to_uint32_def by (simp add: take_bit_int_eq_self)

lemma to_int32_wrap:
  assumes "2 ^ 31 \<le> x" "x < 2 ^ 32"
  shows "to_int32 x = x - 2 ^ 32"
proof -
  have "signed_take_bit 31 x = (x + 2 ^ 31) mod 2 ^ 32 - 2 ^ 31"
    by (simp add: signed_take_bit_eq_take_bit_shift take_bit_eq_mod)
  also have "(x + 2 ^ 31) mod 2 ^ 32 = x + 2 ^ 31 - 2 ^ 32"
    using assms by (simp add: mod_pos_geq mod_pos_pos_trivial)
  finally show ?thesis by (simp add: to_int32_def)
qed

lemma js_shl_1 [js_bits]: "0 \<le> x \<Longrightarrow> x < 2 ^ 30 \<Longrightarrow> js_shl x (Suc 0) = 2 * x"
  by (simp add: js_shl_def to_int32_id push_bit_eq_mult)

lemma js_shl_1_wrap: "2 ^ 30 \<le> x \<Longrightarrow> x < 2 ^ 31 \<Longrightarrow> js_shl x (Suc 0) = 2 * x - 2 ^ 32"
  by (simp add: js_shl_def to_int32_id to_int32_wrap push_bit_eq_mult)

lemma js_shr_1 [js_bits]: "0 \<le> x \<Longrightarrow> x < 2 ^ 31 \<Longrightarrow> js_shr x (Suc 0) = x div 2"
  by (simp add: js_shr_def to_int32_id drop_bit_eq_div)

lemma js_ushr_1 [js_bits]: "0 \<le> x \<Longrightarrow> x < 2 ^ 32 \<Longrightarrow> js_ushr x (Suc 0) = x div 2"
  by (simp add: js_ushr_def to_uint32_id drop_bit_eq_div)

lemma js_and_1 [js_bits]: "0 \<le> x \<Longrightarrow> x < 2 ^ 31 \<Longrightarrow> js_and x 1 = x mod 2"
  by (simp add: js_and_def to_int32_id and_one_eq)

section \<open>Arrays\<close>

definition arr_get :: "'a list \<Rightarrow> int \<Rightarrow> 'a option" where
  "arr_get xs i = (if 0 \<le> i \<and> i < int (length xs) then Some (xs ! nat i) else None)"

definition arr_set :: "'a list \<Rightarrow> int \<Rightarrow> 'a \<Rightarrow> 'a list option" where
  "arr_set xs i v =
     (if 0 \<le> i \<and> i < int (length xs) then Some (xs[nat i := v])
      else if i = int (length xs) then Some (xs @ [v])
      else None)"

text \<open>The segment of \<open>n\<close> elements from index \<open>i\<close>.\<close>

definition seg :: "'a list \<Rightarrow> int \<Rightarrow> int \<Rightarrow> 'a list" where
  "seg xs i n = take (nat n) (drop (nat i) xs)"

text \<open>
  The three block copies of the array code, as the loops they are: upwards and downwards
  inside one array, and upwards from another array.
\<close>

fun copy_up :: "'a list \<Rightarrow> int \<Rightarrow> int \<Rightarrow> nat \<Rightarrow> 'a list option" where
  "copy_up a d s 0 = Some a"
| "copy_up a d s (Suc k) =
     do { v \<leftarrow> arr_get a s; a' \<leftarrow> arr_set a d v; copy_up a' (d + 1) (s + 1) k }"

fun copy_down :: "'a list \<Rightarrow> int \<Rightarrow> int \<Rightarrow> nat \<Rightarrow> 'a list option" where
  "copy_down a d s 0 = Some a"
| "copy_down a d s (Suc k) =
     do { v \<leftarrow> arr_get a (s + int k); a' \<leftarrow> arr_set a (d + int k) v; copy_down a' d s k }"

fun copy_from :: "'a list \<Rightarrow> int \<Rightarrow> 'a list \<Rightarrow> int \<Rightarrow> nat \<Rightarrow> 'a list option" where
  "copy_from src s a d 0 = Some a"
| "copy_from src s a d (Suc k) =
     do { v \<leftarrow> arr_get src s; a' \<leftarrow> arr_set a d v; copy_from src (s + 1) a' (d + 1) k }"

subsection \<open>Reads and writes\<close>

lemma arr_get_in [arr_simps]: "0 \<le> i \<Longrightarrow> i < int (length xs) \<Longrightarrow> arr_get xs i = Some (xs ! nat i)"
  by (simp add: arr_get_def)

lemma arr_set_in [arr_simps]: "0 \<le> i \<Longrightarrow> i < int (length xs) \<Longrightarrow> arr_set xs i v = Some (xs[nat i := v])"
  by (simp add: arr_set_def)

lemma arr_set_end [arr_simps]: "i = int (length xs) \<Longrightarrow> arr_set xs i v = Some (xs @ [v])"
  by (simp add: arr_set_def)

subsection \<open>Segments\<close>

lemma length_seg [arr_simps]:
  "0 \<le> i \<Longrightarrow> 0 \<le> n \<Longrightarrow> i + n \<le> int (length xs) \<Longrightarrow> length (seg xs i n) = nat n"
  by (simp add: seg_def)

lemma nth_seg [arr_simps]:
  "0 \<le> i \<Longrightarrow> 0 \<le> n \<Longrightarrow> i + n \<le> int (length xs) \<Longrightarrow> k < nat n \<Longrightarrow> seg xs i n ! k = xs ! (nat i + k)"
  by (simp add: seg_def)

lemma seg_0 [simp]: "seg xs i 0 = []"
  by (simp add: seg_def)

lemma seg_Cons:
  assumes "0 \<le> i" "0 < n" "i < int (length xs)"
  shows "seg xs i n = xs ! nat i # seg xs (i + 1) (n - 1)"
proof -
  have "drop (nat i) xs = xs ! nat i # drop (Suc (nat i)) xs"
    using assms by (simp add: Cons_nth_drop_Suc)
  moreover have "nat n = Suc (nat (n - 1))" and "nat (i + 1) = Suc (nat i)"
    using assms by auto
  ultimately show ?thesis by (simp add: seg_def)
qed

lemma seg_snoc:
  assumes "0 \<le> i" "0 < n" "i + n \<le> int (length xs)"
  shows "seg xs i n = seg xs i (n - 1) @ [xs ! nat (i + n - 1)]"
proof -
  have n: "nat n = Suc (nat (n - 1))" and s: "nat (i + n - 1) = nat i + nat (n - 1)"
    using assms by auto
  have "nat (n - 1) < length (drop (nat i) xs)"
    using assms by auto
  then show ?thesis
    using assms by (simp add: seg_def n s take_Suc_conv_app_nth)
qed

lemma seg_append:
  assumes "0 \<le> i" "0 \<le> m" "0 \<le> n"
  shows "seg xs i (m + n) = seg xs i m @ seg xs (i + m) n"
  using assms by (simp add: seg_def nat_add_distrib take_add add.commute)

lemma seg_whole [simp]: "seg xs 0 (int (length xs)) = xs"
  by (simp add: seg_def)

lemma take_seg: "0 \<le> i \<Longrightarrow> 0 \<le> n \<Longrightarrow> take (nat i) xs @ seg xs i n = take (nat (i + n)) xs"
  by (simp add: seg_def nat_add_distrib take_add)

lemma seg_drop: "0 \<le> i \<Longrightarrow> 0 \<le> n \<Longrightarrow> seg xs i n @ drop (nat (i + n)) xs = drop (nat i) xs"
proof -
  assume "0 \<le> i" "0 \<le> n"
  then have "drop (nat (i + n)) xs = drop (nat n) (drop (nat i) xs)"
    by (simp add: nat_add_distrib add.commute)
  then show ?thesis by (simp only: seg_def append_take_drop_id)
qed

lemma take_seg_drop:
  "0 \<le> i \<Longrightarrow> 0 \<le> n \<Longrightarrow> take (nat i) xs @ seg xs i n @ drop (nat (i + n)) xs = xs"
  by (simp add: seg_drop)

lemma seg_eqI:
  assumes "0 \<le> i" "0 \<le> n" "i + n \<le> int (length xs)" "i + n \<le> int (length ys)"
    and "\<And>k. i \<le> int k \<Longrightarrow> int k < i + n \<Longrightarrow> xs ! k = ys ! k"
  shows "seg xs i n = seg ys i n"
  using assms by (intro nth_equalityI) (simp_all add: length_seg nth_seg)

lemma set_seg_conv:
  assumes "0 \<le> i" "0 \<le> n" "i + n \<le> int (length xs)"
  shows "x \<in> set (seg xs i n) \<longleftrightarrow> (\<exists>k. 0 \<le> k \<and> k < n \<and> x = xs ! nat (i + k))"
proof
  assume "x \<in> set (seg xs i n)"
  then obtain k where k: "k < nat n" "x = xs ! (nat i + k)"
    using assms by (auto simp: in_set_conv_nth length_seg nth_seg)
  then have "0 \<le> int k \<and> int k < n \<and> x = xs ! nat (i + int k)"
    using assms by (simp add: nat_add_distrib)
  then show "\<exists>k. 0 \<le> k \<and> k < n \<and> x = xs ! nat (i + k)" by blast
next
  assume "\<exists>k. 0 \<le> k \<and> k < n \<and> x = xs ! nat (i + k)"
  then obtain k where k: "0 \<le> k" "k < n" "x = xs ! nat (i + k)" by blast
  then have "nat k < length (seg xs i n)" "seg xs i n ! nat k = x"
    using assms by (auto simp: length_seg nth_seg nat_add_distrib)
  then show "x \<in> set (seg xs i n)" by (metis nth_mem)
qed

lemma seg_update_outside:
  assumes "0 \<le> i" "0 \<le> n" "0 \<le> j" "j < i \<or> i + n \<le> j"
  shows "seg (xs[nat j := v]) i n = seg xs i n"
proof (cases "j < i")
  case True
  then show ?thesis using assms by (simp add: seg_def drop_update_cancel)
next
  case False
  then have "nat j = nat i + (nat j - nat i)" and "nat n \<le> nat j - nat i"
    using assms by auto
  then show ?thesis
    using assms unfolding seg_def by (metis drop_update_swap le_add1 take_update_cancel add_diff_cancel_left')
qed

subsection \<open>Block copies\<close>

lemma nat_Suc_conv: "0 \<le> i \<Longrightarrow> nat (i + 1) = Suc (nat i)"
  by simp

lemma copy_up_eq:
  assumes "0 \<le> d" "d \<le> s" "s + int k \<le> int (length a)"
  shows "copy_up a d s k = Some (take (nat d) a @ seg a s (int k) @ drop (nat d + k) a)"
  using assms
proof (induction k arbitrary: a d s)
  case 0
  then show ?case by simp
next
  case (Suc k)
  let ?a = "a[nat d := a ! nat s]"
  have d1: "nat (d + 1) = Suc (nat d)" using Suc.prems by simp
  have s: "seg a s (1 + int k) = a ! nat s # seg a (s + 1) (int k)"
    using seg_Cons [of s "int (Suc k)" a] Suc.prems by simp
  have "seg ?a (s + 1) (int k) = seg a (s + 1) (int k)"
    using Suc.prems by (intro seg_update_outside) auto
  moreover have "take (Suc (nat d)) ?a = take (nat d) a @ [a ! nat s]"
    using Suc.prems by (simp add: take_Suc_conv_app_nth)
  moreover have "copy_up ?a (d + 1) (s + 1) k
      = Some (take (Suc (nat d)) ?a @ seg ?a (s + 1) (int k) @ drop (Suc (nat d) + k) ?a)"
    using Suc.IH [of "d + 1" "s + 1" ?a] Suc.prems d1 by simp
  ultimately show ?case
    using Suc.prems by (simp add: arr_simps s)
qed

lemma copy_down_eq:
  assumes "0 \<le> s" "s \<le> d" "d + int k \<le> int (length a)"
  shows "copy_down a d s k = Some (take (nat d) a @ seg a s (int k) @ drop (nat d + k) a)"
  using assms
proof (induction k arbitrary: a)
  case 0
  then show ?case by simp
next
  case (Suc k)
  let ?j = "d + int k" and ?v = "a ! nat (s + int k)"
  let ?a = "a[nat ?j := ?v]"
  have j: "nat ?j = nat d + k" using Suc.prems by simp
  have "seg a s (int (Suc k)) = seg a s (int k) @ [?v]"
    using seg_snoc [of s "int (Suc k)" a] Suc.prems by (simp add: algebra_simps)
  moreover have "seg ?a s (int k) = seg a s (int k)"
    using Suc.prems by (intro seg_update_outside) auto
  moreover have "drop (nat d + k) ?a = ?v # drop (Suc (nat d + k)) a"
    using Suc.prems j by (simp add: drop_update_swap Cons_nth_drop_Suc [symmetric] nat_add_distrib)
  moreover have "copy_down ?a d s k = Some (take (nat d) a @ seg ?a s (int k) @ drop (nat d + k) ?a)"
    using Suc.IH [of ?a] Suc.prems j by simp
  ultimately show ?case
    using Suc.prems by (simp add: arr_simps)
qed

lemma copy_from_eq:
  assumes "0 \<le> d" "d \<le> int (length a)" "0 \<le> s" "s + int k \<le> int (length src)"
  shows "copy_from src s a d k = Some (take (nat d) a @ seg src s (int k) @ drop (nat d + k) a)"
  using assms
proof (induction k arbitrary: a d s)
  case 0
  then show ?case by simp
next
  case (Suc k)
  let ?v = "src ! nat s"
  have d1: "nat (d + 1) = Suc (nat d)" using Suc.prems by simp
  have s: "seg src s (1 + int k) = ?v # seg src (s + 1) (int k)"
    using seg_Cons [of s "int (Suc k)" src] Suc.prems by simp
  have "\<exists>a'. arr_set a d ?v = Some a' \<and> d < int (length a')
     \<and> take (Suc (nat d)) a' = take (nat d) a @ [?v] \<and> (\<forall>m. drop (Suc (nat d + m)) a' = drop (Suc (nat d + m)) a)"
  proof (cases "d < int (length a)")
    case True
    then show ?thesis using Suc.prems by (auto simp: arr_simps take_Suc_conv_app_nth)
  next
    case False
    then have "d = int (length a)" using Suc.prems by simp
    then show ?thesis by (simp add: arr_simps)
  qed
  then obtain a' where a': "arr_set a d ?v = Some a'" "d < int (length a')"
    "take (Suc (nat d)) a' = take (nat d) a @ [?v]" "\<And>m. drop (Suc (nat d + m)) a' = drop (Suc (nat d + m)) a"
    by blast
  have "copy_from src (s + 1) a' (d + 1) k
      = Some (take (Suc (nat d)) a' @ seg src (s + 1) (int k) @ drop (Suc (nat d) + k) a')"
    using Suc.IH [of "d + 1" a' "s + 1"] Suc.prems a'(2) d1 by simp
  then show ?case
    using Suc.prems a' by (simp add: arr_simps s)
qed

subsection \<open>Writing a block into an array\<close>

definition blit :: "'a list \<Rightarrow> int \<Rightarrow> 'a list \<Rightarrow> 'a list" where
  "blit xs d bs = take (nat d) xs @ bs @ drop (nat d + length bs) xs"

lemma copy_up_blit:
  assumes "0 \<le> d" "d \<le> s" "0 \<le> n" "s + n \<le> int (length a)"
  shows "copy_up a d s (nat n) = Some (blit a d (seg a s n))"
  using assms copy_up_eq [of d s "nat n" a] by (simp add: blit_def length_seg)

lemma copy_down_blit:
  assumes "0 \<le> s" "s \<le> d" "0 \<le> n" "d + n \<le> int (length a)"
  shows "copy_down a d s (nat n) = Some (blit a d (seg a s n))"
  using assms copy_down_eq [of s d "nat n" a] by (simp add: blit_def length_seg)

lemma copy_from_blit:
  assumes "0 \<le> d" "d \<le> int (length a)" "0 \<le> s" "0 \<le> n" "s + n \<le> int (length src)"
  shows "copy_from src s a d (nat n) = Some (blit a d (seg src s n))"
  using assms copy_from_eq [of d a s "nat n" src] by (simp add: blit_def length_seg)

lemma arr_set_blit:
  "0 \<le> i \<Longrightarrow> i < int (length xs) \<Longrightarrow> arr_set xs i v = Some (blit xs i [v])"
  by (simp add: arr_set_in blit_def upd_conv_take_nth_drop)

lemma seg_1: "0 \<le> i \<Longrightarrow> i < int (length xs) \<Longrightarrow> seg xs i 1 = [xs ! nat i]"
  using seg_Cons [of i 1 xs] by simp

lemma length_blit [arr_simps]:
  "0 \<le> d \<Longrightarrow> d + int (length bs) \<le> int (length xs) \<Longrightarrow> length (blit xs d bs) = length xs"
  by (simp add: blit_def)

lemma drop_blit_after:
  assumes "0 \<le> d" "d + int (length bs) \<le> n" "d + int (length bs) \<le> int (length xs)"
  shows "drop (nat n) (blit xs d bs) = drop (nat n) xs"
proof -
  have "nat n = nat d + (length bs + (nat n - nat d - length bs))" using assms by simp
  then obtain k where k: "nat n = nat d + (length bs + k)" by blast
  show ?thesis unfolding blit_def k using assms by (simp add: add.commute add.left_commute)
qed

lemma drop_blit:
  "0 \<le> d \<Longrightarrow> d + int (length bs) \<le> int (length xs)
   \<Longrightarrow> drop (nat d) (blit xs d bs) = bs @ drop (nat (d + int (length bs))) xs"
  by (simp add: blit_def nat_add_distrib)

lemma take_blit_before:
  assumes "n \<le> d" "d + int (length bs) \<le> int (length xs)"
  shows "take (nat n) (blit xs d bs) = take (nat n) xs"
proof (cases "0 \<le> n")
  case True
  then have "nat n \<le> nat d" "nat d \<le> length xs" using assms by linarith+
  then show ?thesis by (simp add: blit_def min_absorb1)
qed simp

lemma take_blit:
  assumes "0 \<le> d" "d + int (length bs) \<le> int (length xs)"
  shows "take (nat (d + int (length bs))) (blit xs d bs) = take (nat d) xs @ bs"
proof -
  have "nat d \<le> length xs" using assms by linarith
  then show ?thesis using assms by (simp add: blit_def nat_add_distrib min_absorb1 min_absorb2)
qed

lemma seg_blit_after:
  "0 \<le> d \<Longrightarrow> d + int (length bs) \<le> i \<Longrightarrow> d + int (length bs) \<le> int (length xs)
   \<Longrightarrow> seg (blit xs d bs) i n = seg xs i n"
  by (simp add: seg_def drop_blit_after)

lemma seg_blit_before:
  assumes "0 \<le> i" "0 \<le> n" "i + n \<le> d" "d + int (length bs) \<le> int (length xs)"
  shows "seg (blit xs d bs) i n = seg xs i n"
proof -
  have "take (nat n) (drop (nat i) ys) = drop (nat i) (take (nat (i + n)) ys)" for ys :: "'a list"
    using assms by (simp add: take_drop nat_add_distrib add.commute)
  then show ?thesis using assms by (simp add: seg_def take_blit_before)
qed

lemma blit_blit:
  assumes "0 \<le> d" "d + int (length bs) + int (length cs) \<le> int (length xs)" "e = d + int (length bs)"
  shows "blit (blit xs d bs) e cs = blit xs d (bs @ cs)"
proof -
  have e: "nat e = nat d + length bs" using assms by simp
  have "drop (nat e + length cs) (blit xs d bs) = drop (nat e + length cs) xs"
    using drop_blit_after [of d bs "e + int (length cs)" xs] assms e by (simp add: nat_add_distrib)
  moreover have "take (nat e) (blit xs d bs) = take (nat d) xs @ bs"
    using take_blit [of d bs xs] assms by simp
  ultimately show ?thesis unfolding blit_def [of _ e] by (simp add: e blit_def [of _ d] add.assoc)
qed

lemma blit_blit_before:
  assumes "0 \<le> d" "d + int (length bs) + int (length cs) \<le> int (length xs)" "e = d + int (length bs)"
  shows "blit (blit xs e cs) d bs = blit xs d (bs @ cs)"
proof -
  have e: "nat e = nat d + length bs" using assms by simp
  have "drop (nat e) (blit xs e cs) = cs @ drop (nat (e + int (length cs))) xs"
    using assms by (intro drop_blit) simp_all
  moreover have "take (nat d) (blit xs e cs) = take (nat d) xs"
    using assms by (intro take_blit_before) simp_all
  moreover have "nat (e + int (length cs)) = nat d + length (bs @ cs)" using assms by simp
  ultimately show ?thesis unfolding blit_def [of _ d] by (simp add: e)
qed

lemma seg_blit_0: "seg (blit xs 0 bs) 0 (int (length bs)) = bs"
  by (simp add: seg_def blit_def)

lemma blit_seg [simp]: "0 \<le> i \<Longrightarrow> 0 \<le> n \<Longrightarrow> i + n \<le> int (length xs) \<Longrightarrow> blit xs i (seg xs i n) = xs"
  by (simp add: blit_def length_seg nat_add_distrib [symmetric] take_seg_drop)

lemma seg_blit: "0 \<le> d \<Longrightarrow> d + int (length bs) \<le> int (length xs) \<Longrightarrow> seg (blit xs d bs) d (int (length bs)) = bs"
  by (simp add: seg_def drop_blit)

text \<open>Rewriting the middle of a block just written.\<close>

lemma blit_inside:
  assumes "0 \<le> d" "d + int (length (as @ bs @ cs)) \<le> int (length xs)"
    and "length bs' = length bs" "e = d + int (length as)"
  shows "blit (blit xs d (as @ bs @ cs)) e bs' = blit xs d (as @ bs' @ cs)"
proof -
  let ?a = "blit xs d (as @ bs @ cs)"
  have e: "nat e = nat d + length as" using assms by simp
  have d: "nat d \<le> length xs" using assms by simp
  have "take (nat e) ?a = take (nat d) xs @ as"
    using d by (simp add: e blit_def min_absorb1)
  moreover have "drop (nat e + length bs') ?a = cs @ drop (nat d + length (as @ bs' @ cs)) xs"
    using d assms(3) by (simp add: e blit_def min_absorb1 add.assoc)
  ultimately show ?thesis unfolding blit_def [of _ e] by (simp add: blit_def [of _ d])
qed

lemma blit_prefix:
  assumes "0 \<le> d" "0 \<le> m" "d + m \<le> int (length xs)"
  shows "blit xs d (seg xs d m @ bs) = blit xs (d + m) bs"
proof -
  have l: "nat d + length (seg xs d m) = nat (d + m)" using assms by (simp add: length_seg)
  show ?thesis
    using assms by (simp add: blit_def take_seg [symmetric] add.assoc [symmetric] l)
qed

end
