(* ===== verification/Timsort.thy ===== *)
theory Timsort
  imports Js_Prelude
begin

text \<open>
  The sorting routine of the rendering library (module 86 of \<open>echarts.js\<close>), which keeps the
  drawing order of equal shapes. Every function of the module is here under its own name;
  a \<open>while\<close> or \<open>do\<close> loop of a function is a definition of its own.

  The comparator is any function into an ordered type with a zero: the code only asks
  whether its result is below, equal to or above zero. The fields the code computes and never
  reads (\<open>tmpStorageLength\<close>, \<open>stackLength\<close>) are left out. \<open>None\<close> stands for a read outside
  an array, a thrown error, or a loop that does not end; the theories that follow prove
  that none of them happens.
\<close>

section \<open>Runs\<close>

definition DEFAULT_MIN_MERGE :: int where
  "DEFAULT_MIN_MERGE = 32"

definition DEFAULT_MIN_GALLOPING :: int where
  "DEFAULT_MIN_GALLOPING = 7"

lemma to_int32_le: "0 \<le> n \<Longrightarrow> to_int32 n \<le> n"
proof -
  assume "0 \<le> n"
  then have "(n + 2 ^ 31) mod 2 ^ 32 \<le> n + 2 ^ 31"
    by (intro zmod_le_nonneg_dividend) simp
  then show ?thesis
    by (simp add: to_int32_def signed_take_bit_eq_take_bit_shift take_bit_eq_mod)
qed

function minRunLoop :: "int \<Rightarrow> int \<Rightarrow> int" where
  "minRunLoop n r =
     (if DEFAULT_MIN_MERGE \<le> n then minRunLoop (js_shr n 1) (js_or r (js_and n 1)) else n + r)"
  by pat_completeness auto
termination
proof (relation "measure (\<lambda>(n, r). nat n)")
  fix n r :: int
  assume "DEFAULT_MIN_MERGE \<le> n"
  then have "32 \<le> n" by (simp add: DEFAULT_MIN_MERGE_def)
  moreover from this have "to_int32 n div 2 \<le> n div 2" by (simp add: to_int32_le zdiv_mono1)
  ultimately show "((js_shr n 1, js_or r (js_and n 1)), n, r) \<in> measure (\<lambda>(n, r). nat n)"
    by (simp add: js_shr_def drop_bit_eq_div)
qed simp

declare minRunLoop.simps [simp del]

definition minRunLength :: "int \<Rightarrow> int" where
  "minRunLength n = minRunLoop n 0"

function descRunEnd :: "('a \<Rightarrow> 'a \<Rightarrow> 'n::{linorder,zero}) \<Rightarrow> 'a list \<Rightarrow> int \<Rightarrow> int \<Rightarrow> int option" where
  "descRunEnd compare array hi runHi =
     (if runHi < hi then
        do { x \<leftarrow> arr_get array runHi; y \<leftarrow> arr_get array (runHi - 1);
             if compare x y < 0 then descRunEnd compare array hi (runHi + 1) else Some runHi }
      else Some runHi)"
  by pat_completeness auto
termination by (relation "measure (\<lambda>(c, a, hi, runHi). nat (hi - runHi))") auto

function ascRunEnd :: "('a \<Rightarrow> 'a \<Rightarrow> 'n::{linorder,zero}) \<Rightarrow> 'a list \<Rightarrow> int \<Rightarrow> int \<Rightarrow> int option" where
  "ascRunEnd compare array hi runHi =
     (if runHi < hi then
        do { x \<leftarrow> arr_get array runHi; y \<leftarrow> arr_get array (runHi - 1);
             if compare x y \<ge> 0 then ascRunEnd compare array hi (runHi + 1) else Some runHi }
      else Some runHi)"
  by pat_completeness auto
termination by (relation "measure (\<lambda>(c, a, hi, runHi). nat (hi - runHi))") auto

function reverseLoop :: "'a list \<Rightarrow> int \<Rightarrow> int \<Rightarrow> 'a list option" where
  "reverseLoop array lo hi =
     (if lo < hi then
        do { t \<leftarrow> arr_get array lo; u \<leftarrow> arr_get array hi;
             a1 \<leftarrow> arr_set array lo u; a2 \<leftarrow> arr_set a1 hi t;
             reverseLoop a2 (lo + 1) (hi - 1) }
      else Some array)"
  by pat_completeness auto
termination by (relation "measure (\<lambda>(a, lo, hi). nat (hi - lo))") auto

declare descRunEnd.simps [simp del] ascRunEnd.simps [simp del] reverseLoop.simps [simp del]

definition reverseRun :: "'a list \<Rightarrow> int \<Rightarrow> int \<Rightarrow> 'a list option" where
  "reverseRun array lo hi = reverseLoop array lo (hi - 1)"

text \<open>The run found and the array, which a descending run changes.\<close>

definition makeAscendingRun ::
  "'a list \<Rightarrow> int \<Rightarrow> int \<Rightarrow> ('a \<Rightarrow> 'a \<Rightarrow> 'n::{linorder,zero}) \<Rightarrow> ('a list \<times> int) option" where
  "makeAscendingRun array lo hi compare =
     (let runHi = lo + 1 in
      if runHi = hi then Some (array, 1)
      else do {
        x \<leftarrow> arr_get array runHi; y \<leftarrow> arr_get array lo;
        if compare x y < 0 then do {
          r \<leftarrow> descRunEnd compare array hi (runHi + 1);
          a \<leftarrow> reverseRun array lo r;
          Some (a, r - lo) }
        else do {
          r \<leftarrow> ascRunEnd compare array hi (runHi + 1);
          Some (array, r - lo) } })"

section \<open>Binary insertion\<close>

partial_function (option) insertPos ::
  "('a \<Rightarrow> 'a \<Rightarrow> 'n::{linorder,zero}) \<Rightarrow> 'a list \<Rightarrow> 'a \<Rightarrow> int \<Rightarrow> int \<Rightarrow> int option" where
  "insertPos compare array pivot left right =
     (if left < right then
        let mid = js_ushr (left + right) 1 in
        do { x \<leftarrow> arr_get array mid;
             if compare pivot x < 0 then insertPos compare array pivot left mid
             else insertPos compare array pivot (mid + 1) right }
      else Some left)"

definition arr_move :: "'a list \<Rightarrow> int \<Rightarrow> int \<Rightarrow> 'a list option" where
  "arr_move array d s = do { v \<leftarrow> arr_get array s; arr_set array d v }"

function shiftLoop :: "'a list \<Rightarrow> int \<Rightarrow> int \<Rightarrow> 'a list option" where
  "shiftLoop array left n =
     (if n > 0 then do { a \<leftarrow> arr_move array (left + n) (left + n - 1); shiftLoop a left (n - 1) }
      else Some array)"
  by pat_completeness auto
termination by (relation "measure (\<lambda>(a, left, n). nat n)") auto

declare shiftLoop.simps [simp del]

text \<open>The \<open>switch\<close> with its fall-through cases.\<close>

definition shiftUp :: "'a list \<Rightarrow> int \<Rightarrow> int \<Rightarrow> 'a list option" where
  "shiftUp array left n =
     (if n = 3 then
        do { a \<leftarrow> arr_move array (left + 3) (left + 2); b \<leftarrow> arr_move a (left + 2) (left + 1);
             arr_move b (left + 1) left }
      else if n = 2 then
        do { b \<leftarrow> arr_move array (left + 2) (left + 1); arr_move b (left + 1) left }
      else if n = 1 then arr_move array (left + 1) left
      else shiftLoop array left n)"

definition insertPivot ::
  "'a list \<Rightarrow> int \<Rightarrow> int \<Rightarrow> ('a \<Rightarrow> 'a \<Rightarrow> 'n::{linorder,zero}) \<Rightarrow> 'a list option" where
  "insertPivot array lo start compare =
     do { pivot \<leftarrow> arr_get array start;
          left \<leftarrow> insertPos compare array pivot lo start;
          a \<leftarrow> shiftUp array left (start - left);
          arr_set a left pivot }"

function insertionLoop ::
  "'a list \<Rightarrow> int \<Rightarrow> int \<Rightarrow> int \<Rightarrow> ('a \<Rightarrow> 'a \<Rightarrow> 'n::{linorder,zero}) \<Rightarrow> 'a list option" where
  "insertionLoop array lo hi start compare =
     (if start < hi then
        do { a \<leftarrow> insertPivot array lo start compare; insertionLoop a lo hi (start + 1) compare }
      else Some array)"
  by pat_completeness auto
termination by (relation "measure (\<lambda>(a, lo, hi, start, c). nat (hi - start))") auto

declare insertionLoop.simps [simp del]

definition binaryInsertionSort ::
  "'a list \<Rightarrow> int \<Rightarrow> int \<Rightarrow> int \<Rightarrow> ('a \<Rightarrow> 'a \<Rightarrow> 'n::{linorder,zero}) \<Rightarrow> 'a list option" where
  "binaryInsertionSort array lo hi start compare =
     insertionLoop array lo hi (if start = lo then start + 1 else start) compare"

section \<open>Galloping\<close>

text \<open>
  The four gallop loops have the same body around different tests, and so have the two binary
  searches; \<open>probe\<close> is the test at an offset, with its array read.
\<close>

partial_function (option) gallopLoop ::
  "(int \<Rightarrow> bool option) \<Rightarrow> int \<Rightarrow> int \<Rightarrow> int \<Rightarrow> (int \<times> int) option" where
  "gallopLoop probe maxOffset lastOffset offset =
     (if offset < maxOffset then
        do { b \<leftarrow> probe offset;
             if b then
               let next = js_shl offset 1 + 1 in
               gallopLoop probe maxOffset offset (if next \<le> 0 then maxOffset else next)
             else Some (lastOffset, offset) }
      else Some (lastOffset, offset))"

partial_function (option) gallopSearch :: "(int \<Rightarrow> bool option) \<Rightarrow> int \<Rightarrow> int \<Rightarrow> int option" where
  "gallopSearch goRight lastOffset offset =
     (if lastOffset < offset then
        let m = lastOffset + js_ushr (offset - lastOffset) 1 in
        do { b \<leftarrow> goRight m;
             if b then gallopSearch goRight (m + 1) offset else gallopSearch goRight lastOffset m }
      else Some offset)"

definition gallopForward :: "(int \<Rightarrow> bool option) \<Rightarrow> int \<Rightarrow> int \<Rightarrow> (int \<times> int) option" where
  "gallopForward test len hint =
     (let maxOffset = len - hint in
      do { (lastOffset, offset) \<leftarrow> gallopLoop (\<lambda>offset. test (hint + offset)) maxOffset 0 1;
           let offset = (if offset > maxOffset then maxOffset else offset);
           Some (lastOffset + hint, offset + hint) })"

definition gallopBackward :: "(int \<Rightarrow> bool option) \<Rightarrow> int \<Rightarrow> (int \<times> int) option" where
  "gallopBackward test hint =
     (let maxOffset = hint + 1 in
      do { (lastOffset, offset) \<leftarrow> gallopLoop (\<lambda>offset. test (hint - offset)) maxOffset 0 1;
           let offset = (if offset > maxOffset then maxOffset else offset);
           Some (hint - offset, hint - lastOffset) })"

definition gallopLeft ::
  "'a \<Rightarrow> 'a list \<Rightarrow> int \<Rightarrow> int \<Rightarrow> int \<Rightarrow> ('a \<Rightarrow> 'a \<Rightarrow> 'n::{linorder,zero}) \<Rightarrow> int option" where
  "gallopLeft value array start len hint compare =
     do { x \<leftarrow> arr_get array (start + hint);
          (lastOffset, offset) \<leftarrow>
            (if compare value x > 0
             then gallopForward (\<lambda>i. map_option (\<lambda>x. compare value x > 0) (arr_get array (start + i))) len hint
             else gallopBackward (\<lambda>i. map_option (\<lambda>x. compare value x \<le> 0) (arr_get array (start + i))) hint);
          gallopSearch (\<lambda>m. map_option (\<lambda>x. compare value x > 0) (arr_get array (start + m)))
            (lastOffset + 1) offset }"

definition gallopRight ::
  "'a \<Rightarrow> 'a list \<Rightarrow> int \<Rightarrow> int \<Rightarrow> int \<Rightarrow> ('a \<Rightarrow> 'a \<Rightarrow> 'n::{linorder,zero}) \<Rightarrow> int option" where
  "gallopRight value array start len hint compare =
     do { x \<leftarrow> arr_get array (start + hint);
          (lastOffset, offset) \<leftarrow>
            (if compare value x < 0
             then gallopBackward (\<lambda>i. map_option (\<lambda>x. compare value x < 0) (arr_get array (start + i))) hint
             else gallopForward (\<lambda>i. map_option (\<lambda>x. compare value x \<ge> 0) (arr_get array (start + i))) len hint);
          gallopSearch (\<lambda>m. map_option (\<lambda>x. \<not> compare value x < 0) (arr_get array (start + m)))
            (lastOffset + 1) offset }"

section \<open>Merging\<close>

text \<open>
  The variables of the constructor \<open>TimSort\<close>, shared by its inner functions.
\<close>

record 'a timsort =
  ts_array :: "'a list"
  ts_tmp :: "'a list"
  ts_minGallop :: int
  ts_runStart :: "int list"
  ts_runLength :: "int list"
  ts_stackSize :: int

text \<open>The local variables of \<open>mergeLow\<close> and \<open>mergeHigh\<close>.\<close>

record 'a mergevars =
  m_array :: "'a list"
  m_tmp :: "'a list"
  m_cursor1 :: int
  m_cursor2 :: int
  m_dest :: int
  m_length1 :: int
  m_length2 :: int
  m_count1 :: int
  m_count2 :: int
  m_minGallop :: int

subsection \<open>mergeLow\<close>

text \<open>
  The first inner loop, one element at a time. The flag of the result is the variable
  \<open>exit\<close> of the code: \<open>True\<close> when the loop was left by its \<open>break\<close>.
\<close>

definition lowStep ::
  "('a \<Rightarrow> 'a \<Rightarrow> 'n::{linorder,zero}) \<Rightarrow> 'a mergevars \<Rightarrow> (bool \<times> 'a mergevars) option" where
  "lowStep compare m =
     do { x \<leftarrow> arr_get (m_array m) (m_cursor2 m);
          y \<leftarrow> arr_get (m_tmp m) (m_cursor1 m);
          if compare x y < 0 then do {
            a \<leftarrow> arr_set (m_array m) (m_dest m) x;
            let m = m\<lparr>m_array := a, m_dest := m_dest m + 1, m_cursor2 := m_cursor2 m + 1,
                      m_count2 := m_count2 m + 1, m_count1 := 0, m_length2 := m_length2 m - 1\<rparr> in
            Some (m_length2 m = 0, m) }
          else do {
            a \<leftarrow> arr_set (m_array m) (m_dest m) y;
            let m = m\<lparr>m_array := a, m_dest := m_dest m + 1, m_cursor1 := m_cursor1 m + 1,
                      m_count1 := m_count1 m + 1, m_count2 := 0, m_length1 := m_length1 m - 1\<rparr> in
            Some (m_length1 m = 1, m) } }"

partial_function (option) lowLinear ::
  "('a \<Rightarrow> 'a \<Rightarrow> 'n::{linorder,zero}) \<Rightarrow> 'a mergevars \<Rightarrow> (bool \<times> 'a mergevars) option" where
  "lowLinear compare m =
     do { (e, m) \<leftarrow> lowStep compare m;
          if e then Some (True, m)
          else if js_or (m_count1 m) (m_count2 m) < m_minGallop m then lowLinear compare m
          else Some (False, m) }"

text \<open>
  The second inner loop, which moves whole blocks: \<open>lowBlock1\<close> and \<open>lowBlock2\<close> are the
  two conditional block copies, \<open>lowOne1\<close> and \<open>lowOne2\<close> the single moves between them.
\<close>

definition lowBlock1 ::
  "('a \<Rightarrow> 'a \<Rightarrow> 'n::{linorder,zero}) \<Rightarrow> 'a mergevars \<Rightarrow> (bool \<times> 'a mergevars) option" where
  "lowBlock1 compare m =
     do { x \<leftarrow> arr_get (m_array m) (m_cursor2 m);
          c \<leftarrow> gallopRight x (m_tmp m) (m_cursor1 m) (m_length1 m) 0 compare;
          let m = m\<lparr>m_count1 := c\<rparr> in
          if c \<noteq> 0 then do {
            a \<leftarrow> copy_from (m_tmp m) (m_cursor1 m) (m_array m) (m_dest m) (nat c);
            let m = m\<lparr>m_array := a, m_dest := m_dest m + c, m_cursor1 := m_cursor1 m + c, m_length1 := m_length1 m - c\<rparr> in
            Some (m_length1 m \<le> 1, m) }
          else Some (False, m) }"

definition lowOne2 :: "'a mergevars \<Rightarrow> (bool \<times> 'a mergevars) option" where
  "lowOne2 m =
     do { x \<leftarrow> arr_get (m_array m) (m_cursor2 m);
          a \<leftarrow> arr_set (m_array m) (m_dest m) x;
          let m = m\<lparr>m_array := a, m_dest := m_dest m + 1, m_cursor2 := m_cursor2 m + 1, m_length2 := m_length2 m - 1\<rparr> in
          Some (m_length2 m = 0, m) }"

definition lowBlock2 ::
  "('a \<Rightarrow> 'a \<Rightarrow> 'n::{linorder,zero}) \<Rightarrow> 'a mergevars \<Rightarrow> (bool \<times> 'a mergevars) option" where
  "lowBlock2 compare m =
     do { y \<leftarrow> arr_get (m_tmp m) (m_cursor1 m);
          c \<leftarrow> gallopLeft y (m_array m) (m_cursor2 m) (m_length2 m) 0 compare;
          let m = m\<lparr>m_count2 := c\<rparr> in
          if c \<noteq> 0 then do {
            a \<leftarrow> copy_up (m_array m) (m_dest m) (m_cursor2 m) (nat c);
            let m = m\<lparr>m_array := a, m_dest := m_dest m + c, m_cursor2 := m_cursor2 m + c, m_length2 := m_length2 m - c\<rparr> in
            Some (m_length2 m = 0, m) }
          else Some (False, m) }"

definition lowOne1 :: "'a mergevars \<Rightarrow> (bool \<times> 'a mergevars) option" where
  "lowOne1 m =
     do { y \<leftarrow> arr_get (m_tmp m) (m_cursor1 m);
          a \<leftarrow> arr_set (m_array m) (m_dest m) y;
          let m = m\<lparr>m_array := a, m_dest := m_dest m + 1, m_cursor1 := m_cursor1 m + 1, m_length1 := m_length1 m - 1\<rparr> in
          Some (m_length1 m = 1, m) }"

text \<open>Run a step unless the loop has been left.\<close>

definition unless_exit ::
  "(bool \<times> 'a mergevars) option \<Rightarrow> ('a mergevars \<Rightarrow> (bool \<times> 'a mergevars) option)
   \<Rightarrow> (bool \<times> 'a mergevars) option" where
  "unless_exit r f = do { (e, m) \<leftarrow> r; if e then Some (True, m) else f m }"

definition lowGallopBody ::
  "('a \<Rightarrow> 'a \<Rightarrow> 'n::{linorder,zero}) \<Rightarrow> 'a mergevars \<Rightarrow> (bool \<times> 'a mergevars) option" where
  "lowGallopBody compare m =
     unless_exit (unless_exit (unless_exit (unless_exit
       (lowBlock1 compare m) lowOne2) (lowBlock2 compare)) lowOne1)
       (\<lambda>m. Some (False, m\<lparr>m_minGallop := m_minGallop m - 1\<rparr>))"

partial_function (option) lowGallop ::
  "('a \<Rightarrow> 'a \<Rightarrow> 'n::{linorder,zero}) \<Rightarrow> 'a mergevars \<Rightarrow> (bool \<times> 'a mergevars) option" where
  "lowGallop compare m =
     do { (e, m) \<leftarrow> lowGallopBody compare m;
          if e then Some (True, m)
          else if m_count1 m \<ge> DEFAULT_MIN_GALLOPING \<or> m_count2 m \<ge> DEFAULT_MIN_GALLOPING
          then lowGallop compare m
          else Some (False, m) }"

definition penalise :: "'a mergevars \<Rightarrow> 'a mergevars" where
  "penalise m = m\<lparr>m_minGallop := (if m_minGallop m < 0 then 0 else m_minGallop m) + 2\<rparr>"

partial_function (option) lowMain ::
  "('a \<Rightarrow> 'a \<Rightarrow> 'n::{linorder,zero}) \<Rightarrow> 'a mergevars \<Rightarrow> 'a mergevars option" where
  "lowMain compare m =
     do { (e, m) \<leftarrow> lowLinear compare (m\<lparr>m_count1 := 0, m_count2 := 0\<rparr>);
          if e then Some m
          else do {
            (e, m) \<leftarrow> lowGallop compare m;
            if e then Some m else lowMain compare (penalise m) } }"

text \<open>What follows the main loop: the rest of the run that is not empty.\<close>

definition lowTail :: "'a mergevars \<Rightarrow> 'a list option" where
  "lowTail m =
     (if m_length1 m = 1 then do {
        a \<leftarrow> copy_up (m_array m) (m_dest m) (m_cursor2 m) (nat (m_length2 m));
        y \<leftarrow> arr_get (m_tmp m) (m_cursor1 m);
        arr_set a (m_dest m + m_length2 m) y }
      else if m_length1 m = 0 then None
      else copy_from (m_tmp m) (m_cursor1 m) (m_array m) (m_dest m) (nat (m_length1 m)))"

definition mergeLow ::
  "('a \<Rightarrow> 'a \<Rightarrow> 'n::{linorder,zero}) \<Rightarrow> 'a timsort \<Rightarrow> int \<Rightarrow> int \<Rightarrow> int \<Rightarrow> int \<Rightarrow> 'a timsort option" where
  "mergeLow compare ts start1 len1 start2 len2 =
     do { t \<leftarrow> copy_from (ts_array ts) start1 (ts_tmp ts) 0 (nat len1);
          x \<leftarrow> arr_get (ts_array ts) start2;
          a \<leftarrow> arr_set (ts_array ts) start1 x;
          let m = \<lparr>m_array = a, m_tmp = t, m_cursor1 = 0, m_cursor2 = start2 + 1, m_dest = start1 + 1,
                   m_length1 = len1, m_length2 = len2 - 1, m_count1 = 0, m_count2 = 0,
                   m_minGallop = ts_minGallop ts\<rparr> in
          if m_length2 m = 0 then do {
            a \<leftarrow> copy_from t (m_cursor1 m) a (m_dest m) (nat (m_length1 m));
            Some (ts\<lparr>ts_array := a, ts_tmp := t\<rparr>) }
          else if m_length1 m = 1 then do {
            a \<leftarrow> copy_up a (m_dest m) (m_cursor2 m) (nat (m_length2 m));
            y \<leftarrow> arr_get t (m_cursor1 m);
            a \<leftarrow> arr_set a (m_dest m + m_length2 m) y;
            Some (ts\<lparr>ts_array := a, ts_tmp := t\<rparr>) }
          else do {
            m \<leftarrow> lowMain compare m;
            a \<leftarrow> lowTail m;
            Some (ts\<lparr>ts_array := a, ts_tmp := m_tmp m,
                     ts_minGallop := (if m_minGallop m < 1 then 1 else m_minGallop m)\<rparr>) } }"

subsection \<open>mergeHigh\<close>

definition highStep ::
  "('a \<Rightarrow> 'a \<Rightarrow> 'n::{linorder,zero}) \<Rightarrow> 'a mergevars \<Rightarrow> (bool \<times> 'a mergevars) option" where
  "highStep compare m =
     do { y \<leftarrow> arr_get (m_tmp m) (m_cursor2 m);
          x \<leftarrow> arr_get (m_array m) (m_cursor1 m);
          if compare y x < 0 then do {
            a \<leftarrow> arr_set (m_array m) (m_dest m) x;
            let m = m\<lparr>m_array := a, m_dest := m_dest m - 1, m_cursor1 := m_cursor1 m - 1,
                      m_count1 := m_count1 m + 1, m_count2 := 0, m_length1 := m_length1 m - 1\<rparr> in
            Some (m_length1 m = 0, m) }
          else do {
            a \<leftarrow> arr_set (m_array m) (m_dest m) y;
            let m = m\<lparr>m_array := a, m_dest := m_dest m - 1, m_cursor2 := m_cursor2 m - 1,
                      m_count2 := m_count2 m + 1, m_count1 := 0, m_length2 := m_length2 m - 1\<rparr> in
            Some (m_length2 m = 1, m) } }"

partial_function (option) highLinear ::
  "('a \<Rightarrow> 'a \<Rightarrow> 'n::{linorder,zero}) \<Rightarrow> 'a mergevars \<Rightarrow> (bool \<times> 'a mergevars) option" where
  "highLinear compare m =
     do { (e, m) \<leftarrow> highStep compare m;
          if e then Some (True, m)
          else if js_or (m_count1 m) (m_count2 m) < m_minGallop m then highLinear compare m
          else Some (False, m) }"

definition highBlock1 ::
  "('a \<Rightarrow> 'a \<Rightarrow> 'n::{linorder,zero}) \<Rightarrow> int \<Rightarrow> 'a mergevars \<Rightarrow> (bool \<times> 'a mergevars) option" where
  "highBlock1 compare start1 m =
     do { y \<leftarrow> arr_get (m_tmp m) (m_cursor2 m);
          g \<leftarrow> gallopRight y (m_array m) start1 (m_length1 m) (m_length1 m - 1) compare;
          let c = m_length1 m - g; m = m\<lparr>m_count1 := c\<rparr> in
          if c \<noteq> 0 then
            let m = m\<lparr>m_dest := m_dest m - c, m_cursor1 := m_cursor1 m - c, m_length1 := m_length1 m - c\<rparr> in
            do { a \<leftarrow> copy_down (m_array m) (m_dest m + 1) (m_cursor1 m + 1) (nat c);
                 Some (m_length1 m = 0, m\<lparr>m_array := a\<rparr>) }
          else Some (False, m) }"

definition highOne2 :: "'a mergevars \<Rightarrow> (bool \<times> 'a mergevars) option" where
  "highOne2 m =
     do { y \<leftarrow> arr_get (m_tmp m) (m_cursor2 m);
          a \<leftarrow> arr_set (m_array m) (m_dest m) y;
          let m = m\<lparr>m_array := a, m_dest := m_dest m - 1, m_cursor2 := m_cursor2 m - 1, m_length2 := m_length2 m - 1\<rparr> in
          Some (m_length2 m = 1, m) }"

definition highBlock2 ::
  "('a \<Rightarrow> 'a \<Rightarrow> 'n::{linorder,zero}) \<Rightarrow> 'a mergevars \<Rightarrow> (bool \<times> 'a mergevars) option" where
  "highBlock2 compare m =
     do { x \<leftarrow> arr_get (m_array m) (m_cursor1 m);
          g \<leftarrow> gallopLeft x (m_tmp m) 0 (m_length2 m) (m_length2 m - 1) compare;
          let c = m_length2 m - g; m = m\<lparr>m_count2 := c\<rparr> in
          if c \<noteq> 0 then
            let m = m\<lparr>m_dest := m_dest m - c, m_cursor2 := m_cursor2 m - c, m_length2 := m_length2 m - c\<rparr> in
            do { a \<leftarrow> copy_from (m_tmp m) (m_cursor2 m + 1) (m_array m) (m_dest m + 1) (nat c);
                 Some (m_length2 m \<le> 1, m\<lparr>m_array := a\<rparr>) }
          else Some (False, m) }"

definition highOne1 :: "'a mergevars \<Rightarrow> (bool \<times> 'a mergevars) option" where
  "highOne1 m =
     do { x \<leftarrow> arr_get (m_array m) (m_cursor1 m);
          a \<leftarrow> arr_set (m_array m) (m_dest m) x;
          let m = m\<lparr>m_array := a, m_dest := m_dest m - 1, m_cursor1 := m_cursor1 m - 1, m_length1 := m_length1 m - 1\<rparr> in
          Some (m_length1 m = 0, m) }"

definition highGallopBody ::
  "('a \<Rightarrow> 'a \<Rightarrow> 'n::{linorder,zero}) \<Rightarrow> int \<Rightarrow> 'a mergevars \<Rightarrow> (bool \<times> 'a mergevars) option" where
  "highGallopBody compare start1 m =
     unless_exit (unless_exit (unless_exit (unless_exit
       (highBlock1 compare start1 m) highOne2) (highBlock2 compare)) highOne1)
       (\<lambda>m. Some (False, m\<lparr>m_minGallop := m_minGallop m - 1\<rparr>))"

partial_function (option) highGallop ::
  "('a \<Rightarrow> 'a \<Rightarrow> 'n::{linorder,zero}) \<Rightarrow> int \<Rightarrow> 'a mergevars \<Rightarrow> (bool \<times> 'a mergevars) option" where
  "highGallop compare start1 m =
     do { (e, m) \<leftarrow> highGallopBody compare start1 m;
          if e then Some (True, m)
          else if m_count1 m \<ge> DEFAULT_MIN_GALLOPING \<or> m_count2 m \<ge> DEFAULT_MIN_GALLOPING
          then highGallop compare start1 m
          else Some (False, m) }"

partial_function (option) highMain ::
  "('a \<Rightarrow> 'a \<Rightarrow> 'n::{linorder,zero}) \<Rightarrow> int \<Rightarrow> 'a mergevars \<Rightarrow> 'a mergevars option" where
  "highMain compare start1 m =
     do { (e, m) \<leftarrow> highLinear compare (m\<lparr>m_count1 := 0, m_count2 := 0\<rparr>);
          if e then Some m
          else do {
            (e, m) \<leftarrow> highGallop compare start1 m;
            if e then Some m else highMain compare start1 (penalise m) } }"

definition highTail :: "'a mergevars \<Rightarrow> 'a list option" where
  "highTail m =
     (if m_length2 m = 1 then
        let d = m_dest m - m_length1 m; c = m_cursor1 m - m_length1 m in
        do { a \<leftarrow> copy_down (m_array m) (d + 1) (c + 1) (nat (m_length1 m));
             y \<leftarrow> arr_get (m_tmp m) (m_cursor2 m);
             arr_set a d y }
      else if m_length2 m = 0 then None
      else copy_from (m_tmp m) 0 (m_array m) (m_dest m - (m_length2 m - 1)) (nat (m_length2 m)))"

definition mergeHigh ::
  "('a \<Rightarrow> 'a \<Rightarrow> 'n::{linorder,zero}) \<Rightarrow> 'a timsort \<Rightarrow> int \<Rightarrow> int \<Rightarrow> int \<Rightarrow> int \<Rightarrow> 'a timsort option" where
  "mergeHigh compare ts start1 len1 start2 len2 =
     do { t \<leftarrow> copy_from (ts_array ts) start2 (ts_tmp ts) 0 (nat len2);
          x \<leftarrow> arr_get (ts_array ts) (start1 + len1 - 1);
          a \<leftarrow> arr_set (ts_array ts) (start2 + len2 - 1) x;
          let m = \<lparr>m_array = a, m_tmp = t, m_cursor1 = start1 + len1 - 2, m_cursor2 = len2 - 1,
                   m_dest = start2 + len2 - 2, m_length1 = len1 - 1, m_length2 = len2,
                   m_count1 = 0, m_count2 = 0, m_minGallop = ts_minGallop ts\<rparr> in
          if m_length1 m = 0 then do {
            a \<leftarrow> copy_from t 0 a (m_dest m - (m_length2 m - 1)) (nat (m_length2 m));
            Some (ts\<lparr>ts_array := a, ts_tmp := t\<rparr>) }
          else if m_length2 m = 1 then do {
            a \<leftarrow> highTail m;
            Some (ts\<lparr>ts_array := a, ts_tmp := t\<rparr>) }
          else do {
            m \<leftarrow> highMain compare start1 m;
            a \<leftarrow> highTail m;
            Some (ts\<lparr>ts_array := a, ts_tmp := m_tmp m,
                     ts_minGallop := (if m_minGallop m < 1 then 1 else m_minGallop m)\<rparr>) } }"

section \<open>The stack of runs\<close>

definition newTimSort :: "'a list \<Rightarrow> 'a timsort" where
  "newTimSort a = \<lparr>ts_array = a, ts_tmp = [], ts_minGallop = DEFAULT_MIN_GALLOPING,
                   ts_runStart = [], ts_runLength = [], ts_stackSize = 0\<rparr>"

definition pushRun :: "'a timsort \<Rightarrow> int \<Rightarrow> int \<Rightarrow> 'a timsort option" where
  "pushRun ts start len =
     do { s \<leftarrow> arr_set (ts_runStart ts) (ts_stackSize ts) start;
          l \<leftarrow> arr_set (ts_runLength ts) (ts_stackSize ts) len;
          Some (ts\<lparr>ts_runStart := s, ts_runLength := l, ts_stackSize := ts_stackSize ts + 1\<rparr>) }"

text \<open>The part of \<open>mergeAt\<close> that updates the stack: run \<open>i\<close> takes over run \<open>i + 1\<close>.\<close>

definition mergeAtStack :: "'a timsort \<Rightarrow> int \<Rightarrow> 'a timsort option" where
  "mergeAtStack ts i =
     do { length1 \<leftarrow> arr_get (ts_runLength ts) i;
          length2 \<leftarrow> arr_get (ts_runLength ts) (i + 1);
          l \<leftarrow> arr_set (ts_runLength ts) i (length1 + length2);
          (s, l) \<leftarrow>
            (if i = ts_stackSize ts - 3 then
               do { s' \<leftarrow> arr_move (ts_runStart ts) (i + 1) (i + 2);
                    l' \<leftarrow> arr_move l (i + 1) (i + 2);
                    Some (s', l') }
             else Some (ts_runStart ts, l));
          Some (ts\<lparr>ts_runStart := s, ts_runLength := l, ts_stackSize := ts_stackSize ts - 1\<rparr>) }"

definition mergeAt ::
  "('a \<Rightarrow> 'a \<Rightarrow> 'n::{linorder,zero}) \<Rightarrow> 'a timsort \<Rightarrow> int \<Rightarrow> 'a timsort option" where
  "mergeAt compare ts i =
     do { start1 \<leftarrow> arr_get (ts_runStart ts) i;
          length1 \<leftarrow> arr_get (ts_runLength ts) i;
          start2 \<leftarrow> arr_get (ts_runStart ts) (i + 1);
          length2 \<leftarrow> arr_get (ts_runLength ts) (i + 1);
          ts \<leftarrow> mergeAtStack ts i;
          x \<leftarrow> arr_get (ts_array ts) start2;
          k \<leftarrow> gallopRight x (ts_array ts) start1 length1 0 compare;
          let start1 = start1 + k; length1 = length1 - k in
          if length1 = 0 then Some ts
          else do {
            y \<leftarrow> arr_get (ts_array ts) (start1 + length1 - 1);
            length2 \<leftarrow> gallopLeft y (ts_array ts) start2 length2 (length2 - 1) compare;
            if length2 = 0 then Some ts
            else if length1 \<le> length2 then mergeLow compare ts start1 length1 start2 length2
            else mergeHigh compare ts start1 length1 start2 length2 } }"

text \<open>
  The tests of the two collapsing loops over the lengths of the runs: the index to merge at,
  or \<open>None\<close> inside \<open>Some\<close> when the loop of \<open>mergeRuns\<close> stops.
\<close>

definition mergeRunsIndex :: "int list \<Rightarrow> int \<Rightarrow> int option option" where
  "mergeRunsIndex len stackSize =
     (let n = stackSize - 2 in
      do { c1 \<leftarrow> (if n \<ge> 1 then
                  do { a \<leftarrow> arr_get len (n - 1); b \<leftarrow> arr_get len n; c \<leftarrow> arr_get len (n + 1);
                       Some (a \<le> b + c) }
                else Some False);
           c2 \<leftarrow> (if \<not> c1 \<and> n \<ge> 2 then
                  do { a \<leftarrow> arr_get len (n - 2); b \<leftarrow> arr_get len n; c \<leftarrow> arr_get len (n - 1);
                       Some (a \<le> b + c) }
                else Some False);
           if c1 \<or> c2 then
             do { a \<leftarrow> arr_get len (n - 1); c \<leftarrow> arr_get len (n + 1);
                  Some (Some (if a < c then n - 1 else n)) }
           else
             do { b \<leftarrow> arr_get len n; c \<leftarrow> arr_get len (n + 1);
                  Some (if b > c then None else Some n) } })"

partial_function (option) mergeRuns ::
  "('a \<Rightarrow> 'a \<Rightarrow> 'n::{linorder,zero}) \<Rightarrow> 'a timsort \<Rightarrow> 'a timsort option" where
  "mergeRuns compare ts =
     (if ts_stackSize ts > 1 then
        do { r \<leftarrow> mergeRunsIndex (ts_runLength ts) (ts_stackSize ts);
             case r of None \<Rightarrow> Some ts
             | Some n \<Rightarrow> do { ts \<leftarrow> mergeAt compare ts n; mergeRuns compare ts } }
      else Some ts)"

definition forceMergeIndex :: "int list \<Rightarrow> int \<Rightarrow> int option" where
  "forceMergeIndex len stackSize =
     (let n = stackSize - 2 in
      if n > 0 then
        do { a \<leftarrow> arr_get len (n - 1); c \<leftarrow> arr_get len (n + 1);
             Some (if a < c then n - 1 else n) }
      else Some n)"

partial_function (option) forceMergeRuns ::
  "('a \<Rightarrow> 'a \<Rightarrow> 'n::{linorder,zero}) \<Rightarrow> 'a timsort \<Rightarrow> 'a timsort option" where
  "forceMergeRuns compare ts =
     (if ts_stackSize ts > 1 then
        do { n \<leftarrow> forceMergeIndex (ts_runLength ts) (ts_stackSize ts);
             ts \<leftarrow> mergeAt compare ts n;
             forceMergeRuns compare ts }
      else Some ts)"

section \<open>sort\<close>

partial_function (option) sortLoop ::
  "('a \<Rightarrow> 'a \<Rightarrow> 'n::{linorder,zero}) \<Rightarrow> int \<Rightarrow> int \<Rightarrow> 'a timsort \<Rightarrow> int \<Rightarrow> int \<Rightarrow> 'a timsort option" where
  "sortLoop compare minRun hi ts lo remaining =
     do { (a, runLength) \<leftarrow> makeAscendingRun (ts_array ts) lo hi compare;
          (a, runLength) \<leftarrow>
            (if runLength < minRun then
               let force = (if remaining > minRun then minRun else remaining) in
               do { b \<leftarrow> binaryInsertionSort a lo (lo + force) (lo + runLength) compare;
                    Some (b, force) }
             else Some (a, runLength));
          ts \<leftarrow> pushRun (ts\<lparr>ts_array := a\<rparr>) lo runLength;
          ts \<leftarrow> mergeRuns compare ts;
          let remaining = remaining - runLength; lo = lo + runLength in
          if remaining \<noteq> 0 then sortLoop compare minRun hi ts lo remaining
          else Some ts }"

text \<open>\<open>None\<close> for an argument the caller leaves out; a given 0 counts as left out too.\<close>

definition sort_array ::
  "'a list \<Rightarrow> ('a \<Rightarrow> 'a \<Rightarrow> 'n::{linorder,zero}) \<Rightarrow> int option \<Rightarrow> int option \<Rightarrow> 'a list option" where
  "sort_array array compare lo_arg hi_arg =
     (let lo = (case lo_arg of None \<Rightarrow> 0 | Some l \<Rightarrow> l);
          hi = (case hi_arg of None \<Rightarrow> int (length array)
                | Some h \<Rightarrow> if h = 0 then int (length array) else h);
          remaining = hi - lo in
      if remaining < 2 then Some array
      else if remaining < DEFAULT_MIN_MERGE then do {
        (a, runLength) \<leftarrow> makeAscendingRun array lo hi compare;
        binaryInsertionSort a lo hi (lo + runLength) compare }
      else do {
        ts \<leftarrow> sortLoop compare (minRunLength remaining) hi (newTimSort array) lo remaining;
        ts \<leftarrow> forceMergeRuns compare ts;
        Some (ts_array ts) })"

declare insertPos.simps [code] gallopLoop.simps [code] gallopSearch.simps [code]
  lowLinear.simps [code] lowGallop.simps [code] lowMain.simps [code]
  highLinear.simps [code] highGallop.simps [code] highMain.simps [code]
  mergeRuns.simps [code] forceMergeRuns.simps [code] sortLoop.simps [code]

end
