(* ===== verification/Stable_Order.thy ===== *)
theory Stable_Order
  imports Js_Prelude
begin

text \<open>
  What a sorting routine promises: the contract of a comparator (a \<open>locale\<close>, interpreted on
  the program's own comparators), order and stability of a list, and the stable merge of two
  runs, which the array code of the merge is proved against.
\<close>

definition cmp_sorted :: "('a \<Rightarrow> 'a \<Rightarrow> 'n::{linorder,zero}) \<Rightarrow> 'a list \<Rightarrow> bool" where
  "cmp_sorted cmp xs \<longleftrightarrow> sorted_wrt (\<lambda>a b. cmp a b \<le> 0) xs"

text \<open>Two lists agree, in order, on the elements equivalent to any given one.\<close>

definition stable_eq :: "('a \<Rightarrow> 'a \<Rightarrow> 'n::{linorder,zero}) \<Rightarrow> 'a list \<Rightarrow> 'a list \<Rightarrow> bool" where
  "stable_eq cmp xs ys \<longleftrightarrow>
     (\<forall>x. filter (\<lambda>y. cmp x y = 0) xs = filter (\<lambda>y. cmp x y = 0) ys)"

fun cmp_merge :: "('a \<Rightarrow> 'a \<Rightarrow> 'n::{linorder,zero}) \<Rightarrow> 'a list \<Rightarrow> 'a list \<Rightarrow> 'a list" where
  "cmp_merge cmp [] ys = ys"
| "cmp_merge cmp xs [] = xs"
| "cmp_merge cmp (x # xs) (y # ys) =
     (if cmp y x < 0 then y # cmp_merge cmp (x # xs) ys else x # cmp_merge cmp xs (y # ys))"

lemma merge_induct [case_names Nil1 Nil2 Cons]:
  assumes "\<And>ys. P [] ys" "\<And>x xs. P (x # xs) []"
    and step: "\<And>x xs y ys. P (x # xs) ys \<Longrightarrow> P xs (y # ys) \<Longrightarrow> P (x # xs) (y # ys)"
  shows "P xs ys"
proof (induction xs arbitrary: ys)
  case Nil
  show ?case by (rule assms)
next
  case (Cons x xs)
  note IH = Cons.IH
  show ?case by (induction ys) (auto intro: assms IH)
qed

lemma cmp_merge_Nil2 [simp]: "cmp_merge cmp xs [] = xs"
  by (cases xs) auto

lemma length_cmp_merge [simp]: "length (cmp_merge cmp xs ys) = length xs + length ys"
  by (induction cmp xs ys rule: cmp_merge.induct) auto

lemma set_cmp_merge [simp]: "set (cmp_merge cmp xs ys) = set xs \<union> set ys"
  by (induction cmp xs ys rule: cmp_merge.induct) auto

text \<open>Where all of one block precedes the other run, the block comes out whole.\<close>

lemma cmp_merge_prefix1:
  "\<forall>x\<in>set us. \<forall>y\<in>set ys. \<not> cmp y x < 0 \<Longrightarrow> cmp_merge cmp (us @ xs) ys = us @ cmp_merge cmp xs ys"
proof (induction us)
  case (Cons u us)
  then show ?case by (cases ys) auto
qed simp

lemma cmp_merge_prefix2:
  "\<forall>x\<in>set xs. \<forall>y\<in>set us. cmp y x < 0 \<Longrightarrow> cmp_merge cmp xs (us @ ys) = us @ cmp_merge cmp xs ys"
proof (induction us)
  case (Cons u us)
  then show ?case by (cases xs) auto
qed simp

lemma cmp_merge_suffix1:
  "\<forall>x\<in>set us. \<forall>y\<in>set ys. cmp y x < 0 \<Longrightarrow> cmp_merge cmp (xs @ us) ys = cmp_merge cmp xs ys @ us"
proof (induction cmp xs ys rule: cmp_merge.induct)
  case (1 cmp ys)
  then have "cmp_merge cmp us (ys @ []) = ys @ cmp_merge cmp us []"
    by (intro cmp_merge_prefix2) blast
  then show ?case by simp
qed auto

lemma cmp_merge_suffix2:
  "\<forall>x\<in>set xs. \<forall>y\<in>set us. \<not> cmp y x < 0 \<Longrightarrow> cmp_merge cmp xs (ys @ us) = cmp_merge cmp xs ys @ us"
proof (induction cmp xs ys rule: cmp_merge.induct)
  case (2 cmp v va)
  then have "cmp_merge cmp ((v # va) @ []) us = (v # va) @ cmp_merge cmp [] us"
    by (intro cmp_merge_prefix1) blast
  then show ?case by simp
qed auto

lemma stable_eq_refl [simp]: "stable_eq cmp xs xs"
  by (simp add: stable_eq_def)

lemma stable_eq_sym: "stable_eq cmp xs ys \<Longrightarrow> stable_eq cmp ys xs"
  by (simp add: stable_eq_def)

lemma stable_eq_trans: "stable_eq cmp xs ys \<Longrightarrow> stable_eq cmp ys zs \<Longrightarrow> stable_eq cmp xs zs"
  by (simp add: stable_eq_def)

lemma stable_eq_append:
  "stable_eq cmp xs xs' \<Longrightarrow> stable_eq cmp ys ys' \<Longrightarrow> stable_eq cmp (xs @ ys) (xs' @ ys')"
  by (simp add: stable_eq_def)

section \<open>The contract of a comparator\<close>

locale comparator =
  fixes cmp :: "'a \<Rightarrow> 'a \<Rightarrow> 'n::{linorder,zero}"
  assumes swap: "cmp a b < 0 \<longleftrightarrow> 0 < cmp b a"
    and trans: "cmp a b \<le> 0 \<Longrightarrow> cmp b c \<le> 0 \<Longrightarrow> cmp a c \<le> 0"
begin

lemma self_0 [simp]: "cmp a a = 0"
  using swap [of a a] by (metis less_asym linorder_neqE)

lemma le_iff: "cmp a b \<le> 0 \<longleftrightarrow> \<not> cmp b a < 0"
  using swap [of b a] by auto

lemma ge_iff: "0 \<le> cmp a b \<longleftrightarrow> cmp b a \<le> 0"
  using swap [of a b] le_iff by auto

lemma zero_iff: "cmp a b = 0 \<longleftrightarrow> cmp a b \<le> 0 \<and> cmp b a \<le> 0"
  using ge_iff [of a b] by auto

lemma less_le_trans: "cmp a b < 0 \<Longrightarrow> cmp b c \<le> 0 \<Longrightarrow> cmp a c < 0"
  by (meson le_iff trans)

lemma le_less_trans: "cmp a b \<le> 0 \<Longrightarrow> cmp b c < 0 \<Longrightarrow> cmp a c < 0"
  by (meson le_iff trans)

lemma less_trans: "cmp a b < 0 \<Longrightarrow> cmp b c < 0 \<Longrightarrow> cmp a c < 0"
  by (meson less_imp_le less_le_trans)

lemma less_not_equiv:
  assumes "cmp a b < 0" "cmp z a = 0"
  shows "cmp z b \<noteq> 0"
proof
  assume "cmp z b = 0"
  then have "cmp b a \<le> 0"
    using assms(2) trans [of b z a] by (simp add: zero_iff)
  then show False using assms(1) by (simp add: le_iff)
qed

lemma stable_eq_mset: "stable_eq cmp xs ys \<Longrightarrow> mset xs = mset ys"
proof (rule multiset_eqI)
  fix x
  assume "stable_eq cmp xs ys"
  then have "count (mset (filter (\<lambda>y. cmp x y = 0) xs)) x = count (mset (filter (\<lambda>y. cmp x y = 0) ys)) x"
    by (simp add: stable_eq_def)
  then show "count (mset xs) x = count (mset ys) x" by simp
qed

lemma stable_eq_set: "stable_eq cmp xs ys \<Longrightarrow> set xs = set ys"
  by (metis stable_eq_mset set_mset_mset)

lemma stable_eq_length: "stable_eq cmp xs ys \<Longrightarrow> length xs = length ys"
  by (metis stable_eq_mset size_mset)

text \<open>Two blocks may change places when all of the second lie strictly below the first.\<close>

lemma stable_eq_swap:
  assumes "\<forall>x\<in>set xs. \<forall>y\<in>set ys. cmp y x < 0"
  shows "stable_eq cmp (xs @ ys) (ys @ xs)"
  unfolding stable_eq_def
proof
  fix z
  have "filter (\<lambda>y. cmp z y = 0) xs = [] \<or> filter (\<lambda>y. cmp z y = 0) ys = []"
    using assms by (metis (mono_tags, lifting) filter_empty_conv less_not_equiv)
  then show "filter (\<lambda>y. cmp z y = 0) (xs @ ys) = filter (\<lambda>y. cmp z y = 0) (ys @ xs)"
    by auto
qed

lemma stable_eq_rev:
  "sorted_wrt (\<lambda>a b. cmp b a < 0) xs \<Longrightarrow> stable_eq cmp xs (rev xs)"
proof (induction xs)
  case (Cons x xs)
  have "stable_eq cmp ([x] @ xs) (xs @ [x])"
    using Cons.prems by (intro stable_eq_swap) auto
  moreover have "stable_eq cmp (xs @ [x]) (rev xs @ [x])"
    using Cons by (intro stable_eq_append) auto
  ultimately show ?case
    by (metis stable_eq_trans append_Cons append_Nil rev.simps(2))
qed simp

lemma cmp_sorted_Cons:
  "cmp_sorted cmp (x # xs) \<longleftrightarrow> (\<forall>y\<in>set xs. cmp x y \<le> 0) \<and> cmp_sorted cmp xs"
  by (simp add: cmp_sorted_def)

lemma cmp_sorted_append:
  "cmp_sorted cmp (xs @ ys) \<longleftrightarrow>
   cmp_sorted cmp xs \<and> cmp_sorted cmp ys \<and> (\<forall>x\<in>set xs. \<forall>y\<in>set ys. cmp x y \<le> 0)"
  by (simp add: cmp_sorted_def sorted_wrt_append)

lemma sorted_cmp_merge: "cmp_sorted cmp xs \<Longrightarrow> cmp_sorted cmp ys \<Longrightarrow> cmp_sorted cmp (cmp_merge cmp xs ys)"
proof (induction xs ys rule: merge_induct)
  case (Cons x xs y ys)
  show ?case
  proof (cases "cmp y x < 0")
    case True
    then have "\<forall>z\<in>set xs. cmp y z \<le> 0"
      using Cons by (auto simp: cmp_sorted_Cons intro: less_imp_le less_le_trans)
    then show ?thesis using True Cons by (auto simp: cmp_sorted_Cons)
  next
    case False
    then have "cmp x y \<le> 0" by (simp add: le_iff)
    moreover from this have "\<forall>z\<in>set ys. cmp x z \<le> 0"
      using Cons by (auto simp: cmp_sorted_Cons intro: trans)
    ultimately show ?thesis using False Cons by (auto simp: cmp_sorted_Cons)
  qed
qed (auto)

lemma stable_cmp_merge: "cmp_sorted cmp xs \<Longrightarrow> stable_eq cmp (xs @ ys) (cmp_merge cmp xs ys)"
proof (induction xs ys rule: merge_induct)
  case (Cons x xs y ys)
  show ?case
  proof (cases "cmp y x < 0")
    case True
    then have "\<forall>z\<in>set (x # xs). \<forall>u\<in>set [y]. cmp u z < 0"
      using Cons by (auto simp: cmp_sorted_Cons intro: less_le_trans)
    then have "stable_eq cmp (((x # xs) @ [y]) @ ys) (([y] @ x # xs) @ ys)"
      by (intro stable_eq_append stable_eq_swap stable_eq_refl)
    moreover have "stable_eq cmp ([y] @ (x # xs) @ ys) ([y] @ cmp_merge cmp (x # xs) ys)"
      using True Cons by (intro stable_eq_append stable_eq_refl) auto
    ultimately show ?thesis
      using True by (auto intro: stable_eq_trans)
  next
    case False
    then have "stable_eq cmp ([x] @ xs @ y # ys) ([x] @ cmp_merge cmp xs (y # ys))"
      using Cons by (intro stable_eq_append stable_eq_refl) (auto simp: cmp_sorted_Cons)
    then show ?thesis using False by simp
  qed
qed (auto)

end

text \<open>
  Comparing by an integer key is a comparator; order and stability then determine the
  result, which is the library's \<open>sort_key\<close>.
\<close>

definition key_cmp :: "('a \<Rightarrow> int) \<Rightarrow> 'a \<Rightarrow> 'a \<Rightarrow> int" where
  "key_cmp f a b = f a - f b"

interpretation keyc: comparator "key_cmp f" for f
  by unfold_locales (auto simp: key_cmp_def)

lemma key_sorted_stable_unique:
  assumes "cmp_sorted (key_cmp f) ys" "stable_eq (key_cmp f) xs ys"
  shows "ys = sort_key f xs"
proof -
  have "sort_key f xs = ys"
  proof (rule properties_for_sort_key)
    show "mset ys = mset xs" using keyc.stable_eq_mset assms(2) by metis
    show "sorted (map f ys)"
      using assms(1) by (simp add: cmp_sorted_def key_cmp_def sorted_map)
    fix k
    assume "k \<in> set ys"
    have "(\<lambda>y. key_cmp f k y = 0) = (\<lambda>x. f k = f x)" by (auto simp: key_cmp_def)
    then show "filter (\<lambda>x. f k = f x) ys = filter (\<lambda>x. f k = f x) xs"
      using assms(2) by (metis stable_eq_def)
  qed
  then show ?thesis by simp
qed

end
