(* ===== verification/Timsort_Gallop.thy ===== *)
theory Timsort_Gallop
  imports Timsort Stable_Order
begin

text \<open>
  The searches of the sorting routine: binary search for an insertion point and galloping.
  Each returns the length of the prefix of a segment on which a test holds, whatever the
  hint; the 32-bit shift that doubles the offset may overflow, and the guard of the code
  then caps it. The bound on the length, \<open>2 ^ 31\<close>, is the range in which the unsigned
  shift halves a sum of two indices exactly.
\<close>

section \<open>The prefix of a segment on which a test holds\<close>

definition cut :: "('a \<Rightarrow> bool) \<Rightarrow> 'a list \<Rightarrow> int" where
  "cut P xs = int (length (takeWhile P xs))"

definition down_closed :: "('a \<Rightarrow> bool) \<Rightarrow> 'a list \<Rightarrow> bool" where
  "down_closed P xs \<longleftrightarrow> sorted_wrt (\<lambda>a b. P b \<longrightarrow> P a) xs"

lemma cut_bounds [simp]: "0 \<le> cut P xs" "cut P xs \<le> int (length xs)"
  by (simp_all add: cut_def length_takeWhile_le)

lemma nth_cut:
  assumes "down_closed P xs" "k < length xs"
  shows "P (xs ! k) \<longleftrightarrow> int k < cut P xs"
proof
  assume "P (xs ! k)"
  then have "\<forall>x\<in>set (take (Suc k) xs). P x"
    using assms by (fastforce simp: down_closed_def sorted_wrt_iff_nth_less in_set_conv_nth less_Suc_eq)
  then have "takeWhile P (take (Suc k) xs @ drop (Suc k) xs)
      = take (Suc k) xs @ takeWhile P (drop (Suc k) xs)"
    by (intro takeWhile_append2) blast
  then have "takeWhile P xs = take (Suc k) xs @ takeWhile P (drop (Suc k) xs)"
    by simp
  then have "length (takeWhile P xs) \<ge> length (take (Suc k) xs)"
    by (metis length_append le_add1)
  then show "int k < cut P xs" using assms by (simp add: cut_def)
next
  assume "int k < cut P xs"
  then show "P (xs ! k)"
    by (metis cut_def nth_mem of_nat_less_iff set_takeWhileD takeWhile_nth)
qed

lemma cut_filter: "down_closed P xs \<Longrightarrow> cut P xs = int (length (filter P xs))"
proof (induction xs)
  case (Cons x xs)
  show ?case
  proof (cases "P x")
    case False
    then have "filter P xs = []" using Cons.prems by (auto simp: down_closed_def filter_empty_conv)
    then show ?thesis using False by (simp add: cut_def)
  qed (use Cons in \<open>auto simp: cut_def down_closed_def\<close>)
qed (simp add: cut_def)

lemma seg_probe:
  assumes "down_closed P (seg xs s n)" "0 \<le> s" "0 \<le> i" "i < n" "s + n \<le> int (length xs)"
  shows "map_option P (arr_get xs (s + i)) = Some (i < cut P (seg xs s n))"
proof -
  have "seg xs s n ! nat i = xs ! nat (s + i)"
    using assms by (simp add: nth_seg nat_add_distrib)
  then show ?thesis
    using nth_cut [of P "seg xs s n" "nat i"] assms by (simp add: arr_get_in length_seg)
qed

text \<open>A cut splits the segment into the elements with the property and those without.\<close>

lemma cut_split:
  assumes "down_closed P (seg xs s n)" "0 \<le> s" "0 \<le> n" "s + n \<le> int (length xs)"
  defines "c \<equiv> cut P (seg xs s n)"
  shows "0 \<le> c" "c \<le> n" "\<forall>x\<in>set (seg xs s c). P x"
    and "\<forall>x\<in>set (seg xs (s + c) (n - c)). \<not> P x"
proof -
  show c: "0 \<le> c" "c \<le> n"
    using cut_bounds [of P "seg xs s n"] assms by (auto simp: c_def length_seg)
  have P: "P (xs ! nat (s + i)) \<longleftrightarrow> i < c" if "0 \<le> i" "i < n" for i
    using nth_cut [OF assms(1), of "nat i"] that assms
    by (simp add: c_def length_seg nth_seg nat_add_distrib)
  show "\<forall>x\<in>set (seg xs s c). P x"
    using c P assms by (auto simp: set_seg_conv)
  show "\<forall>x\<in>set (seg xs (s + c) (n - c)). \<not> P x"
  proof
    fix x
    assume "x \<in> set (seg xs (s + c) (n - c))"
    then obtain k where k: "0 \<le> k" "k < n - c" "x = xs ! nat (s + c + k)"
      using c assms(2-4) by (auto simp: set_seg_conv)
    then show "\<not> P x" using P [of "c + k"] c by (simp add: add.assoc)
  qed
qed

lemma cut_lt:
  assumes "down_closed P (seg xs s n)" "0 \<le> s" "0 < n" "s + n \<le> int (length xs)"
    and "\<not> P (xs ! nat (s + n - 1))"
  shows "cut P (seg xs s n) < n"
proof -
  have "nat (s + n - 1) = nat s + nat (n - 1)" using assms by simp
  then show ?thesis
    using nth_cut [OF assms(1), of "nat (n - 1)"] assms by (simp add: length_seg nth_seg)
qed

lemma cut_pos:
  assumes "down_closed P (seg xs s n)" "0 \<le> s" "0 < n" "s + n \<le> int (length xs)" "P (xs ! nat s)"
  shows "0 < cut P (seg xs s n)"
  using nth_cut [OF assms(1), of 0] assms by (simp add: length_seg nth_seg)

context comparator
begin

lemma down_closed_gallopRight:
  "cmp_sorted cmp xs \<Longrightarrow> down_closed (\<lambda>x. \<not> cmp v x < 0) xs"
  unfolding down_closed_def cmp_sorted_def
  by (rule sorted_wrt_mono_rel [of _ "\<lambda>a b. cmp a b \<le> 0"]) (auto intro: less_le_trans)

lemma down_closed_gallopLeft:
  "cmp_sorted cmp xs \<Longrightarrow> down_closed (\<lambda>x. 0 < cmp v x) xs"
  unfolding down_closed_def cmp_sorted_def
  by (rule sorted_wrt_mono_rel [of _ "\<lambda>a b. cmp a b \<le> 0"]) (auto simp: swap [symmetric] intro: le_less_trans)

end

section \<open>Binary search\<close>

lemma gallopSearch_eq:
  assumes "\<And>m. lo \<le> m \<Longrightarrow> m < hi \<Longrightarrow> p m = Some (m < k)"
    and "lo \<le> k" "k \<le> hi" "hi - lo < 2 ^ 32"
  shows "gallopSearch p lo hi = Some k"
  using assms
proof (induction "nat (hi - lo)" arbitrary: lo hi rule: less_induct)
  case less
  show ?case
  proof (cases "lo < hi")
    case True
    let ?m = "lo + js_ushr (hi - lo) 1"
    have m: "?m = lo + (hi - lo) div 2" using True less.prems by (simp add: js_ushr_1)
    then have bounds: "lo \<le> ?m" "?m < hi" using True by auto
    have pm: "p ?m = Some (?m < k)" using less.prems(1) bounds by blast
    have "?m < k \<Longrightarrow> gallopSearch p (?m + 1) hi = Some k"
      using bounds less.prems by (intro less.hyps) auto
    moreover have "\<not> ?m < k \<Longrightarrow> gallopSearch p lo ?m = Some k"
      using bounds less.prems by (intro less.hyps) auto
    ultimately show ?thesis
      using True pm by (subst gallopSearch.simps) (simp add: Let_def)
  next
    case False
    then show ?thesis using less.prems by (subst gallopSearch.simps) simp
  qed
qed

lemma insertPos_eq:
  assumes "\<And>m. lo \<le> m \<Longrightarrow> m < hi \<Longrightarrow>
      map_option (\<lambda>x. compare pivot x < 0) (arr_get a m) = Some (k \<le> m)"
    and "0 \<le> lo" "lo \<le> k" "k \<le> hi" "hi < 2 ^ 31"
  shows "insertPos compare a pivot lo hi = Some k"
  using assms
proof (induction "nat (hi - lo)" arbitrary: lo hi rule: less_induct)
  case less
  show ?case
  proof (cases "lo < hi")
    case True
    let ?m = "js_ushr (lo + hi) 1"
    have "?m = (lo + hi) div 2" using True less.prems by (simp add: js_ushr_1)
    then have bounds: "lo \<le> ?m" "?m < hi" using True by auto
    obtain x where x: "arr_get a ?m = Some x" "(compare pivot x < 0) = (k \<le> ?m)"
      using less.prems(1) [of ?m] bounds by auto
    have "\<not> k \<le> ?m \<Longrightarrow> insertPos compare a pivot (?m + 1) hi = Some k"
      using bounds less.prems by (intro less.hyps) auto
    moreover have "k \<le> ?m \<Longrightarrow> insertPos compare a pivot lo ?m = Some k"
      using bounds less.prems by (intro less.hyps) auto
    ultimately show ?thesis
      using True x by (subst insertPos.simps) (simp add: Let_def)
  next
    case False
    then show ?thesis using less.prems by (subst insertPos.simps) simp
  qed
qed

section \<open>Galloping\<close>

text \<open>The doubled offset, capped when the shift overflows, is beyond the old one.\<close>

lemma next_offset:
  assumes "0 < offset" "offset < maxOffset" "maxOffset < 2 ^ 31"
  defines "n \<equiv> js_shl offset 1 + 1"
  shows "offset < (if n \<le> 0 then maxOffset else n)"
proof (cases "offset < 2 ^ 30")
  case True
  then show ?thesis using assms by (simp add: js_shl_1)
next
  case False
  then show ?thesis using assms by (simp add: js_shl_1_wrap)
qed

lemma gallopLoop_spec:
  assumes "\<And>i. 0 \<le> i \<Longrightarrow> i < maxOffset \<Longrightarrow> probe i = Some (i < k)"
    and "0 \<le> lastOffset" "lastOffset < k" "lastOffset < offset" "maxOffset < 2 ^ 31"
  shows "\<exists>l t. gallopLoop probe maxOffset lastOffset offset = Some (l, t)
    \<and> 0 \<le> l \<and> l < k \<and> l < t \<and> (k \<le> t \<or> maxOffset \<le> t)"
  using assms
proof (induction "nat (maxOffset - offset)" arbitrary: lastOffset offset rule: less_induct)
  case less
  let ?n = "js_shl offset 1 + 1"
  let ?next = "if ?n \<le> 0 then maxOffset else ?n"
  show ?case
  proof (cases "offset < maxOffset \<and> offset < k")
    case True
    then have pr: "probe offset = Some True" using less.prems by simp
    have nx: "offset < ?next" using True less.prems by (intro next_offset) auto
    then have "nat (maxOffset - ?next) < nat (maxOffset - offset)" using True by linarith
    then have "\<exists>l t. gallopLoop probe maxOffset offset ?next = Some (l, t)
        \<and> 0 \<le> l \<and> l < k \<and> l < t \<and> (k \<le> t \<or> maxOffset \<le> t)"
      using True nx less.prems by (intro less.hyps) auto
    moreover have "gallopLoop probe maxOffset lastOffset offset = gallopLoop probe maxOffset offset ?next"
      using True pr by (subst gallopLoop.simps) (simp add: Let_def)
    ultimately show ?thesis by simp
  next
    case False
    then have "gallopLoop probe maxOffset lastOffset offset = Some (lastOffset, offset)"
      using less.prems by (subst gallopLoop.simps) (auto simp: not_less)
    then show ?thesis using False less.prems by auto
  qed
qed

lemma gallopForward_spec:
  assumes test: "\<And>i. 0 \<le> i \<Longrightarrow> i < len \<Longrightarrow> test i = Some (i < k)"
    and "0 \<le> hint" "hint < k" "k \<le> len" "len < 2 ^ 31"
  shows "\<exists>l t. gallopForward test len hint = Some (l, t) \<and> -1 \<le> l \<and> l < k \<and> k \<le> t \<and> t \<le> len"
proof -
  have "\<exists>l t. gallopLoop (\<lambda>i. test (hint + i)) (len - hint) 0 1 = Some (l, t)
    \<and> 0 \<le> l \<and> l < k - hint \<and> l < t \<and> (k - hint \<le> t \<or> len - hint \<le> t)"
    using assms(2-5) by (intro gallopLoop_spec) (auto simp: test)
  then show ?thesis
    using assms(2-5) by (auto simp: gallopForward_def Let_def)
qed

lemma gallopBackward_spec:
  assumes test: "\<And>i. 0 \<le> i \<Longrightarrow> i \<le> hint \<Longrightarrow> test i = Some (k \<le> i)"
    and "0 \<le> k" "k \<le> hint" "hint + 1 < 2 ^ 31"
  shows "\<exists>l t. gallopBackward test hint = Some (l, t) \<and> -1 \<le> l \<and> l < k \<and> k \<le> t \<and> t \<le> hint"
proof -
  have "\<exists>l t. gallopLoop (\<lambda>i. test (hint - i)) (hint + 1) 0 1 = Some (l, t)
    \<and> 0 \<le> l \<and> l < hint - k + 1 \<and> l < t \<and> (hint - k + 1 \<le> t \<or> hint + 1 \<le> t)"
    using assms(2-4) by (intro gallopLoop_spec) (auto simp: test)
  then show ?thesis
    using assms(2-4) by (auto simp: gallopBackward_def Let_def)
qed

text \<open>
  The two searches: \<open>gallopLeft\<close> counts the elements strictly below the value,
  \<open>gallopRight\<close> the elements not above it.
\<close>

lemma gallopLeft_eq:
  assumes dc: "down_closed (\<lambda>x. compare v x > 0) (seg a s n)"
    and "0 \<le> s" "s + n \<le> int (length a)" "0 \<le> hint" "hint < n" "n < 2 ^ 31"
  shows "gallopLeft v a s n hint compare = Some (cut (\<lambda>x. compare v x > 0) (seg a s n))"
proof -
  let ?k = "cut (\<lambda>x. compare v x > 0) (seg a s n)"
  have k: "0 \<le> ?k" "?k \<le> n"
    using assms by (simp_all, metis cut_bounds(2) length_seg nat_0_le order_less_imp_le order_le_less_trans)
  have probe: "map_option (\<lambda>x. compare v x > 0) (arr_get a (s + i)) = Some (i < ?k)" if "0 \<le> i" "i < n" for i
    using assms that by (intro seg_probe) auto
  have probe': "map_option (\<lambda>x. compare v x \<le> 0) (arr_get a (s + i)) = Some (?k \<le> i)" if "0 \<le> i" "i < n" for i
    using probe [OF that] by (cases "arr_get a (s + i)") (auto simp: not_less [symmetric])
  obtain x where x: "arr_get a (s + hint) = Some x" "(compare v x > 0) = (hint < ?k)"
    using probe [of hint] assms by auto
  have fwd: "hint < ?k \<Longrightarrow> \<exists>l t. gallopForward (\<lambda>i. map_option (\<lambda>x. compare v x > 0) (arr_get a (s + i))) n hint
      = Some (l, t) \<and> -1 \<le> l \<and> l < ?k \<and> ?k \<le> t \<and> t \<le> n"
    using assms k by (intro gallopForward_spec) (auto simp: probe)
  have bwd: "?k \<le> hint \<Longrightarrow> \<exists>l t. gallopBackward (\<lambda>i. map_option (\<lambda>x. compare v x \<le> 0) (arr_get a (s + i))) hint
      = Some (l, t) \<and> -1 \<le> l \<and> l < ?k \<and> ?k \<le> t \<and> t \<le> hint"
    using assms k by (intro gallopBackward_spec) (auto simp: probe')
  have search: "gallopSearch (\<lambda>m. map_option (\<lambda>x. compare v x > 0) (arr_get a (s + m))) (l + 1) t = Some ?k"
    if "-1 \<le> l" "l < ?k" "?k \<le> t" "t \<le> n" for l t
    using that assms by (intro gallopSearch_eq) (auto simp: probe)
  show ?thesis
  proof (cases "hint < ?k")
    case True
    with fwd obtain l t where "gallopForward (\<lambda>i. map_option (\<lambda>x. compare v x > 0) (arr_get a (s + i))) n hint
      = Some (l, t)" "-1 \<le> l" "l < ?k" "?k \<le> t" "t \<le> n" by blast
    then show ?thesis using x True search by (simp add: gallopLeft_def)
  next
    case False
    with bwd obtain l t where "gallopBackward (\<lambda>i. map_option (\<lambda>x. compare v x \<le> 0) (arr_get a (s + i))) hint
      = Some (l, t)" "-1 \<le> l" "l < ?k" "?k \<le> t" "t \<le> hint" by (auto simp: not_less)
    then show ?thesis using x False search assms by (simp add: gallopLeft_def)
  qed
qed

lemma gallopRight_eq:
  assumes dc: "down_closed (\<lambda>x. \<not> compare v x < 0) (seg a s n)"
    and "0 \<le> s" "s + n \<le> int (length a)" "0 \<le> hint" "hint < n" "n < 2 ^ 31"
  shows "gallopRight v a s n hint compare = Some (cut (\<lambda>x. \<not> compare v x < 0) (seg a s n))"
proof -
  let ?k = "cut (\<lambda>x. \<not> compare v x < 0) (seg a s n)"
  have k: "0 \<le> ?k" "?k \<le> n"
    using assms by (simp_all, metis cut_bounds(2) length_seg nat_0_le order_less_imp_le order_le_less_trans)
  have probe: "map_option (\<lambda>x. \<not> compare v x < 0) (arr_get a (s + i)) = Some (i < ?k)" if "0 \<le> i" "i < n" for i
    using assms that by (intro seg_probe) auto
  have probe': "map_option (\<lambda>x. compare v x < 0) (arr_get a (s + i)) = Some (?k \<le> i)" if "0 \<le> i" "i < n" for i
    using probe [OF that] by (cases "arr_get a (s + i)") (auto simp: not_less [symmetric])
  have probe'': "map_option (\<lambda>x. compare v x \<ge> 0) (arr_get a (s + i)) = Some (i < ?k)" if "0 \<le> i" "i < n" for i
    using probe [OF that] by (simp add: not_less)
  obtain x where x: "arr_get a (s + hint) = Some x" "(compare v x < 0) = (?k \<le> hint)"
    using probe' [of hint] assms by auto
  have fwd: "hint < ?k \<Longrightarrow> \<exists>l t. gallopForward (\<lambda>i. map_option (\<lambda>x. compare v x \<ge> 0) (arr_get a (s + i))) n hint
      = Some (l, t) \<and> -1 \<le> l \<and> l < ?k \<and> ?k \<le> t \<and> t \<le> n"
    using assms k by (intro gallopForward_spec) (auto simp: probe'')
  have bwd: "?k \<le> hint \<Longrightarrow> \<exists>l t. gallopBackward (\<lambda>i. map_option (\<lambda>x. compare v x < 0) (arr_get a (s + i))) hint
      = Some (l, t) \<and> -1 \<le> l \<and> l < ?k \<and> ?k \<le> t \<and> t \<le> hint"
    using assms k by (intro gallopBackward_spec) (auto simp: probe')
  have search: "gallopSearch (\<lambda>m. map_option (\<lambda>x. \<not> compare v x < 0) (arr_get a (s + m))) (l + 1) t = Some ?k"
    if "-1 \<le> l" "l < ?k" "?k \<le> t" "t \<le> n" for l t
    using that assms by (intro gallopSearch_eq) (auto simp: probe)
  show ?thesis
  proof (cases "hint < ?k")
    case True
    with fwd obtain l t where "gallopForward (\<lambda>i. map_option (\<lambda>x. compare v x \<ge> 0) (arr_get a (s + i))) n hint
      = Some (l, t)" "-1 \<le> l" "l < ?k" "?k \<le> t" "t \<le> n" by blast
    then show ?thesis using x True search by (simp add: gallopRight_def)
  next
    case False
    with bwd obtain l t where "gallopBackward (\<lambda>i. map_option (\<lambda>x. compare v x < 0) (arr_get a (s + i))) hint
      = Some (l, t)" "-1 \<le> l" "l < ?k" "?k \<le> t" "t \<le> hint" by (auto simp: not_less)
    then show ?thesis using x False search assms by (simp add: gallopRight_def)
  qed
qed

end
