(* ===== verification/Timsort_Runs.thy ===== *)
theory Timsort_Runs
  imports Timsort_Gallop
begin

text \<open>
  Finding and extending a run: \<open>makeAscendingRun\<close> and \<open>binaryInsertionSort\<close> rearrange a range
  of the array stably and leave it sorted.
\<close>

section \<open>Stable rearrangement of a range\<close>

definition rearr :: "('a \<Rightarrow> 'a \<Rightarrow> 'n::{linorder,zero}) \<Rightarrow> 'a list \<Rightarrow> int \<Rightarrow> int \<Rightarrow> 'a list \<Rightarrow> bool" where
  "rearr cmp a lo n b \<longleftrightarrow>
     0 \<le> lo \<and> 0 \<le> n \<and> lo + n \<le> int (length a) \<and> length b = length a \<and>
     take (nat lo) b = take (nat lo) a \<and> drop (nat (lo + n)) b = drop (nat (lo + n)) a \<and>
     stable_eq cmp (seg a lo n) (seg b lo n)"

lemma rearr_refl: "0 \<le> lo \<Longrightarrow> 0 \<le> n \<Longrightarrow> lo + n \<le> int (length a) \<Longrightarrow> rearr cmp a lo n a"
  by (simp add: rearr_def)

lemma rearr_trans: "rearr cmp a lo n b \<Longrightarrow> rearr cmp b lo n c \<Longrightarrow> rearr cmp a lo n c"
  by (auto simp: rearr_def intro: stable_eq_trans)

lemma rearr_length: "rearr cmp a lo n b \<Longrightarrow> length b = length a"
  by (simp add: rearr_def)

lemma rearr_blit:
  assumes "0 \<le> lo" "lo + n \<le> int (length a)" "int (length zs) = n" "stable_eq cmp (seg a lo n) zs"
  shows "rearr cmp a lo n (blit a lo zs)"
  using assms seg_blit [of lo zs a] drop_blit_after [of lo zs "lo + n" a]
  by (auto simp: rearr_def length_blit take_blit_before)

lemma rearr_seg_before:
  assumes "rearr cmp a lo n b" "0 \<le> i" "0 \<le> m" "i + m \<le> lo"
  shows "seg b i m = seg a i m"
proof -
  have *: "seg xs i m = seg (take (nat lo) xs) i m" for xs :: "'a list"
    using assms(2-) by (simp add: seg_def drop_take min_absorb1)
  show ?thesis using assms(1) by (subst (1 2) *) (simp add: rearr_def)
qed

lemma rearr_seg_after:
  assumes "rearr cmp a lo n b" "lo + n \<le> i"
  shows "seg b i m = seg a i m"
proof -
  have "nat i = (nat i - nat (lo + n)) + nat (lo + n)" using assms by (simp add: rearr_def)
  then obtain k where k: "nat i = k + nat (lo + n)" by blast
  have "drop k (drop (nat (lo + n)) b) = drop k (drop (nat (lo + n)) a)"
    using assms by (simp only: rearr_def)
  then show ?thesis by (simp add: seg_def k)
qed

lemma rearr_widen:
  assumes r: "rearr cmp a lo n b" and w: "0 \<le> l" "l \<le> lo" "lo + n \<le> l + m" "l + m \<le> int (length a)"
  shows "rearr cmp a l m b"
proof -
  have n: "0 \<le> n" "lo + n \<le> int (length a)" "length b = length a" using r by (simp_all add: rearr_def)
  have split: "seg xs l m = seg xs l (lo - l) @ seg xs lo n @ seg xs (lo + n) (l + m - (lo + n))" for xs :: "'a list"
    using seg_append [of l "lo - l" "n + (l + m - (lo + n))" xs]
      seg_append [of lo n "l + m - (lo + n)" xs] w n by (simp add: algebra_simps)
  have "take (nat l) (take (nat lo) b) = take (nat l) (take (nat lo) a)"
    using r by (simp only: rearr_def)
  then have "take (nat l) b = take (nat l) a"
    using w by (simp add: min_absorb1 nat_mono)
  moreover have "drop (nat (l + m)) b = drop (nat (l + m)) a"
  proof -
    have "nat (l + m) = (nat (l + m) - nat (lo + n)) + nat (lo + n)" using w by simp
    then obtain k where k: "nat (l + m) = k + nat (lo + n)" by blast
    have "drop k (drop (nat (lo + n)) b) = drop k (drop (nat (lo + n)) a)"
      using r by (simp only: rearr_def)
    then show ?thesis by (simp add: k)
  qed
  moreover have "stable_eq cmp (seg a l m) (seg b l m)"
    unfolding split
    using r rearr_seg_before [OF r, of l "lo - l"] rearr_seg_after [OF r order_refl] w
    by (intro stable_eq_append) (simp_all add: rearr_def)
  ultimately show ?thesis using w n by (simp add: rearr_def)
qed

section \<open>Runs\<close>

lemma reverseLoop_eq:
  assumes "0 \<le> lo" "lo \<le> hi + 1" "hi < int (length a)"
  shows "reverseLoop a lo hi = Some (blit a lo (rev (seg a lo (hi - lo + 1))))"
  using assms
proof (induction "nat (hi - lo)" arbitrary: a lo hi rule: less_induct)
  case less
  show ?case
  proof (cases "lo < hi")
    case False
    then have "hi - lo + 1 = 0 \<or> hi = lo" using less.prems by auto
    then have "rev (seg a lo (hi - lo + 1)) = seg a lo (hi - lo + 1)"
      using less.prems by (auto simp: seg_1)
    then show ?thesis using False less.prems by (subst reverseLoop.simps) simp
  next
    case True
    let ?x = "a ! nat lo" and ?y = "a ! nat hi" and ?M = "seg a (lo + 1) (hi - lo - 1)"
    let ?a = "blit a lo ([?y] @ ?M @ [?x])"
    have S: "seg a lo (hi - lo + 1) = [?x] @ ?M @ [?y]"
      using seg_Cons [of lo "hi - lo + 1" a] seg_snoc [of "lo + 1" "hi - lo" a] less.prems True by simp
    have len: "int (length ?M) = hi - lo - 1" using less.prems True by (simp add: length_seg)
    have whole: "blit a lo ([?x] @ ?M @ [?y]) = a"
      using less.prems True unfolding S [symmetric] by (intro blit_seg) simp_all
    have "arr_set a lo ?y = Some (blit (blit a lo ([] @ [?x] @ (?M @ [?y]))) lo [?y])"
      using whole less.prems True by (simp add: arr_set_blit)
    also have "blit (blit a lo ([] @ [?x] @ (?M @ [?y]))) lo [?y] = blit a lo ([] @ [?y] @ (?M @ [?y]))"
      using less.prems True len by (intro blit_inside) simp_all
    finally have s1: "arr_set a lo ?y = Some (blit a lo (([?y] @ ?M) @ [?y] @ []))" by simp
    have "arr_set (blit a lo (([?y] @ ?M) @ [?y] @ [])) hi ?x
        = Some (blit (blit a lo (([?y] @ ?M) @ [?y] @ [])) hi [?x])"
      using less.prems True len by (intro arr_set_blit) (simp_all add: length_blit)
    also have "blit (blit a lo (([?y] @ ?M) @ [?y] @ [])) hi [?x] = blit a lo (([?y] @ ?M) @ [?x] @ [])"
      using less.prems True len by (intro blit_inside) simp_all
    finally have s2: "arr_set (blit a lo (([?y] @ ?M) @ [?y] @ [])) hi ?x = Some ?a" by simp
    have inner: "seg ?a (lo + 1) (hi - 1 - (lo + 1) + 1) = ?M"
      using seg_blit [of lo "[?y] @ ?M @ [?x]" a] seg_append [of lo 1 "hi - lo" ?a]
        seg_append [of "lo + 1" "hi - lo - 1" 1 ?a] less.prems True len
      by (simp add: length_seg length_blit seg_1)
    have "reverseLoop ?a (lo + 1) (hi - 1) = Some (blit ?a (lo + 1) (rev (seg ?a (lo + 1) (hi - 1 - (lo + 1) + 1))))"
      using less.prems True len by (intro less.hyps) (simp_all add: length_blit)
    also note inner
    also have "blit ?a (lo + 1) (rev ?M) = blit a lo ([?y] @ rev ?M @ [?x])"
      using less.prems True len by (intro blit_inside) simp_all
    finally show ?thesis
      using True s1 s2 less.prems S by (subst reverseLoop.simps) (simp add: arr_get_in)
  qed
qed

text \<open>The two scanning loops stop at the end of the run they extend.\<close>

definition desc_wrt :: "('a \<Rightarrow> 'a \<Rightarrow> 'n::{linorder,zero}) \<Rightarrow> 'a list \<Rightarrow> bool" where
  "desc_wrt cmp xs \<longleftrightarrow> sorted_wrt (\<lambda>a b. cmp b a < 0) xs"

context comparator
begin

lemma cmp_sorted_snoc:
  "cmp_sorted cmp (xs @ [x]) \<Longrightarrow> cmp x y \<le> 0 \<Longrightarrow> cmp_sorted cmp (xs @ [x, y])"
  by (auto simp: cmp_sorted_def sorted_wrt_append intro: trans)

lemma desc_snoc: "desc_wrt cmp (xs @ [x]) \<Longrightarrow> cmp y x < 0 \<Longrightarrow> desc_wrt cmp (xs @ [x, y])"
  by (auto simp: desc_wrt_def sorted_wrt_append intro: less_trans)

lemma seg_snoc2:
  assumes "0 \<le> lo" "lo < r" "r < int (length a)"
  shows "seg a lo (r - lo) = seg a lo (r - lo - 1) @ [a ! nat (r - 1)]"
    and "seg a lo (r + 1 - lo) = seg a lo (r - lo - 1) @ [a ! nat (r - 1), a ! nat r]"
  using seg_snoc [of lo "r - lo" a] seg_snoc [of lo "r + 1 - lo" a] assms by simp_all

lemma descRunEnd_spec:
  assumes "0 \<le> lo" "lo < r" "r \<le> hi" "hi \<le> int (length a)" "desc_wrt cmp (seg a lo (r - lo))"
  shows "\<exists>e. descRunEnd cmp a hi r = Some e \<and> r \<le> e \<and> e \<le> hi \<and> desc_wrt cmp (seg a lo (e - lo))"
  using assms
proof (induction "nat (hi - r)" arbitrary: r rule: less_induct)
  case less
  show ?case
  proof (cases "r < hi \<and> cmp (a ! nat r) (a ! nat (r - 1)) < 0")
    case True
    then have "desc_wrt cmp (seg a lo (r + 1 - lo))"
      using less.prems seg_snoc2 [of lo r a] by (simp add: desc_snoc)
    then have "\<exists>e. descRunEnd cmp a hi (r + 1) = Some e \<and> r + 1 \<le> e \<and> e \<le> hi \<and> desc_wrt cmp (seg a lo (e - lo))"
      using True less.prems by (intro less.hyps) simp_all
    then show ?thesis
      using True less.prems by (subst descRunEnd.simps) (auto simp: arr_get_in)
  next
    case False
    then have "descRunEnd cmp a hi r = Some r"
      using less.prems by (subst descRunEnd.simps) (auto simp: arr_get_in)
    then show ?thesis using less.prems by auto
  qed
qed

lemma ascRunEnd_spec:
  assumes "0 \<le> lo" "lo < r" "r \<le> hi" "hi \<le> int (length a)" "cmp_sorted cmp (seg a lo (r - lo))"
  shows "\<exists>e. ascRunEnd cmp a hi r = Some e \<and> r \<le> e \<and> e \<le> hi \<and> cmp_sorted cmp (seg a lo (e - lo))"
  using assms
proof (induction "nat (hi - r)" arbitrary: r rule: less_induct)
  case less
  show ?case
  proof (cases "r < hi \<and> 0 \<le> cmp (a ! nat r) (a ! nat (r - 1))")
    case True
    then have "cmp_sorted cmp (seg a lo (r + 1 - lo))"
      using less.prems seg_snoc2 [of lo r a] by (simp add: cmp_sorted_snoc ge_iff)
    then have "\<exists>e. ascRunEnd cmp a hi (r + 1) = Some e \<and> r + 1 \<le> e \<and> e \<le> hi \<and> cmp_sorted cmp (seg a lo (e - lo))"
      using True less.prems by (intro less.hyps) simp_all
    then show ?thesis
      using True less.prems by (subst ascRunEnd.simps) (auto simp: arr_get_in)
  next
    case False
    then have "ascRunEnd cmp a hi r = Some r"
      using less.prems by (subst ascRunEnd.simps) (auto simp: arr_get_in)
    then show ?thesis using less.prems by auto
  qed
qed

lemma makeAscendingRun_spec:
  assumes "0 \<le> lo" "lo < hi" "hi \<le> int (length a)"
  shows "\<exists>b k. makeAscendingRun a lo hi cmp = Some (b, k) \<and> 1 \<le> k \<and> k \<le> hi - lo
    \<and> rearr cmp a lo k b \<and> cmp_sorted cmp (seg b lo k)"
proof -
  let ?x = "a ! nat (lo + 1)" and ?y = "a ! nat lo"
  consider (one) "lo + 1 = hi" | (desc) "lo + 1 < hi" "cmp ?x ?y < 0" | (asc) "lo + 1 < hi" "0 \<le> cmp ?x ?y"
    using assms by fastforce
  then show ?thesis
  proof cases
    case one
    then have "makeAscendingRun a lo hi cmp = Some (a, 1)" by (simp add: makeAscendingRun_def)
    moreover have "cmp_sorted cmp (seg a lo 1)"
      using assms by (simp add: seg_1 cmp_sorted_def)
    ultimately show ?thesis using one assms by (auto intro!: rearr_refl)
  next
    case desc
    have s2: "seg a lo (lo + 2 - lo) = [?y, ?x]"
      using seg_snoc2(2) [of lo "lo + 1" a] desc assms by simp
    then have "desc_wrt cmp (seg a lo (lo + 2 - lo))" using desc unfolding s2 by (simp add: desc_wrt_def)
    from descRunEnd_spec [OF assms(1) _ _ assms(3) this] desc obtain e where
      e: "descRunEnd cmp a hi (lo + 2) = Some e" "lo + 2 \<le> e" "e \<le> hi" "desc_wrt cmp (seg a lo (e - lo))"
      by auto
    let ?S = "seg a lo (e - lo)"
    have "reverseLoop a lo (e - 1) = Some (blit a lo (rev (seg a lo (e - 1 - lo + 1))))"
      using e assms by (intro reverseLoop_eq) simp_all
    then have run: "makeAscendingRun a lo hi cmp = Some (blit a lo (rev ?S), e - lo)"
      using desc e assms by (simp add: makeAscendingRun_def reverseRun_def arr_get_in Let_def add.assoc)
    have len: "int (length (rev ?S)) = e - lo" using e assms by (simp add: length_seg)
    have "stable_eq cmp ?S (rev ?S)" using e(4) unfolding desc_wrt_def by (rule stable_eq_rev)
    then have "rearr cmp a lo (e - lo) (blit a lo (rev ?S))"
      using len e assms by (intro rearr_blit) simp_all
    moreover have "cmp_sorted cmp (seg (blit a lo (rev ?S)) lo (e - lo))"
      using e(4) seg_blit [of lo "rev ?S" a] len e assms
      by (auto simp: desc_wrt_def cmp_sorted_def sorted_wrt_rev intro: sorted_wrt_mono_rel [rotated])
    ultimately show ?thesis using run e by auto
  next
    case asc
    have s2: "seg a lo (lo + 2 - lo) = [?y, ?x]"
      using seg_snoc2(2) [of lo "lo + 1" a] asc assms by simp
    then have "cmp_sorted cmp (seg a lo (lo + 2 - lo))"
      using asc unfolding s2 by (simp add: cmp_sorted_def ge_iff)
    from ascRunEnd_spec [OF assms(1) _ _ assms(3) this] asc obtain e where
      e: "ascRunEnd cmp a hi (lo + 2) = Some e" "lo + 2 \<le> e" "e \<le> hi" "cmp_sorted cmp (seg a lo (e - lo))"
      by auto
    then have "makeAscendingRun a lo hi cmp = Some (a, e - lo)"
      using asc(1) leD [OF asc(2)] assms by (simp add: makeAscendingRun_def arr_get_in Let_def add.assoc)
    then show ?thesis using e assms by (auto intro!: rearr_refl)
  qed
qed

section \<open>Binary insertion\<close>

end

lemma shiftLoop_copy:
  fixes a :: "'a list"
  shows "shiftLoop a l n = copy_down a (l + 1) l (nat n)"
proof (induction "nat n" arbitrary: a n)
  case 0
  then show ?case by (subst shiftLoop.simps) simp
next
  case (Suc k)
  then have n: "nat n = Suc k" "n > 0" "l + n - 1 = l + int k" "l + n = l + 1 + int k" by auto
  have "shiftLoop b l (n - 1) = copy_down b (l + 1) l k" for b :: "'a list"
  proof -
    have k: "nat (n - 1) = k" using Suc.hyps(2) by linarith
    then show ?thesis using Suc.hyps(1) [of "n - 1" b] by metis
  qed
  then show ?case
    using n by (subst shiftLoop.simps) (simp add: arr_move_def ac_simps)
qed

lemma shiftUp_copy: "shiftUp a l n = copy_down a (l + 1) l (nat n)"
proof -
  have "n = 1 \<or> n = 2 \<or> n = 3 \<or> shiftUp a l n = shiftLoop a l n" by (auto simp: shiftUp_def)
  then show ?thesis
    by (auto simp: shiftLoop_copy shiftUp_def arr_move_def numeral_2_eq_2 numeral_3_eq_3 algebra_simps)
qed

context comparator
begin

lemma insertPivot_spec:
  assumes b: "0 \<le> lo" "lo \<le> start" "start < int (length a)" "int (length a) < 2 ^ 31"
    and srt: "cmp_sorted cmp (seg a lo (start - lo))"
  shows "\<exists>c. insertPivot a lo start cmp = Some c \<and> rearr cmp a lo (start - lo + 1) c
    \<and> cmp_sorted cmp (seg c lo (start - lo + 1))"
proof -
  let ?p = "a ! nat start" and ?n = "start - lo"
  define k where "k = cut (\<lambda>x. \<not> cmp ?p x < 0) (seg a lo ?n)"
  let ?L = "seg a lo k" and ?R = "seg a (lo + k) (?n - k)"
  have dc: "down_closed (\<lambda>x. \<not> cmp ?p x < 0) (seg a lo ?n)"
    unfolding down_closed_def using srt unfolding cmp_sorted_def
    by (rule sorted_wrt_mono_rel [rotated]) (auto intro: less_le_trans)
  have n: "0 \<le> ?n" "lo + ?n \<le> int (length a)" using b by simp_all
  have k: "0 \<le> k" "k \<le> ?n"
    using cut_bounds [of "\<lambda>x. \<not> cmp ?p x < 0" "seg a lo ?n"] n b by (simp_all add: k_def length_seg)
  have S: "seg a lo ?n = ?L @ ?R" using seg_append [of lo k "?n - k" a] b k by simp
  have S1: "seg a lo (?n + 1) = (?L @ ?R) @ [?p]"
    using seg_snoc [of lo "?n + 1" a] b by (simp add: S)
  have probe: "map_option (\<lambda>x. cmp ?p x < 0) (arr_get a m) = Some (lo + k \<le> m)" if "lo \<le> m" "m < start" for m
    using seg_probe [OF dc b(1) _ _ n(2), of "m - lo", folded k_def] that
    by (cases "arr_get a m") auto
  have pos: "insertPos cmp a ?p lo start = Some (lo + k)"
    using b k by (intro insertPos_eq) (simp_all add: probe)
  have "copy_down a (lo + k + 1) (lo + k) (nat (?n - k)) = Some (blit a (lo + k + 1) ?R)"
    using b k by (intro copy_down_blit) simp_all
  then have shift: "shiftUp a (lo + k) (start - (lo + k)) = Some (blit a (lo + k + 1) ?R)"
    by (simp add: shiftUp_copy algebra_simps)
  have lenR: "int (length ?R) = ?n - k" using b k by (simp add: length_seg)
  have set: "arr_set (blit a (lo + k + 1) ?R) (lo + k) ?p = Some (blit (blit a (lo + k + 1) ?R) (lo + k) [?p])"
    using b k lenR by (intro arr_set_blit) (simp_all add: length_blit)
  have "blit (blit a (lo + k + 1) ?R) (lo + k) [?p] = blit a (lo + k) ([?p] @ ?R)"
    using b k lenR by (intro blit_blit_before) simp_all
  also have "\<dots> = blit a lo (?L @ [?p] @ ?R)"
    using b k by (simp add: blit_prefix)
  finally have run: "insertPivot a lo start cmp = Some (blit a lo (?L @ [?p] @ ?R))"
    using b pos shift set by (simp add: insertPivot_def arr_get_in)
  have len: "int (length (?L @ [?p] @ ?R)) = ?n + 1" using b k lenR by (simp add: length_seg)
  have L: "\<forall>x\<in>set ?L. cmp x ?p \<le> 0"
    using cut_split(3) [OF dc b(1) n, folded k_def] by (simp add: le_iff)
  have R: "\<forall>x\<in>set ?R. cmp ?p x < 0"
    using cut_split(4) [OF dc b(1) n, folded k_def] by simp
  have "stable_eq cmp (?L @ ?R @ [?p]) (?L @ [?p] @ ?R)"
    using R by (intro stable_eq_append stable_eq_swap) auto
  then have "rearr cmp a lo (?n + 1) (blit a lo (?L @ [?p] @ ?R))"
    using b len S1 by (intro rearr_blit) simp_all
  moreover have "cmp_sorted cmp (?L @ [?p] @ ?R)"
    using srt L R unfolding S by (auto simp: cmp_sorted_append cmp_sorted_Cons intro: less_imp_le)
  moreover have "seg (blit a lo (?L @ [?p] @ ?R)) lo (?n + 1) = ?L @ [?p] @ ?R"
    unfolding len [symmetric] using b len by (intro seg_blit) linarith+
  ultimately show ?thesis using run by metis
qed

lemma insertionLoop_spec:
  assumes "0 \<le> lo" "lo < start" "start \<le> hi" "hi \<le> int (length a)" "int (length a) < 2 ^ 31"
    and "cmp_sorted cmp (seg a lo (start - lo))"
  shows "\<exists>c. insertionLoop a lo hi start cmp = Some c \<and> rearr cmp a lo (hi - lo) c
    \<and> cmp_sorted cmp (seg c lo (hi - lo))"
  using assms
proof (induction "nat (hi - start)" arbitrary: a start rule: less_induct)
  case less
  show ?case
  proof (cases "start < hi")
    case True
    then obtain b where b: "insertPivot a lo start cmp = Some b" "rearr cmp a lo (start - lo + 1) b"
        "cmp_sorted cmp (seg b lo (start - lo + 1))"
      using insertPivot_spec [of lo start a] less.prems by auto
    have len: "length b = length a" using b(2) by (rule rearr_length)
    have srt: "cmp_sorted cmp (seg b lo (start + 1 - lo))" using b(3) by (simp add: algebra_simps)
    obtain c where c: "insertionLoop b lo hi (start + 1) cmp = Some c" "rearr cmp b lo (hi - lo) c"
        "cmp_sorted cmp (seg c lo (hi - lo))"
      using less.hyps [of "start + 1" b] True less.prems len srt by auto
    have "rearr cmp a lo (hi - lo) b"
      using True less.prems by (intro rearr_widen [OF b(2)]) simp_all
    then have "rearr cmp a lo (hi - lo) c" using c(2) by (rule rearr_trans)
    then show ?thesis using True b c by (subst insertionLoop.simps) simp
  next
    case False
    then show ?thesis using less.prems by (subst insertionLoop.simps) (auto intro: rearr_refl)
  qed
qed

lemma binaryInsertionSort_spec:
  assumes "0 \<le> lo" "lo \<le> start" "start \<le> hi" "lo < hi" "hi \<le> int (length a)" "int (length a) < 2 ^ 31"
    and "cmp_sorted cmp (seg a lo (start - lo))"
  shows "\<exists>c. binaryInsertionSort a lo hi start cmp = Some c \<and> rearr cmp a lo (hi - lo) c
    \<and> cmp_sorted cmp (seg c lo (hi - lo))"
proof -
  let ?s = "if start = lo then start + 1 else start"
  have "cmp_sorted cmp (seg a lo (?s - lo))"
    using assms by (auto simp: seg_1 cmp_sorted_def)
  then show ?thesis unfolding binaryInsertionSort_def
    using assms by (intro insertionLoop_spec) auto
qed

end

end
