(* ===== verification/Timsort_MergeLow.thy ===== *)
theory Timsort_MergeLow
  imports Timsort_Gallop
begin

text \<open>
  The array code of \<open>mergeLow\<close> writes the stable merge of the two runs.
  A state of the merge loop determines the array it will end with (\<open>lowRes\<close>): what is written already, the merge of what is left of the two runs, and what follows. Every
  move keeps it, so the loops do, and each turn of a loop shortens the runs, so they end.
\<close>

section \<open>Steps that may leave the loop\<close>

text \<open>
  \<open>exits D Q r\<close>: the step \<open>r\<close> returns, in a state with \<open>D\<close> if it leaves the loop and
  with \<open>Q\<close> if it does not.
\<close>

definition exits ::
  "('a mergevars \<Rightarrow> bool) \<Rightarrow> ('a mergevars \<Rightarrow> bool) \<Rightarrow> (bool \<times> 'a mergevars) option \<Rightarrow> bool" where
  "exits D Q r \<longleftrightarrow> (\<exists>m. r = Some (True, m) \<and> D m) \<or> (\<exists>m. r = Some (False, m) \<and> Q m)"

lemma exits_unless_exit:
  "exits D Q r \<Longrightarrow> (\<And>m. Q m \<Longrightarrow> exits D Q' (f m)) \<Longrightarrow> exits D Q' (unless_exit r f)"
  by (fastforce simp: exits_def unless_exit_def)

lemma exits_weaken: "exits D Q r \<Longrightarrow> (\<And>m. D m \<Longrightarrow> D' m) \<Longrightarrow> (\<And>m. Q m \<Longrightarrow> Q' m) \<Longrightarrow> exits D' Q' r"
  by (auto simp: exits_def)

lemma exits_Some: "exits D Q (Some (e, m)) \<longleftrightarrow> (if e then D m else Q m)"
  by (simp add: exits_def)

text \<open>A loop around such a step returns when each turn lowers a measure.\<close>

lemma loop_exits:
  assumes unf: "\<And>m. loop m = do { (e, m') \<leftarrow> body m; if e then Some (True, m')
      else if again m' then loop m' else Some (False, m') }"
    and body: "\<And>m. Q m \<Longrightarrow> exits D (\<lambda>m'. Q m' \<and> size_of m' < (size_of m :: nat)) (body m)"
    and "Q m"
  shows "exits D (\<lambda>m'. Q m' \<and> size_of m' < size_of m) (loop m)"
  using \<open>Q m\<close>
proof (induction "size_of m" arbitrary: m rule: less_induct)
  case less
  from body [OF less.prems] consider
    m' where "body m = Some (True, m')" "D m'"
    | m' where "body m = Some (False, m')" "Q m'" "size_of m' < size_of m"
    by (auto simp: exits_def)
  then show ?case
  proof cases
    case 1
    then show ?thesis by (simp add: unf [of m] exits_Some)
  next
    case 2
    show ?thesis
    proof (cases "again m'")
      case True
      have "exits D (\<lambda>m''. Q m'' \<and> size_of m'' < size_of m') (loop m')"
        using 2 by (intro less.hyps)
      then have "exits D (\<lambda>m''. Q m'' \<and> size_of m'' < size_of m) (loop m')"
        by (rule exits_weaken) (use 2 in auto)
      then show ?thesis using 2 True by (simp add: unf [of m])
    next
      case False
      then show ?thesis using 2 by (simp add: unf [of m] exits_Some)
    qed
  qed
qed

section \<open>mergeLow\<close>

definition lowRes :: "('a \<Rightarrow> 'a \<Rightarrow> 'n::{linorder,zero}) \<Rightarrow> 'a mergevars \<Rightarrow> 'a list" where
  "lowRes cmp m = take (nat (m_dest m)) (m_array m)
     @ cmp_merge cmp (seg (m_tmp m) (m_cursor1 m) (m_length1 m)) (seg (m_array m) (m_cursor2 m) (m_length2 m))
     @ drop (nat (m_cursor2 m + m_length2 m)) (m_array m)"

abbreviation lowRun1 :: "'a mergevars \<Rightarrow> 'a list" where
  "lowRun1 m \<equiv> seg (m_tmp m) (m_cursor1 m) (m_length1 m)"

abbreviation lowRun2 :: "'a mergevars \<Rightarrow> 'a list" where
  "lowRun2 m \<equiv> seg (m_array m) (m_cursor2 m) (m_length2 m)"

text \<open>The last element of the first run is above the second run, so it comes last.\<close>

definition lowInv :: "('a \<Rightarrow> 'a \<Rightarrow> 'n::{linorder,zero}) \<Rightarrow> 'a mergevars \<Rightarrow> bool" where
  "lowInv cmp m \<longleftrightarrow>
     0 \<le> m_cursor1 m \<and> 1 \<le> m_length1 m \<and> m_cursor1 m + m_length1 m \<le> int (length (m_tmp m)) \<and>
     0 \<le> m_dest m \<and> m_dest m + m_length1 m = m_cursor2 m \<and> 0 \<le> m_length2 m \<and>
     m_cursor2 m + m_length2 m \<le> int (length (m_array m)) \<and> int (length (m_array m)) < 2 ^ 31 \<and>
     cmp_sorted cmp (lowRun1 m) \<and> cmp_sorted cmp (lowRun2 m) \<and>
     (\<forall>y\<in>set (lowRun2 m). cmp y (m_tmp m ! nat (m_cursor1 m + m_length1 m - 1)) < 0)"

definition lowSt :: "('a \<Rightarrow> 'a \<Rightarrow> 'n::{linorder,zero}) \<Rightarrow> 'a list \<Rightarrow> nat \<Rightarrow> 'a mergevars \<Rightarrow> bool" where
  "lowSt cmp R N m \<longleftrightarrow> lowInv cmp m \<and> lowRes cmp m = R \<and> nat (m_length1 m + m_length2 m) \<le> N"

definition lowBusy :: "'a mergevars \<Rightarrow> bool" where
  "lowBusy m \<longleftrightarrow> 2 \<le> m_length1 m \<and> 1 \<le> m_length2 m"

definition lowDone :: "'a mergevars \<Rightarrow> bool" where
  "lowDone m \<longleftrightarrow> m_length1 m = 1 \<or> m_length2 m = 0"

text \<open>The counters and the threshold play no part in what is written.\<close>

lemma lowSt_counters [simp]:
  "lowSt cmp R N (m\<lparr>m_count1 := c\<rparr>) = lowSt cmp R N m"
  "lowSt cmp R N (m\<lparr>m_count2 := c\<rparr>) = lowSt cmp R N m"
  "lowSt cmp R N (m\<lparr>m_minGallop := c\<rparr>) = lowSt cmp R N m"
  "lowBusy (m\<lparr>m_count1 := c\<rparr>) = lowBusy m"
  "lowBusy (m\<lparr>m_count2 := c\<rparr>) = lowBusy m"
  "lowBusy (m\<lparr>m_minGallop := c\<rparr>) = lowBusy m"
  by (simp_all add: lowSt_def lowInv_def lowRes_def lowBusy_def)

lemma lowBounds:
  assumes "lowInv cmp m"
  shows "0 \<le> m_cursor1 m" "1 \<le> m_length1 m" "m_cursor1 m + m_length1 m \<le> int (length (m_tmp m))"
    "0 \<le> m_dest m" "m_dest m + m_length1 m = m_cursor2 m" "0 \<le> m_length2 m"
    "m_cursor2 m + m_length2 m \<le> int (length (m_array m))" "int (length (m_array m)) < 2 ^ 31"
  using assms by (simp_all add: lowInv_def)

context comparator
begin

text \<open>Moving a block from the first run, then one from the second run.\<close>

lemma lowMove1:
  assumes inv: "lowInv cmp m" and c: "0 \<le> c" "c < m_length1 m"
    and below: "\<forall>x\<in>set (seg (m_tmp m) (m_cursor1 m) c). \<forall>y\<in>set (lowRun2 m). \<not> cmp y x < 0"
    and m': "m_array m' = blit (m_array m) (m_dest m) (seg (m_tmp m) (m_cursor1 m) c)"
      "m_tmp m' = m_tmp m" "m_cursor1 m' = m_cursor1 m + c" "m_cursor2 m' = m_cursor2 m"
      "m_dest m' = m_dest m + c" "m_length1 m' = m_length1 m - c" "m_length2 m' = m_length2 m"
  shows "lowInv cmp m' \<and> lowRes cmp m' = lowRes cmp m"
proof -
  let ?X = "seg (m_tmp m) (m_cursor1 m) c"
  note i = inv [unfolded lowInv_def]
  have len: "int (length ?X) = c" using i c by (simp add: length_seg)
  have fit: "m_dest m + int (length ?X) \<le> int (length (m_array m))" using i c len by linarith
  have run1: "lowRun1 m = ?X @ lowRun1 m'"
    using seg_append [of "m_cursor1 m" c "m_length1 m - c" "m_tmp m"] i c by (simp add: m')
  have run2: "lowRun2 m' = lowRun2 m"
    unfolding m' using i c len fit by (intro seg_blit_after) auto
  have rest: "drop (nat (m_cursor2 m + m_length2 m)) (m_array m') = drop (nat (m_cursor2 m + m_length2 m)) (m_array m)"
    unfolding m' using i c len fit by (intro drop_blit_after) auto
  have front: "take (nat (m_dest m + c)) (m_array m') = take (nat (m_dest m)) (m_array m) @ ?X"
    using take_blit [of "m_dest m" ?X "m_array m"] i len fit by (simp add: m')
  have "cmp_merge cmp (lowRun1 m) (lowRun2 m) = ?X @ cmp_merge cmp (lowRun1 m') (lowRun2 m)"
    using below by (simp add: run1 cmp_merge_prefix1)
  then have "lowRes cmp m' = lowRes cmp m"
    using front rest run2 by (simp add: lowRes_def m' del: m'(1))
  moreover have "lowInv cmp m'"
    using i c fit run1 run2 unfolding lowInv_def
    by (auto simp: m' cmp_sorted_append length_blit)
  ultimately show ?thesis by simp
qed

lemma lowMove2:
  assumes inv: "lowInv cmp m" and c: "0 \<le> c" "c \<le> m_length2 m"
    and below: "\<forall>x\<in>set (lowRun1 m). \<forall>y\<in>set (seg (m_array m) (m_cursor2 m) c). cmp y x < 0"
    and m': "m_array m' = blit (m_array m) (m_dest m) (seg (m_array m) (m_cursor2 m) c)"
      "m_tmp m' = m_tmp m" "m_cursor1 m' = m_cursor1 m" "m_cursor2 m' = m_cursor2 m + c"
      "m_dest m' = m_dest m + c" "m_length1 m' = m_length1 m" "m_length2 m' = m_length2 m - c"
  shows "lowInv cmp m' \<and> lowRes cmp m' = lowRes cmp m"
proof -
  let ?Y = "seg (m_array m) (m_cursor2 m) c"
  note i = inv [unfolded lowInv_def]
  have len: "int (length ?Y) = c" using i c by (simp add: length_seg)
  have fit: "m_dest m + int (length ?Y) \<le> int (length (m_array m))" using i c len by linarith
  have run2': "lowRun2 m' = seg (m_array m) (m_cursor2 m + c) (m_length2 m - c)"
    unfolding m' using i c len fit by (intro seg_blit_after) auto
  have run2: "lowRun2 m = ?Y @ lowRun2 m'"
    using seg_append [of "m_cursor2 m" c "m_length2 m - c" "m_array m"] i c by (simp add: run2')
  have rest: "drop (nat (m_cursor2 m + m_length2 m)) (m_array m') = drop (nat (m_cursor2 m + m_length2 m)) (m_array m)"
    unfolding m' using i c len fit by (intro drop_blit_after) auto
  have front: "take (nat (m_dest m + c)) (m_array m') = take (nat (m_dest m)) (m_array m) @ ?Y"
    using take_blit [of "m_dest m" ?Y "m_array m"] i len fit by (simp add: m')
  have "cmp_merge cmp (lowRun1 m) (lowRun2 m) = ?Y @ cmp_merge cmp (lowRun1 m) (lowRun2 m')"
    using below by (simp add: run2 cmp_merge_prefix2)
  then have "lowRes cmp m' = lowRes cmp m"
    using front rest by (simp add: lowRes_def m' del: m'(1))
  moreover have "lowInv cmp m'"
    using i c fit run2 unfolding lowInv_def
    by (auto simp: m'(2-) cmp_sorted_append length_blit m'(1) [THEN arg_cong, of length])
  ultimately show ?thesis by simp
qed

text \<open>The heads of the two runs, and what sortedness says of them.\<close>

lemma lowRun1_Cons:
  assumes "lowInv cmp m"
  shows "lowRun1 m = m_tmp m ! nat (m_cursor1 m) # seg (m_tmp m) (m_cursor1 m + 1) (m_length1 m - 1)"
  using assms by (intro seg_Cons) (auto simp: lowInv_def)

lemma lowRun2_Cons:
  assumes "lowInv cmp m" "1 \<le> m_length2 m"
  shows "lowRun2 m = m_array m ! nat (m_cursor2 m) # seg (m_array m) (m_cursor2 m + 1) (m_length2 m - 1)"
  using assms by (intro seg_Cons) (auto simp: lowInv_def)

lemma lowReads:
  assumes "lowInv cmp m"
  shows "arr_get (m_tmp m) (m_cursor1 m) = Some (m_tmp m ! nat (m_cursor1 m))"
    and "1 \<le> m_length2 m \<Longrightarrow> arr_get (m_array m) (m_cursor2 m) = Some (m_array m ! nat (m_cursor2 m))"
    and "arr_set (m_array m) (m_dest m) v = Some (blit (m_array m) (m_dest m) [v])"
  using assms by (auto simp: lowInv_def arr_get_in arr_set_blit)

lemma head_le: "cmp_sorted cmp (x # xs) \<Longrightarrow> z \<in> set (x # xs) \<Longrightarrow> cmp x z \<le> 0"
  by (auto simp: cmp_sorted_Cons)

lemma lowOne1_move:
  assumes inv: "lowInv cmp m" "2 \<le> m_length1 m"
    and le: "\<forall>y\<in>set (lowRun2 m). \<not> cmp y (m_tmp m ! nat (m_cursor1 m)) < 0"
    and m': "m_array m' = blit (m_array m) (m_dest m) [m_tmp m ! nat (m_cursor1 m)]"
      "m_tmp m' = m_tmp m" "m_cursor1 m' = m_cursor1 m + 1" "m_cursor2 m' = m_cursor2 m"
      "m_dest m' = m_dest m + 1" "m_length1 m' = m_length1 m - 1" "m_length2 m' = m_length2 m"
  shows "lowInv cmp m' \<and> lowRes cmp m' = lowRes cmp m"
proof -
  have s: "seg (m_tmp m) (m_cursor1 m) 1 = [m_tmp m ! nat (m_cursor1 m)]"
    using inv by (intro seg_1) (auto simp: lowInv_def)
  show ?thesis
    by (rule lowMove1 [OF inv(1), of 1]) (use inv le m' in \<open>auto simp: s\<close>)
qed

lemma lowOne2_move:
  assumes inv: "lowInv cmp m" "1 \<le> m_length2 m"
    and less: "\<forall>x\<in>set (lowRun1 m). cmp (m_array m ! nat (m_cursor2 m)) x < 0"
    and m': "m_array m' = blit (m_array m) (m_dest m) [m_array m ! nat (m_cursor2 m)]"
      "m_tmp m' = m_tmp m" "m_cursor1 m' = m_cursor1 m" "m_cursor2 m' = m_cursor2 m + 1"
      "m_dest m' = m_dest m + 1" "m_length1 m' = m_length1 m" "m_length2 m' = m_length2 m - 1"
  shows "lowInv cmp m' \<and> lowRes cmp m' = lowRes cmp m"
proof -
  have s: "seg (m_array m) (m_cursor2 m) 1 = [m_array m ! nat (m_cursor2 m)]"
    using inv by (intro seg_1) (auto simp: lowInv_def)
  show ?thesis
    by (rule lowMove2 [OF inv(1), of 1]) (use inv less m' in \<open>auto simp: s\<close>)
qed

subsection \<open>The element-wise loop\<close>

lemma lowStep_exits:
  assumes "lowSt cmp R N m" "lowBusy m"
  shows "exits (\<lambda>m. lowSt cmp R N m \<and> lowDone m)
    (\<lambda>m'. (lowSt cmp R N m' \<and> lowBusy m') \<and> nat (m_length1 m' + m_length2 m') < nat (m_length1 m + m_length2 m))
    (lowStep cmp m)"
proof -
  let ?x = "m_array m ! nat (m_cursor2 m)" and ?y = "m_tmp m ! nat (m_cursor1 m)"
  have inv: "lowInv cmp m" "2 \<le> m_length1 m" "1 \<le> m_length2 m" and R: "lowRes cmp m = R"
    and N: "nat (m_length1 m + m_length2 m) \<le> N"
    using assms by (auto simp: lowSt_def lowBusy_def)
  note heads = lowRun1_Cons [OF inv(1)] lowRun2_Cons [OF inv(1,3)]
  have srt: "cmp_sorted cmp (lowRun1 m)" "cmp_sorted cmp (lowRun2 m)" using inv(1) by (auto simp: lowInv_def)
  show ?thesis
  proof (cases "cmp ?x ?y < 0")
    case True
    let ?m = "m\<lparr>m_array := blit (m_array m) (m_dest m) [?x], m_dest := m_dest m + 1, m_cursor2 := m_cursor2 m + 1,
                      m_count2 := m_count2 m + 1, m_count1 := 0, m_length2 := m_length2 m - 1\<rparr>"
    have "\<forall>z\<in>set (lowRun1 m). cmp ?x z < 0"
      using True srt(1) unfolding heads by (metis head_le less_le_trans)
    then have "lowInv cmp ?m \<and> lowRes cmp ?m = lowRes cmp m"
      using inv by (intro lowOne2_move) auto
    moreover have "lowStep cmp m = Some (m_length2 ?m = 0, ?m)"
      using True lowReads [OF inv(1)] inv by (simp add: lowStep_def Let_def)
    ultimately show ?thesis using inv R N
      by (auto simp: exits_Some lowSt_def lowBusy_def lowDone_def)
  next
    case False
    let ?m = "m\<lparr>m_array := blit (m_array m) (m_dest m) [?y], m_dest := m_dest m + 1, m_cursor1 := m_cursor1 m + 1,
                      m_count1 := m_count1 m + 1, m_count2 := 0, m_length1 := m_length1 m - 1\<rparr>"
    have "\<forall>z\<in>set (lowRun2 m). \<not> cmp z ?y < 0"
      using False srt(2) unfolding heads by (metis head_le le_less_trans)
    then have "lowInv cmp ?m \<and> lowRes cmp ?m = lowRes cmp m"
      using inv by (intro lowOne1_move) auto
    moreover have "lowStep cmp m = Some (m_length1 ?m = 1, ?m)"
      using False lowReads [OF inv(1)] inv by (simp add: lowStep_def Let_def)
    ultimately show ?thesis using inv R N
      by (auto simp: exits_Some lowSt_def lowBusy_def lowDone_def)
  qed
qed

lemma lowLinear_exits:
  assumes "lowSt cmp R N m" "lowBusy m"
  shows "exits (\<lambda>m. lowSt cmp R N m \<and> lowDone m)
    (\<lambda>m'. (lowSt cmp R N m' \<and> lowBusy m') \<and> nat (m_length1 m' + m_length2 m') < nat (m_length1 m + m_length2 m))
    (lowLinear cmp m)"
  by (rule loop_exits [where body = "lowStep cmp" and Q = "\<lambda>m. lowSt cmp R N m \<and> lowBusy m",
        OF lowLinear.simps lowStep_exits]) (use assms in auto)

subsection \<open>The galloping loop\<close>

lemma lowBlock1_exits:
  assumes "lowSt cmp R N m" "lowBusy m"
  shows "exits (\<lambda>m. lowSt cmp R N m \<and> lowDone m)
    (\<lambda>m. (lowSt cmp R N m \<and> lowBusy m) \<and> (\<forall>x\<in>set (lowRun1 m). cmp (m_array m ! nat (m_cursor2 m)) x < 0))
    (lowBlock1 cmp m)"
proof -
  let ?x = "m_array m ! nat (m_cursor2 m)"
  define c where "c = cut (\<lambda>z. \<not> cmp ?x z < 0) (lowRun1 m)"
  let ?X = "seg (m_tmp m) (m_cursor1 m) c"
  let ?m = "m\<lparr>m_count1 := c, m_array := blit (m_array m) (m_dest m) ?X,
      m_dest := m_dest m + c, m_cursor1 := m_cursor1 m + c, m_length1 := m_length1 m - c\<rparr>"
  have inv: "lowInv cmp m" "2 \<le> m_length1 m" "1 \<le> m_length2 m" and R: "lowRes cmp m = R"
    and N: "nat (m_length1 m + m_length2 m) \<le> N"
    using assms by (auto simp: lowSt_def lowBusy_def)
  note b = lowBounds [OF inv(1)]
  have srt: "cmp_sorted cmp (lowRun1 m)" "cmp_sorted cmp (lowRun2 m)" using inv(1) by (simp_all add: lowInv_def)
  have dc: "down_closed (\<lambda>z. \<not> cmp ?x z < 0) (lowRun1 m)"
    using srt(1) by (rule down_closed_gallopRight)
  have "0 \<le> m_length1 m" using b by simp
  note cut = cut_split [OF dc b(1) this b(3), folded c_def]
  have g: "gallopRight ?x (m_tmp m) (m_cursor1 m) (m_length1 m) 0 cmp = Some c"
    unfolding c_def using dc b by (intro gallopRight_eq) linarith+
  have x: "?x \<in> set (lowRun2 m)" using lowRun2_Cons [OF inv(1,3)] by simp
  then have "\<not> \<not> cmp ?x (m_tmp m ! nat (m_cursor1 m + m_length1 m - 1)) < 0" using inv(1) by (simp add: lowInv_def)
  then have lt: "c < m_length1 m"
    unfolding c_def using dc b by (intro cut_lt) linarith+
  have below: "\<forall>z\<in>set ?X. \<forall>y\<in>set (lowRun2 m). \<not> cmp y z < 0"
    using cut(3) srt(2) lowRun2_Cons [OF inv(1,3)] by (metis head_le le_less_trans)
  have mv: "lowInv cmp ?m \<and> lowRes cmp ?m = lowRes cmp m"
    by (rule lowMove1 [OF inv(1) cut(1) lt below]) simp_all
  have "copy_from (m_tmp m) (m_cursor1 m) (m_array m) (m_dest m) (nat c) = Some (blit (m_array m) (m_dest m) ?X)"
    using b cut(1) lt by (intro copy_from_blit) linarith+
  then have run: "lowBlock1 cmp m = (if c \<noteq> 0 then Some (m_length1 ?m \<le> 1, ?m) else Some (False, m\<lparr>m_count1 := c\<rparr>))"
    using lowReads [OF inv(1)] inv(3) g by (simp add: lowBlock1_def Let_def)
  have "int (length ?X) = c" using b cut(1) lt by (simp add: length_seg)
  then have "lowRun2 ?m = lowRun2 m"
    using b cut(1) lt by (simp, intro seg_blit_after) linarith+
  then have "m_array ?m ! nat (m_cursor2 ?m) = ?x"
    using lowRun2_Cons [OF inv(1,3)] lowRun2_Cons [of ?m] mv inv by simp
  then have post: "\<forall>z\<in>set (lowRun1 ?m). cmp (m_array ?m ! nat (m_cursor2 ?m)) z < 0"
    using cut(4) by simp
  have st: "lowSt cmp R N ?m" using mv R N cut(1) by (auto simp: lowSt_def)
  show ?thesis
  proof (cases "c = 0")
    case True
    then show ?thesis using assms cut(4) by (simp add: run exits_Some)
  next
    case False
    then show ?thesis using st post lt inv(3)
      by (auto simp: run exits_Some lowDone_def lowBusy_def)
  qed
qed

lemma lowOne2_exits:
  assumes "lowSt cmp R N m" "lowBusy m"
    and less: "\<forall>x\<in>set (lowRun1 m). cmp (m_array m ! nat (m_cursor2 m)) x < 0"
  shows "exits (\<lambda>m. lowSt cmp R N m \<and> lowDone m)
    (\<lambda>m. lowSt cmp R (N - 1) m \<and> lowBusy m) (lowOne2 m)"
proof -
  let ?x = "m_array m ! nat (m_cursor2 m)"
  let ?m = "m\<lparr>m_array := blit (m_array m) (m_dest m) [?x], m_dest := m_dest m + 1,
      m_cursor2 := m_cursor2 m + 1, m_length2 := m_length2 m - 1\<rparr>"
  have inv: "lowInv cmp m" "2 \<le> m_length1 m" "1 \<le> m_length2 m" and R: "lowRes cmp m = R"
    and N: "nat (m_length1 m + m_length2 m) \<le> N"
    using assms by (auto simp: lowSt_def lowBusy_def)
  have "lowInv cmp ?m \<and> lowRes cmp ?m = lowRes cmp m"
    using inv less by (intro lowOne2_move) auto
  moreover have "lowOne2 m = Some (m_length2 ?m = 0, ?m)"
    using lowReads [OF inv(1)] inv by (simp add: lowOne2_def Let_def)
  ultimately show ?thesis using inv R N
    by (auto simp: exits_Some lowSt_def lowBusy_def lowDone_def)
qed

lemma lowOne1_exits:
  assumes "lowSt cmp R N m" "lowBusy m"
    and le: "\<forall>y\<in>set (lowRun2 m). \<not> cmp y (m_tmp m ! nat (m_cursor1 m)) < 0"
  shows "exits (\<lambda>m. lowSt cmp R N m \<and> lowDone m)
    (\<lambda>m. lowSt cmp R (N - 1) m \<and> lowBusy m) (lowOne1 m)"
proof -
  let ?y = "m_tmp m ! nat (m_cursor1 m)"
  let ?m = "m\<lparr>m_array := blit (m_array m) (m_dest m) [?y], m_dest := m_dest m + 1,
      m_cursor1 := m_cursor1 m + 1, m_length1 := m_length1 m - 1\<rparr>"
  have inv: "lowInv cmp m" "2 \<le> m_length1 m" "1 \<le> m_length2 m" and R: "lowRes cmp m = R"
    and N: "nat (m_length1 m + m_length2 m) \<le> N"
    using assms by (auto simp: lowSt_def lowBusy_def)
  have "lowInv cmp ?m \<and> lowRes cmp ?m = lowRes cmp m"
    using inv le by (intro lowOne1_move) auto
  moreover have "lowOne1 m = Some (m_length1 ?m = 1, ?m)"
    using lowReads [OF inv(1)] inv by (simp add: lowOne1_def Let_def)
  ultimately show ?thesis using inv R N
    by (auto simp: exits_Some lowSt_def lowBusy_def lowDone_def)
qed

lemma lowBlock2_exits:
  assumes "lowSt cmp R N m" "lowBusy m"
  shows "exits (\<lambda>m. lowSt cmp R N m \<and> lowDone m)
    (\<lambda>m. (lowSt cmp R N m \<and> lowBusy m) \<and> (\<forall>y\<in>set (lowRun2 m). \<not> cmp y (m_tmp m ! nat (m_cursor1 m)) < 0))
    (lowBlock2 cmp m)"
proof -
  let ?y = "m_tmp m ! nat (m_cursor1 m)"
  define c where "c = cut (\<lambda>z. 0 < cmp ?y z) (lowRun2 m)"
  let ?Y = "seg (m_array m) (m_cursor2 m) c"
  let ?m = "m\<lparr>m_count2 := c, m_array := blit (m_array m) (m_dest m) ?Y,
      m_dest := m_dest m + c, m_cursor2 := m_cursor2 m + c, m_length2 := m_length2 m - c\<rparr>"
  have inv: "lowInv cmp m" "2 \<le> m_length1 m" "1 \<le> m_length2 m" and R: "lowRes cmp m = R"
    and N: "nat (m_length1 m + m_length2 m) \<le> N"
    using assms by (auto simp: lowSt_def lowBusy_def)
  note b = lowBounds [OF inv(1)]
  have srt: "cmp_sorted cmp (lowRun1 m)" "cmp_sorted cmp (lowRun2 m)" using inv(1) by (simp_all add: lowInv_def)
  have dc: "down_closed (\<lambda>z. 0 < cmp ?y z) (lowRun2 m)"
    using srt(2) by (rule down_closed_gallopLeft)
  have "0 \<le> m_cursor2 m" using b by simp
  note cut = cut_split [OF dc this b(6,7), folded c_def]
  have g: "gallopLeft ?y (m_array m) (m_cursor2 m) (m_length2 m) 0 cmp = Some c"
    unfolding c_def using dc b inv(3) by (intro gallopLeft_eq) linarith+
  have below: "\<forall>x\<in>set (lowRun1 m). \<forall>z\<in>set ?Y. cmp z x < 0"
    using cut(3) srt(1) lowRun1_Cons [OF inv(1)] by (metis head_le less_le_trans swap)
  have mv: "lowInv cmp ?m \<and> lowRes cmp ?m = lowRes cmp m"
    by (rule lowMove2 [OF inv(1) cut(1,2) below]) simp_all
  have "int (length ?Y) = c" using b cut(1,2) by (simp add: length_seg)
  then have run2: "lowRun2 ?m = seg (m_array m) (m_cursor2 m + c) (m_length2 m - c)"
    using b cut(1,2) by (simp, intro seg_blit_after) linarith+
  have "copy_up (m_array m) (m_dest m) (m_cursor2 m) (nat c) = Some (blit (m_array m) (m_dest m) ?Y)"
    using b cut(1,2) by (intro copy_up_blit) linarith+
  then have run: "lowBlock2 cmp m = (if c \<noteq> 0 then Some (m_length2 ?m = 0, ?m) else Some (False, m\<lparr>m_count2 := c\<rparr>))"
    using lowReads [OF inv(1)] inv(3) g by (simp add: lowBlock2_def Let_def)
  have post: "\<forall>z\<in>set (lowRun2 ?m). \<not> cmp z (m_tmp ?m ! nat (m_cursor1 ?m)) < 0"
    using cut(4) run2 by (simp add: swap)
  have st: "lowSt cmp R N ?m" using mv R N cut(1) by (auto simp: lowSt_def)
  show ?thesis
  proof (cases "c = 0")
    case True
    then show ?thesis using assms cut(4) by (simp add: run exits_Some swap)
  next
    case False
    then show ?thesis using st post cut(2) inv(2)
      by (auto simp: run exits_Some lowDone_def lowBusy_def)
  qed
qed

lemma lowSt_mono: "lowSt cmp R M m \<Longrightarrow> M \<le> N \<Longrightarrow> lowSt cmp R N m"
  by (auto simp: lowSt_def)

lemma lowGallopBody_exits:
  assumes "lowSt cmp R N m" "lowBusy m"
  shows "exits (\<lambda>m. lowSt cmp R N m \<and> lowDone m)
    (\<lambda>m'. (lowSt cmp R N m' \<and> lowBusy m') \<and> nat (m_length1 m' + m_length2 m') < nat (m_length1 m + m_length2 m))
    (lowGallopBody cmp m)"
proof -
  define K where "K = nat (m_length1 m + m_length2 m)"
  let ?D = "\<lambda>m. lowSt cmp R K m \<and> lowDone m" and ?Q = "\<lambda>M m. lowSt cmp R M m \<and> lowBusy m"
  have K: "lowSt cmp R K m" "K \<le> N" "0 < K" using assms by (auto simp: lowSt_def K_def lowBusy_def)
  have less: "K - Suc 0 \<le> K" "K - Suc 0 - Suc 0 \<le> K - Suc 0" by auto
  note b1 = lowBlock1_exits [OF K(1) assms(2)]
  have o2: "exits ?D (?Q (K - 1)) (unless_exit (lowBlock1 cmp m) lowOne2)"
    by (rule exits_unless_exit [OF b1]) (blast intro: lowOne2_exits)
  have b2: "exits ?D (\<lambda>m. ?Q (K - 1) m \<and> (\<forall>y\<in>set (lowRun2 m). \<not> cmp y (m_tmp m ! nat (m_cursor1 m)) < 0))
      (unless_exit (unless_exit (lowBlock1 cmp m) lowOne2) (lowBlock2 cmp))"
    by (rule exits_unless_exit [OF o2], rule exits_weaken, rule lowBlock2_exits)
      (auto intro: lowSt_mono [OF _ less(1)])
  have o1: "exits ?D (?Q (K - 1))
      (unless_exit (unless_exit (unless_exit (lowBlock1 cmp m) lowOne2) (lowBlock2 cmp)) lowOne1)"
    by (rule exits_unless_exit [OF b2], rule exits_weaken, rule lowOne1_exits)
      (auto intro: lowSt_mono [OF _ less(1)] lowSt_mono [OF _ less(2)])
  have "exits ?D (?Q (K - 1)) (lowGallopBody cmp m)"
    unfolding lowGallopBody_def by (rule exits_unless_exit [OF o1]) (simp add: exits_Some)
  then show ?thesis
    by (rule exits_weaken) (use K in \<open>auto simp: lowSt_def K_def [symmetric] lowBusy_def\<close>)
qed

lemma lowGallop_exits:
  assumes "lowSt cmp R N m" "lowBusy m"
  shows "exits (\<lambda>m. lowSt cmp R N m \<and> lowDone m)
    (\<lambda>m'. (lowSt cmp R N m' \<and> lowBusy m') \<and> nat (m_length1 m' + m_length2 m') < nat (m_length1 m + m_length2 m))
    (lowGallop cmp m)"
  by (rule loop_exits [where body = "lowGallopBody cmp" and Q = "\<lambda>m. lowSt cmp R N m \<and> lowBusy m",
        OF lowGallop.simps lowGallopBody_exits]) (use assms in auto)

subsection \<open>The main loop and the result\<close>

lemma lowMain_returns:
  assumes "lowSt cmp R N m" "lowBusy m"
  shows "\<exists>m'. lowMain cmp m = Some m' \<and> lowSt cmp R N m' \<and> lowDone m'"
  using assms
proof (induction "nat (m_length1 m + m_length2 m)" arbitrary: m rule: less_induct)
  case less
  let ?m0 = "m\<lparr>m_count1 := 0, m_count2 := 0\<rparr>"
  have "lowSt cmp R N ?m0" "lowBusy ?m0" using less.prems by simp_all
  from lowLinear_exits [OF this] consider
    m1 where "lowLinear cmp ?m0 = Some (True, m1)" "lowSt cmp R N m1" "lowDone m1"
    | m1 where "lowLinear cmp ?m0 = Some (False, m1)" "lowSt cmp R N m1" "lowBusy m1"
      "nat (m_length1 m1 + m_length2 m1) < nat (m_length1 m + m_length2 m)"
    by (auto simp: exits_def)
  then show ?case
  proof cases
    case 1
    then show ?thesis by (subst lowMain.simps) simp
  next
    case 2
    from lowGallop_exits [OF 2(2,3)] consider
      m2 where "lowGallop cmp m1 = Some (True, m2)" "lowSt cmp R N m2" "lowDone m2"
      | m2 where "lowGallop cmp m1 = Some (False, m2)" "lowSt cmp R N m2" "lowBusy m2"
        "nat (m_length1 m2 + m_length2 m2) < nat (m_length1 m1 + m_length2 m1)"
      by (auto simp: exits_def)
    then show ?thesis
    proof cases
      case A: 1
      then show ?thesis using 2 by (subst lowMain.simps) simp
    next
      case B: 2
      then have "\<exists>m'. lowMain cmp (penalise m2) = Some m' \<and> lowSt cmp R N m' \<and> lowDone m'"
        using 2 by (intro less.hyps) (simp_all add: penalise_def)
      then show ?thesis using 2 B by (subst lowMain.simps) simp
    qed
  qed
qed

lemma lowRest1:
  assumes inv: "lowInv cmp m" "m_length2 m = 0"
  shows "copy_from (m_tmp m) (m_cursor1 m) (m_array m) (m_dest m) (nat (m_length1 m)) = Some (lowRes cmp m)"
proof -
  note b = lowBounds [OF inv(1)]
  have "copy_from (m_tmp m) (m_cursor1 m) (m_array m) (m_dest m) (nat (m_length1 m))
      = Some (blit (m_array m) (m_dest m) (lowRun1 m))"
    using b inv(2) by (intro copy_from_blit) linarith+
  moreover have "nat (m_dest m) + length (lowRun1 m) = nat (m_cursor2 m)"
    using b by (simp add: length_seg nat_add_distrib [symmetric])
  ultimately show ?thesis using inv(2) by (simp add: lowRes_def blit_def)
qed

lemma lowRest2:
  assumes inv: "lowInv cmp m" "m_length1 m = 1"
  shows "do { a \<leftarrow> copy_up (m_array m) (m_dest m) (m_cursor2 m) (nat (m_length2 m));
        y \<leftarrow> arr_get (m_tmp m) (m_cursor1 m);
        arr_set a (m_dest m + m_length2 m) y } = Some (lowRes cmp m)"
proof -
  let ?y = "m_tmp m ! nat (m_cursor1 m)" and ?Y = "lowRun2 m"
  let ?a = "blit (m_array m) (m_dest m) ?Y"
  note b = lowBounds [OF inv(1)]
  have len: "int (length ?Y) = m_length2 m" using b by (simp add: length_seg)
  have "copy_up (m_array m) (m_dest m) (m_cursor2 m) (nat (m_length2 m)) = Some ?a"
    using b by (intro copy_up_blit) linarith+
  moreover have "arr_set ?a (m_dest m + m_length2 m) ?y = Some (blit ?a (m_dest m + m_length2 m) [?y])"
    using b len inv(2) by (intro arr_set_blit) (simp_all add: length_blit)
  moreover have "blit ?a (m_dest m + m_length2 m) [?y] = blit (m_array m) (m_dest m) (?Y @ [?y])"
    using b len inv(2) by (intro blit_blit) simp_all
  moreover have "cmp_merge cmp (lowRun1 m) ?Y = ?Y @ [?y]"
  proof -
    have run1: "lowRun1 m = [?y]" using lowRun1_Cons [OF inv(1)] inv(2) by simp
    have "\<forall>x\<in>set [?y]. \<forall>y\<in>set ?Y. cmp y x < 0"
      using inv by (simp add: lowInv_def)
    from cmp_merge_suffix1 [OF this, of "[]"] show ?thesis by (simp add: run1)
  qed
  moreover have "nat (m_dest m) + length (?Y @ [?y]) = nat (m_cursor2 m + m_length2 m)"
    using b len inv(2) by (simp add: nat_add_distrib [symmetric])
  ultimately show ?thesis
    using lowReads(1) [OF inv(1)] by (simp add: lowRes_def blit_def)
qed

lemma lowTail_eq:
  assumes "lowInv cmp m" "lowDone m"
  shows "lowTail m = Some (lowRes cmp m)"
  using assms lowRest1 lowRest2 lowBounds(2) [OF assms(1)]
  by (auto simp: lowTail_def lowDone_def)

text \<open>
  The state \<open>mergeLow\<close> would start from if its first, unconditional move were a move of the
  loop. The runs are \<open>xs\<close> and \<open>ys\<close>, and what their trimming by \<open>mergeAt\<close> guarantees.
\<close>

lemma lowStart:
  assumes b: "0 \<le> s1" "1 \<le> n1" "1 \<le> n2" "s1 + n1 + n2 \<le> int (length A)" "int (length A) < 2 ^ 31"
    and run1: "xs = seg A s1 n1" "cmp_sorted cmp xs"
    and run2: "ys = seg A (s1 + n1) n2" "cmp_sorted cmp ys"
    and last: "\<forall>y\<in>set ys. cmp y (last xs) < 0"
    and m: "m_array m = A" "m_tmp m = blit t 0 xs" "m_cursor1 m = 0" "m_cursor2 m = s1 + n1" "m_dest m = s1"
      "m_length1 m = n1" "m_length2 m = n2"
  shows "lowInv cmp m" "lowRes cmp m = blit A s1 (cmp_merge cmp xs ys)" "lowRun1 m = xs" "hd ys = A ! nat (s1 + n1)"
proof -
  have len: "int (length xs) = n1" "int (length ys) = n2" using b by (auto simp: run1 run2 length_seg)
  show r1: "lowRun1 m = xs" using seg_blit_0 [of t xs] len by (simp add: m)
  have r2: "lowRun2 m = ys" by (simp add: m run2)
  have lst: "m_tmp m ! nat (m_cursor1 m + m_length1 m - 1) = last xs"
  proof -
    have "xs \<noteq> []" using len b by auto
    moreover have "nat (n1 - 1) = length xs - 1" using len by simp
    ultimately show ?thesis by (simp add: m blit_def nth_append last_conv_nth)
  qed
  have "length (blit t 0 xs) \<ge> length xs" by (simp add: blit_def)
  then show inv0: "lowInv cmp m"
    unfolding lowInv_def r1 r2 lst using b run1(2) run2(2) last len by (simp add: m)
  show "hd ys = A ! nat (s1 + n1)" using lowRun2_Cons [OF inv0] b(3) unfolding r2 unfolding m by simp
  have "nat s1 + (length xs + length ys) = nat (s1 + n1 + n2)" using len b by simp
  then show "lowRes cmp m = blit A s1 (cmp_merge cmp xs ys)"
    unfolding lowRes_def r1 r2 blit_def by (simp add: m)
qed

lemma mergeLow_eq:
  assumes b: "0 \<le> s1" "1 \<le> n1" "1 \<le> n2" "s1 + n1 + n2 \<le> int (length (ts_array ts))"
      "int (length (ts_array ts)) < 2 ^ 31"
    and run1: "xs = seg (ts_array ts) s1 n1" "cmp_sorted cmp xs"
    and run2: "ys = seg (ts_array ts) (s1 + n1) n2" "cmp_sorted cmp ys"
    and first: "\<forall>x\<in>set xs. cmp (hd ys) x < 0" and last: "\<forall>y\<in>set ys. cmp y (last xs) < 0"
  shows "\<exists>t g. mergeLow cmp ts s1 n1 (s1 + n1) n2
    = Some (ts\<lparr>ts_array := blit (ts_array ts) s1 (cmp_merge cmp xs ys), ts_tmp := t, ts_minGallop := g\<rparr>)"
proof -
  let ?A = "ts_array ts" and ?t = "blit (ts_tmp ts) 0 xs" and ?y = "ts_array ts ! nat (s1 + n1)"
  define m0 where "m0 = \<lparr>m_array = ?A, m_tmp = ?t, m_cursor1 = 0, m_cursor2 = s1 + n1, m_dest = s1,
    m_length1 = n1, m_length2 = n2, m_count1 = 0, m_count2 = 0, m_minGallop = ts_minGallop ts\<rparr>"
  define m1 where "m1 = m0\<lparr>m_array := blit ?A s1 [?y], m_dest := s1 + 1, m_cursor2 := s1 + n1 + 1,
    m_length2 := n2 - 1\<rparr>"
  have m0: "lowInv cmp m0" "lowRes cmp m0 = blit ?A s1 (cmp_merge cmp xs ys)" "lowRun1 m0 = xs" "hd ys = ?y"
    using lowStart [OF b run1 run2 last, of m0 "ts_tmp ts"] by (simp_all add: m0_def)
  have inv1: "lowInv cmp m1 \<and> lowRes cmp m1 = lowRes cmp m0"
    by (rule lowOne2_move [OF m0(1)]) (use b first m0(3,4) in \<open>simp_all add: m0_def m1_def\<close>)
  have t: "copy_from ?A s1 (ts_tmp ts) 0 (nat n1) = Some ?t"
    using b unfolding run1(1) by (intro copy_from_blit) simp_all
  have x: "arr_get ?A (s1 + n1) = Some ?y" "arr_set ?A s1 ?y = Some (blit ?A s1 [?y])"
    using b by (simp_all add: arr_get_in arr_set_blit)
  have body: "mergeLow cmp ts s1 n1 (s1 + n1) n2 =
    (if m_length2 m1 = 0 then
       do { a \<leftarrow> copy_from (m_tmp m1) (m_cursor1 m1) (m_array m1) (m_dest m1) (nat (m_length1 m1));
            Some (ts\<lparr>ts_array := a, ts_tmp := ?t\<rparr>) }
     else if m_length1 m1 = 1 then
       do { a \<leftarrow> copy_up (m_array m1) (m_dest m1) (m_cursor2 m1) (nat (m_length2 m1));
            y \<leftarrow> arr_get (m_tmp m1) (m_cursor1 m1);
            a \<leftarrow> arr_set a (m_dest m1 + m_length2 m1) y;
            Some (ts\<lparr>ts_array := a, ts_tmp := ?t\<rparr>) }
     else do { m \<leftarrow> lowMain cmp m1; a \<leftarrow> lowTail m;
       Some (ts\<lparr>ts_array := a, ts_tmp := m_tmp m, ts_minGallop := (if m_minGallop m < 1 then 1 else m_minGallop m)\<rparr>) })"
    by (simp add: mergeLow_def Let_def m1_def m0_def t x)
  consider (rest1) "m_length2 m1 = 0" | (rest2) "m_length2 m1 \<noteq> 0" "m_length1 m1 = 1" | (loop) "\<not> lowDone m1"
    by (auto simp: lowDone_def)
  then show ?thesis
  proof cases
    case rest1
    then have "mergeLow cmp ts s1 n1 (s1 + n1) n2 = Some (ts\<lparr>ts_array := lowRes cmp m1, ts_tmp := ?t,
        ts_minGallop := ts_minGallop ts\<rparr>)"
      using lowRest1 [of m1] inv1 by (simp add: body)
    then show ?thesis
      using inv1 m0(2) by (intro exI [of _ ?t] exI [of _ "ts_minGallop ts"]) simp
  next
    case rest2
    then have "mergeLow cmp ts s1 n1 (s1 + n1) n2 = Some (ts\<lparr>ts_array := lowRes cmp m1, ts_tmp := ?t,
        ts_minGallop := ts_minGallop ts\<rparr>)"
      using lowRest2 [of m1] inv1 by (auto simp: body bind_eq_Some_conv)
    then show ?thesis
      using inv1 m0(2) by (intro exI [of _ ?t] exI [of _ "ts_minGallop ts"]) simp
  next
    case loop
    then have "lowBusy m1" using lowBounds [of cmp m1] inv1 by (auto simp: lowDone_def lowBusy_def)
    moreover have "lowSt cmp (lowRes cmp m0) (nat (m_length1 m1 + m_length2 m1)) m1"
      using inv1 by (simp add: lowSt_def)
    ultimately obtain m2 where "lowMain cmp m1 = Some m2" "lowInv cmp m2" "lowRes cmp m2 = lowRes cmp m0" "lowDone m2"
      using lowMain_returns by (fastforce simp: lowSt_def)
    then show ?thesis using lowTail_eq loop m0(2) by (auto simp: body lowDone_def)
  qed
qed

end

end
