(* ===== verification/Timsort_MergeHigh.thy ===== *)
theory Timsort_MergeHigh
  imports Timsort_MergeLow
begin

text \<open>
  The array code of \<open>mergeHigh\<close>, which merges from the right and buffers the second run,
  writes the same stable merge as \<open>mergeLow\<close>. The invariant and the proof mirror that theory.
\<close>

section \<open>mergeHigh\<close>

abbreviation highRun1 :: "int \<Rightarrow> 'a mergevars \<Rightarrow> 'a list" where
  "highRun1 s m \<equiv> seg (m_array m) s (m_length1 m)"

abbreviation highRun2 :: "'a mergevars \<Rightarrow> 'a list" where
  "highRun2 m \<equiv> seg (m_tmp m) 0 (m_length2 m)"

definition highRes :: "('a \<Rightarrow> 'a \<Rightarrow> 'n::{linorder,zero}) \<Rightarrow> int \<Rightarrow> 'a mergevars \<Rightarrow> 'a list" where
  "highRes cmp s m = take (nat s) (m_array m) @ cmp_merge cmp (highRun1 s m) (highRun2 m)
     @ drop (nat (m_dest m + 1)) (m_array m)"

text \<open>The first element of the second run is below the first run, so it comes first.\<close>

definition highInv :: "('a \<Rightarrow> 'a \<Rightarrow> 'n::{linorder,zero}) \<Rightarrow> int \<Rightarrow> 'a mergevars \<Rightarrow> bool" where
  "highInv cmp s m \<longleftrightarrow>
     0 \<le> s \<and> 0 \<le> m_length1 m \<and> 1 \<le> m_length2 m \<and> m_length2 m \<le> int (length (m_tmp m)) \<and>
     m_cursor1 m = s + m_length1 m - 1 \<and> m_cursor2 m = m_length2 m - 1 \<and>
     m_dest m = s + m_length1 m + m_length2 m - 1 \<and> m_dest m < int (length (m_array m)) \<and>
     int (length (m_array m)) < 2 ^ 31 \<and>
     cmp_sorted cmp (highRun1 s m) \<and> cmp_sorted cmp (highRun2 m) \<and>
     (\<forall>x\<in>set (highRun1 s m). cmp (m_tmp m ! 0) x < 0)"

definition highSt :: "('a \<Rightarrow> 'a \<Rightarrow> 'n::{linorder,zero}) \<Rightarrow> int \<Rightarrow> 'a list \<Rightarrow> nat \<Rightarrow> 'a mergevars \<Rightarrow> bool" where
  "highSt cmp s R N m \<longleftrightarrow> highInv cmp s m \<and> highRes cmp s m = R \<and> nat (m_length1 m + m_length2 m) \<le> N"

definition highBusy :: "'a mergevars \<Rightarrow> bool" where
  "highBusy m \<longleftrightarrow> 1 \<le> m_length1 m \<and> 2 \<le> m_length2 m"

definition highDone :: "'a mergevars \<Rightarrow> bool" where
  "highDone m \<longleftrightarrow> m_length1 m = 0 \<or> m_length2 m = 1"

lemma highSt_counters [simp]:
  "highSt cmp s R N (m\<lparr>m_count1 := c\<rparr>) = highSt cmp s R N m"
  "highSt cmp s R N (m\<lparr>m_count2 := c\<rparr>) = highSt cmp s R N m"
  "highSt cmp s R N (m\<lparr>m_minGallop := c\<rparr>) = highSt cmp s R N m"
  "highBusy (m\<lparr>m_count1 := c\<rparr>) = highBusy m"
  "highBusy (m\<lparr>m_count2 := c\<rparr>) = highBusy m"
  "highBusy (m\<lparr>m_minGallop := c\<rparr>) = highBusy m"
  by (simp_all add: highSt_def highInv_def highRes_def highBusy_def)

lemma highBounds:
  assumes "highInv cmp s m"
  shows "0 \<le> s" "0 \<le> m_length1 m" "1 \<le> m_length2 m" "m_length2 m \<le> int (length (m_tmp m))"
    "m_cursor1 m = s + m_length1 m - 1" "m_cursor2 m = m_length2 m - 1"
    "m_dest m = s + m_length1 m + m_length2 m - 1" "m_dest m < int (length (m_array m))"
    "int (length (m_array m)) < 2 ^ 31"
  using assms by (simp_all add: highInv_def)

lemma highSt_mono: "highSt cmp s R M m \<Longrightarrow> M \<le> N \<Longrightarrow> highSt cmp s R N m"
  by (auto simp: highSt_def)

context comparator
begin

lemma highMove1:
  assumes inv: "highInv cmp s m" and c: "0 \<le> c" "c \<le> m_length1 m"
    and above: "\<forall>x\<in>set (seg (m_array m) (s + m_length1 m - c) c). \<forall>y\<in>set (highRun2 m). cmp y x < 0"
    and m': "m_array m' = blit (m_array m) (m_dest m - c + 1) (seg (m_array m) (s + m_length1 m - c) c)"
      "m_tmp m' = m_tmp m" "m_cursor1 m' = m_cursor1 m - c" "m_cursor2 m' = m_cursor2 m"
      "m_dest m' = m_dest m - c" "m_length1 m' = m_length1 m - c" "m_length2 m' = m_length2 m"
  shows "highInv cmp s m' \<and> highRes cmp s m' = highRes cmp s m"
proof -
  let ?X = "seg (m_array m) (s + m_length1 m - c) c" and ?d = "m_dest m - c + 1"
  note b = highBounds [OF inv]
  have len: "int (length ?X) = c" using b c by (simp add: length_seg)
  have fit: "0 \<le> ?d" "?d + int (length ?X) \<le> int (length (m_array m))" using b c len by linarith+
  have run1': "highRun1 s m' = seg (m_array m) s (m_length1 m - c)"
    unfolding m' using b c fit by (intro seg_blit_before) linarith+
  have run1: "highRun1 s m = highRun1 s m' @ ?X"
    using seg_append [of s "m_length1 m - c" c "m_array m"] b c by (simp add: run1' algebra_simps)
  have front: "take (nat s) (m_array m') = take (nat s) (m_array m)"
    unfolding m' using b c fit by (intro take_blit_before) linarith+
  have rest: "drop (nat (m_dest m' + 1)) (m_array m') = ?X @ drop (nat (m_dest m + 1)) (m_array m)"
    using drop_blit [OF fit] len by (simp add: m')
  have "cmp_merge cmp (highRun1 s m) (highRun2 m) = cmp_merge cmp (highRun1 s m') (highRun2 m) @ ?X"
    using above by (simp add: run1 cmp_merge_suffix1)
  then have "highRes cmp s m' = highRes cmp s m"
    unfolding highRes_def front rest by (simp add: m'(2,7))
  moreover have "highInv cmp s m'"
    using inv c len fit run1 unfolding highInv_def
    by (auto simp: m'(2-) cmp_sorted_append length_blit m'(1) [THEN arg_cong, of length])
  ultimately show ?thesis by simp
qed

lemma highMove2:
  assumes inv: "highInv cmp s m" and c: "0 \<le> c" "c < m_length2 m"
    and above: "\<forall>x\<in>set (highRun1 s m). \<forall>y\<in>set (seg (m_tmp m) (m_length2 m - c) c). \<not> cmp y x < 0"
    and m': "m_array m' = blit (m_array m) (m_dest m - c + 1) (seg (m_tmp m) (m_length2 m - c) c)"
      "m_tmp m' = m_tmp m" "m_cursor1 m' = m_cursor1 m" "m_cursor2 m' = m_cursor2 m - c"
      "m_dest m' = m_dest m - c" "m_length1 m' = m_length1 m" "m_length2 m' = m_length2 m - c"
  shows "highInv cmp s m' \<and> highRes cmp s m' = highRes cmp s m"
proof -
  let ?Y = "seg (m_tmp m) (m_length2 m - c) c" and ?d = "m_dest m - c + 1"
  note b = highBounds [OF inv]
  have len: "int (length ?Y) = c" using b c by (simp add: length_seg)
  have fit: "0 \<le> ?d" "?d + int (length ?Y) \<le> int (length (m_array m))" using b c len by linarith+
  have run1: "highRun1 s m' = highRun1 s m"
    unfolding m' using b c fit by (intro seg_blit_before) linarith+
  have run2: "highRun2 m = highRun2 m' @ ?Y"
    using seg_append [of 0 "m_length2 m - c" c "m_tmp m"] b c by (simp add: m')
  have front: "take (nat s) (m_array m') = take (nat s) (m_array m)"
    unfolding m' using b c fit by (intro take_blit_before) linarith+
  have rest: "drop (nat (m_dest m' + 1)) (m_array m') = ?Y @ drop (nat (m_dest m + 1)) (m_array m)"
    using drop_blit [OF fit] len by (simp add: m')
  have "cmp_merge cmp (highRun1 s m) (highRun2 m) = cmp_merge cmp (highRun1 s m) (highRun2 m') @ ?Y"
    using above by (simp add: run2 cmp_merge_suffix2)
  then have "highRes cmp s m' = highRes cmp s m"
    unfolding highRes_def front rest run1 by simp
  moreover have "highInv cmp s m'"
    using inv c len fit run1 run2 unfolding highInv_def
    by (auto simp: m'(2-) cmp_sorted_append length_blit m'(1) [THEN arg_cong, of length])
  ultimately show ?thesis by simp
qed

text \<open>The last elements of the two runs.\<close>

lemma highRun1_snoc:
  assumes "highInv cmp s m" "1 \<le> m_length1 m"
  shows "highRun1 s m = seg (m_array m) s (m_length1 m - 1) @ [m_array m ! nat (m_cursor1 m)]"
proof -
  note b = highBounds [OF assms(1)]
  have "highRun1 s m = seg (m_array m) s (m_length1 m - 1) @ [m_array m ! nat (s + m_length1 m - 1)]"
    using b assms(2) by (intro seg_snoc) linarith+
  then show ?thesis by (simp add: b(5))
qed

lemma highRun2_snoc:
  assumes "highInv cmp s m"
  shows "highRun2 m = seg (m_tmp m) 0 (m_length2 m - 1) @ [m_tmp m ! nat (m_cursor2 m)]"
proof -
  note b = highBounds [OF assms(1)]
  have "highRun2 m = seg (m_tmp m) 0 (m_length2 m - 1) @ [m_tmp m ! nat (0 + m_length2 m - 1)]"
    using b by (intro seg_snoc) linarith+
  then show ?thesis by (simp add: b(6))
qed

lemma highReads:
  assumes "highInv cmp s m"
  shows "arr_get (m_tmp m) (m_cursor2 m) = Some (m_tmp m ! nat (m_cursor2 m))"
    and "1 \<le> m_length1 m \<Longrightarrow> arr_get (m_array m) (m_cursor1 m) = Some (m_array m ! nat (m_cursor1 m))"
    and "arr_set (m_array m) (m_dest m) v = Some (blit (m_array m) (m_dest m) [v])"
  using highBounds [OF assms] by (auto simp: arr_get_in arr_set_blit)

lemma last_ge: "cmp_sorted cmp (xs @ [x]) \<Longrightarrow> z \<in> set (xs @ [x]) \<Longrightarrow> cmp z x \<le> 0"
  by (auto simp: cmp_sorted_append)

lemma highOne1_move:
  assumes inv: "highInv cmp s m" "1 \<le> m_length1 m"
    and less: "\<forall>y\<in>set (highRun2 m). cmp y (m_array m ! nat (m_cursor1 m)) < 0"
    and m': "m_array m' = blit (m_array m) (m_dest m) [m_array m ! nat (m_cursor1 m)]"
      "m_tmp m' = m_tmp m" "m_cursor1 m' = m_cursor1 m - 1" "m_cursor2 m' = m_cursor2 m"
      "m_dest m' = m_dest m - 1" "m_length1 m' = m_length1 m - 1" "m_length2 m' = m_length2 m"
  shows "highInv cmp s m' \<and> highRes cmp s m' = highRes cmp s m"
proof -
  note b = highBounds [OF inv(1)]
  have "seg (m_array m) (s + m_length1 m - 1) 1 = [m_array m ! nat (s + m_length1 m - 1)]"
    using b inv(2) by (intro seg_1) linarith+
  then have s: "seg (m_array m) (s + m_length1 m - 1) 1 = [m_array m ! nat (m_cursor1 m)]"
    by (simp add: b(5))
  show ?thesis
    by (rule highMove1 [OF inv(1), of 1]) (use inv less m' in \<open>auto simp: s\<close>)
qed

lemma highOne2_move:
  assumes inv: "highInv cmp s m" "2 \<le> m_length2 m"
    and le: "\<forall>x\<in>set (highRun1 s m). \<not> cmp (m_tmp m ! nat (m_cursor2 m)) x < 0"
    and m': "m_array m' = blit (m_array m) (m_dest m) [m_tmp m ! nat (m_cursor2 m)]"
      "m_tmp m' = m_tmp m" "m_cursor1 m' = m_cursor1 m" "m_cursor2 m' = m_cursor2 m - 1"
      "m_dest m' = m_dest m - 1" "m_length1 m' = m_length1 m" "m_length2 m' = m_length2 m - 1"
  shows "highInv cmp s m' \<and> highRes cmp s m' = highRes cmp s m"
proof -
  note b = highBounds [OF inv(1)]
  have "seg (m_tmp m) (m_length2 m - 1) 1 = [m_tmp m ! nat (m_length2 m - 1)]"
    using b inv(2) by (intro seg_1) linarith+
  then have s: "seg (m_tmp m) (m_length2 m - 1) 1 = [m_tmp m ! nat (m_cursor2 m)]"
    by (simp add: b(6))
  show ?thesis
    by (rule highMove2 [OF inv(1), of 1]) (use inv le m' in \<open>auto simp: s\<close>)
qed

subsection \<open>The element-wise loop\<close>

lemma highStep_exits:
  assumes "highSt cmp s R N m" "highBusy m"
  shows "exits (\<lambda>m. highSt cmp s R N m \<and> highDone m)
    (\<lambda>m'. (highSt cmp s R N m' \<and> highBusy m') \<and> nat (m_length1 m' + m_length2 m') < nat (m_length1 m + m_length2 m))
    (highStep cmp m)"
proof -
  let ?x = "m_array m ! nat (m_cursor1 m)" and ?y = "m_tmp m ! nat (m_cursor2 m)"
  have inv: "highInv cmp s m" "1 \<le> m_length1 m" "2 \<le> m_length2 m" and R: "highRes cmp s m = R"
    and N: "nat (m_length1 m + m_length2 m) \<le> N"
    using assms by (auto simp: highSt_def highBusy_def)
  note ends = highRun1_snoc [OF inv(1,2)] highRun2_snoc [OF inv(1)]
  have srt: "cmp_sorted cmp (highRun1 s m)" "cmp_sorted cmp (highRun2 m)" using inv(1) by (simp_all add: highInv_def)
  show ?thesis
  proof (cases "cmp ?y ?x < 0")
    case True
    let ?m = "m\<lparr>m_array := blit (m_array m) (m_dest m) [?x], m_dest := m_dest m - 1, m_cursor1 := m_cursor1 m - 1,
                      m_count1 := m_count1 m + 1, m_count2 := 0, m_length1 := m_length1 m - 1\<rparr>"
    have "\<forall>z\<in>set (highRun2 m). cmp z ?x < 0"
      using True srt(2) unfolding ends by (metis last_ge le_less_trans)
    then have "highInv cmp s ?m \<and> highRes cmp s ?m = highRes cmp s m"
      using inv by (intro highOne1_move) auto
    moreover have "highStep cmp m = Some (m_length1 ?m = 0, ?m)"
      using True highReads [OF inv(1)] inv by (simp add: highStep_def Let_def)
    ultimately show ?thesis using inv R N
      by (auto simp: exits_Some highSt_def highBusy_def highDone_def)
  next
    case False
    let ?m = "m\<lparr>m_array := blit (m_array m) (m_dest m) [?y], m_dest := m_dest m - 1, m_cursor2 := m_cursor2 m - 1,
                      m_count2 := m_count2 m + 1, m_count1 := 0, m_length2 := m_length2 m - 1\<rparr>"
    have "\<forall>z\<in>set (highRun1 s m). \<not> cmp ?y z < 0"
      using False srt(1) unfolding ends by (metis last_ge less_le_trans)
    then have "highInv cmp s ?m \<and> highRes cmp s ?m = highRes cmp s m"
      using inv by (intro highOne2_move) auto
    moreover have "highStep cmp m = Some (m_length2 ?m = 1, ?m)"
      using False highReads [OF inv(1)] inv by (simp add: highStep_def Let_def)
    ultimately show ?thesis using inv R N
      by (auto simp: exits_Some highSt_def highBusy_def highDone_def)
  qed
qed

lemma highLinear_exits:
  assumes "highSt cmp s R N m" "highBusy m"
  shows "exits (\<lambda>m. highSt cmp s R N m \<and> highDone m)
    (\<lambda>m'. (highSt cmp s R N m' \<and> highBusy m') \<and> nat (m_length1 m' + m_length2 m') < nat (m_length1 m + m_length2 m))
    (highLinear cmp m)"
  by (rule loop_exits [where body = "highStep cmp" and Q = "\<lambda>m. highSt cmp s R N m \<and> highBusy m",
        OF highLinear.simps highStep_exits]) (use assms in auto)

subsection \<open>The galloping loop\<close>

lemma highBlock1_exits:
  assumes "highSt cmp s R N m" "highBusy m"
  shows "exits (\<lambda>m. highSt cmp s R N m \<and> highDone m)
    (\<lambda>m. (highSt cmp s R N m \<and> highBusy m) \<and> (\<forall>x\<in>set (highRun1 s m). \<not> cmp (m_tmp m ! nat (m_cursor2 m)) x < 0))
    (highBlock1 cmp s m)"
proof -
  let ?y = "m_tmp m ! nat (m_cursor2 m)"
  define g where "g = cut (\<lambda>z. \<not> cmp ?y z < 0) (highRun1 s m)"
  define c where "c = m_length1 m - g"
  let ?X = "seg (m_array m) (s + m_length1 m - c) c"
  let ?m = "m\<lparr>m_count1 := c, m_dest := m_dest m - c, m_cursor1 := m_cursor1 m - c, m_length1 := m_length1 m - c,
      m_array := blit (m_array m) (m_dest m - c + 1) ?X\<rparr>"
  have inv: "highInv cmp s m" "1 \<le> m_length1 m" "2 \<le> m_length2 m" and R: "highRes cmp s m = R"
    and N: "nat (m_length1 m + m_length2 m) \<le> N"
    using assms by (auto simp: highSt_def highBusy_def)
  note b = highBounds [OF inv(1)]
  have srt: "cmp_sorted cmp (highRun1 s m)" "cmp_sorted cmp (highRun2 m)" using inv(1) by (simp_all add: highInv_def)
  have dc: "down_closed (\<lambda>z. \<not> cmp ?y z < 0) (highRun1 s m)"
    using srt(1) by (rule down_closed_gallopRight)
  have "s + m_length1 m \<le> int (length (m_array m))" using b by linarith
  note cut = cut_split [OF dc b(1,2) this, folded g_def]
  have g: "gallopRight ?y (m_array m) s (m_length1 m) (m_length1 m - 1) cmp = Some g"
    unfolding g_def using dc b inv(2) by (intro gallopRight_eq) linarith+
  have c: "0 \<le> c" "c \<le> m_length1 m" "s + m_length1 m - c = s + g" "m_length1 m - c = g" using cut by (simp_all add: c_def)
  have above: "\<forall>x\<in>set ?X. \<forall>y\<in>set (highRun2 m). cmp y x < 0"
    using cut(4) srt(2) highRun2_snoc [OF inv(1)] unfolding c(3) c_def [symmetric] by (metis last_ge le_less_trans)
  have mv: "highInv cmp s ?m \<and> highRes cmp s ?m = highRes cmp s m"
    by (rule highMove1 [OF inv(1) c(1,2) above]) simp_all
  have fit: "0 \<le> m_cursor1 m - c + 1" "m_cursor1 m - c + 1 \<le> m_dest m - c + 1"
    "m_dest m - c + 1 + c \<le> int (length (m_array m))" "m_cursor1 m - c + 1 = s + m_length1 m - c"
    using b c by linarith+
  have run: "highBlock1 cmp s m = (if c \<noteq> 0 then Some (m_length1 ?m = 0, ?m) else Some (False, m\<lparr>m_count1 := c\<rparr>))"
    using highReads [OF inv(1)] g [folded c(4)] copy_down_blit [OF fit(1,2) c(1) fit(3)]
    by (simp add: highBlock1_def Let_def fit(4))
  have "highRun1 s ?m = seg (m_array m) s g"
    using b c cut(1,2) by (simp, intro seg_blit_before) (simp_all add: length_seg)
  then have post: "\<forall>z\<in>set (highRun1 s ?m). \<not> cmp (m_tmp ?m ! nat (m_cursor2 ?m)) z < 0"
    using cut(3) by simp
  have st: "highSt cmp s R N ?m" using mv R N c(1) by (auto simp: highSt_def)
  show ?thesis
  proof (cases "c = 0")
    case True
    then show ?thesis using assms cut(3) by (simp add: run exits_Some c_def)
  next
    case False
    then show ?thesis using st post cut(1) c(4) inv(3)
      by (auto simp: run exits_Some highDone_def highBusy_def)
  qed
qed

lemma highOne2_exits:
  assumes "highSt cmp s R N m" "highBusy m"
    and le: "\<forall>x\<in>set (highRun1 s m). \<not> cmp (m_tmp m ! nat (m_cursor2 m)) x < 0"
  shows "exits (\<lambda>m. highSt cmp s R N m \<and> highDone m)
    (\<lambda>m. highSt cmp s R (N - 1) m \<and> highBusy m) (highOne2 m)"
proof -
  let ?m = "m\<lparr>m_array := blit (m_array m) (m_dest m) [m_tmp m ! nat (m_cursor2 m)], m_dest := m_dest m - 1,
      m_cursor2 := m_cursor2 m - 1, m_length2 := m_length2 m - 1\<rparr>"
  have inv: "highInv cmp s m" "1 \<le> m_length1 m" "2 \<le> m_length2 m" and R: "highRes cmp s m = R"
    and N: "nat (m_length1 m + m_length2 m) \<le> N"
    using assms by (auto simp: highSt_def highBusy_def)
  have "highInv cmp s ?m \<and> highRes cmp s ?m = highRes cmp s m"
    using inv le by (intro highOne2_move) auto
  moreover have "highOne2 m = Some (m_length2 ?m = 1, ?m)"
    using highReads [OF inv(1)] by (simp add: highOne2_def Let_def)
  ultimately show ?thesis using inv R N
    by (auto simp: exits_Some highSt_def highBusy_def highDone_def)
qed

lemma highOne1_exits:
  assumes "highSt cmp s R N m" "highBusy m"
    and less: "\<forall>y\<in>set (highRun2 m). cmp y (m_array m ! nat (m_cursor1 m)) < 0"
  shows "exits (\<lambda>m. highSt cmp s R N m \<and> highDone m)
    (\<lambda>m. highSt cmp s R (N - 1) m \<and> highBusy m) (highOne1 m)"
proof -
  let ?m = "m\<lparr>m_array := blit (m_array m) (m_dest m) [m_array m ! nat (m_cursor1 m)], m_dest := m_dest m - 1,
      m_cursor1 := m_cursor1 m - 1, m_length1 := m_length1 m - 1\<rparr>"
  have inv: "highInv cmp s m" "1 \<le> m_length1 m" "2 \<le> m_length2 m" and R: "highRes cmp s m = R"
    and N: "nat (m_length1 m + m_length2 m) \<le> N"
    using assms by (auto simp: highSt_def highBusy_def)
  have "highInv cmp s ?m \<and> highRes cmp s ?m = highRes cmp s m"
    using inv less by (intro highOne1_move) auto
  moreover have "highOne1 m = Some (m_length1 ?m = 0, ?m)"
    using highReads [OF inv(1)] inv(2) by (simp add: highOne1_def Let_def)
  ultimately show ?thesis using inv R N
    by (auto simp: exits_Some highSt_def highBusy_def highDone_def)
qed

lemma highBlock2_exits:
  assumes "highSt cmp s R N m" "highBusy m"
  shows "exits (\<lambda>m. highSt cmp s R N m \<and> highDone m)
    (\<lambda>m. (highSt cmp s R N m \<and> highBusy m) \<and> (\<forall>y\<in>set (highRun2 m). cmp y (m_array m ! nat (m_cursor1 m)) < 0))
    (highBlock2 cmp m)"
proof -
  let ?x = "m_array m ! nat (m_cursor1 m)"
  define g where "g = cut (\<lambda>z. 0 < cmp ?x z) (highRun2 m)"
  define c where "c = m_length2 m - g"
  let ?Y = "seg (m_tmp m) (m_length2 m - c) c"
  let ?m = "m\<lparr>m_count2 := c, m_dest := m_dest m - c, m_cursor2 := m_cursor2 m - c, m_length2 := m_length2 m - c,
      m_array := blit (m_array m) (m_dest m - c + 1) ?Y\<rparr>"
  have inv: "highInv cmp s m" "1 \<le> m_length1 m" "2 \<le> m_length2 m" and R: "highRes cmp s m = R"
    and N: "nat (m_length1 m + m_length2 m) \<le> N"
    using assms by (auto simp: highSt_def highBusy_def)
  note b = highBounds [OF inv(1)]
  have srt: "cmp_sorted cmp (highRun1 s m)" "cmp_sorted cmp (highRun2 m)" using inv(1) by (simp_all add: highInv_def)
  have dc: "down_closed (\<lambda>z. 0 < cmp ?x z) (highRun2 m)"
    using srt(2) by (rule down_closed_gallopLeft)
  have "0 \<le> m_length2 m" "0 + m_length2 m \<le> int (length (m_tmp m))" using b by linarith+
  note cut = cut_split [OF dc order_refl this, folded g_def]
  have g: "gallopLeft ?x (m_tmp m) 0 (m_length2 m) (m_length2 m - 1) cmp = Some g"
    unfolding g_def using dc b inv(3) by (intro gallopLeft_eq) linarith+
  have x: "?x \<in> set (highRun1 s m)" using highRun1_snoc [OF inv(1,2)] by simp
  then have "0 < cmp ?x (m_tmp m ! nat 0)" using inv(1) by (simp add: highInv_def swap)
  then have pos: "0 < g"
    unfolding g_def using dc b by (intro cut_pos) linarith+
  have c: "0 \<le> c" "c < m_length2 m" "m_length2 m - c = g" using cut pos by (simp_all add: c_def)
  have above: "\<forall>x\<in>set (highRun1 s m). \<forall>y\<in>set ?Y. \<not> cmp y x < 0"
    using cut(4) srt(1) highRun1_snoc [OF inv(1,2)] unfolding c(3) c_def [symmetric]
    by (metis add_0 last_ge less_le_trans swap)
  have mv: "highInv cmp s ?m \<and> highRes cmp s ?m = highRes cmp s m"
    by (rule highMove2 [OF inv(1) c(1,2) above]) simp_all
  have fit: "0 \<le> m_dest m - c + 1" "m_dest m - c + 1 \<le> int (length (m_array m))"
    "0 \<le> m_cursor2 m - c + 1" "m_cursor2 m - c + 1 + c \<le> int (length (m_tmp m))" "m_cursor2 m - c + 1 = m_length2 m - c"
    using b c by linarith+
  have run: "highBlock2 cmp m = (if c \<noteq> 0 then Some (m_length2 ?m \<le> 1, ?m) else Some (False, m\<lparr>m_count2 := c\<rparr>))"
    using highReads [OF inv(1)] g [folded c(3)] inv(2) copy_from_blit [OF fit(1,2,3) c(1) fit(4)]
    by (simp add: highBlock2_def Let_def fit(5))
  have "highRun1 s ?m = highRun1 s m"
    using b c by (simp, intro seg_blit_before) (simp_all add: length_seg)
  then have "m_array ?m ! nat (m_cursor1 ?m) = ?x"
    using highRun1_snoc [OF inv(1,2)] highRun1_snoc [of s ?m] mv inv(2) by simp
  then have post: "\<forall>z\<in>set (highRun2 ?m). cmp z (m_array ?m ! nat (m_cursor1 ?m)) < 0"
    using cut(3) c(3) by (simp add: swap)
  have st: "highSt cmp s R N ?m" using mv R N c(1) by (auto simp: highSt_def)
  show ?thesis
  proof (cases "c = 0")
    case True
    then show ?thesis using assms cut(3) by (simp add: run exits_Some c_def swap)
  next
    case False
    then show ?thesis using st post pos c(3) inv(2)
      by (auto simp: run exits_Some highDone_def highBusy_def)
  qed
qed

lemma highGallopBody_exits:
  assumes "highSt cmp s R N m" "highBusy m"
  shows "exits (\<lambda>m. highSt cmp s R N m \<and> highDone m)
    (\<lambda>m'. (highSt cmp s R N m' \<and> highBusy m') \<and> nat (m_length1 m' + m_length2 m') < nat (m_length1 m + m_length2 m))
    (highGallopBody cmp s m)"
proof -
  define K where "K = nat (m_length1 m + m_length2 m)"
  let ?D = "\<lambda>m. highSt cmp s R K m \<and> highDone m" and ?Q = "\<lambda>M m. highSt cmp s R M m \<and> highBusy m"
  have K: "highSt cmp s R K m" "K \<le> N" "0 < K" using assms by (auto simp: highSt_def K_def highBusy_def)
  have less: "K - Suc 0 \<le> K" "K - Suc 0 - Suc 0 \<le> K - Suc 0" by auto
  note b1 = highBlock1_exits [OF K(1) assms(2)]
  have o2: "exits ?D (?Q (K - 1)) (unless_exit (highBlock1 cmp s m) highOne2)"
    by (rule exits_unless_exit [OF b1]) (blast intro: highOne2_exits)
  have b2: "exits ?D (\<lambda>m. ?Q (K - 1) m \<and> (\<forall>y\<in>set (highRun2 m). cmp y (m_array m ! nat (m_cursor1 m)) < 0))
      (unless_exit (unless_exit (highBlock1 cmp s m) highOne2) (highBlock2 cmp))"
    by (rule exits_unless_exit [OF o2], rule exits_weaken, rule highBlock2_exits)
      (auto intro: highSt_mono [OF _ less(1)])
  have o1: "exits ?D (?Q (K - 1))
      (unless_exit (unless_exit (unless_exit (highBlock1 cmp s m) highOne2) (highBlock2 cmp)) highOne1)"
    by (rule exits_unless_exit [OF b2], rule exits_weaken, rule highOne1_exits)
      (auto intro: highSt_mono [OF _ less(1)] highSt_mono [OF _ less(2)])
  have "exits ?D (?Q (K - 1)) (highGallopBody cmp s m)"
    unfolding highGallopBody_def by (rule exits_unless_exit [OF o1]) (simp add: exits_Some)
  then show ?thesis
    by (rule exits_weaken) (use K in \<open>auto simp: highSt_def K_def [symmetric] highBusy_def\<close>)
qed

lemma highGallop_exits:
  assumes "highSt cmp s R N m" "highBusy m"
  shows "exits (\<lambda>m. highSt cmp s R N m \<and> highDone m)
    (\<lambda>m'. (highSt cmp s R N m' \<and> highBusy m') \<and> nat (m_length1 m' + m_length2 m') < nat (m_length1 m + m_length2 m))
    (highGallop cmp s m)"
  by (rule loop_exits [where body = "highGallopBody cmp s" and Q = "\<lambda>m. highSt cmp s R N m \<and> highBusy m",
        OF highGallop.simps highGallopBody_exits]) (use assms in auto)

subsection \<open>The main loop and the result\<close>

lemma highMain_returns:
  assumes "highSt cmp s R N m" "highBusy m"
  shows "\<exists>m'. highMain cmp s m = Some m' \<and> highSt cmp s R N m' \<and> highDone m'"
  using assms
proof (induction "nat (m_length1 m + m_length2 m)" arbitrary: m rule: less_induct)
  case less
  let ?m0 = "m\<lparr>m_count1 := 0, m_count2 := 0\<rparr>"
  have "highSt cmp s R N ?m0" "highBusy ?m0" using less.prems by simp_all
  from highLinear_exits [OF this] consider
    m1 where "highLinear cmp ?m0 = Some (True, m1)" "highSt cmp s R N m1" "highDone m1"
    | m1 where "highLinear cmp ?m0 = Some (False, m1)" "highSt cmp s R N m1" "highBusy m1"
      "nat (m_length1 m1 + m_length2 m1) < nat (m_length1 m + m_length2 m)"
    by (auto simp: exits_def)
  then show ?case
  proof cases
    case 1
    then show ?thesis by (subst highMain.simps) simp
  next
    case 2
    from highGallop_exits [OF 2(2,3)] consider
      m2 where "highGallop cmp s m1 = Some (True, m2)" "highSt cmp s R N m2" "highDone m2"
      | m2 where "highGallop cmp s m1 = Some (False, m2)" "highSt cmp s R N m2" "highBusy m2"
        "nat (m_length1 m2 + m_length2 m2) < nat (m_length1 m1 + m_length2 m1)"
      by (auto simp: exits_def)
    then show ?thesis
    proof cases
      case A: 1
      then show ?thesis using 2 by (subst highMain.simps) simp
    next
      case B: 2
      then have "\<exists>m'. highMain cmp s (penalise m2) = Some m' \<and> highSt cmp s R N m' \<and> highDone m'"
        using 2 by (intro less.hyps) (simp_all add: penalise_def)
      then show ?thesis using 2 B by (subst highMain.simps) simp
    qed
  qed
qed

lemma highRest2:
  assumes inv: "highInv cmp s m" "m_length1 m = 0"
  shows "copy_from (m_tmp m) 0 (m_array m) (m_dest m - (m_length2 m - 1)) (nat (m_length2 m)) = Some (highRes cmp s m)"
proof -
  note b = highBounds [OF inv(1)]
  have d: "m_dest m - (m_length2 m - 1) = s" using b inv(2) by simp
  have "copy_from (m_tmp m) 0 (m_array m) s (nat (m_length2 m)) = Some (blit (m_array m) s (highRun2 m))"
    using b by (intro copy_from_blit) linarith+
  moreover have "nat s + length (highRun2 m) = nat (m_dest m + 1)"
    using b inv(2) by (simp add: length_seg)
  ultimately show ?thesis using inv(2) by (simp add: highRes_def blit_def d)
qed

lemma highRest1:
  assumes inv: "highInv cmp s m" "m_length2 m = 1"
  shows "highTail m = Some (highRes cmp s m)"
proof -
  let ?y = "m_tmp m ! nat (m_cursor2 m)" and ?X = "highRun1 s m"
  let ?a = "blit (m_array m) (s + 1) ?X"
  note b = highBounds [OF inv(1)]
  have len: "int (length ?X) = m_length1 m" using b by (simp add: length_seg)
  have d: "m_dest m - m_length1 m = s" "m_cursor1 m - m_length1 m + 1 = s" using b inv(2) by simp_all
  have "copy_down (m_array m) (s + 1) s (nat (m_length1 m)) = Some ?a"
    using b inv(2) by (intro copy_down_blit) linarith+
  moreover have "arr_set ?a s ?y = Some (blit ?a s [?y])"
    using b len inv(2) by (intro arr_set_blit) (simp_all add: length_blit)
  moreover have "blit ?a s [?y] = blit (m_array m) s ([?y] @ ?X)"
    using b len inv(2) by (intro blit_blit_before) simp_all
  moreover have "cmp_merge cmp ?X (highRun2 m) = [?y] @ ?X"
  proof -
    have "highRun2 m = [?y]" using highRun2_snoc [OF inv(1)] inv(2) by simp
    moreover have "\<forall>x\<in>set ?X. \<forall>y\<in>set [?y]. cmp y x < 0"
      using inv b by (simp add: highInv_def)
    ultimately show ?thesis using cmp_merge_prefix2 [of ?X "[?y]" cmp "[]"] by simp
  qed
  moreover have "nat s + length ([?y] @ ?X) = nat (m_dest m + 1)"
    using b len inv(2) by simp
  ultimately show ?thesis
    using highReads(1) [OF inv(1)] inv(2) by (simp add: highTail_def highRes_def blit_def d)
qed

lemma highTail_eq:
  assumes "highInv cmp s m" "highDone m"
  shows "highTail m = Some (highRes cmp s m)"
proof (cases "m_length2 m = 1")
  case True
  then show ?thesis using assms highRest1 by blast
next
  case False
  then show ?thesis using assms highRest2 highBounds(3) [OF assms(1)]
    by (auto simp: highTail_def highDone_def)
qed

lemma highStart:
  assumes b: "0 \<le> s1" "1 \<le> n1" "1 \<le> n2" "s1 + n1 + n2 \<le> int (length A)" "int (length A) < 2 ^ 31"
    and run1: "xs = seg A s1 n1" "cmp_sorted cmp xs"
    and run2: "ys = seg A (s1 + n1) n2" "cmp_sorted cmp ys"
    and first: "\<forall>x\<in>set xs. cmp (hd ys) x < 0"
    and m: "m_array m = A" "m_tmp m = blit t 0 ys" "m_cursor1 m = s1 + n1 - 1" "m_cursor2 m = n2 - 1"
      "m_dest m = s1 + n1 + n2 - 1" "m_length1 m = n1" "m_length2 m = n2"
  shows "highInv cmp s1 m" "highRes cmp s1 m = blit A s1 (cmp_merge cmp xs ys)" "highRun2 m = ys"
    "last xs = A ! nat (s1 + n1 - 1)"
proof -
  have len: "int (length xs) = n1" "int (length ys) = n2" using b by (auto simp: run1 run2 length_seg)
  have r1: "highRun1 s1 m = xs" by (simp add: m run1)
  show r2: "highRun2 m = ys" using seg_blit_0 [of t ys] len by (simp add: m)
  have ne: "ys \<noteq> []" using len b by auto
  then have hd: "m_tmp m ! 0 = hd ys" by (simp add: m blit_def nth_append hd_conv_nth)
  have "length (blit t 0 ys) \<ge> length ys" by (simp add: blit_def)
  then show inv0: "highInv cmp s1 m"
    unfolding highInv_def r1 r2 hd using b run1(2) run2(2) first len by (simp add: m)
  show "last xs = A ! nat (s1 + n1 - 1)"
    using highRun1_snoc [OF inv0] b(2) unfolding r1 unfolding m by simp
  have "nat s1 + (length xs + length ys) = nat (s1 + n1 + n2)" using len b by simp
  then show "highRes cmp s1 m = blit A s1 (cmp_merge cmp xs ys)"
    unfolding highRes_def r1 r2 blit_def by (simp add: m)
qed

lemma mergeHigh_eq:
  assumes b: "0 \<le> s1" "1 \<le> n1" "1 \<le> n2" "s1 + n1 + n2 \<le> int (length (ts_array ts))"
      "int (length (ts_array ts)) < 2 ^ 31"
    and run1: "xs = seg (ts_array ts) s1 n1" "cmp_sorted cmp xs"
    and run2: "ys = seg (ts_array ts) (s1 + n1) n2" "cmp_sorted cmp ys"
    and first: "\<forall>x\<in>set xs. cmp (hd ys) x < 0" and last: "\<forall>y\<in>set ys. cmp y (last xs) < 0"
  shows "\<exists>t g. mergeHigh cmp ts s1 n1 (s1 + n1) n2
    = Some (ts\<lparr>ts_array := blit (ts_array ts) s1 (cmp_merge cmp xs ys), ts_tmp := t, ts_minGallop := g\<rparr>)"
proof -
  let ?A = "ts_array ts" and ?t = "blit (ts_tmp ts) 0 ys" and ?x = "ts_array ts ! nat (s1 + n1 - 1)"
  define m0 where "m0 = \<lparr>m_array = ?A, m_tmp = ?t, m_cursor1 = s1 + n1 - 1, m_cursor2 = n2 - 1,
    m_dest = s1 + n1 + n2 - 1, m_length1 = n1, m_length2 = n2, m_count1 = 0, m_count2 = 0,
    m_minGallop = ts_minGallop ts\<rparr>"
  define m1 where "m1 = m0\<lparr>m_array := blit ?A (s1 + n1 + n2 - 1) [?x], m_dest := s1 + n1 + n2 - 2,
    m_cursor1 := s1 + n1 - 2, m_length1 := n1 - 1\<rparr>"
  have m0: "highInv cmp s1 m0" "highRes cmp s1 m0 = blit ?A s1 (cmp_merge cmp xs ys)" "highRun2 m0 = ys" "last xs = ?x"
    using highStart [OF b run1 run2 first, of m0 "ts_tmp ts"] by (simp_all add: m0_def)
  have inv1: "highInv cmp s1 m1 \<and> highRes cmp s1 m1 = highRes cmp s1 m0"
    by (rule highOne1_move [OF m0(1)]) (use b last m0(3,4) in \<open>simp_all add: m0_def m1_def\<close>)
  have t: "copy_from ?A (s1 + n1) (ts_tmp ts) 0 (nat n2) = Some ?t"
    using b unfolding run2(1) by (intro copy_from_blit) simp_all
  have x: "arr_get ?A (s1 + n1 - 1) = Some ?x"
    "arr_set ?A (s1 + n1 + n2 - 1) ?x = Some (blit ?A (s1 + n1 + n2 - 1) [?x])"
    using b by (simp_all add: arr_get_in arr_set_blit)
  have body: "mergeHigh cmp ts s1 n1 (s1 + n1) n2 =
    (if m_length1 m1 = 0 then
       do { a \<leftarrow> copy_from (m_tmp m1) 0 (m_array m1) (m_dest m1 - (m_length2 m1 - 1)) (nat (m_length2 m1));
            Some (ts\<lparr>ts_array := a, ts_tmp := ?t\<rparr>) }
     else if m_length2 m1 = 1 then do { a \<leftarrow> highTail m1; Some (ts\<lparr>ts_array := a, ts_tmp := ?t\<rparr>) }
     else do { m \<leftarrow> highMain cmp s1 m1; a \<leftarrow> highTail m;
       Some (ts\<lparr>ts_array := a, ts_tmp := m_tmp m, ts_minGallop := (if m_minGallop m < 1 then 1 else m_minGallop m)\<rparr>) })"
    by (simp add: mergeHigh_def Let_def m1_def m0_def t x)
  consider (rest) "m_length1 m1 = 0 \<or> m_length2 m1 = 1" | (loop) "\<not> highDone m1"
    by (auto simp: highDone_def)
  then show ?thesis
  proof cases
    case rest
    then have "mergeHigh cmp ts s1 n1 (s1 + n1) n2 = Some (ts\<lparr>ts_array := highRes cmp s1 m1, ts_tmp := ?t,
        ts_minGallop := ts_minGallop ts\<rparr>)"
      using highRest1 [of s1 m1] highRest2 [of s1 m1] inv1 by (auto simp: body)
    then show ?thesis
      using inv1 m0(2) by (intro exI [of _ ?t] exI [of _ "ts_minGallop ts"]) simp
  next
    case loop
    then have "highBusy m1" using highBounds [of cmp s1 m1] inv1 by (auto simp: highDone_def highBusy_def)
    moreover have "highSt cmp s1 (highRes cmp s1 m0) (nat (m_length1 m1 + m_length2 m1)) m1"
      using inv1 by (simp add: highSt_def)
    ultimately obtain m2 where "highMain cmp s1 m1 = Some m2" "highInv cmp s1 m2"
        "highRes cmp s1 m2 = highRes cmp s1 m0" "highDone m2"
      using highMain_returns by (fastforce simp: highSt_def)
    then show ?thesis using highTail_eq loop m0(2) by (auto simp: body highDone_def)
  qed
qed

end

end
