(* ===== verification/Timsort_Sort.thy ===== *)
theory Timsort_Sort
  imports Timsort_Runs Timsort_MergeHigh
begin

text \<open>
  The stack of runs and \<open>sort\<close>: the runs on the stack tile the part of the range that is done and
  are each sorted, merging two neighbours keeps this, and both collapsing loops end, so \<open>sort\<close>
  returns the range sorted, stably, with the rest of the array as it was.
\<close>

section \<open>The stack\<close>

text \<open>
  The two arrays of the code, start and length, are read as a list of pairs; what lies above
  the stack pointer is what popped runs have left there.
\<close>

definition stack :: "'a timsort \<Rightarrow> (int \<times> int) list \<Rightarrow> bool" where
  "stack ts rs \<longleftrightarrow> ts_stackSize ts = int (length rs) \<and>
     take (length rs) (ts_runStart ts) = map fst rs \<and> take (length rs) (ts_runLength ts) = map snd rs"

lemma take_eq_nth: "take n xs = ys \<Longrightarrow> length ys = n \<Longrightarrow> i < n \<Longrightarrow> i < length xs \<and> xs ! i = ys ! i"
  by auto

lemma stack_get:
  assumes "stack ts rs" "0 \<le> i" "i < int (length rs)"
  shows "arr_get (ts_runStart ts) i = Some (fst (rs ! nat i))"
    and "arr_get (ts_runLength ts) i = Some (snd (rs ! nat i))"
  using assms take_eq_nth [of "length rs" "ts_runStart ts" "map fst rs" "nat i"]
    take_eq_nth [of "length rs" "ts_runLength ts" "map snd rs" "nat i"] nat_less_iff [of i "length rs"]
  by (auto simp: stack_def arr_get_def nat_less_iff)

lemma stack_size: "stack ts rs \<Longrightarrow> ts_stackSize ts = int (length rs)"
  by (simp add: stack_def)

lemma stack_new: "stack (newTimSort a) []"
  by (simp add: stack_def newTimSort_def)

lemma take_push: "take n xs = ys \<Longrightarrow> length ys = n \<Longrightarrow> \<exists>zs. arr_set xs (int n) v = Some zs \<and> take (Suc n) zs = ys @ [v]"
  by (cases "n < length xs") (auto simp: arr_set_def take_Suc_conv_app_nth)

lemma pushRun_stack:
  assumes "stack ts rs"
  shows "\<exists>ts'. pushRun ts s l = Some ts' \<and> stack ts' (rs @ [(s, l)]) \<and> ts_array ts' = ts_array ts"
proof -
  obtain zs zl where "arr_set (ts_runStart ts) (int (length rs)) s = Some zs"
      "take (Suc (length rs)) zs = map fst rs @ [s]"
      "arr_set (ts_runLength ts) (int (length rs)) l = Some zl"
      "take (Suc (length rs)) zl = map snd rs @ [l]"
    using take_push [of "length rs" "ts_runStart ts" "map fst rs" s]
      take_push [of "length rs" "ts_runLength ts" "map snd rs" l] assms
    by (auto simp: stack_def)
  then show ?thesis using assms by (simp add: pushRun_def stack_def)
qed

text \<open>Merging two neighbouring runs; only the last two, or the two below the last, ever are.\<close>

lemma take_list_update_app:
  "take (length us + Suc 0 + length ws) xs = us @ x # ws \<Longrightarrow>
     take (length us + Suc 0 + length ws) (xs[length us := y]) = us @ y # ws"
  by (simp add: take_update_swap)

lemma mergeAtStack_spec:
  assumes "stack ts (xs @ (s1, l1) # (s2, l2) # zs)" "length zs \<le> 1" "i = int (length xs)"
  shows "\<exists>ts'. mergeAtStack ts i = Some ts' \<and> stack ts' (xs @ (s1, l1 + l2) # zs)
    \<and> ts_array ts' = ts_array ts"
proof -
  let ?n = "length xs"
  note get = stack_get [OF assms(1)]
  have ss: "ts_stackSize ts = int ?n + 2 + int (length zs)" using assms by (simp add: stack_def)
  have len: "ts_runStart ts = map fst xs @ s1 # s2 # map fst zs @ drop (?n + 2 + length zs) (ts_runStart ts)"
      "ts_runLength ts = map snd xs @ l1 # l2 # map snd zs @ drop (?n + 2 + length zs) (ts_runLength ts)"
    using assms(1) append_take_drop_id [of "?n + 2 + length zs" "ts_runStart ts"]
      append_take_drop_id [of "?n + 2 + length zs" "ts_runLength ts"]
    by (simp_all add: stack_def)
  then obtain S L where S: "ts_runStart ts = map fst xs @ s1 # s2 # map fst zs @ S"
      and L: "ts_runLength ts = map snd xs @ l1 # l2 # map snd zs @ L" by blast
  consider (top) "zs = []" | (below) s3 l3 where "zs = [(s3, l3)]"
    using assms(2) by (cases zs) auto
  then show ?thesis
  proof cases
    case top
    then show ?thesis using S L assms ss
      by (simp add: mergeAtStack_def arr_get_def arr_set_def stack_def nth_append list_update_append nat_add_distrib)
  next
    case below
    then show ?thesis using S L assms ss
      by (simp add: mergeAtStack_def arr_move_def arr_get_def arr_set_def stack_def nth_append list_update_append nat_add_distrib)
  qed
qed

section \<open>Merging two runs in the array\<close>

context comparator
begin

text \<open>Elements below the whole second run and above the whole first run stay where they are.\<close>

lemma sorted_middle:
  assumes "cmp_sorted cmp (A @ B)" "cmp_sorted cmp (C @ D)" "B \<noteq> []" "C \<noteq> []"
    and "\<forall>x\<in>set A. cmp x (hd C) \<le> 0" "\<forall>z\<in>set D. cmp (last B) z \<le> 0"
  shows "cmp_sorted cmp (A @ cmp_merge cmp B C @ D)"
proof -
  have hdC: "cmp (hd C) z \<le> 0" if "z \<in> set C" for z
    using assms(2,4) that by (cases C) (auto simp: cmp_sorted_append cmp_sorted_Cons)
  have lastB: "cmp x (last B) \<le> 0" if "x \<in> set B" for x
    using assms(1,3) that by (cases B rule: rev_cases) (auto simp: cmp_sorted_append cmp_sorted_Cons)
  have AC: "cmp x z \<le> 0" if "x \<in> set A" "z \<in> set C" for x z
    using assms(5) hdC that by (blast intro: trans)
  have BD: "cmp x z \<le> 0" if "x \<in> set B" "z \<in> set D" for x z
    using assms(6) lastB that by (blast intro: trans)
  have AD: "cmp x z \<le> 0" if "x \<in> set A" "z \<in> set D" for x z
  proof -
    have "cmp (hd C) z \<le> 0" using assms(2,4) that by (cases C) (auto simp: cmp_sorted_append cmp_sorted_Cons)
    then show ?thesis using assms(5) that by (blast intro: trans)
  qed
  show ?thesis
    using assms(1,2) AC BD AD sorted_cmp_merge [of B C]
    by (auto simp: cmp_sorted_append)
qed

text \<open>What \<open>mergeAt\<close> does to the array, given two adjacent sorted runs.\<close>

lemma mergeAt_array:
  assumes get: "arr_get (ts_runStart ts) i = Some s1" "arr_get (ts_runLength ts) i = Some l1"
      "arr_get (ts_runStart ts) (i + 1) = Some (s1 + l1)" "arr_get (ts_runLength ts) (i + 1) = Some l2"
    and stk: "mergeAtStack ts i = Some ts1" and arr: "ts_array ts1 = a"
    and b: "0 \<le> s1" "1 \<le> l1" "1 \<le> l2" "s1 + l1 + l2 \<le> int (length a)" "int (length a) < 2 ^ 31"
    and srt: "cmp_sorted cmp (seg a s1 l1)" "cmp_sorted cmp (seg a (s1 + l1) l2)"
  shows "\<exists>a' t g. mergeAt cmp ts i = Some (ts1\<lparr>ts_array := a', ts_tmp := t, ts_minGallop := g\<rparr>)
    \<and> rearr cmp a s1 (l1 + l2) a' \<and> cmp_sorted cmp (seg a' s1 (l1 + l2))"
proof -
  let ?x = "a ! nat (s1 + l1)" and ?y = "a ! nat (s1 + l1 - 1)"
  define k where "k = cut (\<lambda>x. \<not> cmp ?x x < 0) (seg a s1 l1)"
  define m where "m = cut (\<lambda>x. 0 < cmp ?y x) (seg a (s1 + l1) l2)"
  let ?A = "seg a s1 k" and ?B = "seg a (s1 + k) (l1 - k)"
  let ?C = "seg a (s1 + l1) m" and ?D = "seg a (s1 + l1 + m) (l2 - m)"
  note dc1 = down_closed_gallopRight [OF srt(1), of ?x] and dc2 = down_closed_gallopLeft [OF srt(2), of ?y]
  have n1: "0 \<le> l1" "s1 + l1 \<le> int (length a)" and n2: "0 \<le> s1 + l1" "0 \<le> l2" using b by linarith+
  note cut1 = cut_split [OF dc1 b(1) n1, folded k_def] and cut2 = cut_split [OF dc2 n2 b(4), folded m_def]
  have g1: "gallopRight ?x a s1 l1 0 cmp = Some k"
    unfolding k_def using b by (intro gallopRight_eq dc1) linarith+
  have g2: "gallopLeft ?y a (s1 + l1) l2 (l2 - 1) cmp = Some m"
    unfolding m_def using b by (intro gallopLeft_eq dc2) linarith+
  have gx: "arr_get a (s1 + l1) = Some ?x" and gy: "arr_get a (s1 + l1 - 1) = Some ?y"
    using b by (simp_all add: arr_get_in)
  have AB: "seg a s1 l1 = ?A @ ?B" using seg_append [of s1 k "l1 - k" a] b cut1 by simp
  have CD: "seg a (s1 + l1) l2 = ?C @ ?D" using seg_append [of "s1 + l1" m "l2 - m" a] b cut2 by simp
  have ABCD: "seg a s1 (l1 + l2) = ?A @ (?B @ ?C) @ ?D"
    using seg_append [of s1 l1 l2 a] b by (simp add: AB CD)
  have run2: "\<forall>z\<in>set (seg a (s1 + l1) l2). cmp ?x z \<le> 0"
    using srt(2) seg_Cons [of "s1 + l1" l2 a] b by (simp add: cmp_sorted_Cons)
  note run = get stk arr gx gy g1 g2
  show ?thesis
  proof (cases "l1 - k = 0")
    case True
    then have "mergeAt cmp ts i = Some (ts1\<lparr>ts_array := a, ts_tmp := ts_tmp ts1, ts_minGallop := ts_minGallop ts1\<rparr>)"
      using run by (simp add: mergeAt_def Let_def)
    moreover have "cmp_sorted cmp (seg a s1 (l1 + l2))"
      using srt cut1(3) run2 True seg_append [of s1 l1 l2 a] b
      by (auto simp: cmp_sorted_append le_iff [symmetric] intro: trans)
    moreover have "rearr cmp a s1 (l1 + l2) a" using b by (intro rearr_refl) linarith+
    ultimately show ?thesis by blast
  next
    case False
    then have kl: "k < l1" using cut1(2) by simp
    have B: "?B = seg a (s1 + k) (l1 - k - 1) @ [?y]"
      using seg_snoc [of "s1 + k" "l1 - k" a] b cut1(1) kl by (simp add: algebra_simps)
    have xy: "cmp ?x ?y < 0" using cut1(4) by (subst (asm) B) simp
    have m: "0 < m" unfolding m_def using b xy by (intro cut_pos dc2) (simp_all add: swap [symmetric])
    have C: "?C = ?x # seg a (s1 + l1 + 1) (m - 1)"
      using seg_Cons [of "s1 + l1" m a] b m cut2(2) by simp
    have A: "\<forall>x\<in>set ?A. cmp x (hd ?C) \<le> 0" using cut1(3) C by (simp add: le_iff)
    have D: "\<forall>z\<in>set ?D. cmp (last ?B) z \<le> 0" using cut2(4) unfolding B by (simp add: not_less)
    have nn: "?B \<noteq> []" "?C \<noteq> []" using B C by simp_all
    have first: "\<forall>x\<in>set ?B. cmp (hd ?C) x < 0" using cut1(4) C by simp
    have last: "\<forall>z\<in>set ?C. cmp z (last ?B) < 0" using cut2(3) unfolding B by (simp add: swap)
    have srt': "cmp_sorted cmp (?A @ ?B)" "cmp_sorted cmp (?C @ ?D)" using srt AB CD by simp_all
    then have srtBC: "cmp_sorted cmp ?B" "cmp_sorted cmp ?C" by (simp_all add: cmp_sorted_append)
    let ?M = "cmp_merge cmp ?B ?C" and ?s = "s1 + k"
    have b': "0 \<le> ?s" "1 \<le> l1 - k" "1 \<le> m" "?s + (l1 - k) + m \<le> int (length (ts_array ts1))"
        "int (length (ts_array ts1)) < 2 ^ 31"
      using b cut1(1,2) cut2(2) kl m arr by simp_all
    have ys: "?C = seg (ts_array ts1) (?s + (l1 - k)) m" and xs: "?B = seg (ts_array ts1) ?s (l1 - k)"
      using arr by simp_all
    obtain t g where "mergeAt cmp ts i = Some (ts1\<lparr>ts_array := blit a ?s ?M, ts_tmp := t, ts_minGallop := g\<rparr>)"
    proof (cases "l1 - k \<le> m")
      case True
      then show ?thesis
        using mergeLow_eq [OF b' xs srtBC(1) ys srtBC(2) first last] that run m False
        by (auto simp: mergeAt_def Let_def)
    next
      case False
      then show ?thesis
        using mergeHigh_eq [OF b' xs srtBC(1) ys srtBC(2) first last] that run m kl
        by (auto simp: mergeAt_def Let_def)
    qed
    moreover have "rearr cmp a s1 (l1 + l2) (blit a ?s ?M)"
    proof (rule rearr_widen [of cmp a ?s "l1 - k + m"])
      have "seg a ?s (l1 - k + m) = ?B @ ?C"
        using seg_append [of ?s "l1 - k" m a] b' by simp
      then show "rearr cmp a ?s (l1 - k + m) (blit a ?s ?M)"
        using b' arr srtBC(1) by (intro rearr_blit) (simp_all add: length_seg stable_cmp_merge)
    qed (use b cut1(1,2) cut2(2) in simp_all)
    moreover have "seg (blit a ?s ?M) s1 (l1 + l2) = ?A @ ?M @ ?D"
    proof -
      have lenM: "int (length ?M) = l1 - k + m" using b' arr by (simp add: length_seg)
      have "seg (blit a ?s ?M) s1 (l1 + l2) = seg (blit a ?s ?M) s1 k @ seg (blit a ?s ?M) ?s (int (length ?M))
          @ seg (blit a ?s ?M) (s1 + l1 + m) (l2 - m)"
      proof -
        have e: "l1 + l2 = k + (int (length ?M) + (l2 - m))" "s1 + l1 + m = ?s + int (length ?M)"
          using lenM by simp_all
        show ?thesis
          unfolding e using cut1(1) cut2(2) b(1) by (simp only: seg_append)
      qed
      also have "seg (blit a ?s ?M) ?s (int (length ?M)) = ?M"
        using b' arr lenM by (intro seg_blit) simp_all
      finally show ?thesis
        using b' arr lenM cut1(1) b by (simp add: seg_blit_before seg_blit_after)
    qed
    ultimately show ?thesis using sorted_middle [OF srt' nn A D] by metis
  qed
qed

end

section \<open>The runs tile the range\<close>

fun chain :: "int \<Rightarrow> (int \<times> int) list \<Rightarrow> int \<Rightarrow> bool" where
  "chain lo [] hi \<longleftrightarrow> lo = hi"
| "chain lo ((s, l) # rs) hi \<longleftrightarrow> s = lo \<and> 1 \<le> l \<and> chain (lo + l) rs hi"

lemma chain_append: "chain lo (xs @ ys) hi \<longleftrightarrow> (\<exists>m. chain lo xs m \<and> chain m ys hi)"
  by (induction xs arbitrary: lo) auto

lemma chain_bounds: "chain lo rs hi \<Longrightarrow> lo \<le> hi"
  by (induction rs arbitrary: lo) fastforce+

lemma chain_mem: "chain lo rs hi \<Longrightarrow> (s, l) \<in> set rs \<Longrightarrow> lo \<le> s \<and> 1 \<le> l \<and> s + l \<le> hi"
proof (induction rs arbitrary: lo)
  case (Cons r rs)
  obtain s' l' where r: "r = (s', l')" by (cases r)
  have "lo + l' \<le> hi" using Cons.prems(1) chain_bounds r by auto
  then show ?case using Cons r by fastforce
qed simp

definition tsInv ::
  "('a \<Rightarrow> 'a \<Rightarrow> 'n::{linorder,zero}) \<Rightarrow> 'a timsort \<Rightarrow> (int \<times> int) list \<Rightarrow> int \<Rightarrow> int \<Rightarrow> bool" where
  "tsInv cmp ts rs lo hi \<longleftrightarrow> stack ts rs \<and> chain lo rs hi \<and> 0 \<le> lo \<and> hi \<le> int (length (ts_array ts)) \<and>
     int (length (ts_array ts)) < 2 ^ 31 \<and> (\<forall>(s, l)\<in>set rs. cmp_sorted cmp (seg (ts_array ts) s l))"

context comparator
begin

lemma mergeAt_spec:
  assumes inv: "tsInv cmp ts (xs @ (s1, l1) # (s2, l2) # zs) lo hi" and "length zs \<le> 1" "i = int (length xs)"
  shows "\<exists>ts'. mergeAt cmp ts i = Some ts' \<and> tsInv cmp ts' (xs @ (s1, l1 + l2) # zs) lo hi
    \<and> rearr cmp (ts_array ts) lo (hi - lo) (ts_array ts')"
proof -
  let ?a = "ts_array ts"
  note v = inv [unfolded tsInv_def]
  obtain m where m: "chain lo xs s1" "s2 = s1 + l1" "1 \<le> l1" "1 \<le> l2" "m = s1 + l1 + l2" "chain m zs hi"
    using v by (auto simp: chain_append)
  have b: "lo \<le> s1" "m \<le> hi" "0 \<le> lo" using m chain_bounds v by blast+
  obtain ts1 where ts1: "mergeAtStack ts i = Some ts1" "stack ts1 (xs @ (s1, l1 + l2) # zs)" "ts_array ts1 = ?a"
    using mergeAtStack_spec assms v by blast
  have get: "arr_get (ts_runStart ts) i = Some s1" "arr_get (ts_runLength ts) i = Some l1"
      "arr_get (ts_runStart ts) (i + 1) = Some (s1 + l1)" "arr_get (ts_runLength ts) (i + 1) = Some l2"
    using stack_get [of ts "xs @ (s1, l1) # (s2, l2) # zs"] v assms(3) m(2)
    by (simp_all add: nth_append nat_add_distrib)
  obtain a' t g where run: "mergeAt cmp ts i = Some (ts1\<lparr>ts_array := a', ts_tmp := t, ts_minGallop := g\<rparr>)"
      and r: "rearr cmp ?a s1 (l1 + l2) a'" and s: "cmp_sorted cmp (seg a' s1 (l1 + l2))"
    using mergeAt_array [OF get ts1(1,3)] b v m by auto
  have "cmp_sorted cmp (seg a' s l)" if "(s, l) \<in> set (xs @ zs)" for s l
  proof -
    have "seg a' s l = seg ?a s l"
    proof (cases "(s, l) \<in> set xs")
      case True
      then show ?thesis using chain_mem [OF m(1)] b by (intro rearr_seg_before [OF r]) fastforce+
    next
      case False
      then show ?thesis using chain_mem [OF m(6)] that m(5) by (intro rearr_seg_after [OF r]) fastforce
    qed
    then show ?thesis using v that by auto
  qed
  then have srt: "\<forall>(s, l)\<in>set (xs @ (s1, l1 + l2) # zs). cmp_sorted cmp (seg a' s l)" using s by auto
  have "tsInv cmp (ts1\<lparr>ts_array := a', ts_tmp := t, ts_minGallop := g\<rparr>) (xs @ (s1, l1 + l2) # zs) lo hi"
    using ts1(2) v m rearr_length [OF r] srt
    by (auto simp: tsInv_def stack_def chain_append algebra_simps)
  moreover have "rearr cmp ?a lo (hi - lo) a'"
    using b v m by (intro rearr_widen [OF r]) auto
  ultimately show ?thesis using run by auto
qed

text \<open>A merge at an index the collapsing loops choose.\<close>

lemma mergeAt_index:
  assumes inv: "tsInv cmp ts rs lo hi" and n: "n = int (length rs) - 2 \<or> n = int (length rs) - 3" "0 \<le> n"
  shows "\<exists>ts' rs'. mergeAt cmp ts n = Some ts' \<and> tsInv cmp ts' rs' lo hi \<and> length rs = Suc (length rs')
    \<and> drop 2 (rev (map snd rs')) = drop 3 (rev (map snd rs))
    \<and> rearr cmp (ts_array ts) lo (hi - lo) (ts_array ts')"
proof -
  let ?xs = "take (nat n) rs" and ?zs = "drop (Suc (Suc (nat n))) rs"
  have k: "Suc (Suc (nat n)) \<le> length rs" "length ?zs \<le> 1" "n = int (length ?xs)" using n by auto
  obtain s1 l1 s2 l2 where "rs ! nat n = (s1, l1)" "rs ! Suc (nat n) = (s2, l2)" by fastforce
  then have rs: "rs = ?xs @ (s1, l1) # (s2, l2) # ?zs"
    using k(1) by (metis Cons_nth_drop_Suc Suc_leD Suc_le_eq append_take_drop_id)
  obtain ts' where ts': "mergeAt cmp ts n = Some ts'" "tsInv cmp ts' (?xs @ (s1, l1 + l2) # ?zs) lo hi"
      "rearr cmp (ts_array ts) lo (hi - lo) (ts_array ts')"
    using mergeAt_spec [OF _ k(2,3), of ts s1 l1 s2 l2 lo hi] inv rs by auto
  have "length rs = Suc (length (?xs @ (s1, l1 + l2) # ?zs))" using k(1) by simp
  moreover have "drop 2 (rev (map snd (xs @ (s1, l1 + l2) # zs))) = drop 3 (rev (map snd (xs @ (s1, l1) # (s2, l2) # zs)))"
    if "length zs \<le> 1" for xs zs :: "(int \<times> int) list"
    using that by (cases zs) (auto simp: numeral_2_eq_2 numeral_3_eq_3)
  ultimately show ?thesis using ts' rs k(2) by metis
qed

end

section \<open>The collapsing loops\<close>

text \<open>
  The lengths from the top of the stack down, each above the one before it and above the sum
  of the two before it, as \<open>mergeRuns\<close> leaves them.
\<close>

fun balanced :: "int list \<Rightarrow> bool" where
  "balanced (c # b # a # ls) \<longleftrightarrow> c < b \<and> c + b < a \<and> balanced (b # a # ls)"
| "balanced [c, b] \<longleftrightarrow> c < b"
| "balanced [c] \<longleftrightarrow> True"
| "balanced [] \<longleftrightarrow> True"

lemma balanced_tl: "balanced (c # ls) \<Longrightarrow> balanced ls"
  by (cases "c # ls" rule: balanced.cases) auto

lemma balanced_drop: "balanced ls \<Longrightarrow> balanced (drop n ls)"
proof (induction n arbitrary: ls)
  case (Suc n)
  then show ?case by (cases ls) (auto dest: balanced_tl)
qed simp

abbreviation tops :: "(int \<times> int) list \<Rightarrow> int list" where
  "tops rs \<equiv> rev (map snd rs)"

lemma stack_top:
  assumes "stack ts rs" "j < length rs"
  shows "arr_get (ts_runLength ts) (ts_stackSize ts - 1 - int j) = Some (tops rs ! j)"
proof -
  define k where "k = length rs - Suc j"
  have k: "int (length rs) - 1 - int j = int k" "k < length rs" using assms(2) by (simp_all add: k_def)
  have "tops rs ! j = snd (rs ! k)" using assms(2) k(2) by (simp add: rev_nth k_def)
  then show ?thesis
    using stack_get(2) [OF assms(1), of "int k"] k stack_size [OF assms(1)] by simp
qed

lemma mergeRunsIndex_cases:
  assumes "stack ts rs" "2 \<le> length rs"
    and "\<forall>l\<in>set (tops rs). 1 \<le> l" "balanced (drop 2 (tops rs))"
  shows "mergeRunsIndex (ts_runLength ts) (ts_stackSize ts) = Some None \<and> balanced (tops rs) \<or>
    (\<exists>n. mergeRunsIndex (ts_runLength ts) (ts_stackSize ts) = Some (Some n) \<and> 0 \<le> n \<and>
      (n = int (length rs) - 2 \<or> n = int (length rs) - 3))"
proof -
  have ss: "ts_stackSize ts = int (length (tops rs))" using stack_size [OF assms(1)] by simp
  note get = stack_top [OF assms(1), of 0] stack_top [OF assms(1), of 1]
    stack_top [OF assms(1), of 2] stack_top [OF assms(1), of 3]
  obtain c b ls where t: "tops rs = c # b # ls"
    using assms(2) by (metis (no_types, lifting) One_nat_def Suc_1 Suc_le_length_iff length_map length_rev)
  have len: "length rs = length (tops rs)" by simp
  consider (two) "ls = []" | (three) a where "ls = [a]" | (more) a z us where "ls = a # z # us"
    by (cases ls; cases "tl ls") auto
  then show ?thesis
  proof cases
    case two
    then show ?thesis using get t ss unfolding len
      by (auto simp: mergeRunsIndex_def Let_def)
  next
    case three
    then show ?thesis using get t ss assms(3) unfolding len
      by (auto simp: mergeRunsIndex_def Let_def)
  next
    case more
    then show ?thesis using get t ss assms(3,4) unfolding len
      by (auto simp: mergeRunsIndex_def Let_def)
  qed
qed

text \<open>\<open>mergeRuns\<close> ends, and leaves the whole stack balanced.\<close>

context comparator
begin

lemma tsInv_lengths: "tsInv cmp ts rs lo hi \<Longrightarrow> \<forall>l\<in>set (tops rs). 1 \<le> l"
  by (auto simp: tsInv_def dest: chain_mem)

lemma mergeRuns_spec:
  assumes "tsInv cmp ts rs lo hi" "balanced (drop 2 (tops rs))"
  shows "\<exists>ts' rs'. mergeRuns cmp ts = Some ts' \<and> tsInv cmp ts' rs' lo hi \<and> balanced (tops rs')
    \<and> rearr cmp (ts_array ts) lo (hi - lo) (ts_array ts')"
  using assms
proof (induction "length rs" arbitrary: ts rs rule: less_induct)
  case less
  have stk: "stack ts rs" using less.prems by (simp add: tsInv_def)
  have refl: "rearr cmp (ts_array ts) lo (hi - lo) (ts_array ts)"
    using less.prems chain_bounds by (intro rearr_refl) (auto simp: tsInv_def)
  show ?case
  proof (cases "2 \<le> length rs")
    case False
    then have "mergeRuns cmp ts = Some ts" using stack_size [OF stk] by (subst mergeRuns.simps) simp
    moreover have "balanced (tops rs)" using False by (cases rs; cases "tl rs") auto
    ultimately show ?thesis using less.prems refl by blast
  next
    case True
    from mergeRunsIndex_cases [OF stk True tsInv_lengths [OF less.prems(1)] less.prems(2)]
    consider (stop) "mergeRunsIndex (ts_runLength ts) (ts_stackSize ts) = Some None" "balanced (tops rs)"
      | (go) n where "mergeRunsIndex (ts_runLength ts) (ts_stackSize ts) = Some (Some n)" "0 \<le> n"
          "n = int (length rs) - 2 \<or> n = int (length rs) - 3"
      by blast
    then show ?thesis
    proof cases
      case stop
      then have "mergeRuns cmp ts = Some ts" by (subst mergeRuns.simps) simp
      then show ?thesis using less.prems refl stop by blast
    next
      case go
      obtain ts1 rs1 where 1: "mergeAt cmp ts n = Some ts1" "tsInv cmp ts1 rs1 lo hi" "length rs = Suc (length rs1)"
          "drop 2 (tops rs1) = drop 3 (tops rs)" "rearr cmp (ts_array ts) lo (hi - lo) (ts_array ts1)"
        using mergeAt_index [OF less.prems(1) go(3,2)] by blast
      have "drop 3 (tops rs) = drop 1 (drop 2 (tops rs))" by (simp add: numeral_3_eq_3)
      then have "balanced (drop 2 (tops rs1))" unfolding 1(4) using balanced_drop less.prems(2) by metis
      from less.hyps [OF _ 1(2) this] 1(3) obtain ts' rs' where
        "mergeRuns cmp ts1 = Some ts'" "tsInv cmp ts' rs' lo hi" "balanced (tops rs')"
        "rearr cmp (ts_array ts1) lo (hi - lo) (ts_array ts')" by auto
      then show ?thesis
        using go 1 True stack_size [OF stk] rearr_trans [OF 1(5)] by (subst mergeRuns.simps) auto
    qed
  qed
qed

lemma forceMergeIndex_cases:
  assumes "stack ts rs" "2 \<le> length rs"
  shows "\<exists>n. forceMergeIndex (ts_runLength ts) (ts_stackSize ts) = Some n \<and> 0 \<le> n \<and>
      (n = int (length rs) - 2 \<or> n = int (length rs) - 3)"
proof (cases "length rs = 2")
  case True
  then show ?thesis using stack_size [OF assms(1)] by (simp add: forceMergeIndex_def Let_def)
next
  case False
  then show ?thesis
    using stack_top [OF assms(1), of 0] stack_top [OF assms(1), of 2] stack_size [OF assms(1)] assms(2)
    by (cases "rs = []") (auto simp: forceMergeIndex_def Let_def)
qed

lemma forceMergeRuns_spec:
  assumes "tsInv cmp ts rs lo hi" "rs \<noteq> []"
  shows "\<exists>ts' r. forceMergeRuns cmp ts = Some ts' \<and> tsInv cmp ts' [r] lo hi
    \<and> rearr cmp (ts_array ts) lo (hi - lo) (ts_array ts')"
  using assms
proof (induction "length rs" arbitrary: ts rs rule: less_induct)
  case less
  have stk: "stack ts rs" using less.prems by (simp add: tsInv_def)
  show ?case
  proof (cases "2 \<le> length rs")
    case False
    moreover have "length rs \<noteq> 0" using less.prems(2) by simp
    ultimately have "length rs = 1" by linarith
    then obtain r where r: "rs = [r]" by (metis One_nat_def length_0_conv length_Suc_conv)
    then have "forceMergeRuns cmp ts = Some ts" using stack_size [OF stk] r by (subst forceMergeRuns.simps) simp
    moreover have "rearr cmp (ts_array ts) lo (hi - lo) (ts_array ts)"
      using less.prems chain_bounds by (intro rearr_refl) (auto simp: tsInv_def)
    ultimately show ?thesis using less.prems r by blast
  next
    case True
    obtain n where n: "forceMergeIndex (ts_runLength ts) (ts_stackSize ts) = Some n" "0 \<le> n"
        "n = int (length rs) - 2 \<or> n = int (length rs) - 3"
      using forceMergeIndex_cases [OF stk True] by blast
    obtain ts1 rs1 where 1: "mergeAt cmp ts n = Some ts1" "tsInv cmp ts1 rs1 lo hi" "length rs = Suc (length rs1)"
        "rearr cmp (ts_array ts) lo (hi - lo) (ts_array ts1)"
      using mergeAt_index [OF less.prems(1) n(3,2)] by blast
    then have "rs1 \<noteq> []" "length rs1 < length rs" using True by auto
    from less.hyps [OF this(2) 1(2) this(1)] obtain ts' r where
      "forceMergeRuns cmp ts1 = Some ts'" "tsInv cmp ts' [r] lo hi"
      "rearr cmp (ts_array ts1) lo (hi - lo) (ts_array ts')" by auto
    then show ?thesis
      using n 1 True stack_size [OF stk] rearr_trans [OF 1(4)]
      by (subst forceMergeRuns.simps) (auto simp del: split_paired_Ex)
  qed
qed

end

section \<open>sort\<close>

text \<open>
  The minimum run length is the length divided by the least power of two that brings it
  below 32, rounded up.
\<close>

lemma js_or_and_bit:
  assumes "r = 0 \<or> r = 1" "0 \<le> n" "n < 2 ^ 31"
  shows "js_or r (js_and n 1) = (if r = 0 \<and> even n then 0 else 1)"
proof -
  have "n mod 2 = 0 \<or> n mod 2 = 1" by auto
  then show ?thesis
    using assms by (auto simp: js_bits js_or_def even_iff_mod_2_eq_zero)
qed

lemma div_round_up: "0 < (p :: int) \<Longrightarrow> (n + p - 1) div p = n div p + (if p dvd n then 0 else 1)"
proof -
  assume p: "0 < p"
  have "n + p - 1 = (n mod p + p - 1) + (n div p) * p" by (simp add: algebra_simps)
  then have "(n + p - 1) div p = ((n mod p + p - 1) + (n div p) * p) div p" by metis
  then have e: "(n + p - 1) div p = (n mod p + p - 1) div p + n div p"
    using p div_mult_self1 [of p "n mod p + p - 1" "n div p"] by linarith
  have m: "0 \<le> n mod p" "n mod p < p" using p by simp_all
  show ?thesis
  proof (cases "p dvd n")
    case True
    then have "n mod p = 0" by simp
    then show ?thesis using e p True by simp
  next
    case False
    then have "n mod p \<noteq> 0" by (simp add: dvd_eq_mod_eq_0)
    then have "1 \<le> n mod p" using m by linarith
    then have "(n mod p + p - 1) div p = 1" using m by (intro int_div_pos_eq [of _ _ _ "n mod p - 1"]) auto
    then show ?thesis using e False by simp
  qed
qed

lemma minRunLoop_eq:
  assumes "0 \<le> n" "n < 2 ^ 31" "r = 0 \<or> r = 1"
  shows "\<exists>k. minRunLoop n r = n div 2 ^ k + (if r = 0 \<and> 2 ^ k dvd n then 0 else 1)
    \<and> n div 2 ^ k < 32 \<and> (16 \<le> n \<longrightarrow> 16 \<le> n div 2 ^ k)"
  using assms
proof (induction "nat n" arbitrary: n r rule: less_induct)
  case less
  show ?case
  proof (cases "32 \<le> n")
    case False
    then show ?thesis using less.prems
      by (intro exI [of _ 0]) (auto simp: minRunLoop.simps [of n r] DEFAULT_MIN_MERGE_def)
  next
    case True
    let ?r = "if r = 0 \<and> even n then 0 else 1 :: int"
    have step: "minRunLoop n r = minRunLoop (n div 2) ?r"
      using True less.prems js_or_and_bit [of r n]
      by (subst minRunLoop.simps) (simp add: DEFAULT_MIN_MERGE_def js_bits)
    have "nat (n div 2) < nat n" "0 \<le> n div 2" "n div 2 < 2 ^ 31" "?r = 0 \<or> ?r = 1"
      using True less.prems by auto
    from less.hyps [OF this] obtain k where
      k: "minRunLoop (n div 2) ?r = n div 2 div 2 ^ k + (if ?r = 0 \<and> 2 ^ k dvd n div 2 then 0 else 1)"
        "n div 2 div 2 ^ k < 32" "16 \<le> n div 2 \<longrightarrow> 16 \<le> n div 2 div 2 ^ k" by blast
    have d: "n div 2 div 2 ^ k = n div 2 ^ Suc k" by (simp add: zdiv_zmult2_eq)
    have dv: "2 ^ Suc k dvd n \<longleftrightarrow> even n \<and> 2 ^ k dvd n div 2"
    proof
      assume "2 ^ Suc k dvd n"
      then obtain q where "n = 2 * (2 ^ k * q)" by (auto simp: dvd_def)
      then show "even n \<and> 2 ^ k dvd n div 2" by simp
    next
      assume "even n \<and> 2 ^ k dvd n div 2"
      then obtain q where "n = 2 * (2 ^ k * q)" by (auto simp: dvd_def elim!: evenE)
      then show "2 ^ Suc k dvd n" by simp
    qed
    have "16 \<le> n div 2 ^ Suc k" using k(3) d True by simp
    then show ?thesis
      using step k(1,2) d dv by (intro exI [of _ "Suc k"]) auto
  qed
qed

lemma minRunLength_pos: "0 \<le> n \<Longrightarrow> n < 2 ^ 31 \<Longrightarrow> 16 \<le> n \<Longrightarrow> 16 \<le> minRunLength n \<and> minRunLength n \<le> 32"
  using minRunLoop_eq [of n 0] by (auto simp: minRunLength_def)

text \<open>The range the routine is asked to sort.\<close>

definition range_of :: "'b list \<Rightarrow> int option \<Rightarrow> int option \<Rightarrow> int \<times> int" where
  "range_of xs lo_arg hi_arg =
     (case lo_arg of None \<Rightarrow> 0 | Some l \<Rightarrow> l,
      case hi_arg of None \<Rightarrow> int (length xs) | Some h \<Rightarrow> if h = 0 then int (length xs) else h)"

context comparator
begin

text \<open>The part of the loop body that finds the next run and extends it if it is short.\<close>

lemma nextRun_spec:
  assumes "0 \<le> lo" "1 \<le> n" "lo + n \<le> int (length a)" "int (length a) < 2 ^ 31" "1 \<le> minRun"
  shows "\<exists>b k. do { (b, k) \<leftarrow> makeAscendingRun a lo (lo + n) cmp;
            if k < minRun then
              let force = (if n > minRun then minRun else n) in
              do { c \<leftarrow> binaryInsertionSort b lo (lo + force) (lo + k) cmp; Some (c, force) }
            else Some (b, k) } = Some (b, k)
    \<and> 1 \<le> k \<and> k \<le> n \<and> rearr cmp a lo k b \<and> cmp_sorted cmp (seg b lo k)"
proof -
  have hi: "lo < lo + n" using assms by simp
  obtain b k where b: "makeAscendingRun a lo (lo + n) cmp = Some (b, k)" "1 \<le> k" "k \<le> n"
      "rearr cmp a lo k b" "cmp_sorted cmp (seg b lo k)"
    using makeAscendingRun_spec [OF assms(1) hi assms(3)] by auto
  show ?thesis
  proof (cases "k < minRun")
    case False
    then show ?thesis using b by auto
  next
    case True
    define f where "f = (if n > minRun then minRun else n)"
    have f: "k \<le> f" "f \<le> n" "1 \<le> f" using True b(3) assms by (auto simp: f_def)
    have len: "length b = length a" using b(4) by (rule rearr_length)
    obtain c where c: "binaryInsertionSort b lo (lo + f) (lo + k) cmp = Some c"
        "rearr cmp b lo f c" "cmp_sorted cmp (seg c lo f)"
      using binaryInsertionSort_spec [of lo "lo + k" "lo + f" b] f assms b len by auto
    have "rearr cmp a lo f b" using f assms by (intro rearr_widen [OF b(4)]) auto
    then have "rearr cmp a lo f c" using c(2) by (rule rearr_trans)
    then show ?thesis using True b(1) c f by (auto simp: f_def [symmetric])
  qed
qed

lemma sortLoop_spec:
  assumes "tsInv cmp ts rs lo0 lo" "balanced (tops rs)" "1 \<le> n" "lo + n \<le> int (length (ts_array ts))" "1 \<le> minRun"
  shows "\<exists>ts' rs'. sortLoop cmp minRun (lo + n) ts lo n = Some ts' \<and> tsInv cmp ts' rs' lo0 (lo + n)
    \<and> balanced (tops rs') \<and> rearr cmp (ts_array ts) lo0 (lo + n - lo0) (ts_array ts')"
  using assms
proof (induction "nat n" arbitrary: n lo ts rs rule: less_induct)
  case less
  let ?a = "ts_array ts"
  note v = less.prems(1) [unfolded tsInv_def]
  have lo: "0 \<le> lo0" "lo0 \<le> lo" "0 \<le> lo" using v chain_bounds by force+
  obtain b k where b: "do { (b, k) \<leftarrow> makeAscendingRun ?a lo (lo + n) cmp;
            if k < minRun then
              let force = (if n > minRun then minRun else n) in
              do { c \<leftarrow> binaryInsertionSort b lo (lo + force) (lo + k) cmp; Some (c, force) }
            else Some (b, k) } = Some (b, k)"
      "1 \<le> k" "k \<le> n" "rearr cmp ?a lo k b" "cmp_sorted cmp (seg b lo k)"
    using nextRun_spec [of lo n ?a minRun] less.prems lo v by auto
  have len: "length b = length ?a" using b(4) by (rule rearr_length)
  obtain ts1 where p: "pushRun (ts\<lparr>ts_array := b\<rparr>) lo k = Some ts1" "stack ts1 (rs @ [(lo, k)])" "ts_array ts1 = b"
    using pushRun_stack [of "ts\<lparr>ts_array := b\<rparr>" rs lo k] v by (auto simp: stack_def)
  have same: "seg b s l = seg ?a s l" if "(s, l) \<in> set rs" for s l
    using v that by (intro rearr_seg_before [OF b(4)]) (auto dest!: chain_mem)
  then have inv1: "tsInv cmp ts1 (rs @ [(lo, k)]) lo0 (lo + k)"
    using v p b less.prems lo len by (auto simp: tsInv_def chain_append)
  have "drop 2 (tops (rs @ [(lo, k)])) = drop 1 (tops rs)" by (simp add: numeral_2_eq_2)
  then have "balanced (drop 2 (tops (rs @ [(lo, k)])))" using less.prems(2) by (simp add: balanced_drop)
  from mergeRuns_spec [OF inv1 this] obtain ts2 rs2 where
    2: "mergeRuns cmp ts1 = Some ts2" "tsInv cmp ts2 rs2 lo0 (lo + k)" "balanced (tops rs2)"
      "rearr cmp b lo0 (lo + k - lo0) (ts_array ts2)" using p(3) by auto
  have len2: "length (ts_array ts2) = length ?a" using rearr_length [OF 2(4)] len by simp
  have "rearr cmp ?a lo0 (lo + k - lo0) b"
    using b lo less.prems by (intro rearr_widen [OF b(4)]) auto
  then have r2: "rearr cmp ?a lo0 (lo + k - lo0) (ts_array ts2)" using 2(4) by (rule rearr_trans)
  have r: "rearr cmp ?a lo0 (lo + n - lo0) (ts_array ts2)"
    using b lo less.prems by (intro rearr_widen [OF r2]) auto
  have unf: "sortLoop cmp minRun (lo + n) ts lo n
      = (if n - k \<noteq> 0 then sortLoop cmp minRun (lo + n) ts2 (lo + k) (n - k) else Some ts2)"
  proof -
    obtain b0 k0 where 0: "makeAscendingRun ?a lo (lo + n) cmp = Some (b0, k0)"
      and ext: "(if k0 < minRun then
              let force = (if n > minRun then minRun else n) in
              do { c \<leftarrow> binaryInsertionSort b0 lo (lo + force) (lo + k0) cmp; Some (c, force) }
            else Some (b0, k0)) = Some (b, k)"
      using b(1) by (auto simp: bind_eq_Some_conv)
    show ?thesis
      by (subst sortLoop.simps) (simp only: 0 ext [unfolded Let_def] p(1) 2(1) bind.bind_lunit prod.case Let_def)
  qed
  show ?case
  proof (cases "n = k")
    case True
    then show ?thesis using unf 2 r2 by auto
  next
    case False
    then obtain ts3 rs3 where "sortLoop cmp minRun (lo + k + (n - k)) ts2 (lo + k) (n - k) = Some ts3"
        "tsInv cmp ts3 rs3 lo0 (lo + k + (n - k))" "balanced (tops rs3)"
        "rearr cmp (ts_array ts2) lo0 (lo + k + (n - k) - lo0) (ts_array ts3)"
      using less.hyps [OF _ 2(2,3), of "n - k"] less.prems b len2 by auto
    then show ?thesis using unf False rearr_trans [OF r] by auto
  qed
qed

lemma sort_array_spec:
  assumes "range_of a lo_arg hi_arg = (lo, hi)" "0 \<le> lo" "lo \<le> hi" "hi \<le> int (length a)" "int (length a) < 2 ^ 31"
  shows "\<exists>b. sort_array a cmp lo_arg hi_arg = Some b \<and> rearr cmp a lo (hi - lo) b
    \<and> cmp_sorted cmp (seg b lo (hi - lo))"
proof -
  have args: "(case lo_arg of None \<Rightarrow> 0 | Some l \<Rightarrow> l) = lo"
      "(case hi_arg of None \<Rightarrow> int (length a) | Some h \<Rightarrow> if h = 0 then int (length a) else h) = hi"
    using assms(1) by (simp_all add: range_of_def)
  note body = sort_array_def [of a cmp lo_arg hi_arg, unfolded args Let_def]
  consider (short) "hi - lo < 2" | (insert) "2 \<le> hi - lo" "hi - lo < 32" | (merge) "32 \<le> hi - lo" by linarith
  then show ?thesis
  proof cases
    case short
    then have "hi - lo = 0 \<or> hi - lo = 1" using assms by linarith
    then have "cmp_sorted cmp (seg a lo (hi - lo))" using assms by (auto simp: seg_1 cmp_sorted_def)
    then show ?thesis using short assms by (auto simp: body intro: rearr_refl)
  next
    case insert
    obtain b k where b: "makeAscendingRun a lo hi cmp = Some (b, k)" "1 \<le> k" "k \<le> hi - lo"
        "rearr cmp a lo k b" "cmp_sorted cmp (seg b lo k)"
      using makeAscendingRun_spec [of lo hi a] assms insert by auto
    obtain c where c: "binaryInsertionSort b lo hi (lo + k) cmp = Some c" "rearr cmp b lo (hi - lo) c"
        "cmp_sorted cmp (seg c lo (hi - lo))"
      using binaryInsertionSort_spec [of lo "lo + k" hi b] b assms insert rearr_length [OF b(4)] by auto
    have "rearr cmp a lo (hi - lo) b" using b assms by (intro rearr_widen [OF b(4)]) auto
    then have "rearr cmp a lo (hi - lo) c" using c(2) by (rule rearr_trans)
    then show ?thesis using insert b(1) c by (simp add: body DEFAULT_MIN_MERGE_def)
  next
    case merge
    have "tsInv cmp (newTimSort a) [] lo lo"
      using assms stack_new [of a] by (simp add: tsInv_def) (simp add: newTimSort_def)
    moreover have "1 \<le> minRunLength (hi - lo)" using minRunLength_pos [of "hi - lo"] merge assms by linarith
    ultimately obtain ts rs where ts: "sortLoop cmp (minRunLength (hi - lo)) hi (newTimSort a) lo (hi - lo) = Some ts"
        "tsInv cmp ts rs lo hi" "rearr cmp a lo (hi - lo) (ts_array ts)"
      using sortLoop_spec [of "newTimSort a" "[]" lo lo "hi - lo" "minRunLength (hi - lo)"] merge assms
      by (auto simp: newTimSort_def)
    then have "rs \<noteq> []" using merge by (auto simp: tsInv_def)
    then obtain ts' s l where ts': "forceMergeRuns cmp ts = Some ts'" "tsInv cmp ts' [(s, l)] lo hi"
        "rearr cmp (ts_array ts) lo (hi - lo) (ts_array ts')"
      using forceMergeRuns_spec [OF ts(2)] by auto
    then have "cmp_sorted cmp (seg (ts_array ts') lo (hi - lo))" by (auto simp: tsInv_def)
    then show ?thesis
      using merge ts ts' rearr_trans [OF ts(3) ts'(3)] by (simp add: body DEFAULT_MIN_MERGE_def)
  qed
qed

end

section \<open>Properties\<close>

text \<open>
  C1. For every comparator and every range of an array shorter than \<open>2 ^ 31\<close>, the sorting routine
  returns: no read leaves the array and every loop ends. The range comes back sorted, with
  equal elements in the order they had, and the rest of the array is as it was.
\<close>

theorem sort_array_sorts_stably:
  assumes "comparator cmp" "0 \<le> lo" "lo \<le> hi" "hi \<noteq> 0" "hi \<le> int (length a)" "int (length a) < 2 ^ 31"
  shows "\<exists>b. sort_array a cmp (Some lo) (Some hi) = Some b \<and> length b = length a
    \<and> take (nat lo) b = take (nat lo) a \<and> drop (nat hi) b = drop (nat hi) a
    \<and> stable_eq cmp (seg a lo (hi - lo)) (seg b lo (hi - lo))
    \<and> mset (seg b lo (hi - lo)) = mset (seg a lo (hi - lo))
    \<and> cmp_sorted cmp (seg b lo (hi - lo))"
proof -
  obtain b where b: "sort_array a cmp (Some lo) (Some hi) = Some b" "rearr cmp a lo (hi - lo) b"
      "cmp_sorted cmp (seg b lo (hi - lo))"
    using comparator.sort_array_spec [OF assms(1), of a "Some lo" "Some hi" lo hi] assms
    by (auto simp: range_of_def)
  then have "stable_eq cmp (seg a lo (hi - lo)) (seg b lo (hi - lo))" by (simp add: rearr_def)
  then show ?thesis
    using b comparator.stable_eq_mset [OF assms(1)] by (auto simp: rearr_def)
qed

lemma sort_array_sorts_stably_witness:
  "\<exists>b. sort_array [(5, ''e''), (2, ''x''), (1, ''a''), (2, ''b'')] (key_cmp fst) (Some 1) (Some 4) = Some b
    \<and> take 1 b = [(5 :: int, ''e'')]"
  using sort_array_sorts_stably [OF keyc.comparator_axioms,
      of 1 4 "[(5 :: int, ''e''), (2, ''x''), (1, ''a''), (2, ''b'')]" fst] by auto

lemma sort_array_key:
  assumes "int (length a) < 2 ^ 31"
  shows "sort_array a (key_cmp f) None None = Some (sort_key f a)"
proof -
  obtain b where b: "sort_array a (key_cmp f) None None = Some b" "rearr (key_cmp f) a 0 (int (length a)) b"
      "cmp_sorted (key_cmp f) (seg b 0 (int (length a)))"
    using keyc.sort_array_spec [of a None None 0 "int (length a)" f] assms by (auto simp: range_of_def)
  have "seg b 0 (int (length a)) = b" using rearr_length [OF b(2)] seg_whole [of b] by simp
  then have "b = sort_key f a"
    using b by (intro key_sorted_stable_unique) (simp_all add: rearr_def)
  then show ?thesis using b(1) by simp
qed

text \<open>
  C2. Called as the painter calls it, with an array and a comparison of integer keys, the
  routine computes the stable sort of the library.
\<close>

theorem sort_array_is_sort_key:
  assumes "int (length a) < 2 ^ 31"
  shows "sort_array a (key_cmp f) None None = Some (sort_key f a)"
  by (rule sort_array_key [OF assms])

lemma sort_array_is_sort_key_witness:
  "sort_array [(2, ''x''), (1, ''a''), (2, ''b'')] (key_cmp fst) None None
    = Some [(1 :: int, ''a''), (2, ''x''), (2, ''b'')]"
  using sort_array_is_sort_key [of "[(2 :: int, ''x''), (1, ''a''), (2, ''b'')]" fst] by simp

text \<open>
  C3. Merging the runs at stack index \<open>i\<close>, whichever of the two merge loops it takes and with whatever
  galloping threshold it starts, leaves one sorted run in their place, moves elements only
  inside the two runs, and pops one run.
\<close>

theorem mergeAt_merges:
  assumes "comparator cmp" "tsInv cmp ts (xs @ (s1, l1) # (s2, l2) # zs) lo hi" "length zs \<le> 1"
  shows "\<exists>ts'. mergeAt cmp ts (int (length xs)) = Some ts'
    \<and> tsInv cmp ts' (xs @ (s1, l1 + l2) # zs) lo hi
    \<and> rearr cmp (ts_array ts) lo (hi - lo) (ts_array ts')"
  using comparator.mergeAt_spec [OF assms refl] .

definition two_runs :: "int timsort" where
  "two_runs = \<lparr>ts_array = [1, 4, 2, 3], ts_tmp = [], ts_minGallop = 7, ts_runStart = [0, 2],
     ts_runLength = [2, 2], ts_stackSize = 2\<rparr>"

lemma mergeAt_merges_witness:
  "\<exists>ts'. mergeAt (key_cmp (\<lambda>x. x)) two_runs 0 = Some ts' \<and> tsInv (key_cmp (\<lambda>x. x)) ts' [(0, 4)] 0 4"
proof -
  have "tsInv (key_cmp (\<lambda>x. x)) two_runs ([] @ (0, 2) # (2, 2) # []) 0 4"
    by (simp add: tsInv_def two_runs_def stack_def seg_def cmp_sorted_def key_cmp_def)
  from mergeAt_merges [OF keyc.comparator_axioms this] show ?thesis by auto
qed

text \<open>
  C4. \<open>mergeRuns\<close>, run on a stack that was balanced before the topmost run was pushed, returns with
  the whole stack balanced: each length above the one over it and above the sum of the two over
  it. (The test one run further down, which the first published version of the
  algorithm lacks, is what makes this hold for the whole stack.)
\<close>

theorem mergeRuns_balances:
  assumes "comparator cmp" "tsInv cmp ts (rs @ [r]) lo hi" "balanced (tops rs)"
  shows "\<exists>ts' rs'. mergeRuns cmp ts = Some ts' \<and> tsInv cmp ts' rs' lo hi \<and> balanced (tops rs')
    \<and> rearr cmp (ts_array ts) lo (hi - lo) (ts_array ts')"
proof -
  have "drop 2 (tops (rs @ [r])) = drop 1 (tops rs)" by (simp add: numeral_2_eq_2)
  then show ?thesis
    using comparator.mergeRuns_spec [OF assms(1,2)] balanced_drop [OF assms(3)] by metis
qed

lemma mergeRuns_balances_witness:
  "\<exists>ts' rs'. mergeRuns (key_cmp (\<lambda>x. x)) two_runs = Some ts' \<and> tsInv (key_cmp (\<lambda>x. x)) ts' rs' 0 4
    \<and> balanced (tops rs')"
proof -
  have "tsInv (key_cmp (\<lambda>x. x)) two_runs ([(0, 2)] @ [(2, 2)]) 0 4"
    by (simp add: tsInv_def two_runs_def stack_def seg_def cmp_sorted_def key_cmp_def)
  from mergeRuns_balances [OF keyc.comparator_axioms this] show ?thesis by auto
qed

text \<open>
  C5. Whatever the hint, galloping to the right from any element of a sorted segment returns the
  number of elements that are not above the key, and galloping to the left the number that
  are below it; the doubling offset may overflow 32 bits on the way.
\<close>

theorem gallop_counts:
  assumes "comparator cmp" "cmp_sorted cmp (seg a s n)" "0 \<le> s" "s + n \<le> int (length a)"
    "0 \<le> hint" "hint < n" "n < 2 ^ 31"
  shows "gallopRight v a s n hint cmp = Some (int (length (filter (\<lambda>x. cmp x v \<le> 0) (seg a s n))))
    \<and> gallopLeft v a s n hint cmp = Some (int (length (filter (\<lambda>x. cmp x v < 0) (seg a s n))))"
proof -
  have right: "(\<lambda>x. cmp x v \<le> 0) = (\<lambda>x. \<not> cmp v x < 0)"
    using comparator.le_iff [OF assms(1)] by blast
  have left: "(\<lambda>x. cmp x v < 0) = (\<lambda>x. 0 < cmp v x)"
    using comparator.swap [OF assms(1)] by blast
  show ?thesis
    unfolding right left
    using gallopRight_eq [OF comparator.down_closed_gallopRight [OF assms(1,2)] assms(3-7)]
      gallopLeft_eq [OF comparator.down_closed_gallopLeft [OF assms(1,2)] assms(3-7)]
      comparator.down_closed_gallopRight [OF assms(1,2)] comparator.down_closed_gallopLeft [OF assms(1,2)]
    by (simp add: cut_filter)
qed

lemma gallop_counts_witness:
  "gallopRight 2 [1, 2, 2, 5 :: int] 0 4 3 (key_cmp (\<lambda>x. x)) = Some 3
    \<and> gallopLeft 2 [1, 2, 2, 5 :: int] 0 4 3 (key_cmp (\<lambda>x. x)) = Some 1"
proof -
  have "cmp_sorted (key_cmp (\<lambda>x. x)) (seg [1, 2, 2, 5 :: int] 0 4)"
    by (simp add: seg_def cmp_sorted_def key_cmp_def)
  from gallop_counts [OF keyc.comparator_axioms this, of 3 2] show ?thesis by (simp add: seg_def key_cmp_def)
qed

text \<open>
  The minimum run length of a range of \<open>n\<close> elements is \<open>n\<close> divided by a power of two, rounded up,
  and lies between 16 and 32 once the range is long enough to be merged.
\<close>

theorem minRunLength_rounds_up:
  assumes "0 \<le> n" "n < 2 ^ 31"
  shows "(\<exists>k. minRunLength n = (n + 2 ^ k - 1) div 2 ^ k) \<and> minRunLength n \<le> 32
    \<and> (16 \<le> n \<longrightarrow> 16 \<le> minRunLength n)"
proof -
  obtain k where k: "minRunLength n = n div 2 ^ k + (if 2 ^ k dvd n then 0 else 1)" "n div 2 ^ k < 32"
      "16 \<le> n \<longrightarrow> 16 \<le> n div 2 ^ k"
    using minRunLoop_eq [OF assms, of 0] by (auto simp: minRunLength_def)
  have "minRunLength n = (n + 2 ^ k - 1) div 2 ^ k"
    unfolding k(1) by (rule div_round_up [symmetric]) simp
  moreover have "minRunLength n \<le> 32" "16 \<le> n \<longrightarrow> 16 \<le> minRunLength n" using k by auto
  ultimately show ?thesis by blast
qed

lemma minRunLength_rounds_up_witness:
  "(\<exists>k. minRunLength 1000 = (1000 + 2 ^ k - 1) div 2 ^ k) \<and> 16 \<le> minRunLength 1000"
  using minRunLength_rounds_up [of 1000] by simp

end
