(* ===== verification/Js_Strings.thy ===== *)
theory Js_Strings
  imports Js_Prelude "HOL-Library.AList"
begin

text \<open>
  Texts as the program builds them: the decimal text of a natural number, and how it
  is told from other texts.
\<close>

section \<open>Decimal texts\<close>

definition digit :: "nat \<Rightarrow> char" where
  "digit d = char_of (48 + d)"

fun dec :: "nat \<Rightarrow> string" where
  "dec n = (if n < 10 then [digit n] else dec (n div 10) @ [digit (n mod 10)])"

declare dec.simps [simp del]

definition is_digit :: "char \<Rightarrow> bool" where
  "is_digit c \<longleftrightarrow> 48 \<le> (of_char c :: nat) \<and> (of_char c :: nat) \<le> 57"

lemma digit_is_digit: "d < 10 \<Longrightarrow> is_digit (digit d)"
  by (simp add: digit_def is_digit_def)

lemma digit_inj: "d < 10 \<Longrightarrow> e < 10 \<Longrightarrow> digit d = digit e \<Longrightarrow> d = e"
proof -
  assume "d < 10" "e < 10" "digit d = digit e"
  then have "(of_char (digit d) :: nat) = of_char (digit e)" by simp
  then show "d = e" using \<open>d < 10\<close> \<open>e < 10\<close> by (simp add: digit_def)
qed

lemma dec_digits: "c \<in> set (dec n) \<Longrightarrow> is_digit c"
  by (induction n rule: dec.induct) (subst (asm) (2) dec.simps, auto simp: digit_is_digit split: if_splits)

lemma dec_not_Nil [simp]: "dec n \<noteq> []" "[] \<noteq> dec n"
  by (simp_all add: dec.simps [of n])

lemma dec_inj: "dec m = dec n \<Longrightarrow> m = n"
proof (induction m arbitrary: n rule: dec.induct)
  case (1 m)
  have m: "dec m = (if m < 10 then [digit m] else dec (m div 10) @ [digit (m mod 10)])" by (rule dec.simps)
  have n: "dec n = (if n < 10 then [digit n] else dec (n div 10) @ [digit (n mod 10)])" by (rule dec.simps)
  show ?case
  proof (cases "m < 10 \<or> n < 10")
    case True
    then show ?thesis using 1(2) m n digit_inj [of m n] dec_not_Nil
      by (auto split: if_splits)
  next
    case False
    then have "dec (m div 10) = dec (n div 10)" "digit (m mod 10) = digit (n mod 10)" using 1(2) m n by simp_all
    then have "m div 10 = n div 10" "m mod 10 = n mod 10" using 1(1) False by (auto intro: digit_inj)
    then show ?thesis by (metis div_mult_mod_eq)
  qed
qed

lemma dec_eq [simp]: "dec m = dec n \<longleftrightarrow> m = n"
  using dec_inj by blast

section \<open>Plain objects\<close>

text \<open>The members that every object inherits, which a dictionary kept in a plain object has as well.\<close>

definition object_members :: "string list" where
  "object_members = [''constructor'', ''toString'', ''toLocaleString'', ''valueOf'', ''hasOwnProperty'',
     ''isPrototypeOf'', ''propertyIsEnumerable'', ''__defineGetter__'', ''__defineSetter__'',
     ''__lookupGetter__'', ''__lookupSetter__'', ''__proto__'']"

definition has_key :: "(string \<rightharpoonup> 'a) \<Rightarrow> string \<Rightarrow> bool" where
  "has_key m k \<longleftrightarrow> m k \<noteq> None \<or> k \<in> set object_members"

text \<open>A number as text, and a missing one.\<close>

definition text_of :: "int option \<Rightarrow> string" where
  "text_of i = (case i of None \<Rightarrow> ''undefined'' | Some i \<Rightarrow> if i < 0 then CHR ''-'' # dec (nat (- i)) else dec (nat i))"

lemma text_of_not_Nil [simp]: "text_of i \<noteq> []"
  by (simp add: text_of_def split: option.split)

text \<open>A text cut at its dots.\<close>

fun split_dots :: "string \<Rightarrow> string list" where
  "split_dots [] = ['''']"
| "split_dots (c # cs) = (if c = CHR ''.'' then '''' # split_dots cs
     else case split_dots cs of [] \<Rightarrow> [[c]] | s # ss \<Rightarrow> (c # s) # ss)"

text \<open>A new key goes to the end of a dictionary.\<close>

lemma update_new: "t \<notin> fst ` set ds \<Longrightarrow> AList.update t c ds = ds @ [(t, c)]"
  by (induction ds) auto

end
