(* ===== verification/Lru.thy ===== *)
theory Lru
  imports Js_Strings
begin

text \<open>
  The cache of \<open>zrender/core/LRU\<close> (module 62): a doubly linked list of entries in a store, from the least
  to the most recently used, and a dictionary from keys to entries. The theorems relate
  it to a plain list of key and value pairs.
\<close>

section \<open>Dictionaries\<close>

text \<open>
  A plain object used as a dictionary inherits the members of every object: reading one
  of their names finds a built-in function, which is an object with none of the fields the
  code then reads. References are the objects of the code or such a built-in.
\<close>

datatype ref = Obj nat | Builtin string

definition dict_get :: "(string \<rightharpoonup> ref) \<Rightarrow> string \<Rightarrow> ref option" where
  "dict_get m k = (case m k of Some r \<Rightarrow> Some r
     | None \<Rightarrow> if k \<in> set object_members then Some (Builtin k) else None)"

lemma dict_get_own: "k \<notin> set object_members \<Longrightarrow> dict_get m k = m k"
  by (simp add: dict_get_def split: option.split)

section \<open>The linked list\<close>

text \<open>A field is \<open>None\<close> when it is null or was never set.\<close>

record 'v entry =
  e_value :: "'v option"
  e_prev :: "ref option"
  e_next :: "ref option"
  e_key :: "string option"

definition new_entry :: "'v entry" where
  "new_entry = \<lparr>e_value = None, e_prev = None, e_next = None, e_key = None\<rparr>"

record 'v linkedlist =
  l_store :: "ref \<Rightarrow> 'v entry"
  l_fresh :: nat
  l_head :: "ref option"
  l_tail :: "ref option"
  l_len :: int

definition newLinkedList :: "'v linkedlist" where
  "newLinkedList = \<lparr>l_store = (\<lambda>_. new_entry), l_fresh = 0, l_head = None, l_tail = None, l_len = 0\<rparr>"

definition set_next :: "ref \<Rightarrow> ref option \<Rightarrow> 'v linkedlist \<Rightarrow> 'v linkedlist" where
  "set_next r n l = l\<lparr>l_store := (l_store l)(r := (l_store l r)\<lparr>e_next := n\<rparr>)\<rparr>"

definition set_prev :: "ref \<Rightarrow> ref option \<Rightarrow> 'v linkedlist \<Rightarrow> 'v linkedlist" where
  "set_prev r p l = l\<lparr>l_store := (l_store l)(r := (l_store l r)\<lparr>e_prev := p\<rparr>)\<rparr>"

definition insertEntry :: "ref \<Rightarrow> 'v linkedlist \<Rightarrow> 'v linkedlist option" where
  "insertEntry entry l =
     do { l \<leftarrow> (case l_head l of
            None \<Rightarrow> Some (l\<lparr>l_head := Some entry, l_tail := Some entry\<rparr>)
          | Some _ \<Rightarrow> do {
              t \<leftarrow> l_tail l;
              let l = set_prev entry (Some t) (set_next t (Some entry) l) in
              Some (l\<lparr>l_tail := Some entry\<rparr>) });
          Some (l\<lparr>l_len := l_len l + 1\<rparr>) }"

definition insert_value :: "'v \<Rightarrow> 'v linkedlist \<Rightarrow> (ref \<times> 'v linkedlist) option" where
  "insert_value v l =
     (let entry = Obj (l_fresh l);
          l = l\<lparr>l_fresh := l_fresh l + 1, l_store := (l_store l)(entry := new_entry\<lparr>e_value := Some v\<rparr>)\<rparr> in
      do { l \<leftarrow> insertEntry entry l; Some (entry, l) })"

definition remove :: "ref \<Rightarrow> 'v linkedlist \<Rightarrow> 'v linkedlist" where
  "remove entry l =
     (let prev = e_prev (l_store l entry); next = e_next (l_store l entry);
          l = (case prev of Some p \<Rightarrow> set_next p next l | None \<Rightarrow> l\<lparr>l_head := next\<rparr>);
          l = (case next of Some n \<Rightarrow> set_prev n prev l | None \<Rightarrow> l\<lparr>l_tail := prev\<rparr>);
          l = set_prev entry None (set_next entry None l) in
      l\<lparr>l_len := l_len l - 1\<rparr>)"

section \<open>The cache\<close>

record 'v lru =
  u_list :: "'v linkedlist"
  u_map :: "string \<rightharpoonup> ref"
  u_maxSize :: int

definition capacity :: "int option \<Rightarrow> int" where
  "capacity maxSize = (case maxSize of None \<Rightarrow> 10 | Some n \<Rightarrow> if n = 0 then 10 else n)"

definition newLRU :: "int option \<Rightarrow> 'v lru" where
  "newLRU maxSize = \<lparr>u_list = newLinkedList, u_map = Map.empty, u_maxSize = capacity maxSize\<rparr>"

lemma newLRU_maxSize [simp]: "u_maxSize (newLRU m) = capacity m"
  by (simp add: newLRU_def)

text \<open>A missing key deletes the member named ''undefined''.\<close>

definition lru_put :: "string \<Rightarrow> 'v \<Rightarrow> 'v lru \<Rightarrow> 'v lru option" where
  "lru_put key v u =
     (if dict_get (u_map u) key = None then
        let len = l_len (u_list u) in
        do { u \<leftarrow> (if len \<ge> u_maxSize u \<and> len > 0 then do {
                 leastUsed \<leftarrow> l_head (u_list u);
                 let l = remove leastUsed (u_list u);
                     k = (case e_key (l_store l leastUsed) of Some k \<Rightarrow> k | None \<Rightarrow> ''undefined'') in
                 Some (u\<lparr>u_list := l, u_map := (u_map u)(k := None)\<rparr>) }
               else Some u);
             (entry, l) \<leftarrow> insert_value v (u_list u);
             let l = l\<lparr>l_store := (l_store l)(entry := (l_store l entry)\<lparr>e_key := Some key\<rparr>)\<rparr> in
             Some (u\<lparr>u_list := l, u_map := (u_map u)(key \<mapsto> entry)\<rparr>) }
      else Some u)"

definition lru_get :: "string \<Rightarrow> 'v lru \<Rightarrow> ('v option \<times> 'v lru) option" where
  "lru_get key u =
     (case dict_get (u_map u) key of
        None \<Rightarrow> Some (None, u)
      | Some entry \<Rightarrow> do {
          u \<leftarrow> (if Some entry \<noteq> l_tail (u_list u) then do {
                l \<leftarrow> insertEntry entry (remove entry (u_list u));
                Some (u\<lparr>u_list := l\<rparr>) }
              else Some u);
          Some (e_value (l_store (u_list u) entry), u) })"

text \<open>
  \<open>clear\<close> calls the member \<open>clear\<close> of the list: a list has the members of its prototype and of
  every object, and calling an absent one raises a \<open>TypeError\<close>, here \<open>None\<close>.
\<close>

definition linkedList_members :: "string list" where
  "linkedList_members = [''insert'', ''insertEntry'', ''remove'', ''len''] @ object_members"

definition call_list :: "string \<Rightarrow> ('v linkedlist \<Rightarrow> 'v linkedlist) \<Rightarrow> 'v linkedlist \<Rightarrow> 'v linkedlist option" where
  "call_list member method l = (if member \<in> set linkedList_members then Some (method l) else None)"

definition lru_clear :: "('v linkedlist \<Rightarrow> 'v linkedlist) \<Rightarrow> 'v lru \<Rightarrow> 'v lru option" where
  "lru_clear method u =
     do { l \<leftarrow> call_list ''clear'' method (u_list u);
          Some (u\<lparr>u_list := l, u_map := Map.empty\<rparr>) }"

lemma lru_clear_raises: "lru_clear method u = None"
  by (simp add: lru_clear_def call_list_def linkedList_members_def object_members_def)

section \<open>What a linked list holds\<close>

fun links :: "(ref \<Rightarrow> 'v entry) \<Rightarrow> ref option \<Rightarrow> ref list \<Rightarrow> ref option \<Rightarrow> bool" where
  "links s p [] n \<longleftrightarrow> True"
| "links s p (x # xs) n \<longleftrightarrow> e_prev (s x) = p \<and> e_next (s x) = (case xs of [] \<Rightarrow> n | y # _ \<Rightarrow> Some y) \<and>
     links s (Some x) xs n"

definition first :: "'a list \<Rightarrow> 'a option \<Rightarrow> 'a option" where
  "first xs n = (case xs of [] \<Rightarrow> n | y # _ \<Rightarrow> Some y)"

definition final :: "'a option \<Rightarrow> 'a list \<Rightarrow> 'a option" where
  "final p xs = (if xs = [] then p else Some (last xs))"

lemma first_simps [simp]: "first [] n = n" "first (x # xs) n = Some x" "first (xs @ ys) n = first xs (first ys n)"
  by (auto simp: first_def split: list.split)

lemma final_simps [simp]: "final p [] = p" "final p (x # xs) = final (Some x) xs" "final p (xs @ ys) = final (final p xs) ys"
  by (auto simp: final_def)

lemma links_Cons [simp]: "links s p (x # xs) n \<longleftrightarrow> e_prev (s x) = p \<and> e_next (s x) = first xs n \<and> links s (Some x) xs n"
  by (simp add: first_def)

declare links.simps(2) [simp del]

lemma links_append [simp]: "links s p (xs @ ys) n \<longleftrightarrow> links s p xs (first ys n) \<and> links s (final p xs) ys n"
  by (induction xs arbitrary: p) auto

definition holds :: "'v linkedlist \<Rightarrow> ref list \<Rightarrow> bool" where
  "holds l xs \<longleftrightarrow> links (l_store l) None xs None \<and> l_head l = first xs None \<and> l_tail l = final None xs \<and>
     l_len l = int (length xs) \<and> distinct xs"

text \<open>Writes to entries outside the list are not seen by it.\<close>

lemma links_cong:
  "(\<And>x. x \<in> set xs \<Longrightarrow> e_prev (s x) = e_prev (s' x) \<and> e_next (s x) = e_next (s' x)) \<Longrightarrow>
     links s p xs n = links s' p xs n"
  by (induction xs arbitrary: p) auto

lemma holds_empty: "holds newLinkedList []"
  by (simp add: holds_def newLinkedList_def)

section \<open>The operations of the list\<close>

text \<open>What the cache relies on: the data of the entries, and the keys, are not touched.\<close>

definition same_data :: "'v linkedlist \<Rightarrow> 'v linkedlist \<Rightarrow> bool" where
  "same_data l l' \<longleftrightarrow> (\<forall>r. e_value (l_store l' r) = e_value (l_store l r) \<and> e_key (l_store l' r) = e_key (l_store l r))
     \<and> l_fresh l' = l_fresh l"

definition detached :: "'v linkedlist \<Rightarrow> ref \<Rightarrow> bool" where
  "detached l r \<longleftrightarrow> e_prev (l_store l r) = None \<and> e_next (l_store l r) = None"

lemma remove_holds:
  assumes "holds l (us @ x # vs)"
  shows "holds (remove x l) (us @ vs) \<and> detached (remove x l) x \<and> same_data l (remove x l)"
proof -
  let ?s = "l_store l"
  have p: "e_prev (?s x) = final None us" and n: "e_next (?s x) = first vs None"
    and lu: "links ?s None us (Some x)" and lv: "links ?s (Some x) vs None"
    and d: "distinct (us @ x # vs)" and hd: "l_head l = first us (Some x)" and tl: "l_tail l = final (Some x) vs"
    and len: "l_len l = int (length us) + 1 + int (length vs)"
    using assms by (auto simp: holds_def)
  define l' where "l' = remove x l"
  have s': "e_prev (l_store l' r) = (if r = x then None else if Some r = first vs None then final None us else e_prev (?s r))"
    "e_next (l_store l' r) = (if r = x then None else if Some r = final None us then first vs None else e_next (?s r))"
    for r
    using d by (auto simp: l'_def remove_def Let_def p n set_next_def set_prev_def first_def final_def split: list.split)
  have "links (l_store l') None us (first vs None)"
  proof (cases us rule: rev_cases)
    case (snoc us' q)
    have "links (l_store l') None us' (Some q)"
      using lu d snoc by (subst links_cong [of _ _ ?s]) (auto simp: s' first_def split: list.splits)
    then show ?thesis using lu d snoc by (auto simp: s' first_def split: list.splits)
  qed simp
  moreover have "links (l_store l') (final None us) vs None"
  proof (cases vs)
    case (Cons q vs')
    have "links (l_store l') (Some q) vs' None"
      using lv d Cons
      by (cases us rule: rev_cases; subst links_cong [of _ _ ?s]) (auto simp: s' split: if_splits)
    then show ?thesis using lv d Cons by (auto simp: s' final_def)
  qed simp
  moreover have "l_head l' = first us (first vs None)" "l_tail l' = final (final None us) vs"
    "l_len l' = int (length us) + int (length vs)"
    using hd tl len d
    by (auto simp: l'_def remove_def Let_def p n set_next_def set_prev_def first_def final_def split: list.split)
  moreover have "same_data l l'"
    by (auto simp: l'_def same_data_def remove_def Let_def set_next_def set_prev_def split: option.split)
  ultimately show ?thesis
    using d by (auto simp: holds_def detached_def s' l'_def [symmetric])
qed

lemma insertEntry_holds:
  assumes "holds l xs" "x \<notin> set xs" "detached l x"
  shows "\<exists>l'. insertEntry x l = Some l' \<and> holds l' (xs @ [x]) \<and> same_data l l'"
proof (cases xs rule: rev_cases)
  case Nil
  then show ?thesis using assms
    by (auto simp: insertEntry_def holds_def detached_def same_data_def)
next
  case (snoc ys t)
  have v: "links (l_store l) None ys (Some t)" "e_prev (l_store l t) = final None ys" "l_head l = first ys (Some t)"
      "l_tail l = Some t" "l_len l = int (length ys) + 1" "distinct (ys @ [t])"
    using assms(1) snoc by (auto simp: holds_def)
  define l' where "l' = (set_prev x (Some t) (set_next t (Some x) l))\<lparr>l_tail := Some x, l_len := l_len l + 1\<rparr>"
  have s': "e_prev (l_store l' r) = (if r = x then Some t else e_prev (l_store l r))"
    "e_next (l_store l' r) = (if r = t then Some x else e_next (l_store l r))" for r
    using assms(2) snoc by (auto simp: l'_def set_next_def set_prev_def)
  have "\<exists>h. l_head l = Some h" using v(3) by (cases ys) auto
  then have "insertEntry x l = Some l'"
    using v by (auto simp: insertEntry_def Let_def l'_def set_prev_def set_next_def)
  moreover have "links (l_store l') None ys (Some t)"
    using v assms(2) snoc by (subst links_cong [of _ _ "l_store l"]) (auto simp: s')
  then have "holds l' (xs @ [x])"
    using v assms(2,3) snoc by (auto simp: holds_def s' detached_def) (auto simp: l'_def set_next_def set_prev_def)
  moreover have "same_data l l'"
    by (auto simp: l'_def same_data_def set_next_def set_prev_def)
  ultimately show ?thesis by blast
qed

text \<open>The list as the cache sees it: entries can be unlinked and appended.\<close>

locale recency_list =
  fixes held :: "'l \<Rightarrow> 'r list \<Rightarrow> bool" and loose :: "'l \<Rightarrow> 'r \<Rightarrow> bool" and same :: "'l \<Rightarrow> 'l \<Rightarrow> bool"
    and append_entry :: "'r \<Rightarrow> 'l \<Rightarrow> 'l option" and unlink :: "'r \<Rightarrow> 'l \<Rightarrow> 'l"
  assumes unlink: "held l (us @ x # vs) \<Longrightarrow> held (unlink x l) (us @ vs) \<and> loose (unlink x l) x \<and> same l (unlink x l)"
    and append_entry: "held l xs \<Longrightarrow> x \<notin> set xs \<Longrightarrow> loose l x \<Longrightarrow>
      \<exists>l'. append_entry x l = Some l' \<and> held l' (xs @ [x]) \<and> same l l'"
    and distinct: "held l xs \<Longrightarrow> distinct xs"
    and same_trans: "same l l' \<Longrightarrow> same l' l'' \<Longrightarrow> same l l''"
begin

text \<open>Unlinking an entry and appending it makes it the most recent one.\<close>

lemma touch:
  assumes "held l (us @ x # vs)"
  shows "\<exists>l'. append_entry x (unlink x l) = Some l' \<and> held l' (us @ vs @ [x]) \<and> same l l'"
proof -
  have "x \<notin> set (us @ vs)" using distinct [OF assms] by simp
  with unlink [OF assms] obtain l' where "append_entry x (unlink x l) = Some l'" "held l' ((us @ vs) @ [x])" "same l l'"
    using append_entry same_trans by metis
  then show ?thesis by auto
qed

end

lemma holds_distinct: "holds l xs \<Longrightarrow> distinct xs"
  by (simp add: holds_def)

lemma same_data_trans: "same_data l l' \<Longrightarrow> same_data l' l'' \<Longrightarrow> same_data l l''"
  by (simp add: same_data_def)

interpretation lru_list: recency_list holds detached same_data insertEntry remove
  by unfold_locales (rule remove_holds insertEntry_holds holds_distinct same_data_trans; assumption)+

section \<open>The cache as a list of keys and values\<close>

text \<open>From the least to the most recently used.\<close>

definition put_spec :: "int \<Rightarrow> string \<Rightarrow> 'v \<Rightarrow> (string \<times> 'v) list \<Rightarrow> (string \<times> 'v) list" where
  "put_spec maxSize k v kvs =
     (if k \<in> fst ` set kvs then kvs
      else (if maxSize \<le> int (length kvs) then tl kvs else kvs) @ [(k, v)])"

definition get_spec :: "string \<Rightarrow> (string \<times> 'v) list \<Rightarrow> 'v option \<times> (string \<times> 'v) list" where
  "get_spec k kvs =
     (case map_of kvs k of None \<Rightarrow> (None, kvs)
      | Some v \<Rightarrow> (Some v, filter (\<lambda>p. fst p \<noteq> k) kvs @ [(k, v)]))"

definition key_of :: "'v lru \<Rightarrow> ref \<Rightarrow> string" where
  "key_of u x = the (e_key (l_store (u_list u) x))"

definition value_of :: "'v lru \<Rightarrow> ref \<Rightarrow> 'v" where
  "value_of u x = the (e_value (l_store (u_list u) x))"

definition contents :: "'v lru \<Rightarrow> ref list \<Rightarrow> (string \<times> 'v) list" where
  "contents u xs = map (\<lambda>x. (key_of u x, value_of u x)) xs"

definition cached :: "'v lru \<Rightarrow> ref list \<Rightarrow> bool" where
  "cached u xs \<longleftrightarrow> holds (u_list u) xs \<and>
     (\<forall>x\<in>set xs. (\<exists>i<l_fresh (u_list u). x = Obj i) \<and> u_map u (key_of u x) = Some x \<and>
        e_key (l_store (u_list u) x) \<noteq> None \<and> e_value (l_store (u_list u) x) \<noteq> None) \<and>
     (\<forall>k x. u_map u k = Some x \<longrightarrow> x \<in> set xs \<and> key_of u x = k)"

definition represents :: "'v lru \<Rightarrow> (string \<times> 'v) list \<Rightarrow> bool" where
  "represents u kvs \<longleftrightarrow> (\<exists>xs. cached u xs \<and> kvs = contents u xs)"

lemma cachedD:
  assumes "cached u xs"
  shows "holds (u_list u) xs"
    and "x \<in> set xs \<Longrightarrow> \<exists>i<l_fresh (u_list u). x = Obj i"
    and "x \<in> set xs \<Longrightarrow> u_map u (key_of u x) = Some x"
    and "x \<in> set xs \<Longrightarrow> e_key (l_store (u_list u) x) = Some (key_of u x)"
    and "x \<in> set xs \<Longrightarrow> e_value (l_store (u_list u) x) = Some (value_of u x)"
    and "u_map u k = Some x \<Longrightarrow> x \<in> set xs \<and> key_of u x = k"
  using assms by (auto simp: cached_def key_of_def value_of_def)

lemma cached_distinct: "cached u xs \<Longrightarrow> distinct (map fst (contents u xs))"
proof -
  assume c: "cached u xs"
  have "inj_on (key_of u) (set xs)"
  proof (rule inj_onI)
    fix x y assume "x \<in> set xs" "y \<in> set xs" "key_of u x = key_of u y"
    then have "Some x = Some y" using c by (metis cached_def)
    then show "x = y" by simp
  qed
  then show ?thesis using c by (simp add: cached_def contents_def holds_def distinct_map comp_def)
qed

lemma represents_new: "represents (newLRU m) []"
  by (auto simp: represents_def cached_def contents_def newLRU_def holds_empty intro!: exI [of _ "[]"])

lemma cached_lookup:
  assumes "cached u xs"
  shows "u_map u k = (if k \<in> fst ` set (contents u xs) then u_map u k else None)"
    and "u_map u k = Some x \<Longrightarrow> map_of (contents u xs) k = Some (value_of u x)"
proof -
  show "u_map u k = (if k \<in> fst ` set (contents u xs) then u_map u k else None)"
  proof (cases "u_map u k")
    case (Some x)
    then have "x \<in> set xs" "key_of u x = k" using assms by (simp_all add: cached_def)
    then show ?thesis by (force simp: contents_def)
  qed simp
  assume "u_map u k = Some x"
  then have "(k, value_of u x) \<in> set (contents u xs)"
    using assms by (auto simp: cached_def contents_def)
  then show "map_of (contents u xs) k = Some (value_of u x)"
    using cached_distinct [OF assms] by simp
qed

text \<open>A new entry at the tail.\<close>

lemma cached_insert:
  assumes c: "cached u xs" and k: "u_map u k = None"
  shows "\<exists>e l. insert_value v (u_list u) = Some (e, l) \<and>
    (let u' = u\<lparr>u_list := l\<lparr>l_store := (l_store l)(e := (l_store l e)\<lparr>e_key := Some k\<rparr>)\<rparr>, u_map := (u_map u)(k \<mapsto> e)\<rparr> in
     cached u' (xs @ [e]) \<and> contents u' (xs @ [e]) = contents u xs @ [(k, v)])"
proof -
  let ?l = "u_list u"
  let ?e = "Obj (l_fresh ?l)"
  define l0 where "l0 = ?l\<lparr>l_fresh := l_fresh ?l + 1, l_store := (l_store ?l)(?e := new_entry\<lparr>e_value := Some v\<rparr>)\<rparr>"
  have h: "holds ?l xs" and new: "?e \<notin> set xs" using c by (auto simp: cached_def)
  have "links (l_store l0) None xs None = links (l_store ?l) None xs None"
    using new by (intro links_cong) (auto simp: l0_def)
  then have h0: "holds l0 xs" using h by (simp add: holds_def) (simp add: l0_def)
  have d0: "detached l0 ?e" by (simp add: detached_def l0_def new_entry_def)
  obtain l where l: "insertEntry ?e l0 = Some l" "holds l (xs @ [?e])" "same_data l0 l"
    using insertEntry_holds [OF h0 new d0] by blast
  define l' where "l' = l\<lparr>l_store := (l_store l)(?e := (l_store l ?e)\<lparr>e_key := Some k\<rparr>)\<rparr>"
  have "links (l_store l') None (xs @ [?e]) None = links (l_store l) None (xs @ [?e]) None"
    by (intro links_cong) (auto simp: l'_def)
  then have h': "holds l' (xs @ [?e])" using l(2) by (simp add: holds_def) (simp add: l'_def)
  define u' where "u' = u\<lparr>u_list := l', u_map := (u_map u)(k \<mapsto> ?e)\<rparr>"
  have data: "e_value (l_store l' x) = e_value (l_store ?l x) \<and> e_key (l_store l' x) = e_key (l_store ?l x)"
    if "x \<in> set xs" for x
    using l(3) new that by (auto simp: l'_def same_data_def l0_def)
  then have old: "key_of u' x = key_of u x" "value_of u' x = value_of u x" if "x \<in> set xs" for x
    using that by (simp_all add: u'_def key_of_def value_of_def)
  have e: "e_value (l_store l' ?e) = Some v" "e_key (l_store l' ?e) = Some k" "l_fresh l' = l_fresh ?l + 1"
    using l(3) by (simp_all add: l'_def same_data_def l0_def)
  then have new': "key_of u' ?e = k" "value_of u' ?e = v" by (simp_all add: u'_def key_of_def value_of_def)
  have keys: "key_of u x \<noteq> k" if "x \<in> set xs" for x
    using cachedD(3) [OF c that] k by auto
  have "cached u' (xs @ [?e])"
    unfolding cached_def
  proof (intro conjI ballI allI impI)
    show "holds (u_list u') (xs @ [?e])" using h' by (simp add: u'_def)
  next
    fix x assume x: "x \<in> set (xs @ [?e])"
    show "\<exists>i<l_fresh (u_list u'). x = Obj i"
    proof (cases "x = ?e")
      case False
      then obtain i where "i < l_fresh ?l" "x = Obj i" using x c unfolding cached_def by auto
      then show ?thesis using e(3) by (auto simp: u'_def)
    qed (simp add: u'_def e(3))
    show "u_map u' (key_of u' x) = Some x"
    proof (cases "x = ?e")
      case False
      then have "x \<in> set xs" using x by simp
      then show ?thesis using old(1) [of x] keys [of x] cachedD(3) [OF c, of x] by (simp add: u'_def)
    qed (simp add: new'(1), simp add: u'_def)
    show "e_key (l_store (u_list u') x) \<noteq> None" "e_value (l_store (u_list u') x) \<noteq> None"
      using x cachedD(4,5) [OF c, of x] e(1,2) data [of x] by (cases "x = ?e"; simp add: u'_def)+
  next
    fix k' x assume a: "u_map u' k' = Some x"
    have "x \<in> set (xs @ [?e]) \<and> key_of u' x = k'"
    proof (cases "k' = k")
      case True
      then have "x = ?e" using a by (simp add: u'_def)
      then show ?thesis using new'(1) True by simp
    next
      case False
      then have "u_map u k' = Some x" using a by (simp add: u'_def)
      then show ?thesis using cachedD(6) [OF c, of k' x] old(1) [of x] by simp
    qed
    then show "x \<in> set (xs @ [?e])" "key_of u' x = k'" by simp_all
  qed
  moreover have "contents u' (xs @ [?e]) = contents u xs @ [(k, v)]"
    using old new' by (simp add: contents_def)
  moreover have "insert_value v ?l = Some (?e, l)"
    using l(1) by (simp add: insert_value_def Let_def l0_def)
  ultimately show ?thesis
    by (intro exI [of _ ?e] exI [of _ l]) (simp add: Let_def l'_def [symmetric] u'_def [symmetric])
qed

text \<open>Entries reordered or dropped.\<close>

lemma cached_sub:
  assumes c: "cached u xs" and h: "holds l ys" and sub: "set ys \<subseteq> set xs" and s: "same_data (u_list u) l"
    and m: "\<And>k x. m k = Some x \<longleftrightarrow> u_map u k = Some x \<and> x \<in> set ys"
  defines "u' \<equiv> u\<lparr>u_list := l, u_map := m\<rparr>"
  shows "cached u' ys \<and> contents u' ys = contents u ys"
proof -
  have d: "key_of u' x = key_of u x" "value_of u' x = value_of u x" for x
    using s by (simp_all add: same_data_def u'_def key_of_def value_of_def)
  have "cached u' ys"
    unfolding cached_def d
  proof (intro conjI ballI allI impI)
    show "holds (u_list u') ys" using h by (simp add: u'_def)
  next
    fix x assume "x \<in> set ys"
    then have x: "x \<in> set xs" "x \<in> set ys" using sub by auto
    show "\<exists>i<l_fresh (u_list u'). x = Obj i"
      using cachedD(2) [OF c x(1)] s by (simp add: u'_def same_data_def)
    show "u_map u' (key_of u x) = Some x"
      using cachedD(3) [OF c x(1)] x(2) m by (simp add: u'_def)
    show "e_key (l_store (u_list u') x) \<noteq> None" "e_value (l_store (u_list u') x) \<noteq> None"
      using cachedD(4,5) [OF c x(1)] s by (simp_all add: u'_def same_data_def)
  next
    fix k x assume "u_map u' k = Some x"
    then have "u_map u k = Some x" "x \<in> set ys" using m by (simp_all add: u'_def)
    then show "x \<in> set ys" "key_of u x = k" using cachedD(6) [OF c] by auto
  qed
  then show ?thesis by (simp add: contents_def d)
qed

lemma cached_evict:
  assumes c: "cached u (x # xs)"
  defines "u' \<equiv> u\<lparr>u_list := remove x (u_list u), u_map := (u_map u)(key_of u x := None)\<rparr>"
  shows "cached u' xs \<and> contents u' xs = contents u xs"
  unfolding u'_def
proof (rule cached_sub [OF c])
  have r: "holds (remove x (u_list u)) ([] @ xs) \<and> detached (remove x (u_list u)) x \<and> same_data (u_list u) (remove x (u_list u))"
    using remove_holds [of "u_list u" "[]" x xs] cachedD(1) [OF c] by simp
  then show "holds (remove x (u_list u)) xs" "same_data (u_list u) (remove x (u_list u))" by simp_all
  fix k y
  have "x \<notin> set xs" using cachedD(1) [OF c] by (simp add: holds_def)
  then show "((u_map u)(key_of u x := None)) k = Some y \<longleftrightarrow> u_map u k = Some y \<and> y \<in> set xs"
    using cachedD(6) [OF c, of k y] cachedD(3) [OF c, of x] by auto
qed auto

lemma cached_touch:
  assumes c: "cached u (us @ x # vs)"
  shows "\<exists>l. insertEntry x (remove x (u_list u)) = Some l \<and> cached (u\<lparr>u_list := l\<rparr>) (us @ vs @ [x]) \<and>
    contents (u\<lparr>u_list := l\<rparr>) (us @ vs @ [x]) = contents u (us @ vs @ [x])"
proof -
  obtain l where l: "insertEntry x (remove x (u_list u)) = Some l" and h: "holds l (us @ vs @ [x])"
      and s: "same_data (u_list u) l"
    using lru_list.touch [OF cachedD(1) [OF c]] by blast
  have "cached (u\<lparr>u_list := l, u_map := u_map u\<rparr>) (us @ vs @ [x]) \<and>
      contents (u\<lparr>u_list := l, u_map := u_map u\<rparr>) (us @ vs @ [x]) = contents u (us @ vs @ [x])"
  proof (rule cached_sub [OF c h _ s])
    show "u_map u k = Some y \<longleftrightarrow> u_map u k = Some y \<and> y \<in> set (us @ vs @ [x])" for k y
      using cachedD(6) [OF c, of k y] by auto
  qed auto
  then show ?thesis using l(1) by simp
qed

section \<open>The cache refines the list\<close>

lemma lru_put_refines:
  assumes r: "represents u kvs" and k: "k \<notin> set object_members"
  shows "\<exists>u'. lru_put k v u = Some u' \<and> represents u' (put_spec (u_maxSize u) k v kvs) \<and> u_maxSize u' = u_maxSize u"
proof -
  obtain xs where c: "cached u xs" and kvs: "kvs = contents u xs" using r by (auto simp: represents_def)
  have len: "l_len (u_list u) = int (length kvs)" using cachedD(1) [OF c] by (simp add: kvs contents_def holds_def)
  have absent: "u_map u k = None \<longleftrightarrow> k \<notin> fst ` set kvs"
  proof
    assume "u_map u k = None"
    then show "k \<notin> fst ` set kvs" using cachedD(3) [OF c] by (auto simp: kvs contents_def)
  qed (use cached_lookup(1) [OF c, of k] kvs in auto)
  show ?thesis
  proof (cases "u_map u k")
    case (Some x)
    then show ?thesis using r k absent by (auto simp: lru_put_def dict_get_own put_spec_def)
  next
    case None
    define full where "full \<longleftrightarrow> u_maxSize u \<le> int (length kvs) \<and> kvs \<noteq> []"
    have full: "l_len (u_list u) \<ge> u_maxSize u \<and> l_len (u_list u) > 0 \<longleftrightarrow> full"
      by (auto simp: len full_def)
    obtain u1 ys where u1: "(if full then do {
                 leastUsed \<leftarrow> l_head (u_list u);
                 let l = remove leastUsed (u_list u);
                     k = (case e_key (l_store l leastUsed) of Some k \<Rightarrow> k | None \<Rightarrow> ''undefined'') in
                 Some (u\<lparr>u_list := l, u_map := (u_map u)(k := None)\<rparr>) }
               else Some u) = Some u1" "cached u1 ys" "contents u1 ys = (if full then tl kvs else kvs)"
        "u_map u1 k = None" "u_maxSize u1 = u_maxSize u"
    proof (cases full)
      case True
      then obtain x ys where xs: "xs = x # ys" using kvs by (cases xs) (auto simp: full_def contents_def)
      have h: "holds (u_list u) ([] @ x # ys)" using cachedD(1) [OF c] xs by simp
      have "l_head (u_list u) = Some x" using h by (simp add: holds_def)
      moreover have "e_key (l_store (remove x (u_list u)) x) = Some (key_of u x)"
        using remove_holds [OF h] cachedD(4) [OF c, of x] xs by (simp add: same_data_def)
      ultimately show ?thesis
        using that [of _ ys] cached_evict [of u x ys] c xs True None
        by (simp add: Let_def kvs contents_def)
    next
      case False
      then show ?thesis using that [of u xs] c kvs None by simp
    qed
    obtain e l where e: "insert_value v (u_list u1) = Some (e, l)"
      "represents (u1\<lparr>u_list := l\<lparr>l_store := (l_store l)(e := (l_store l e)\<lparr>e_key := Some k\<rparr>)\<rparr>,
         u_map := (u_map u1)(k \<mapsto> e)\<rparr>) (contents u1 ys @ [(k, v)])"
      using cached_insert [OF u1(2,4), of v] unfolding represents_def Let_def by metis
    have "put_spec (u_maxSize u) k v kvs = contents u1 ys @ [(k, v)]"
      using absent None unfolding put_spec_def u1(3) full_def by (auto simp: contents_def)
    then show ?thesis
      using e u1(1,5) None k unfolding lru_put_def Let_def full
      by (simp add: dict_get_own)
  qed
qed

lemma filter_key_middle:
  "distinct (map fst (us @ (k, v) # vs)) \<Longrightarrow> filter (\<lambda>p. fst p \<noteq> k) (us @ (k, v) # vs) = us @ vs"
proof -
  assume "distinct (map fst (us @ (k, v) # vs))"
  then have "filter (\<lambda>p. fst p \<noteq> k) us = us" "filter (\<lambda>p. fst p \<noteq> k) vs = vs"
    by (force simp: filter_id_conv)+
  then show ?thesis by simp
qed

lemma lru_get_refines:
  assumes r: "represents u kvs" and k: "k \<notin> set object_members"
  shows "\<exists>u'. lru_get k u = Some (fst (get_spec k kvs), u') \<and> represents u' (snd (get_spec k kvs))
    \<and> u_maxSize u' = u_maxSize u"
proof -
  obtain xs where c: "cached u xs" and kvs: "kvs = contents u xs" using r by (auto simp: represents_def)
  show ?thesis
  proof (cases "u_map u k")
    case None
    then have "map_of kvs k = None"
      using cachedD(3) [OF c] by (auto simp: kvs contents_def map_of_eq_None_iff)
    then show ?thesis using None k r by (simp add: lru_get_def dict_get_own get_spec_def)
  next
    case (Some x)
    then have x: "x \<in> set xs" "key_of u x = k" using cachedD(6) [OF c] by auto
    obtain us vs where xs: "xs = us @ x # vs" using x(1) by (meson split_list)
    have d: "distinct xs" using cachedD(1) [OF c] by (simp add: holds_def)
    have get: "get_spec k kvs = (Some (value_of u x), contents u (us @ vs @ [x]))"
      using cached_lookup(2) [OF c Some] cached_distinct [OF c] x(2) filter_key_middle [of "contents u us" k "value_of u x" "contents u vs"]
      by (simp add: get_spec_def kvs xs contents_def)
    have val: "e_value (l_store (u_list u) x) = Some (value_of u x)" using cachedD(5) [OF c x(1)] .
    show ?thesis
    proof (cases "l_tail (u_list u) = Some x")
      case True
      then have "vs = []" using cachedD(1) [OF c] d
        by (cases vs rule: rev_cases) (auto simp: holds_def xs)
      then show ?thesis using Some k True val get r
        by (simp add: lru_get_def dict_get_own kvs xs)
    next
      case False
      obtain l where l: "insertEntry x (remove x (u_list u)) = Some l"
          "cached (u\<lparr>u_list := l\<rparr>) (us @ vs @ [x])"
          "contents (u\<lparr>u_list := l\<rparr>) (us @ vs @ [x]) = contents u (us @ vs @ [x])"
        using cached_touch c xs by blast
      have "e_value (l_store l x) = Some (value_of (u\<lparr>u_list := l\<rparr>) x)"
        using cachedD(5) [OF l(2), of x] by simp
      moreover have "value_of (u\<lparr>u_list := l\<rparr>) x = value_of u x" using l(3) by (simp add: contents_def)
      ultimately show ?thesis using Some k False l get
        by (auto simp: lru_get_def dict_get_own represents_def)
    qed
  qed
qed

section \<open>Sequences of operations\<close>

datatype 'v lru_op = Put string 'v | Get string

fun op_key :: "'v lru_op \<Rightarrow> string" where
  "op_key (Put k v) = k"
| "op_key (Get k) = k"

fun lru_run :: "'v lru_op list \<Rightarrow> 'v lru \<Rightarrow> ('v option list \<times> 'v lru) option" where
  "lru_run [] u = Some ([], u)"
| "lru_run (Put k v # ops) u = do { u \<leftarrow> lru_put k v u; lru_run ops u }"
| "lru_run (Get k # ops) u = do { (r, u) \<leftarrow> lru_get k u; (rs, u) \<leftarrow> lru_run ops u; Some (r # rs, u) }"

fun spec_run :: "int \<Rightarrow> 'v lru_op list \<Rightarrow> (string \<times> 'v) list \<Rightarrow> 'v option list \<times> (string \<times> 'v) list" where
  "spec_run m [] kvs = ([], kvs)"
| "spec_run m (Put k v # ops) kvs = spec_run m ops (put_spec m k v kvs)"
| "spec_run m (Get k # ops) kvs =
     (let (r, kvs) = get_spec k kvs; (rs, kvs) = spec_run m ops kvs in (r # rs, kvs))"

lemma lru_run_refines:
  assumes "represents u kvs" "\<forall>p\<in>set ops. op_key p \<notin> set object_members"
  shows "\<exists>u'. lru_run ops u = Some (fst (spec_run (u_maxSize u) ops kvs), u')
    \<and> represents u' (snd (spec_run (u_maxSize u) ops kvs))"
  using assms
proof (induction ops arbitrary: u kvs)
  case (Cons p ops)
  show ?case
  proof (cases p)
    case (Put k v)
    then obtain u1 where 1: "lru_put k v u = Some u1" "represents u1 (put_spec (u_maxSize u) k v kvs)" "u_maxSize u1 = u_maxSize u"
      using lru_put_refines [of u kvs k v] Cons.prems by auto
    have "\<forall>p\<in>set ops. op_key p \<notin> set object_members" using Cons.prems(2) by simp
    from Cons.IH [OF 1(2) this] show ?thesis unfolding 1(3) Put by (simp add: 1(1))
  next
    case (Get k)
    then obtain u1 where 1: "lru_get k u = Some (fst (get_spec k kvs), u1)" "represents u1 (snd (get_spec k kvs))" "u_maxSize u1 = u_maxSize u"
      using lru_get_refines [of u kvs k] Cons.prems by auto
    obtain u2 where "lru_run ops u1 = Some (fst (spec_run (u_maxSize u) ops (snd (get_spec k kvs))), u2)"
        "represents u2 (snd (spec_run (u_maxSize u) ops (snd (get_spec k kvs))))"
      using Cons.IH [OF 1(2)] Cons.prems(2) 1(3) by auto
    then show ?thesis using 1 Get by (auto simp: split_def Let_def)
  qed
qed auto

lemma length_put_spec: "int (length kvs) \<le> max 1 m \<Longrightarrow> int (length (put_spec m k v kvs)) \<le> max 1 m"
  by (cases kvs) (auto simp: put_spec_def)

lemma map_of_Some_filter: "map_of kvs k = Some v \<Longrightarrow> length (filter (\<lambda>p. fst p \<noteq> k) kvs) < length kvs"
  using length_filter_less [of "(k, v)" kvs "\<lambda>p. fst p \<noteq> k"] by (simp add: map_of_SomeD)

lemma length_get_spec: "length (snd (get_spec k kvs)) \<le> length kvs"
  by (auto simp: get_spec_def Suc_le_eq dest: map_of_Some_filter split: option.split)

lemma length_spec_run: "int (length kvs) \<le> max 1 m \<Longrightarrow> int (length (snd (spec_run m ops kvs))) \<le> max 1 m"
proof (induction ops arbitrary: kvs)
  case (Cons p ops)
  show ?case
  proof (cases p)
    case (Get k)
    then show ?thesis using Cons.IH [of "snd (get_spec k kvs)"] Cons.prems length_get_spec [of k kvs]
      by (simp add: split_def Let_def)
  next
    case (Put k v)
    then show ?thesis using Cons.IH [OF length_put_spec [OF Cons.prems]] by simp
  qed
qed simp

lemma distinct_put_spec: "distinct (map fst kvs) \<Longrightarrow> distinct (map fst (put_spec m k v kvs))"
  by (cases kvs) (auto simp: put_spec_def image_iff)

section \<open>Properties\<close>

text \<open>
  C9. Any sequence of \<open>put\<close> and \<open>get\<close> calls on a fresh cache, with keys that are not members every
  object inherits, runs without an error and answers as a list kept from the least to the
  most recently used would: \<open>get\<close> moves its entry to the end, \<open>put\<close> of a new key drops the first entry of
  a full list, and \<open>put\<close> of a key that is present changes nothing.
\<close>

theorem lru_refines_list:
  assumes "\<forall>p\<in>set ops. op_key p \<notin> set object_members"
  shows "\<exists>u. lru_run ops (newLRU m) = Some (fst (spec_run (capacity m) ops []), u)
    \<and> represents u (snd (spec_run (capacity m) ops []))"
  using lru_run_refines [OF represents_new assms, of m] by simp

lemma lru_refines_list_witness:
  "\<exists>u. lru_run [Put ''a'' 1, Put ''b'' 2, Get ''a'', Put ''c'' 3, Get ''b'', Get ''a''] (newLRU (Some 2))
    = Some ([Some 1, None, Some (1 :: int)], u) \<and> represents u [(''c'', 3), (''a'', 1)]"
  using lru_refines_list [of "[Put ''a'' 1, Put ''b'' 2, Get ''a'', Put ''c'' 3, Get ''b'', Get ''a'' :: int lru_op]" "Some 2"]
  by (simp add: object_members_def put_spec_def get_spec_def capacity_def)

text \<open>
  C15. However many operations run, the dictionary and the list agree, no key occurs twice and
  at most \<open>maxSize\<close> entries are kept (one, when \<open>maxSize\<close> is negative, ten when it is 0 or missing).
\<close>

theorem lru_bounded:
  assumes "\<forall>p\<in>set ops. op_key p \<notin> set object_members" "lru_run ops (newLRU m) = Some (rs, u)"
  shows "\<exists>kvs. represents u kvs \<and> distinct (map fst kvs)
    \<and> int (length kvs) \<le> max 1 (capacity m)
    \<and> l_len (u_list u) = int (length kvs)"
proof -
  define kvs where "kvs = snd (spec_run (capacity m) ops [])"
  have r: "represents u kvs"
    using lru_run_refines [OF represents_new assms(1), of m] assms(2) by (auto simp: kvs_def)
  have "int (length kvs) \<le> max 1 (capacity m)"
    unfolding kvs_def by (rule length_spec_run) simp
  moreover obtain xs where "cached u xs" "kvs = contents u xs" using r by (auto simp: represents_def)
  then have "distinct (map fst kvs)" "l_len (u_list u) = int (length kvs)"
    using cached_distinct cachedD(1) by (auto simp: holds_def) (auto simp: contents_def)
  ultimately show ?thesis using r by auto
qed

lemma lru_bounded_witness:
  "\<exists>rs u kvs. lru_run [Put ''a'' (1 :: int), Put ''b'' 2, Put ''c'' 3] (newLRU (Some 2)) = Some (rs, u) \<and>
     represents u kvs \<and> int (length kvs) \<le> 2"
proof -
  let ?ops = "[Put ''a'' (1 :: int), Put ''b'' 2, Put ''c'' 3]"
  have k: "\<forall>p\<in>set ?ops. op_key p \<notin> set object_members" by (simp add: object_members_def)
  obtain rs u where u: "lru_run ?ops (newLRU (Some 2)) = Some (rs, u)"
    using lru_run_refines [OF represents_new k] by blast
  from lru_bounded [OF k u] u show ?thesis by (force simp: capacity_def)
qed

text \<open>
  Looking up a key that every object inherits (and that \<open>put\<close> therefore never stores) takes the
  built-in member for an entry: the list loses all its entries to it, while the counter and
  the dictionary keep them.
\<close>

theorem lru_get_inherited_key:
  assumes "represents u kvs" "k \<in> set object_members" "\<forall>p\<in>set kvs. fst p \<noteq> k" "kvs \<noteq> []"
    "detached (u_list u) (Builtin k)" "e_value (l_store (u_list u) (Builtin k)) = None"
  shows "\<exists>u'. lru_get k u = Some (None, u') \<and> l_head (u_list u') = Some (Builtin k)
    \<and> l_tail (u_list u') = Some (Builtin k) \<and> l_len (u_list u') = int (length kvs) \<and> u_map u' = u_map u"
proof -
  obtain xs where c: "cached u xs" and kvs: "kvs = contents u xs" using assms(1) by (auto simp: represents_def)
  have "u_map u k = None"
    using cachedD(6) [OF c, of k] assms(3) by (cases "u_map u k") (auto simp: kvs contents_def)
  then have g: "dict_get (u_map u) k = Some (Builtin k)" using assms(2) by (simp add: dict_get_def)
  have h: "holds (u_list u) xs" using cachedD(1) [OF c] .
  have "l_tail (u_list u) \<noteq> Some (Builtin k)"
    using h cachedD(2) [OF c, of "last xs"] by (auto simp: holds_def final_def split: if_splits)
  moreover have "l_len (u_list u) = int (length kvs)" using h by (simp add: holds_def kvs contents_def)
  ultimately show ?thesis
    using g assms(5,6)
    by (auto simp: lru_get_def remove_def insertEntry_def detached_def Let_def set_next_def set_prev_def)
qed

lemma lru_get_inherited_key_witness:
  "\<exists>u u'. lru_put ''a'' (1 :: int) (newLRU None) = Some u \<and> lru_get ''constructor'' u = Some (None, u')
     \<and> l_head (u_list u') = Some (Builtin ''constructor'')"
proof -
  have a: "''a'' \<notin> set object_members" by (simp add: object_members_def)
  obtain u where u: "lru_put ''a'' (1 :: int) (newLRU None) = Some u" "represents u [(''a'', 1)]"
    using lru_put_refines [OF represents_new a, of 1 None] by (auto simp: put_spec_def capacity_def)
  have d: "detached (u_list u) (Builtin ''constructor'')" "e_value (l_store (u_list u) (Builtin ''constructor'')) = None"
    using u(1) by (auto simp: lru_put_def dict_get_def object_members_def newLRU_def newLinkedList_def insert_value_def
      insertEntry_def Let_def detached_def new_entry_def)
  have "\<exists>u'. lru_get ''constructor'' u = Some (None, u') \<and> l_head (u_list u') = Some (Builtin ''constructor'')
    \<and> l_tail (u_list u') = Some (Builtin ''constructor'') \<and> l_len (u_list u') = int (length [(''a'', 1 :: int)])
    \<and> u_map u' = u_map u"
    by (rule lru_get_inherited_key [OF u(2) _ _ _ d]) (simp_all add: object_members_def)
  then show ?thesis using u(1) by blast
qed

end
