(* ===== verification/Eventful.thy ===== *)
theory Eventful
  imports Js_Prelude
begin

text \<open>
  The event mixin \<open>zrender/mixin/Eventful\<close> (module 33). The arrays of handlers live in a store, because a
  running \<open>trigger\<close> keeps iterating over the array it started with while the handlers it calls change
  the object. What a handler does is a parameter: from the calls made so far and its own
  arguments it gives the operations it performs on the object. A depth bounds how far
  triggers nest (the call stack); running out of it is an outcome of its own.
  Event names are taken to differ from the members every object inherits.
\<close>

section \<open>Values and state\<close>

datatype 'v val = Undefined | This | Str string | Val 'v

fun truthy :: "'v val \<Rightarrow> bool" where
  "truthy Undefined = False"
| "truthy This = True"
| "truthy (Str s) = (s \<noteq> [])"
| "truthy (Val v) = True"

record ('f, 'v) handler =
  h_fn :: 'f
  h_one :: bool
  h_ctx :: "'v val"

type_synonym ('f, 'v) call = "'f \<times> 'v val \<times> 'v val list"

record ('f, 'v) eventful =
  ev_handlers :: "string \<rightharpoonup> nat"
  ev_arrays :: "nat \<Rightarrow> ('f, 'v) handler list"
  ev_fresh :: nat
  ev_log :: "('f, 'v) call list"

definition newEventful :: "('f, 'v) eventful" where
  "newEventful = \<lparr>ev_handlers = Map.empty, ev_arrays = (\<lambda>_. []), ev_fresh = 0, ev_log = []\<rparr>"

section \<open>Registration\<close>

definition alloc :: "('f, 'v) handler list \<Rightarrow> string \<Rightarrow> ('f, 'v) eventful \<Rightarrow> ('f, 'v) eventful" where
  "alloc hs event st = st\<lparr>ev_arrays := (ev_arrays st)(ev_fresh st := hs),
     ev_handlers := (ev_handlers st)(event \<mapsto> ev_fresh st), ev_fresh := ev_fresh st + 1\<rparr>"

definition register ::
  "bool \<Rightarrow> string option \<Rightarrow> 'f option \<Rightarrow> 'v val \<Rightarrow> ('f, 'v) eventful \<Rightarrow> ('f, 'v) eventful" where
  "register once event handler context st =
     (case (event, handler) of
        (Some e, Some f) \<Rightarrow>
          if e = '''' then st
          else
            let st = (if ev_handlers st e = None then alloc [] e st else st);
                a = the (ev_handlers st e); hs = ev_arrays st a in
            if f \<in> h_fn ` set hs then st
            else st\<lparr>ev_arrays := (ev_arrays st)(a := hs @ [\<lparr>h_fn = f, h_one = once,
                     h_ctx = (if truthy context then context else This)\<rparr>])\<rparr>
      | _ \<Rightarrow> st)"

definition one :: "string option \<Rightarrow> 'f option \<Rightarrow> 'v val \<Rightarrow> ('f, 'v) eventful \<Rightarrow> ('f, 'v) eventful" where
  "one = register True"

definition on :: "string option \<Rightarrow> 'f option \<Rightarrow> 'v val \<Rightarrow> ('f, 'v) eventful \<Rightarrow> ('f, 'v) eventful" where
  "on = register False"

text \<open>The length of the array, or \<open>None\<close> where the code returns \<open>undefined\<close>.\<close>

definition isSilent :: "string \<Rightarrow> ('f, 'v) eventful \<Rightarrow> nat option" where
  "isSilent event st = map_option (\<lambda>a. length (ev_arrays st a)) (ev_handlers st event)"

definition off :: "string option \<Rightarrow> 'f option \<Rightarrow> ('f, 'v) eventful \<Rightarrow> ('f, 'v) eventful" where
  "off event handler st =
     (case event of
        None \<Rightarrow> st\<lparr>ev_handlers := Map.empty\<rparr>
      | Some e \<Rightarrow>
          if e = '''' then st\<lparr>ev_handlers := Map.empty\<rparr>
          else case handler of
            None \<Rightarrow> st\<lparr>ev_handlers := (ev_handlers st)(e := None)\<rparr>
          | Some f \<Rightarrow>
              (case ev_handlers st e of
                 None \<Rightarrow> st
               | Some a \<Rightarrow>
                   let newList = filter (\<lambda>h. h_fn h \<noteq> f) (ev_arrays st a);
                       st = alloc newList e st in
                   if newList = [] then st\<lparr>ev_handlers := (ev_handlers st)(e := None)\<rparr> else st))"

section \<open>Dispatch\<close>

text \<open>The arguments of \<open>trigger\<close>, the event first, and what it passes to a handler.\<close>

definition trigger_args :: "'v val list \<Rightarrow> 'v val list" where
  "trigger_args arguments =
     (let argLen = length arguments;
          args = (if argLen > 3 then drop 1 arguments else arguments) in
      if argLen = 1 then []
      else if argLen = 2 then [args ! 1]
      else if argLen = 3 then [args ! 1, args ! 2]
      else args)"

definition context_args :: "'v val list \<Rightarrow> 'v val \<times> 'v val list" where
  "context_args arguments =
     (let argLen = length arguments;
          args = (if argLen > 4 then butlast (drop 1 arguments) else arguments);
          ctx = last args in
      (ctx,
       if argLen = 1 then []
       else if argLen = 2 then [args ! 1]
       else if argLen = 3 then [args ! 1, args ! 2]
       else args))"

datatype ('f, 'v) act =
    On "string option" "'f option" "'v val"
  | One "string option" "'f option" "'v val"
  | Off "string option" "'f option"
  | Trigger string "'v val list"
  | TriggerCtx string "'v val list"
  | Throw

datatype 's outcome = Returned 's | Raised 's | Too_Deep

type_synonym ('f, 'v) code = "('f, 'v) call list \<Rightarrow> 'f \<Rightarrow> 'v val \<Rightarrow> 'v val list \<Rightarrow> ('f, 'v) act list"

definition nth_opt :: "'a list \<Rightarrow> nat \<Rightarrow> 'a option" where
  "nth_opt xs i = (if i < length xs then Some (xs ! i) else None)"

definition splice1 :: "'a list \<Rightarrow> nat \<Rightarrow> 'a list" where
  "splice1 xs i = take i xs @ drop (Suc i) xs"

text \<open>
  \<open>exec\<close> runs operations in order; \<open>fire\<close> is the loop of \<open>trigger\<close> and, with a context, of \<open>triggerWithContext\<close>.
  A read past the end of the array is \<open>undefined\<close>, whose members cannot be read.
\<close>

function (sequential)
  exec :: "('f, 'v) code \<Rightarrow> nat \<Rightarrow> ('f, 'v) act list \<Rightarrow> ('f, 'v) eventful \<Rightarrow> ('f, 'v) eventful outcome"
and fire :: "('f, 'v) code \<Rightarrow> nat \<Rightarrow> nat \<Rightarrow> nat \<Rightarrow> nat \<Rightarrow> 'v val option \<Rightarrow> 'v val list \<Rightarrow>
    ('f, 'v) eventful \<Rightarrow> ('f, 'v) eventful outcome" where
  "exec body d [] st = Returned st"
| "exec body d (On e f c # acts) st = exec body d acts (on e f c st)"
| "exec body d (One e f c # acts) st = exec body d acts (one e f c st)"
| "exec body d (Off e f # acts) st = exec body d acts (off e f st)"
| "exec body d (Throw # acts) st = Raised st"
| "exec body 0 (Trigger ty rest # acts) st = Too_Deep"
| "exec body (Suc d) (Trigger ty rest # acts) st =
     (case ev_handlers st ty of
        None \<Rightarrow> exec body (Suc d) acts st
      | Some a \<Rightarrow>
          (case fire body d a 0 (length (ev_arrays st a)) None (trigger_args (Str ty # rest)) st of
             Returned st \<Rightarrow> exec body (Suc d) acts st
           | r \<Rightarrow> r))"
| "exec body 0 (TriggerCtx ty rest # acts) st = Too_Deep"
| "exec body (Suc d) (TriggerCtx ty rest # acts) st =
     (case ev_handlers st ty of
        None \<Rightarrow> exec body (Suc d) acts st
      | Some a \<Rightarrow>
          (case fire body d a 0 (length (ev_arrays st a)) (Some (fst (context_args (Str ty # rest))))
               (snd (context_args (Str ty # rest))) st of
             Returned st \<Rightarrow> exec body (Suc d) acts st
           | r \<Rightarrow> r))"
| "fire body d a i len cx args st =
     (if i < len then
        (case nth_opt (ev_arrays st a) i of
           None \<Rightarrow> Raised st
         | Some h \<Rightarrow>
             (let ctx = (case cx of None \<Rightarrow> h_ctx h | Some c \<Rightarrow> c);
                  acts = body (ev_log st) (h_fn h) ctx args in
              case exec body d acts (st\<lparr>ev_log := ev_log st @ [(h_fn h, ctx, args)]\<rparr>) of
                Returned st \<Rightarrow>
                  (case nth_opt (ev_arrays st a) i of
                     None \<Rightarrow> Raised st
                   | Some h \<Rightarrow>
                       if h_one h then
                         fire body d a i (len - 1) cx args
                           (st\<lparr>ev_arrays := (ev_arrays st)(a := splice1 (ev_arrays st a) i)\<rparr>)
                       else fire body d a (i + 1) len cx args st)
              | r \<Rightarrow> r))
      else Returned st)"
  by pat_completeness auto
termination
  by (relation "measures
       [case_sum (\<lambda>(body, d, acts, st). d) (\<lambda>(body, d, a, i, len, cx, args, st). d),
        case_sum (\<lambda>_. 0) (\<lambda>_. 1),
        case_sum (\<lambda>(body, d, acts, st). length acts) (\<lambda>(body, d, a, i, len, cx, args, st). len - i)]") auto

declare fire.simps [simp del]

definition trigger ::
  "('f, 'v) code \<Rightarrow> nat \<Rightarrow> string \<Rightarrow> 'v val list \<Rightarrow> ('f, 'v) eventful \<Rightarrow> ('f, 'v) eventful outcome" where
  "trigger body d ty rest st = exec body d [Trigger ty rest] st"

definition triggerWithContext ::
  "('f, 'v) code \<Rightarrow> nat \<Rightarrow> string \<Rightarrow> 'v val list \<Rightarrow> ('f, 'v) eventful \<Rightarrow> ('f, 'v) eventful outcome" where
  "triggerWithContext body d ty rest st = exec body d [TriggerCtx ty rest] st"

section \<open>What a handler is passed\<close>

lemma trigger_args_all: "trigger_args (Str ty # rest) = rest"
proof -
  consider "rest = []" | a where "rest = [a]" | a b where "rest = [a, b]" | a b c zs where "rest = a # b # c # zs"
    by (cases rest rule: list.exhaust; cases "tl rest" rule: list.exhaust; cases "tl (tl rest)" rule: list.exhaust) auto
  then show ?thesis by cases (simp_all add: trigger_args_def Let_def)
qed

section \<open>No handler is registered twice\<close>

text \<open>Each array holds a function at most once, and the arrays in use have been allocated, one to an event.\<close>

definition unique_handlers :: "('f, 'v) eventful \<Rightarrow> bool" where
  "unique_handlers st \<longleftrightarrow> (\<forall>a. distinct (map h_fn (ev_arrays st a)))
     \<and> (\<forall>e a. ev_handlers st e = Some a \<longrightarrow> a < ev_fresh st)
     \<and> (\<forall>e e' a. ev_handlers st e = Some a \<and> ev_handlers st e' = Some a \<longrightarrow> e = e')"

lemma unique_new: "unique_handlers newEventful"
  by (simp add: unique_handlers_def newEventful_def)

lemma unique_log [simp]: "unique_handlers (st\<lparr>ev_log := l\<rparr>) = unique_handlers st"
  by (simp add: unique_handlers_def)

fun outcome_holds :: "('s \<Rightarrow> bool) \<Rightarrow> 's outcome \<Rightarrow> bool" where
  "outcome_holds P (Returned s) = P s"
| "outcome_holds P (Raised s) = P s"
| "outcome_holds P Too_Deep = True"

lemma outcome_holds_mono: "outcome_holds P r \<Longrightarrow> (\<And>s. P s \<Longrightarrow> Q s) \<Longrightarrow> outcome_holds Q r"
  by (cases r) auto

lemma distinct_splice1: "distinct (map f xs) \<Longrightarrow> distinct (map f (splice1 xs i))"
proof -
  assume d: "distinct (map f xs)"
  have "drop (Suc i) xs = tl (drop i xs)" by (simp add: drop_Suc tl_drop)
  moreover have "distinct (map f (take i xs) @ map f (drop i xs))" using d by (simp flip: map_append)
  ultimately show ?thesis by (cases "drop i xs") (auto simp: splice1_def)
qed

lemma unique_register: "unique_handlers st \<Longrightarrow> unique_handlers (register b e f c st)"
  by (cases e; cases f) (auto simp: unique_handlers_def register_def alloc_def Let_def intro: less_SucI)

lemma distinct_map_filter': "distinct (map f xs) \<Longrightarrow> distinct (map f (filter P xs))"
  by (induction xs) auto

lemma unique_off: "unique_handlers st \<Longrightarrow> unique_handlers (off e f st)"
  by (cases e; cases f)
    (auto simp: unique_handlers_def off_def alloc_def Let_def distinct_map_filter' intro: less_SucI split: option.split)

lemma unique_exec_fire:
  "unique_handlers st \<Longrightarrow> outcome_holds unique_handlers (exec body d acts st)"
  "unique_handlers st \<Longrightarrow> outcome_holds unique_handlers (fire body d a i len cx args st)"
proof (induction body d acts st and body d a i len cx args st rule: exec_fire.induct)
  case (7 body d ty rest acts st)
  then show ?case
    by (cases "ev_handlers st ty";
        cases "fire body d (the (ev_handlers st ty)) 0 (length (ev_arrays st (the (ev_handlers st ty)))) None (trigger_args (Str ty # rest)) st") auto
next
  case (9 body d ty rest acts st)
  let ?c = "context_args (Str ty # rest)"
  show ?case
    using 9
    by (cases "ev_handlers st ty";
        cases "fire body d (the (ev_handlers st ty)) 0 (length (ev_arrays st (the (ev_handlers st ty)))) (Some (fst ?c)) (snd ?c) st") auto
next
  case (10 body d a i len cx args st)
  show ?case
  proof (cases "i < len")
    case True
    show ?thesis
    proof (cases "nth_opt (ev_arrays st a) i")
      case None
      then show ?thesis using 10 True by (simp add: fire.simps)
    next
      case (Some h)
      define ctx where "ctx = (case cx of None \<Rightarrow> h_ctx h | Some c \<Rightarrow> c)"
      let ?r = "exec body d (body (ev_log st) (h_fn h) ctx args) (st\<lparr>ev_log := ev_log st @ [(h_fn h, ctx, args)]\<rparr>)"
      have u: "outcome_holds unique_handlers ?r"
        using 10(1) [OF True Some ctx_def refl] 10(4) by simp
      show ?thesis
      proof (cases ?r)
        case (Returned st1)
        then show ?thesis
          using u True Some 10(2) [OF True Some ctx_def refl Returned] 10(3) [OF True Some ctx_def refl Returned]
          by (auto simp: fire.simps [of body d a i] ctx_def [symmetric] unique_handlers_def distinct_splice1
              split: option.split)
      qed (use u True Some in \<open>auto simp: fire.simps [of body d a i] ctx_def [symmetric]\<close>)
    qed
  qed (use 10 in \<open>simp add: fire.simps\<close>)
qed (auto simp: unique_register unique_off on_def one_def)

section \<open>Handlers that only register and unregister\<close>

fun quiet :: "('f, 'v) act \<Rightarrow> bool" where
  "quiet (On e f c) = True"
| "quiet (One e f c) = True"
| "quiet (Off e f) = True"
| "quiet a = False"

definition quiet_code :: "('f, 'v) code \<Rightarrow> bool" where
  "quiet_code body \<longleftrightarrow> (\<forall>calls f c args. list_all quiet (body calls f c args))"

text \<open>Such code extends the arrays there are, and allocates others.\<close>

definition extends :: "('f, 'v) eventful \<Rightarrow> ('f, 'v) eventful \<Rightarrow> bool" where
  "extends st st' \<longleftrightarrow> ev_log st' = ev_log st \<and> ev_fresh st \<le> ev_fresh st' \<and> unique_handlers st' \<and>
     (\<forall>a<ev_fresh st. \<exists>ws. ev_arrays st' a = ev_arrays st a @ ws)"

lemma extends_trans: "extends st st' \<Longrightarrow> extends st' st'' \<Longrightarrow> extends st st''"
  unfolding extends_def by (metis append.assoc order_less_le_trans order_trans)

lemma extends_refl: "unique_handlers st \<Longrightarrow> extends st st"
  by (simp add: extends_def)

lemma extends_register: "unique_handlers st \<Longrightarrow> extends st (register b e f c st)"
  using unique_register [of st b e f c]
  by (cases e; cases f) (auto simp: extends_def register_def alloc_def Let_def)

lemma extends_off: "unique_handlers st \<Longrightarrow> extends st (off e f st)"
  using unique_off [of st e f]
  by (cases e; cases f) (auto simp: extends_def off_def alloc_def Let_def split: option.split)

lemma exec_quiet:
  "list_all quiet acts \<Longrightarrow> unique_handlers st \<Longrightarrow> \<exists>st'. exec body d acts st = Returned st' \<and> extends st st'"
proof (induction acts arbitrary: st)
  case (Cons p acts)
  have step: "\<exists>st'. exec body d acts st1 = Returned st' \<and> extends st st'" if "extends st st1" for st1
  proof -
    have "unique_handlers st1" using that by (simp add: extends_def)
    then obtain st' where "exec body d acts st1 = Returned st'" "extends st1 st'"
      using Cons.IH [of st1] Cons.prems(1) by auto
    then show ?thesis using extends_trans [OF that] by blast
  qed
  show ?case
    using Cons.prems by (cases p) (auto simp: on_def one_def intro!: step extends_register extends_off)
qed (simp add: extends_refl)

lemma nth_opt_append [simp]: "nth_opt (us @ x # vs) (length us) = Some x"
  by (simp add: nth_opt_def)

lemma splice1_append [simp]: "splice1 (us @ x # vs) (length us) = us @ vs"
  by (simp add: splice1_def)

lemma unique_splice: "unique_handlers st \<Longrightarrow> unique_handlers (st\<lparr>ev_arrays := (ev_arrays st)(a := splice1 (ev_arrays st a) i)\<rparr>)"
  by (simp add: unique_handlers_def distinct_splice1)

lemma fire_quiet:
  assumes "quiet_code body" "unique_handlers st" "a < ev_fresh st" "ev_arrays st a = us @ hs @ ws"
  shows "\<exists>st' ws'. fire body d a (length us) (length us + length hs) cx args st = Returned st' \<and>
    ev_log st' = ev_log st @ map (\<lambda>h. (h_fn h, case cx of None \<Rightarrow> h_ctx h | Some c \<Rightarrow> c, args)) hs \<and>
    ev_arrays st' a = us @ filter (\<lambda>h. \<not> h_one h) hs @ ws @ ws' \<and> unique_handlers st'"
  using assms(2-)
proof (induction hs arbitrary: us ws st)
  case Nil
  then show ?case by (simp add: fire.simps)
next
  case (Cons h hs)
  define ctx where "ctx = (case cx of None \<Rightarrow> h_ctx h | Some c \<Rightarrow> c)"
  define st0 where "st0 = st\<lparr>ev_log := ev_log st @ [(h_fn h, ctx, args)]\<rparr>"
  have "list_all quiet (body (ev_log st) (h_fn h) ctx args)" using assms(1) by (simp add: quiet_code_def)
  moreover have "unique_handlers st0" using Cons.prems by (simp add: st0_def)
  ultimately obtain st1 where st1: "exec body d (body (ev_log st) (h_fn h) ctx args) st0 = Returned st1" "extends st0 st1"
    using exec_quiet by blast
  obtain vs where vs: "ev_arrays st1 a = us @ h # hs @ ws @ vs"
    using st1(2) Cons.prems by (auto simp: extends_def st0_def)
  have log: "ev_log st1 = ev_log st @ [(h_fn h, ctx, args)]" and u: "unique_handlers st1" and fr: "a < ev_fresh st1"
    using st1(2) Cons.prems by (auto simp: extends_def st0_def)
  have run: "fire body d a (length us) (length us + length (h # hs)) cx args st =
      (if h_one h then fire body d a (length us) (length us + length hs) cx args
           (st1\<lparr>ev_arrays := (ev_arrays st1)(a := splice1 (ev_arrays st1 a) (length us))\<rparr>)
       else fire body d a (length us + 1) (length us + length (h # hs)) cx args st1)"
    using Cons.prems st1(1) vs
    by (subst fire.simps) (simp add: ctx_def [symmetric] st0_def [symmetric])
  show ?case
  proof (cases "h_one h")
    case True
    let ?st = "st1\<lparr>ev_arrays := (ev_arrays st1)(a := splice1 (ev_arrays st1 a) (length us))\<rparr>"
    have "unique_handlers ?st" "a < ev_fresh ?st" "ev_arrays ?st a = us @ hs @ (ws @ vs)"
      using u fr vs unique_splice [OF u, of a "length us"] by simp_all
    from Cons.IH [OF this] show ?thesis
      unfolding run using True log by (auto simp: ctx_def)
  next
    case False
    have "ev_arrays st1 a = (us @ [h]) @ hs @ (ws @ vs)" using vs by simp
    from Cons.IH [OF u fr this] show ?thesis
      unfolding run using False log by (auto simp: ctx_def)
  qed
qed

section \<open>Properties\<close>

text \<open>
  C10. Whatever handlers do, nested triggers and errors included, no function is ever registered
  twice for an event: every state the code reaches keeps the handlers of each array
  distinct.
\<close>

theorem eventful_never_duplicates:
  "outcome_holds (\<lambda>st. \<forall>e a. ev_handlers st e = Some a \<longrightarrow> distinct (map h_fn (ev_arrays st a)))
     (exec body d acts newEventful)"
  using unique_exec_fire(1) [OF unique_new] by (rule outcome_holds_mono) (simp add: unique_handlers_def)

lemma eventful_never_duplicates_witness:
  "outcome_holds (\<lambda>st. \<forall>e a. ev_handlers st e = Some a \<longrightarrow> distinct (map h_fn (ev_arrays st a)))
     (exec (\<lambda>calls f c args. [One (Some ''e'') (Some (f @ ''x'')) (Val (1 :: int))]) 3
       [On (Some ''e'') (Some ''f'') This, On (Some ''e'') (Some ''f'') (Val 2), Trigger ''e'' []] newEventful)"
  by (rule eventful_never_duplicates)


definition keep_f :: "(string, int) code" where
  "keep_f calls f c args = (if f = ''f'' then [Off (Some ''e'') (Some ''g''), On (Some ''e'') (Some ''h'') Undefined] else [])"


text \<open>
  The context that \<open>triggerWithContext\<close> is documented to take as its last argument is what handlers get
  only for up to three arguments after the event, and then the context is also passed to them as
  an argument; from four arguments on, the last of the proper arguments takes its place.
\<close>

theorem context_of_triggerWithContext:
  assumes "rest \<noteq> []"
  shows "context_args (Str ty # rest) =
    (if length rest \<le> 2 then (last rest, rest)
     else if length rest = 3 then (last rest, Str ty # rest)
     else (last (butlast rest), butlast rest))"
proof -
  consider a where "rest = [a]" | a b where "rest = [a, b]" | a b c where "rest = [a, b, c]"
    | a b c e zs where "rest = a # b # c # e # zs"
    using assms
    by (cases rest rule: list.exhaust; cases "tl rest" rule: list.exhaust; cases "tl (tl rest)" rule: list.exhaust;
        cases "tl (tl (tl rest))" rule: list.exhaust) auto
  then show ?thesis by cases (simp_all add: context_args_def Let_def)
qed

lemma context_of_triggerWithContext_witness:
  "context_args [Str ''e'', Val 1, Val 2, Val 3, This] = (Val (3 :: int), [Val 1, Val 2, Val 3])"
  using context_of_triggerWithContext [of "[Val (1 :: int), Val 2, Val 3, This]" "''e''"] by simp

text \<open>
  A handler registered for one call that triggers its own event while it runs: the inner call has
  removed it from the array when the outer one comes to read whether to remove it.
\<close>

definition retrigger :: "(string, int) code" where
  "retrigger calls f c args = (if calls = [] then [Trigger ''e'' []] else [])"

lemma reentrant_one_raises:
  "\<exists>st. trigger retrigger 2 ''e'' [] (one (Some ''e'') (Some ''f'') Undefined newEventful) = Raised st
    \<and> ev_log st = [(''f'', This, []), (''f'', This, [])]"
  by (simp add: trigger_def retrigger_def one_def register_def alloc_def newEventful_def Let_def fire.simps
      trigger_args_def nth_opt_def splice1_def numeral_2_eq_2)

text \<open>Unregistering concerns one function and one event.\<close>

definition registered :: "string \<Rightarrow> ('f, 'v) eventful \<Rightarrow> ('f, 'v) handler list" where
  "registered e st = (case ev_handlers st e of None \<Rightarrow> [] | Some a \<Rightarrow> ev_arrays st a)"

text \<open>
  Seen through the handlers registered for each event, \<open>on\<close> and \<open>one\<close> append a handler unless its
  function is there, \<open>off\<close> with a function removes that function, \<open>off\<close> with only an event removes them
  all, and no operation touches another event.
\<close>

theorem registration_spec:
  assumes "unique_handlers st" "e \<noteq> ''''"
  shows "registered e' (register once (Some e) (Some f) c st) =
      (if e' = e \<and> f \<notin> h_fn ` set (registered e st)
       then registered e st @ [\<lparr>h_fn = f, h_one = once, h_ctx = (if truthy c then c else This)\<rparr>]
       else registered e' st) \<and>
    registered e' (off (Some e) (Some f) st) =
      (if e' = e then filter (\<lambda>h. h_fn h \<noteq> f) (registered e st) else registered e' st) \<and>
    registered e' (off (Some e) None st) = (if e' = e then [] else registered e' st)"
proof (intro conjI)
  have fresh: "ev_handlers st x = Some a \<Longrightarrow> a < ev_fresh st" for x a
    using assms(1) by (simp add: unique_handlers_def)
  have sep: "ev_handlers st e' = Some a \<Longrightarrow> ev_handlers st e = Some a \<Longrightarrow> e' = e" for a
    using assms(1) unfolding unique_handlers_def by blast
  show "registered e' (register once (Some e) (Some f) c st) =
      (if e' = e \<and> f \<notin> h_fn ` set (registered e st)
       then registered e st @ [\<lparr>h_fn = f, h_one = once, h_ctx = (if truthy c then c else This)\<rparr>]
       else registered e' st)"
    using assms(2) sep fresh
    by (auto simp: registered_def register_def alloc_def Let_def split: option.split)
  show "registered e' (off (Some e) (Some f) st) =
      (if e' = e then filter (\<lambda>h. h_fn h \<noteq> f) (registered e st) else registered e' st)"
    using assms(2) fresh
    by (auto simp: registered_def off_def alloc_def Let_def split: option.split dest: fresh)
  show "registered e' (off (Some e) None st) = (if e' = e then [] else registered e' st)"
    using assms(2) by (simp add: registered_def off_def split: option.split)
qed

lemma registration_spec_witness:
  "registered ''e'' (off (Some ''e'') (Some ''f'') (on (Some ''e'') (Some ''g'') Undefined
     (on (Some ''e'') (Some ''f'') Undefined newEventful)))
    = [\<lparr>h_fn = ''g'', h_one = False, h_ctx = This :: int val\<rparr>]"
proof -
  let ?st1 = "on (Some ''e'') (Some ''f'') Undefined (newEventful :: (string, int) eventful)"
  have u1: "unique_handlers ?st1" unfolding on_def by (intro unique_register unique_new)
  then have u2: "unique_handlers (on (Some ''e'') (Some ''g'') Undefined ?st1)" unfolding on_def by (rule unique_register)
  have n: "registered e (newEventful :: (string, int) eventful) = []" for e
    by (simp add: registered_def newEventful_def)
  show ?thesis
    using registration_spec [THEN conjunct1, of "newEventful :: (string, int) eventful", OF unique_new, of "''e''" "''e''" False "''f''" Undefined]
      registration_spec [THEN conjunct1, OF u1, of "''e''" "''e''" False "''g''" Undefined]
      registration_spec [THEN conjunct2, THEN conjunct1, OF u2, of "''e''" "''e''" "''f''"]
    unfolding on_def by (simp add: n)
qed

end
