(* ===== verification/Data_Differ.thy ===== *)
theory Data_Differ
  imports Js_Prelude
begin

text \<open>
  The difference of two lists of data, \<open>data/DataDiffer\<close> (module 99). The key getters give the property
  name under which an item is filed; names are taken to differ from the members every
  object inherits. A call of a callback is an event.
\<close>

section \<open>The model\<close>

text \<open>What a dictionary of indices holds for a key: a number, an array of numbers, or null.\<close>

datatype index = Num nat | Arr "nat list" | Null

datatype event = Add nat | Update nat nat | Remove nat

record 'a differ =
  d_old :: "'a list"
  d_new :: "'a list"
  d_oldKey :: "'a \<Rightarrow> nat \<Rightarrow> string"
  d_newKey :: "'a \<Rightarrow> nat \<Rightarrow> string"
  d_add :: bool
  d_update :: bool
  d_remove :: bool

definition newDiffer ::
  "'a list \<Rightarrow> 'a list \<Rightarrow> ('a \<Rightarrow> nat \<Rightarrow> string) \<Rightarrow> ('a \<Rightarrow> nat \<Rightarrow> string) \<Rightarrow> 'a differ" where
  "newDiffer oldArr newArr oldKeyGetter newKeyGetter =
     \<lparr>d_old = oldArr, d_new = newArr, d_oldKey = oldKeyGetter, d_newKey = newKeyGetter,
      d_add = False, d_update = False, d_remove = False\<rparr>"

definition set_add :: "'a differ \<Rightarrow> 'a differ" where
  "set_add d = d\<lparr>d_add := True\<rparr>"

definition set_update :: "'a differ \<Rightarrow> 'a differ" where
  "set_update d = d\<lparr>d_update := True\<rparr>"

definition set_remove :: "'a differ \<Rightarrow> 'a differ" where
  "set_remove d = d\<lparr>d_remove := True\<rparr>"

definition initStep ::
  "(string \<rightharpoonup> index) \<times> string list \<Rightarrow> nat \<times> string \<Rightarrow> (string \<rightharpoonup> index) \<times> string list" where
  "initStep = (\<lambda>(m, keyArr) (i, key).
     case m key of
       None \<Rightarrow> (m(key \<mapsto> Num i), keyArr @ [key])
     | Some Null \<Rightarrow> (m(key \<mapsto> Num i), keyArr @ [key])
     | Some (Num j) \<Rightarrow> (m(key \<mapsto> Arr [j, i]), keyArr)
     | Some (Arr js) \<Rightarrow> (m(key \<mapsto> Arr (if js = [] then [i] else js @ [i])), keyArr))"

definition initIndexMap :: "'a list \<Rightarrow> ('a \<Rightarrow> nat \<Rightarrow> string) \<Rightarrow> (string \<rightharpoonup> index) \<times> string list" where
  "initIndexMap arr keyGetter =
     foldl initStep (Map.empty, []) (map (\<lambda>(i, x). (i, keyGetter x i)) (enumerate 0 arr))"

text \<open>
  The pass over the old items. The key array may be shorter than the items; a key read past
  its end is \<open>undefined\<close>, which names the property \<open>''undefined''\<close>. The call \<open>idx.unshift()\<close>
  gives the length of the array and leaves the array as it is.
\<close>

definition oldStep ::
  "string list \<Rightarrow> (string \<rightharpoonup> index) \<times> event list \<Rightarrow> nat \<Rightarrow> (string \<rightharpoonup> index) \<times> event list" where
  "oldStep keyArr = (\<lambda>(m, evs) i.
     let key = (if i < length keyArr then keyArr ! i else ''undefined'') in
     case m key of
       None \<Rightarrow> (m, evs @ [Remove i])
     | Some Null \<Rightarrow> (m, evs @ [Remove i])
     | Some (Num j) \<Rightarrow> (m(key \<mapsto> Null), evs @ [Update j i])
     | Some (Arr js) \<Rightarrow>
         (if js = [] then (m(key \<mapsto> Null), evs @ [Update 0 i])
          else (if length js = 1 then m(key \<mapsto> Null) else m, evs @ [Update (length js) i])))"

definition newEvents :: "(string \<rightharpoonup> index) \<Rightarrow> string \<Rightarrow> event list" where
  "newEvents m key =
     (case m key of
        Some (Num j) \<Rightarrow> [Add j]
      | Some (Arr js) \<Rightarrow> map Add js
      | _ \<Rightarrow> [])"

fun wanted :: "'a differ \<Rightarrow> event \<Rightarrow> bool" where
  "wanted d (Add j) = d_add d"
| "wanted d (Update j i) = d_update d"
| "wanted d (Remove i) = d_remove d"

definition execute :: "'a differ \<Rightarrow> event list" where
  "execute d =
     (let (oldMap, oldKeys) = initIndexMap (d_old d) (d_oldKey d);
          (newMap, newKeys) = initIndexMap (d_new d) (d_newKey d);
          (newMap, evs) = foldl (oldStep oldKeys) (newMap, []) [0..<length (d_old d)] in
      filter (wanted d) (evs @ concat (map (newEvents newMap) newKeys)))"

section \<open>The index maps\<close>

definition keys_of :: "'a list \<Rightarrow> ('a \<Rightarrow> nat \<Rightarrow> string) \<Rightarrow> string list" where
  "keys_of arr g = map (\<lambda>(i, x). g x i) (enumerate 0 arr)"

text \<open>The positions of a key, and the keys in the order of their first occurrence.\<close>

definition occ :: "string list \<Rightarrow> string \<Rightarrow> nat list" where
  "occ ks k = filter (\<lambda>i. ks ! i = k) [0..<length ks]"

definition firsts :: "string list \<Rightarrow> string list" where
  "firsts ks = rev (remdups (rev ks))"

definition index_of :: "nat list \<Rightarrow> index option" where
  "index_of js = (case js of [] \<Rightarrow> None | [j] \<Rightarrow> Some (Num j) | _ \<Rightarrow> Some (Arr js))"

lemma length_keys_of [simp]: "length (keys_of arr g) = length arr"
  by (simp add: keys_of_def)

lemma occ_snoc: "occ (ks @ [x]) k = occ ks k @ (if x = k then [length ks] else [])"
  by (auto simp: occ_def nth_append intro!: filter_cong)

lemma firsts_snoc: "firsts (ks @ [x]) = (if x \<in> set ks then firsts ks else firsts ks @ [x])"
  by (simp add: firsts_def)

lemma set_firsts [simp]: "set (firsts ks) = set ks" and distinct_firsts [simp]: "distinct (firsts ks)"
  by (simp_all add: firsts_def)

lemma occ_Nil_iff: "occ ks k = [] \<longleftrightarrow> k \<notin> set ks"
  by (auto simp: occ_def filter_empty_conv in_set_conv_nth)

lemma firsts_distinct: "distinct ks \<Longrightarrow> firsts ks = ks"
  by (simp add: firsts_def distinct_remdups_id)

lemma enumerate_keys: "map (\<lambda>(i, x). (i, g x i)) (enumerate 0 arr) = enumerate 0 (keys_of arr g)"
  by (simp add: keys_of_def list_eq_iff_nth_eq nth_enumerate_eq)

lemma initIndexMap_fold:
  "foldl initStep (Map.empty, []) (enumerate 0 ks) = (\<lambda>k. index_of (occ ks k), firsts ks)"
proof (induction ks rule: rev_induct)
  case Nil
  show ?case by (simp add: occ_def index_of_def firsts_def)
next
  case (snoc x ks)
  have e: "enumerate 0 (ks @ [x]) = enumerate 0 ks @ [(length ks, x)]" by (simp add: enumerate_append_eq)
  have i: "index_of (js @ [j]) = (case index_of js of None \<Rightarrow> Some (Num j) | Some (Num i) \<Rightarrow> Some (Arr [i, j])
      | Some (Arr is) \<Rightarrow> Some (Arr (is @ [j])) | Some Null \<Rightarrow> Some Null)" for js j
    by (auto simp: index_of_def split: list.split)
  have "index_of (occ ks x) \<noteq> Some Null" "index_of (occ ks x) \<noteq> Some (Arr [])"
    by (auto simp: index_of_def split: list.split)
  moreover have "index_of (occ ks x) = None \<longleftrightarrow> x \<notin> set ks"
    by (auto simp: index_of_def occ_Nil_iff [symmetric] split: list.split)
  ultimately show ?case
    unfolding e foldl_append snoc
    by (auto simp: initStep_def occ_snoc firsts_snoc i fun_eq_iff split: option.split index.split)
qed

lemma initIndexMap_eq:
  "initIndexMap arr g = (\<lambda>k. index_of (occ (keys_of arr g) k), firsts (keys_of arr g))"
  by (simp add: initIndexMap_def enumerate_keys initIndexMap_fold)

section \<open>The passes\<close>

definition key_at :: "string list \<Rightarrow> nat \<Rightarrow> string" where
  "key_at okeys i = (if i < length okeys then okeys ! i else ''undefined'')"

definition old_event :: "string list \<Rightarrow> string list \<Rightarrow> nat \<Rightarrow> event" where
  "old_event okeys nks i =
     (case occ nks (key_at okeys i) of
        [] \<Rightarrow> Remove i
      | [j] \<Rightarrow> Update j i
      | js \<Rightarrow> Update (length js) i)"

lemma old_fold:
  assumes "distinct okeys" "''undefined'' \<notin> set nks \<or> n \<le> length okeys" "m \<le> n"
  shows "foldl (oldStep okeys) (\<lambda>k. index_of (occ nks k), []) [0..<m] =
    (\<lambda>k. if k \<in> set (take m okeys) \<and> length (occ nks k) = 1 then Some Null else index_of (occ nks k),
     map (old_event okeys nks) [0..<m])"
  using assms(3)
proof (induction m)
  case (Suc m)
  let ?k = "key_at okeys m"
  have seen: "?k \<notin> set (take m okeys) \<or> occ nks ?k = []"
  proof (cases "m < length okeys")
    case True
    then show ?thesis using assms(1) by (auto simp: key_at_def in_set_conv_nth nth_eq_iff_index_eq)
  next
    case False
    then show ?thesis using assms(2) Suc.prems by (auto simp: key_at_def occ_Nil_iff)
  qed
  have upd: "set (take (Suc m) okeys) = (if m < length okeys then insert ?k (set (take m okeys)) else set (take m okeys))"
    by (auto simp: take_Suc_conv_app_nth key_at_def)
  have out: "\<not> m < length okeys \<Longrightarrow> occ nks ?k = []"
    using assms(2) Suc.prems by (auto simp: key_at_def occ_Nil_iff)
  consider (none) "occ nks ?k = []" | (one) j where "occ nks ?k = [j]" | (more) i j js where "occ nks ?k = i # j # js"
    by (cases "occ nks ?k" rule: list.exhaust; cases "tl (occ nks ?k)") auto
  then show ?case
  proof cases
    case none
    then show ?thesis
      using Suc seen upd by (auto simp: oldStep_def key_at_def [symmetric] Let_def old_event_def index_of_def fun_eq_iff)
  next
    case one
    then have "m < length okeys" using out by auto
    then show ?thesis
      using one Suc seen upd by (auto simp: oldStep_def key_at_def [symmetric] Let_def old_event_def index_of_def fun_eq_iff)
  next
    case more
    then have "m < length okeys" using out by auto
    then show ?thesis
      using more Suc seen upd by (auto simp: oldStep_def key_at_def [symmetric] Let_def old_event_def index_of_def fun_eq_iff)
  qed
qed simp

definition new_adds :: "string list \<Rightarrow> string list \<Rightarrow> string \<Rightarrow> event list" where
  "new_adds oks nks k = (if k \<in> set oks \<and> length (occ nks k) = 1 then [] else map Add (occ nks k))"

lemma execute_eq:
  fixes d
  defines "oks \<equiv> keys_of (d_old d) (d_oldKey d)" and "nks \<equiv> keys_of (d_new d) (d_newKey d)"
  assumes "''undefined'' \<notin> set nks \<or> distinct oks"
  shows "execute d = filter (wanted d)
    (map (old_event (firsts oks) nks) [0..<length (d_old d)] @ concat (map (new_adds oks nks) (firsts nks)))"
proof -
  let ?n = "length (d_old d)"
  have n: "''undefined'' \<notin> set nks \<or> ?n \<le> length (firsts oks)"
    using assms(3) by (auto simp: firsts_distinct oks_def)
  have "length (firsts oks) \<le> ?n" by (simp add: firsts_def oks_def length_remdups_leq order_trans [OF length_remdups_leq])
  then have all: "take ?n (firsts oks) = firsts oks" by simp
  have "newEvents (\<lambda>k. if k \<in> set (firsts oks) \<and> length (occ nks k) = 1 then Some Null else index_of (occ nks k))
      = new_adds oks nks"
    by (rule ext) (auto simp: newEvents_def new_adds_def index_of_def split: list.split)
  then show ?thesis
    using old_fold [OF distinct_firsts n order_refl] all
    by (simp add: execute_def initIndexMap_eq oks_def [symmetric] nks_def [symmetric])
qed

lemma filter_upt_eq: "filter (\<lambda>j. j = i) [0..<n] = (if i < n then [i] else [])"
  by (induction n) auto

lemma occ_distinct:
  assumes "distinct ks" "i < length ks"
  shows "occ ks (ks ! i) = [i]"
proof -
  have "occ ks (ks ! i) = filter (\<lambda>j. j = i) [0..<length ks]"
    using assms by (auto simp: occ_def nth_eq_iff_index_eq intro!: filter_cong)
  also have "\<dots> = [i]"
    using assms(2) filter_upt_eq [of i "length ks"] by simp
  finally show ?thesis .
qed

section \<open>Properties\<close>

text \<open>The table from keys to positions that distinct keys give.\<close>

definition lookup :: "string list \<Rightarrow> string \<Rightarrow> nat option" where
  "lookup ks = map_of (zip ks [0..<length ks])"

lemma lookup_occ: "distinct ks \<Longrightarrow> occ ks k = (case lookup ks k of None \<Rightarrow> [] | Some j \<Rightarrow> [j])"
proof (cases "k \<in> set ks")
  case True
  assume d: "distinct ks"
  from True obtain j where j: "j < length ks" "ks ! j = k" by (auto simp: in_set_conv_nth)
  then have "(k, j) \<in> set (zip ks [0..<length ks])" by (auto simp: set_zip)
  then have "lookup ks k = Some j" using d by (simp add: lookup_def)
  then show ?thesis using occ_distinct [OF d j(1)] j(2) by simp
next
  case False
  then have "lookup ks k = None" by (auto simp: lookup_def map_of_eq_None_iff dest: set_zip_leftD)
  then show ?thesis using False by (simp add: occ_Nil_iff)
qed

lemma concat_adds:
  assumes "distinct nks"
  shows "concat (map (new_adds oks nks) nks) = map Add (filter (\<lambda>j. nks ! j \<notin> set oks) [0..<length nks])"
proof -
  have "map (new_adds oks nks) nks = map (\<lambda>j. if nks ! j \<notin> set oks then [Add j] else []) [0..<length nks]"
    using assms by (intro nth_equalityI) (auto simp: new_adds_def occ_distinct)
  moreover have "concat (map (\<lambda>j. if P j then [Add j] else []) js) = map Add (filter P js)" for P js
    by (induction js) auto
  ultimately show ?thesis by metis
qed

lemma all_wanted: "d_add d \<Longrightarrow> d_update d \<Longrightarrow> d_remove d \<Longrightarrow> wanted d e"
  by (cases e) auto

lemma old_events_distinct:
  "distinct nks \<Longrightarrow> n \<le> length oks \<Longrightarrow> map (old_event oks nks) [0..<n] =
     map (\<lambda>i. case lookup nks (oks ! i) of None \<Rightarrow> Remove i | Some j \<Rightarrow> Update j i) [0..<n]"
  by (auto simp: old_event_def key_at_def lookup_occ split: option.split)

lemma filter_mset_disjoint:
  "(\<And>x. \<not> (P x \<and> Q x)) \<Longrightarrow> filter_mset P M + filter_mset Q M = filter_mset (\<lambda>x. P x \<or> Q x) M"
  by (intro multiset_eqI) auto

lemma mset_occ:
  "distinct ks \<Longrightarrow> mset (concat (map (occ nks) ks)) = mset (filter (\<lambda>j. nks ! j \<in> set ks) [0..<length nks])"
proof (induction ks)
  case (Cons k ks)
  have "mset (concat (map (occ nks) (k # ks)))
      = filter_mset (\<lambda>j. nks ! j = k) (mset [0..<length nks]) + filter_mset (\<lambda>j. nks ! j \<in> set ks) (mset [0..<length nks])"
  proof -
    have "mset (occ nks k) = filter_mset (\<lambda>j. nks ! j = k) (mset [0..<length nks])" by (simp only: occ_def mset_filter)
    then show ?thesis using Cons by (simp only: list.map concat.simps mset_append distinct.simps mset_filter)
  qed
  also have "\<dots> = filter_mset (\<lambda>j. nks ! j = k \<or> nks ! j \<in> set ks) (mset [0..<length nks])"
    using Cons.prems by (intro filter_mset_disjoint) auto
  finally show ?case by (simp only: mset_filter set_simps insert_iff)
qed simp

lemma execute_by_lookup:
  assumes "distinct (keys_of (d_old d) (d_oldKey d))" "distinct (keys_of (d_new d) (d_newKey d))"
    and "d_add d" "d_update d" "d_remove d"
  shows "execute d =
    map (\<lambda>i. case lookup (keys_of (d_new d) (d_newKey d)) (keys_of (d_old d) (d_oldKey d) ! i) of
           None \<Rightarrow> Remove i | Some j \<Rightarrow> Update j i) [0..<length (d_old d)]
    @ map Add (filter (\<lambda>j. keys_of (d_new d) (d_newKey d) ! j \<notin> set (keys_of (d_old d) (d_oldKey d))) [0..<length (d_new d)])"
proof -
  let ?o = "keys_of (d_old d) (d_oldKey d)" and ?n = "keys_of (d_new d) (d_newKey d)"
  show ?thesis
    using execute_eq [of d] assms(1,2) concat_adds [OF assms(2), of ?o] old_events_distinct [OF assms(2), of "length (d_old d)" ?o]
      all_wanted [OF assms(3-)]
    by (simp add: firsts_distinct)
qed


definition letters :: "string list \<Rightarrow> string list \<Rightarrow> string differ" where
  "letters old new = set_add (set_update (set_remove (newDiffer old new (\<lambda>x i. x) (\<lambda>x i. x))))"

lemmas letters_simps = letters_def set_add_def set_update_def set_remove_def newDiffer_def


text \<open>The items of the two lists that an event accounts for.\<close>

fun new_of :: "event \<Rightarrow> nat list" where
  "new_of (Add j) = [j]"
| "new_of (Update j i) = [j]"
| "new_of (Remove i) = []"

fun old_of :: "event \<Rightarrow> nat list" where
  "old_of (Add j) = []"
| "old_of (Update j i) = [i]"
| "old_of (Remove i) = [i]"

text \<open>
  Under the same conditions every old item is accounted for exactly once and in order, and every
  new item exactly once.
\<close>

theorem execute_covers:
  assumes "distinct (keys_of (d_old d) (d_oldKey d))" "distinct (keys_of (d_new d) (d_newKey d))"
    and "d_add d" "d_update d" "d_remove d"
  shows "concat (map old_of (execute d)) = [0..<length (d_old d)]
    \<and> mset (concat (map new_of (execute d))) = mset [0..<length (d_new d)]"
proof -
  let ?o = "keys_of (d_old d) (d_oldKey d)" and ?n = "keys_of (d_new d) (d_newKey d)"
  let ?e = "\<lambda>i. case lookup ?n (?o ! i) of None \<Rightarrow> Remove i | Some j \<Rightarrow> Update j i"
  let ?new = "filter (\<lambda>j. ?n ! j \<notin> set ?o) [0..<length (d_new d)]"
  have run: "execute d = map ?e [0..<length (d_old d)] @ map Add ?new"
    using execute_eq [of d] assms concat_adds [OF assms(2), of ?o] old_events_distinct [OF assms(2), of "length (d_old d)" ?o] all_wanted [OF assms(3-)]
    by (simp add: firsts_distinct)
  have old1: "old_of \<circ> Add = (\<lambda>j. [])" and new1: "new_of \<circ> Add = (\<lambda>j. [j])" by auto
  have old2: "old_of \<circ> ?e = (\<lambda>i. [i])" by (auto split: option.split)
  have "map (new_of \<circ> ?e) [0..<length (d_old d)] = map (occ ?n) ?o"
    using lookup_occ [OF assms(2)] by (intro nth_equalityI) (auto split: option.split)
  then have "mset (concat (map new_of (execute d))) = mset (concat (map (occ ?n) ?o)) + mset ?new"
    by (simp add: run new1)
  also have "mset (concat (map (occ ?n) ?o)) = mset (filter (\<lambda>j. ?n ! j \<in> set ?o) [0..<length (d_new d)])"
    using mset_occ [OF assms(1), of ?n] by simp
  also have "\<dots> + mset ?new = mset [0..<length (d_new d)]"
    by (simp only: mset_filter multiset_partition [symmetric])
  finally have "mset (concat (map new_of (execute d))) = mset [0..<length (d_new d)]" .
  moreover have "concat (map old_of (execute d)) = [0..<length (d_old d)]"
    by (simp add: run old1 old2)
  ultimately show ?thesis by blast
qed

lemma execute_covers_witness:
  "concat (map old_of (execute (letters [''a'', ''b''] [''b'', ''c'']))) = [0, 1]"
proof -
  let ?d = "letters [''a'', ''b''] [''b'', ''c'']"
  have "distinct (keys_of (d_old ?d) (d_oldKey ?d))" "distinct (keys_of (d_new ?d) (d_newKey ?d))"
    "d_add ?d" "d_update ?d" "d_remove ?d"
    by (simp_all add: letters_simps keys_of_def)
  from execute_covers [OF this] show ?thesis by (simp add: letters_simps upt_rec)
qed

text \<open>
  When a key of the old list occurs several times in the new one, the update callback is given the
  number of its occurrences in place of an index, and all of these items are then
  reported as added as well.
\<close>

theorem execute_repeated_new_key:
  assumes "distinct (keys_of (d_old d) (d_oldKey d))" "i < length (d_old d)"
    and "1 < length (occ (keys_of (d_new d) (d_newKey d)) (keys_of (d_old d) (d_oldKey d) ! i))"
    and "d_add d" "d_update d" "d_remove d"
  shows "Update (length (occ (keys_of (d_new d) (d_newKey d)) (keys_of (d_old d) (d_oldKey d) ! i))) i \<in> set (execute d)
    \<and> (\<forall>j\<in>set (occ (keys_of (d_new d) (d_newKey d)) (keys_of (d_old d) (d_oldKey d) ! i)). Add j \<in> set (execute d))"
proof -
  let ?o = "keys_of (d_old d) (d_oldKey d)" and ?n = "keys_of (d_new d) (d_newKey d)"
  let ?js = "occ ?n (?o ! i)"
  have run: "execute d = map (old_event ?o ?n) [0..<length (d_old d)] @ concat (map (new_adds ?o ?n) (firsts ?n))"
    using execute_eq [of d] assms(1) all_wanted [OF assms(4-)] by (simp add: firsts_distinct)
  have "old_event ?o ?n i = Update (length ?js) i"
    using assms(2,3) by (auto simp: old_event_def key_at_def split: list.split)
  moreover have "?o ! i \<in> set ?n" using assms(3) occ_Nil_iff [of ?n "?o ! i"] by auto
  moreover have "new_adds ?o ?n (?o ! i) = map Add ?js" using assms(3) by (simp add: new_adds_def)
  ultimately show ?thesis using assms(2) unfolding run by (force simp: image_iff)
qed

lemma execute_repeated_new_key_witness:
  "execute (letters [''a''] [''a'', ''a'']) = [Update 2 0, Add 0, Add 1]
    \<and> Update 2 0 \<in> set (execute (letters [''a''] [''a'', ''a'']))"
proof -
  let ?d = "letters [''a''] [''a'', ''a'']"
  have "distinct (keys_of (d_old ?d) (d_oldKey ?d))" "0 < length (d_old ?d)"
    "1 < length (occ (keys_of (d_new ?d) (d_newKey ?d)) (keys_of (d_old ?d) (d_oldKey ?d) ! 0))"
    "d_add ?d" "d_update ?d" "d_remove ?d"
    by (simp_all add: letters_simps keys_of_def occ_def upt_rec)
  from execute_repeated_new_key [OF this] show ?thesis
    by (simp add: letters_simps keys_of_def occ_def upt_rec execute_def initIndexMap_def initStep_def oldStep_def newEvents_def)
qed

text \<open>With repeated old keys the key array is shorter than the items, and items are taken for removed.\<close>

lemma execute_repeated_old_key:
  "execute (letters [''a'', ''a''] [''a'', ''a'']) = [Update 2 0, Remove 1, Add 0, Add 1]"
  by (simp add: letters_simps upt_rec execute_def initIndexMap_def initStep_def oldStep_def newEvents_def)

end
