(* ===== verification/Topological_Travel.thy ===== *)
theory Topological_Travel
  imports Js_Prelude
begin

text \<open>
  The order in which components are created and updated: \<open>enableTopologicalTravel\<close> of \<open>util/component\<close>
  (module 20). The getter of dependencies is a parameter. A callback is recorded as a call with
  the component and its dependencies; the error at the end is a flag. \<open>None\<close> is a read of a
  missing vertex, which the theorems exclude.
\<close>

section \<open>The dependency graph\<close>

record vertex =
  v_predecessor :: "string list"
  v_successor :: "string list"
  v_originalDeps :: "string list"
  v_entryCount :: int

type_synonym graph = "string \<rightharpoonup> vertex"

definition createDependencyGraphItem :: "graph \<Rightarrow> string \<Rightarrow> graph" where
  "createDependencyGraphItem graph name =
     (case graph name of None \<Rightarrow> graph(name \<mapsto> \<lparr>v_predecessor = [], v_successor = [], v_originalDeps = [], v_entryCount = 0\<rparr>)
      | Some _ \<Rightarrow> graph)"

definition getAvailableDependencies :: "string list \<Rightarrow> string list \<Rightarrow> string list" where
  "getAvailableDependencies originalDeps fullNameList = filter (\<lambda>dep. dep \<in> set fullNameList) originalDeps"

definition set_vertex :: "string \<Rightarrow> (vertex \<Rightarrow> vertex) \<Rightarrow> graph \<Rightarrow> graph" where
  "set_vertex name f graph = graph(name \<mapsto> f (the (graph name)))"

text \<open>One dependency of one component; the second test looks for the dependency itself, not for the component.\<close>

definition addDependency :: "string \<Rightarrow> graph \<Rightarrow> string \<Rightarrow> graph" where
  "addDependency name graph dependentName =
     (let graph = (if dependentName \<in> set (v_predecessor (the (graph name))) then graph
          else set_vertex name (\<lambda>v. v\<lparr>v_predecessor := v_predecessor v @ [dependentName]\<rparr>) graph);
          graph = createDependencyGraphItem graph dependentName in
      if dependentName \<in> set (v_successor (the (graph dependentName))) then graph
      else set_vertex dependentName (\<lambda>v. v\<lparr>v_successor := v_successor v @ [name]\<rparr>) graph)"

definition addComponent ::
  "(string \<Rightarrow> string list) \<Rightarrow> string list \<Rightarrow> graph \<times> string list \<Rightarrow> string \<Rightarrow> graph \<times> string list" where
  "addComponent dependencyGetter fullNameList = (\<lambda>(graph, noEntryList) name.
     let graph = createDependencyGraphItem graph name;
         originalDeps = dependencyGetter name;
         availableDeps = getAvailableDependencies originalDeps fullNameList;
         graph = set_vertex name (\<lambda>v. v\<lparr>v_originalDeps := originalDeps, v_entryCount := int (length availableDeps)\<rparr>) graph;
         noEntryList = (if availableDeps = [] then noEntryList @ [name] else noEntryList) in
     (foldl (addDependency name) graph availableDeps, noEntryList))"

definition makeDepndencyGraph ::
  "(string \<Rightarrow> string list) \<Rightarrow> string list \<Rightarrow> graph \<times> string list" where
  "makeDepndencyGraph dependencyGetter fullNameList =
     foldl (addComponent dependencyGetter fullNameList) (Map.empty, []) fullNameList"

section \<open>The traversal\<close>

record travel =
  t_graph :: graph
  t_stack :: "string list"
  t_targets :: "string set"
  t_calls :: "(string \<times> string list) list"

definition removeEdge :: "travel \<Rightarrow> string \<Rightarrow> travel option" where
  "removeEdge t succ =
     do { v \<leftarrow> t_graph t succ;
          let v = v\<lparr>v_entryCount := v_entryCount v - 1\<rparr>; t = t\<lparr>t_graph := (t_graph t)(succ \<mapsto> v)\<rparr> in
          Some (if v_entryCount v = 0 then t\<lparr>t_stack := t_stack t @ [succ]\<rparr> else t) }"

definition removeEdgeAndAdd :: "travel \<Rightarrow> string \<Rightarrow> travel option" where
  "removeEdgeAndAdd t succ = removeEdge (t\<lparr>t_targets := insert succ (t_targets t)\<rparr>) succ"

fun each_edge :: "(travel \<Rightarrow> string \<Rightarrow> travel option) \<Rightarrow> string list \<Rightarrow> travel \<Rightarrow> travel option" where
  "each_edge f [] t = Some t"
| "each_edge f (s # ss) t = do { t \<leftarrow> f t s; each_edge f ss t }"

definition visit :: "travel \<Rightarrow> travel option" where
  "visit t =
     (let curr = last (t_stack t); t = t\<lparr>t_stack := butlast (t_stack t)\<rparr> in
      do { v \<leftarrow> t_graph t curr;
           if curr \<in> t_targets t then
             each_edge removeEdgeAndAdd (v_successor v)
               (t\<lparr>t_calls := t_calls t @ [(curr, v_originalDeps v)], t_targets := t_targets t - {curr}\<rparr>)
           else each_edge removeEdge (v_successor v) t })"

partial_function (option) travelLoop :: "travel \<Rightarrow> travel option" where
  "travelLoop t = (if t_stack t = [] then Some t else do { t \<leftarrow> visit t; travelLoop t })"

text \<open>The calls made, and whether the error about a circle is thrown.\<close>

definition topologicalTravel ::
  "(string \<Rightarrow> string list) \<Rightarrow> string list \<Rightarrow> string list \<Rightarrow> ((string \<times> string list) list \<times> bool) option" where
  "topologicalTravel dependencyGetter targetNameList fullNameList =
     (if targetNameList = [] then Some ([], False)
      else let (graph, noEntryList) = makeDepndencyGraph dependencyGetter fullNameList in
        do { t \<leftarrow> travelLoop \<lparr>t_graph = graph, t_stack = noEntryList, t_targets = set targetNameList, t_calls = []\<rparr>;
             Some (t_calls t, t_targets t \<noteq> {}) })"

declare travelLoop.simps [code]

section \<open>The graph that is built\<close>

text \<open>The dependencies of a component that are in the list.\<close>

abbreviation avail :: "(string \<Rightarrow> string list) \<Rightarrow> string list \<Rightarrow> string \<Rightarrow> string list" where
  "avail deps full n \<equiv> getAvailableDependencies (deps n) full"

lemma avail_full: "d \<in> set (avail deps full n) \<Longrightarrow> d \<in> set full"
  by (simp add: getAvailableDependencies_def)

text \<open>
  What the construction establishes for the components read so far: every one, and every
  dependency of one, has a vertex; counts and dependencies are recorded; the successors of a
  component that does not depend on itself are the components that do, each as often as it names it.
\<close>

definition built :: "(string \<Rightarrow> string list) \<Rightarrow> string list \<Rightarrow> string list \<Rightarrow> graph \<Rightarrow> bool" where
  "built deps full ns g \<longleftrightarrow>
     (\<forall>n\<in>set ns. \<exists>v. g n = Some v \<and> v_originalDeps v = deps n \<and> v_entryCount v = int (length (avail deps full n))) \<and>
     (\<forall>d v. g d = Some v \<longrightarrow> d \<in> set full \<and> (\<forall>x\<in>set (v_successor v). x \<in> set ns)) \<and>
     (\<forall>n\<in>set ns. \<forall>d\<in>set (avail deps full n). g d \<noteq> None) \<and>
     (\<forall>d v n. g d = Some v \<longrightarrow> d \<notin> set (avail deps full d) \<longrightarrow> n \<in> set ns \<longrightarrow>
        count_list (v_successor v) n = count_list (avail deps full n) d)"
definition part :: "(string \<Rightarrow> string list) \<Rightarrow> string list \<Rightarrow> string list \<Rightarrow> string \<Rightarrow> string list \<Rightarrow> graph \<Rightarrow> bool" where
  "part deps full ns name ds g \<longleftrightarrow>
     (\<forall>n\<in>insert name (set ns). \<exists>v. g n = Some v \<and> v_originalDeps v = deps n \<and> v_entryCount v = int (length (avail deps full n))) \<and>
     (\<forall>d v. g d = Some v \<longrightarrow> d \<in> set full \<and> (\<forall>x\<in>set (v_successor v). x \<in> insert name (set ns))) \<and>
     (\<forall>n\<in>set ns. \<forall>d\<in>set (avail deps full n). g d \<noteq> None) \<and> (\<forall>d\<in>set ds. g d \<noteq> None) \<and>
     (\<forall>d v n. g d = Some v \<longrightarrow> d \<notin> set (avail deps full d) \<longrightarrow> n \<in> set ns \<longrightarrow>
        count_list (v_successor v) n = count_list (avail deps full n) d) \<and>
     (\<forall>d v. g d = Some v \<longrightarrow> d \<notin> set (avail deps full d) \<longrightarrow> count_list (v_successor v) name = count_list ds d)"

lemma part_step:
  assumes p: "part deps full ns name ds g" and n: "name \<notin> set ns"
    and d: "d \<in> set full" and ds: "set (ds @ [d]) \<subseteq> set (avail deps full name)"
  shows "part deps full ns name (ds @ [d]) (addDependency name g d)"
proof -
  define g1 where "g1 = (if d \<in> set (v_predecessor (the (g name))) then g
      else set_vertex name (\<lambda>v. v\<lparr>v_predecessor := v_predecessor v @ [d]\<rparr>) g)"
  define g2 where "g2 = createDependencyGraphItem g1 d"
  obtain vn where vn: "g name = Some vn" using p by (auto simp: part_def)
  have g1: "part deps full ns name ds g1 \<and> (\<forall>x. g1 x = None \<longleftrightarrow> g x = None)"
    using p vn by (auto simp: g1_def set_vertex_def part_def)
  have cl: "count_list (avail deps full n) d = 0" if "n \<in> set ns" "g1 d = None" for n
  proof -
    have "d \<notin> set (avail deps full n)" using g1 that unfolding part_def by blast
    then show ?thesis by (simp add: count_list_0_iff)
  qed
  have cd: "count_list ds d = 0" if "g1 d = None"
  proof -
    have "d \<notin> set ds" using g1 that unfolding part_def by blast
    then show ?thesis by (simp add: count_list_0_iff)
  qed
  have g2: "part deps full ns name ds g2" "g2 d \<noteq> None"
  proof -
    show "g2 d \<noteq> None" by (auto simp: g2_def createDependencyGraphItem_def split: option.splits)
    show "part deps full ns name ds g2"
    proof (cases "g1 d")
      case None
      then have e: "g2 = g1(d \<mapsto> \<lparr>v_predecessor = [], v_successor = [], v_originalDeps = [], v_entryCount = 0\<rparr>)"
        by (simp add: g2_def createDependencyGraphItem_def)
      have "d \<notin> insert name (set ns)"
      proof
        assume "d \<in> insert name (set ns)"
        then have "g1 d \<noteq> None" using g1 unfolding part_def by blast
        then show False using None by simp
      qed
      then show ?thesis using g1 d cl [OF _ None] cd [OF None] unfolding e part_def by auto
    qed (use g1 in \<open>simp add: g2_def createDependencyGraphItem_def\<close>)
  qed
  then obtain vd where vd: "g2 d = Some vd" by blast
  have self: "d \<in> set (v_successor vd) \<Longrightarrow> d \<in> set (avail deps full d)"
  proof (rule ccontr)
    assume a: "d \<in> set (v_successor vd)" "d \<notin> set (avail deps full d)"
    then have "d = name \<or> d \<in> set ns" using g2(1) vd by (auto simp: part_def)
    then have "count_list (v_successor vd) d = 0"
    proof
      assume e: "d = name"
      then have "count_list (v_successor vd) d = count_list ds d"
        using g2(1) vd a(2) unfolding part_def by blast
      then show ?thesis using a(2) ds e by (auto simp: count_list_0_iff)
    next
      assume "d \<in> set ns"
      then have "count_list (v_successor vd) d = count_list (avail deps full d) d"
        using g2(1) vd a(2) unfolding part_def by blast
      then show ?thesis using a(2) by (simp add: count_list_0_iff)
    qed
    then show False using a(1) by (simp add: count_list_0_iff)
  qed
  have "part deps full ns name (ds @ [d])
      (if d \<in> set (v_successor vd) then g2
       else set_vertex d (\<lambda>v. v\<lparr>v_successor := v_successor v @ [name]\<rparr>) g2)"
  proof (cases "d \<in> set (v_successor vd)")
    case True
    then show ?thesis using g2(1) self [OF True] vd by (auto simp: part_def)
  next
    case False
    have "d \<notin> set (avail deps full d) \<Longrightarrow> name = d \<Longrightarrow> count_list ds d = 0" using ds by (auto simp: count_list_0_iff)
    then show ?thesis using g2(1) vd n False by (auto simp: part_def set_vertex_def)
  qed
  then show ?thesis by (simp only: addDependency_def Let_def g1_def [symmetric] g2_def [symmetric] vd option.sel)
qed

lemma part_fold:
  assumes "part deps full ns name ds g" "name \<notin> set ns" "set (ds @ es) \<subseteq> set (avail deps full name)"
  shows "part deps full ns name (ds @ es) (foldl (addDependency name) g es)"
  using assms
proof (induction es arbitrary: ds g)
  case (Cons e es)
  have "part deps full ns name (ds @ [e]) (addDependency name g e)"
    using Cons.prems by (intro part_step) (auto dest: avail_full)
  then show ?case using Cons.IH [of "ds @ [e]"] Cons.prems by simp
qed simp

lemma built_step:
  assumes b: "built deps full ns g" and n: "name \<notin> set ns" "name \<in> set full"
  shows "built deps full (ns @ [name]) (fst (addComponent deps full (g, es) name))"
proof -
  let ?av = "avail deps full name"
  define g1 where "g1 = set_vertex name (\<lambda>v. v\<lparr>v_originalDeps := deps name, v_entryCount := int (length ?av)\<rparr>)
      (createDependencyGraphItem g name)"
  have none: "g name = None \<Longrightarrow> m \<in> set ns \<Longrightarrow> name \<notin> set (avail deps full m)" for m
    using b unfolding built_def by blast
  have "name \<notin> set (v_successor v)" if "g d = Some v" for d v using b n(1) that by (auto simp: built_def)
  then have "part deps full ns name [] g1"
    using b n none
    by (cases "g name") (auto simp: part_def built_def g1_def set_vertex_def createDependencyGraphItem_def count_list_0_iff)
  then have "part deps full ns name ([] @ ?av) (foldl (addDependency name) g1 ?av)"
    using n by (intro part_fold) auto
  then show ?thesis
    by (auto simp: addComponent_def Let_def g1_def [symmetric] part_def built_def)
qed

lemma makeDepndencyGraph_built:
  assumes "distinct full"
  shows "built deps full full (fst (makeDepndencyGraph deps full))
    \<and> snd (makeDepndencyGraph deps full) = filter (\<lambda>n. avail deps full n = []) full"
proof -
  have "built deps full ns (fst (foldl (addComponent deps full) (Map.empty, []) ns))
    \<and> snd (foldl (addComponent deps full) (Map.empty, []) ns) = filter (\<lambda>n. avail deps full n = []) ns"
    if "distinct ns" "set ns \<subseteq> set full" for ns
    using that
  proof (induction ns rule: rev_induct)
    case Nil
    show ?case by (simp add: built_def)
  next
    case (snoc n ns)
    obtain g es where e: "foldl (addComponent deps full) (Map.empty, []) ns = (g, es)" by fastforce
    then show ?case
      using snoc built_step [of deps full ns g n es]
      by (auto simp: addComponent_def Let_def)
  qed
  then show ?thesis using assms by (simp add: makeDepndencyGraph_def)
qed

section \<open>Removing the edges of a vertex\<close>

definition cnt :: "travel \<Rightarrow> string \<Rightarrow> int" where
  "cnt t n = v_entryCount (the (t_graph t n))"

definition shape :: "travel \<Rightarrow> string \<Rightarrow> (string list \<times> string list) option" where
  "shape t n = map_option (\<lambda>v. (v_successor v, v_originalDeps v)) (t_graph t n)"

lemma shape_None [simp]: "shape t n = None \<longleftrightarrow> t_graph t n = None"
  by (simp add: shape_def)

definition edge :: "bool \<Rightarrow> travel \<Rightarrow> string \<Rightarrow> travel option" where
  "edge b = (if b then removeEdgeAndAdd else removeEdge)"

lemma edge_spec:
  assumes "t_graph t s \<noteq> None"
  shows "\<exists>t'. edge b t s = Some t' \<and> t_stack t' = t_stack t @ (if cnt t s = 1 then [s] else []) \<and>
    t_calls t' = t_calls t \<and> t_targets t' = t_targets t \<union> (if b then {s} else {}) \<and>
    shape t' = shape t \<and> (\<forall>n. cnt t' n = cnt t n - (if n = s then 1 else 0))"
  using assms by (auto simp: edge_def removeEdge_def removeEdgeAndAdd_def cnt_def shape_def Let_def fun_eq_iff)

lemma each_edge_spec:
  assumes "\<forall>s\<in>set ss. t_graph t s \<noteq> None"
  shows "\<exists>t' new. each_edge (edge b) ss t = Some t' \<and> t_stack t' = t_stack t @ new \<and> distinct new \<and>
    (\<forall>n. n \<in> set new \<longleftrightarrow> 0 < cnt t n \<and> cnt t n \<le> int (count_list ss n)) \<and>
    t_calls t' = t_calls t \<and> t_targets t' = t_targets t \<union> (if b then set ss else {}) \<and>
    shape t' = shape t \<and> (\<forall>n. cnt t' n = cnt t n - int (count_list ss n))"
  using assms
proof (induction ss arbitrary: t)
  case Nil
  show ?case by auto
next
  case (Cons s ss)
  obtain t1 where 1: "edge b t s = Some t1" "t_stack t1 = t_stack t @ (if cnt t s = 1 then [s] else [])"
      "t_calls t1 = t_calls t" "t_targets t1 = t_targets t \<union> (if b then {s} else {})" "shape t1 = shape t"
      "\<forall>n. cnt t1 n = cnt t n - (if n = s then 1 else 0)"
    using edge_spec [of t s b] Cons.prems by auto
  have "\<forall>s\<in>set ss. t_graph t1 s \<noteq> None"
    using Cons.prems 1(5) by (metis list.set_intros(2) shape_None)
  from Cons.IH [OF this] obtain t2 new where 2: "each_edge (edge b) ss t1 = Some t2" "t_stack t2 = t_stack t1 @ new"
      "distinct new" "\<forall>n. n \<in> set new \<longleftrightarrow> 0 < cnt t1 n \<and> cnt t1 n \<le> int (count_list ss n)"
      "t_calls t2 = t_calls t1" "t_targets t2 = t_targets t1 \<union> (if b then set ss else {})" "shape t2 = shape t1"
      "\<forall>n. cnt t2 n = cnt t1 n - int (count_list ss n)" by blast
  let ?new = "(if cnt t s = 1 then [s] else []) @ new"
  have "distinct ?new" using 2(3,4) 1(6) by auto
  moreover have "n \<in> set ?new \<longleftrightarrow> 0 < cnt t n \<and> cnt t n \<le> int (count_list (s # ss) n)" for n
    using 2(4) 1(6) by auto
  ultimately show ?case using 1 2 by (auto intro!: exI [of _ ?new])
qed

lemma visit_edge:
  "visit t = (let curr = last (t_stack t); t = t\<lparr>t_stack := butlast (t_stack t)\<rparr>; b = (curr \<in> t_targets t) in
     do { v \<leftarrow> t_graph t curr;
          each_edge (edge b) (v_successor v)
            (if b then t\<lparr>t_calls := t_calls t @ [(curr, v_originalDeps v)], t_targets := t_targets t - {curr}\<rparr> else t) })"
  by (auto simp: visit_def edge_def Let_def)

section \<open>The invariant of the traversal\<close>

text \<open>The components that the callback is due for: the targets and whatever depends on one.\<close>

inductive affected :: "(string \<Rightarrow> string list) \<Rightarrow> string list \<Rightarrow> string list \<Rightarrow> string \<Rightarrow> bool"
  for deps full targets where
  target: "n \<in> set targets \<Longrightarrow> affected deps full targets n"
| dependent: "affected deps full targets d \<Longrightarrow> d \<in> set (avail deps full n) \<Longrightarrow> n \<in> set full \<Longrightarrow>
    affected deps full targets n"

definition ordered :: "(string \<Rightarrow> string list) \<Rightarrow> string list \<Rightarrow> string list \<Rightarrow> bool" where
  "ordered deps full ps \<longleftrightarrow> (\<forall>us n vs. ps = us @ n # vs \<longrightarrow> set (avail deps full n) \<subseteq> set us)"

definition succs :: "(string \<Rightarrow> string list) \<Rightarrow> string list \<Rightarrow> string \<Rightarrow> string list" where
  "succs deps full d = v_successor (the (fst (makeDepndencyGraph deps full) d))"

definition travInv :: "(string \<Rightarrow> string list) \<Rightarrow> string list \<Rightarrow> string list \<Rightarrow> travel \<Rightarrow> string list \<Rightarrow> bool" where
  "travInv deps full targets t ps \<longleftrightarrow>
     distinct (ps @ t_stack t) \<and> ordered deps full ps \<and>
     (\<forall>n. n \<in> set (ps @ t_stack t) \<longleftrightarrow> n \<in> set full \<and> set (avail deps full n) \<subseteq> set ps) \<and>
     (\<forall>n\<in>set full. shape t n = Some (succs deps full n, deps n) \<and>
        cnt t n = int (length (filter (\<lambda>d. d \<notin> set ps) (avail deps full n)))) \<and>
     t_calls t = map (\<lambda>n. (n, deps n)) (filter (affected deps full targets) ps) \<and>
     t_targets t = {n. n \<notin> set ps \<and> (n \<in> set targets \<or> (\<exists>d\<in>set ps. affected deps full targets d \<and>
        n \<in> set full \<and> d \<in> set (avail deps full n)))}"

lemma ordered_snoc: "ordered deps full ps \<Longrightarrow> set (avail deps full n) \<subseteq> set ps \<Longrightarrow> ordered deps full (ps @ [n])"
  unfolding ordered_def by (metis append_eq_append_conv2 append_eq_Cons_conv append.right_neutral butlast_snoc
      butlast_append list.distinct(1) butlast.simps(2) last_snoc last_appendR last.simps)

lemma affected_iff:
  assumes "n \<in> set full"
  shows "affected deps full targets n \<longleftrightarrow> n \<in> set targets \<or> (\<exists>d\<in>set (avail deps full n). affected deps full targets d)"
  using assms by (auto elim: affected.cases intro: affected.intros)

lemma length_filter_count:
  "P x \<Longrightarrow> int (length (filter (\<lambda>d. d \<noteq> x \<and> P d) xs)) = int (length (filter P xs)) - int (count_list xs x)"
  by (induction xs) auto

lemma succs_count:
  assumes "distinct full" "d \<in> set full" "d \<notin> set (avail deps full d)" "n \<in> set full"
  shows "count_list (succs deps full d) n = count_list (avail deps full n) d"
proof -
  note b = makeDepndencyGraph_built [OF assms(1), of deps, THEN conjunct1]
  obtain v where v: "fst (makeDepndencyGraph deps full) d = Some v" using b assms(2) unfolding built_def by blast
  then have "count_list (v_successor v) n = count_list (avail deps full n) d"
    using b assms(3,4) unfolding built_def by blast
  then show ?thesis by (simp add: succs_def v)
qed

lemma succs_full:
  assumes "distinct full" "d \<in> set full" "n \<in> set (succs deps full d)"
  shows "n \<in> set full"
proof -
  note b = makeDepndencyGraph_built [OF assms(1), of deps, THEN conjunct1]
  obtain v where "fst (makeDepndencyGraph deps full) d = Some v" using b assms(2) unfolding built_def by blast
  then show ?thesis using b assms(3) unfolding succs_def built_def by auto
qed

lemma travInv_start:
  assumes "distinct full"
  shows "travInv deps full targets
    \<lparr>t_graph = fst (makeDepndencyGraph deps full), t_stack = snd (makeDepndencyGraph deps full),
     t_targets = set targets, t_calls = []\<rparr> []"
proof -
  note b = makeDepndencyGraph_built [OF assms, of deps]
  have "\<exists>v. fst (makeDepndencyGraph deps full) n = Some v \<and> v_originalDeps v = deps n \<and>
      v_entryCount v = int (length (avail deps full n))" if "n \<in> set full" for n
    using b that unfolding built_def by blast
  then show ?thesis
    using b assms by (fastforce simp: travInv_def ordered_def shape_def cnt_def succs_def)
qed

text \<open>One turn of the loop moves the top of the stack to the components that are done.\<close>

lemma visit_travInv:
  assumes F: "distinct full" and inv: "travInv deps full targets t ps" and ne: "t_stack t \<noteq> []"
  shows "\<exists>t'. visit t = Some t' \<and> travInv deps full targets t' (ps @ [last (t_stack t)])"
proof -
  let ?c = "last (t_stack t)" and ?rest = "butlast (t_stack t)"
  let ?av = "avail deps full"
  have st: "t_stack t = ?rest @ [?c]" using ne by simp
  note v = inv [unfolded travInv_def]
  have dist: "distinct (ps @ ?rest @ [?c])" using v st by metis
  then have c: "?c \<notin> set ps" "?c \<notin> set ?rest" by auto
  have "?c \<in> set (ps @ t_stack t)" using ne by simp
  then have cF: "?c \<in> set full" "set (?av ?c) \<subseteq> set ps" using v by blast+
  then have nself: "?c \<notin> set (?av ?c)" using c(1) by auto
  define b where "b \<longleftrightarrow> ?c \<in> t_targets t"
  have b: "b \<longleftrightarrow> affected deps full targets ?c"
    using v c cF affected_iff [of ?c full deps targets, OF cF(1)] unfolding b_def by auto
  define t0 where "t0 = (if b then t\<lparr>t_stack := ?rest, t_calls := t_calls t @ [(?c, deps ?c)], t_targets := t_targets t - {?c}\<rparr>
      else t\<lparr>t_stack := ?rest\<rparr>)"
  have sh: "shape t ?c = Some (succs deps full ?c, deps ?c)" using v cF by blast
  then obtain w where w: "t_graph t ?c = Some w" "v_successor w = succs deps full ?c" "v_originalDeps w = deps ?c"
    by (auto simp: shape_def)
  have vis: "visit t = each_edge (edge b) (succs deps full ?c) t0"
    by (simp add: visit_edge Let_def w b_def t0_def)
  have t0: "shape t0 = shape t" "cnt t0 = cnt t" "t_stack t0 = ?rest" by (auto simp: t0_def shape_def cnt_def)
  have "\<forall>s\<in>set (succs deps full ?c). t_graph t0 s \<noteq> None"
  proof
    fix s assume "s \<in> set (succs deps full ?c)"
    then have "s \<in> set full" using succs_full F cF by blast
    then have "shape t0 s \<noteq> None" using v t0(1) by auto
    then show "t_graph t0 s \<noteq> None" by simp
  qed
  from each_edge_spec [OF this, of b] obtain t' new where t': "visit t = Some t'" "t_stack t' = ?rest @ new" "distinct new"
      "\<forall>n. n \<in> set new \<longleftrightarrow> 0 < cnt t n \<and> cnt t n \<le> int (count_list (succs deps full ?c) n)"
      "t_calls t' = t_calls t0" "t_targets t' = t_targets t0 \<union> (if b then set (succs deps full ?c) else {})"
      "shape t' = shape t" "\<forall>n. cnt t' n = cnt t n - int (count_list (succs deps full ?c) n)"
    unfolding vis t0 by blast
  have cnt': "cnt t' n = int (length (filter (\<lambda>d. d \<notin> set (ps @ [?c])) (?av n)))" if "n \<in> set full" for n
  proof -
    have e: "filter (\<lambda>d. d \<notin> set (ps @ [?c])) (?av n) = filter (\<lambda>d. d \<noteq> ?c \<and> d \<notin> set ps) (?av n)"
      by (rule filter_cong) auto
    have "count_list (succs deps full ?c) n = count_list (?av n) ?c"
      using succs_count [of full ?c deps n, OF F cF(1) nself that] .
    then show ?thesis
      unfolding e using t'(8) v that length_filter_count [of "\<lambda>d. d \<notin> set ps" ?c "?av n"] c(1) by simp
  qed
  have newF: "n \<in> set new \<longleftrightarrow> n \<in> set full \<and> \<not> set (?av n) \<subseteq> set ps \<and> set (?av n) \<subseteq> set (ps @ [?c])" for n
  proof (cases "n \<in> set full")
    case True
    have "cnt t n > 0 \<longleftrightarrow> \<not> set (?av n) \<subseteq> set ps"
      using v True by (auto simp: filter_empty_conv)
    moreover have "cnt t n \<le> int (count_list (succs deps full ?c) n) \<longleftrightarrow> cnt t' n \<le> 0" using t'(8) by simp
    moreover have "cnt t' n \<le> 0 \<longleftrightarrow> set (?av n) \<subseteq> set (ps @ [?c])"
      unfolding cnt' [OF True] by (auto simp: filter_empty_conv)
    ultimately show ?thesis using t'(4) True by blast
  next
    case False
    then have "count_list (succs deps full ?c) n = 0"
      using succs_full [of full ?c _ deps, OF F cF(1)] by (auto simp: count_list_0_iff)
    then show ?thesis using t'(4) False by simp
  qed
  have succ_iff: "n \<in> set (succs deps full ?c) \<longleftrightarrow> n \<in> set full \<and> ?c \<in> set (?av n)" for n
    using succs_full [of full ?c _ deps, OF F cF(1)] succs_count [of full ?c deps, OF F cF(1) nself] count_list_0_iff
    by metis
  have "travInv deps full targets t' (ps @ [?c])"
    unfolding travInv_def
  proof (intro conjI)
    have old: "n \<in> set (ps @ ?rest @ [?c]) \<longleftrightarrow> n \<in> set full \<and> set (?av n) \<subseteq> set ps" for n using v st by metis
    then have "set new \<inter> set (ps @ ?rest @ [?c]) = {}" using newF by blast
    then show "distinct ((ps @ [?c]) @ t_stack t')" using dist t'(2,3) by auto
    show "ordered deps full (ps @ [?c])" using v cF(2) by (intro ordered_snoc) blast+
    show "\<forall>n. n \<in> set ((ps @ [?c]) @ t_stack t') \<longleftrightarrow> n \<in> set full \<and> set (?av n) \<subseteq> set (ps @ [?c])"
    proof
      fix n
      have "n \<in> set ((ps @ [?c]) @ t_stack t') \<longleftrightarrow> n \<in> set (ps @ ?rest @ [?c]) \<or> n \<in> set new" using t'(2) by auto
      then show "n \<in> set ((ps @ [?c]) @ t_stack t') \<longleftrightarrow> n \<in> set full \<and> set (?av n) \<subseteq> set (ps @ [?c])"
        unfolding old newF by auto
    qed
    show "\<forall>n\<in>set full. shape t' n = Some (succs deps full n, deps n) \<and>
        cnt t' n = int (length (filter (\<lambda>d. d \<notin> set (ps @ [?c])) (?av n)))"
      using v t'(7) cnt' by auto
    show "t_calls t' = map (\<lambda>n. (n, deps n)) (filter (affected deps full targets) (ps @ [?c]))"
      using v t'(5) b by (auto simp: t0_def)
    show "t_targets t' = {n. n \<notin> set (ps @ [?c]) \<and> (n \<in> set targets \<or> (\<exists>d\<in>set (ps @ [?c]). affected deps full targets d \<and>
        n \<in> set full \<and> d \<in> set (?av n)))}"
    proof -
      have T: "t_targets t = {n. n \<notin> set ps \<and> (n \<in> set targets \<or> (\<exists>d\<in>set ps. affected deps full targets d \<and>
        n \<in> set full \<and> d \<in> set (?av n)))}" using v by blast
      have dun: "n \<in> set full \<Longrightarrow> ?c \<in> set (?av n) \<Longrightarrow> n \<notin> set (ps @ [?c])" for n
        using v c(1) nself by fastforce
      show ?thesis
      proof (cases b)
        case True
        then have "t_targets t' = (t_targets t - {?c}) \<union> set (succs deps full ?c)" using t'(6) by (simp add: t0_def)
        then show ?thesis using True b dun succ_iff unfolding T by auto
      next
        case False
        then have "t_targets t' = t_targets t" "?c \<notin> t_targets t" using t'(6) by (simp_all add: t0_def b_def)
        then show ?thesis using False b unfolding T by auto
      qed
    qed
  qed
  then show ?thesis using t'(1) by blast
qed

lemma travelLoop_returns:
  assumes F: "distinct full" and "travInv deps full targets t ps"
  shows "\<exists>t' ps'. travelLoop t = Some t' \<and> travInv deps full targets t' ps' \<and> t_stack t' = []"
  using assms(2)
proof (induction "length full - length ps" arbitrary: t ps rule: less_induct)
  case less
  show ?case
  proof (cases "t_stack t = []")
    case True
    then show ?thesis using less.prems by (subst travelLoop.simps) auto
  next
    case False
    from visit_travInv [OF F less.prems False] obtain t1 where
      1: "visit t = Some t1" "travInv deps full targets t1 (ps @ [last (t_stack t)])" by blast
    have d: "distinct ((ps @ [last (t_stack t)]) @ t_stack t1)"
      and m: "\<And>n. n \<in> set ((ps @ [last (t_stack t)]) @ t_stack t1) \<Longrightarrow> n \<in> set full"
      using 1(2) unfolding travInv_def by blast+
    have "distinct (ps @ [last (t_stack t)])" using d by simp
    moreover have "set (ps @ [last (t_stack t)]) \<subseteq> set full" using m by auto
    ultimately have "length (ps @ [last (t_stack t)]) \<le> length full"
      using F by (metis card_mono distinct_card List.finite_set)
    then have "length full - length (ps @ [last (t_stack t)]) < length full - length ps" by simp
    from less.hyps [OF this 1(2)] show ?thesis
      using False 1(1) by (subst travelLoop.simps) simp
  qed
qed

text \<open>The components whose dependencies, and theirs in turn, can be met: those that are not on or behind a circle.\<close>

inductive resolvable :: "(string \<Rightarrow> string list) \<Rightarrow> string list \<Rightarrow> string \<Rightarrow> bool"
  for deps full where
  "n \<in> set full \<Longrightarrow> \<forall>d\<in>set (avail deps full n). resolvable deps full d \<Longrightarrow> resolvable deps full n"

lemma ordered_resolvable:
  assumes "ordered deps full ps" "set ps \<subseteq> set full" "n \<in> set ps"
  shows "resolvable deps full n"
  using assms
proof (induction ps arbitrary: n rule: rev_induct)
  case (snoc p ps)
  have o: "ordered deps full ps" using snoc.prems(1) unfolding ordered_def by (metis append.assoc append_Cons)
  have "set (avail deps full p) \<subseteq> set ps" using snoc.prems(1) unfolding ordered_def by blast
  then have "resolvable deps full p" using snoc o by (intro resolvable.intros) auto
  then show ?case using snoc o by auto
qed simp

lemma affected_escape:
  assumes "affected deps full targets n" "n \<notin> P"
  shows "\<exists>m. m \<notin> P \<and> (m \<in> set targets \<or> (\<exists>d\<in>P. affected deps full targets d \<and> m \<in> set full \<and> d \<in> set (avail deps full m)))"
  using assms by induction blast+

lemma filter_split: "filter P xs = us @ n # vs \<Longrightarrow> \<exists>us' vs'. xs = us' @ n # vs' \<and> filter P us' = us"
proof (induction xs arbitrary: us)
  case (Cons x xs)
  show ?case
  proof (cases "P x \<and> us = []")
    case True
    then show ?thesis using Cons.prems by (intro exI [of _ "[]"] exI [of _ xs]) auto
  next
    case False
    then have "filter P xs = (if P x then tl us else us) @ n # vs"
      using Cons.prems by (cases us) (auto split: if_splits)
    from Cons.IH [OF this] obtain us' vs' where "xs = us' @ n # vs'" "filter P us' = (if P x then tl us else us)" by blast
    moreover have "P x \<Longrightarrow> us = x # tl us" using Cons.prems False by (cases us) auto
    ultimately show ?thesis by (intro exI [of _ "x # us'"] exI [of _ vs']) (auto split: if_splits)
  qed
qed simp

lemma travel_result:
  assumes "distinct full" "targets \<noteq> []"
  shows "\<exists>ns raised. topologicalTravel deps targets full = Some (map (\<lambda>n. (n, deps n)) ns, raised)
    \<and> distinct ns \<and> set ns = {n. affected deps full targets n \<and> resolvable deps full n}
    \<and> (\<forall>us n vs. ns = us @ n # vs \<longrightarrow> (\<forall>d\<in>set (deps n). d \<in> set ns \<longrightarrow> d \<in> set us))
    \<and> (raised \<longleftrightarrow> (\<exists>n. affected deps full targets n \<and> \<not> resolvable deps full n))"
proof -
  obtain g es where g: "makeDepndencyGraph deps full = (g, es)" by fastforce
  obtain t ps where t: "travelLoop \<lparr>t_graph = g, t_stack = es, t_targets = set targets, t_calls = []\<rparr> = Some t"
      "travInv deps full targets t ps" "t_stack t = []"
    using travelLoop_returns [OF assms(1) travInv_start [OF assms(1), of deps targets]] g by auto
  let ?ns = "filter (affected deps full targets) ps"
  have inv: "distinct ps" "ordered deps full ps" and
    ps: "n \<in> set ps \<longleftrightarrow> n \<in> set full \<and> set (avail deps full n) \<subseteq> set ps" for n
    using t(2,3) unfolding travInv_def by auto
  have res: "n \<in> set ps \<longleftrightarrow> resolvable deps full n" for n
  proof
    show "n \<in> set ps \<Longrightarrow> resolvable deps full n"
      using ordered_resolvable [OF inv(2)] ps by blast
    show "resolvable deps full n \<Longrightarrow> n \<in> set ps"
    proof (induction rule: resolvable.induct)
      case (1 n)
      then show ?case by (subst ps) auto
    qed
  qed
  have run: "topologicalTravel deps targets full = Some (map (\<lambda>n. (n, deps n)) ?ns, t_targets t \<noteq> {})"
    using t assms(2) g by (simp add: topologicalTravel_def travInv_def)
  have "d \<in> set us" if s: "?ns = us @ n # vs" and d: "d \<in> set (deps n)" "d \<in> set ?ns" for us n vs d
  proof -
    obtain us' vs' where f: "ps = us' @ n # vs'" "filter (affected deps full targets) us' = us"
      using filter_split [OF s] by blast
    have "d \<in> set (avail deps full n)" using d ps by (auto simp: getAvailableDependencies_def)
    then have "d \<in> set us'" using inv(2) f(1) unfolding ordered_def by blast
    then show ?thesis using d(2) f(2) by auto
  qed
  moreover have "t_targets t \<noteq> {} \<longleftrightarrow> (\<exists>n. affected deps full targets n \<and> \<not> resolvable deps full n)"
  proof -
    have T: "t_targets t = {n. n \<notin> set ps \<and> (n \<in> set targets \<or> (\<exists>d\<in>set ps. affected deps full targets d \<and>
        n \<in> set full \<and> d \<in> set (avail deps full n)))}"
      using t(2) unfolding travInv_def by blast
    show ?thesis
    proof
      assume "t_targets t \<noteq> {}"
      then obtain n where "n \<in> t_targets t" by blast
      then have "n \<notin> set ps" "affected deps full targets n" unfolding T by (auto intro: affected.intros)
      then show "\<exists>n. affected deps full targets n \<and> \<not> resolvable deps full n" using res by blast
    next
      assume "\<exists>n. affected deps full targets n \<and> \<not> resolvable deps full n"
      then obtain n where "affected deps full targets n" "n \<notin> set ps" using res by blast
      from affected_escape [OF this] show "t_targets t \<noteq> {}" unfolding T by blast
    qed
  qed
  moreover have "distinct ?ns" "set ?ns = {n. affected deps full targets n \<and> resolvable deps full n}"
    using inv(1) res by auto
  ultimately show ?thesis using run by blast
qed

section \<open>Properties\<close>

text \<open>
  C11. The traversal returns for any dependencies between distinct components. It calls back each
  component that is a target or depends, directly or through others, on one, except those
  that depend on a circle; it does so once, after the components it depends on, and
  with the dependencies it was declared with. The error is thrown exactly when
  a component that should have been called back was not.
\<close>

theorem topologicalTravel_order:
  assumes "distinct full" "targets \<noteq> []"
  shows "\<exists>ns raised. topologicalTravel deps targets full = Some (map (\<lambda>n. (n, deps n)) ns, raised)
    \<and> distinct ns \<and> set ns = {n. affected deps full targets n \<and> resolvable deps full n}
    \<and> (\<forall>us n vs. ns = us @ n # vs \<longrightarrow> (\<forall>d\<in>set (deps n). d \<in> set ns \<longrightarrow> d \<in> set us))
    \<and> (raised \<longleftrightarrow> (\<exists>n. affected deps full targets n \<and> \<not> resolvable deps full n))"
  using travel_result [OF assms] .

definition legend_deps :: "string \<Rightarrow> string list" where
  "legend_deps n = (if n = ''legend'' then [''series''] else if n = ''series'' then [''axis'', ''grid''] else [])"

lemma topologicalTravel_order_witness:
  "\<exists>ns raised. topologicalTravel legend_deps [''series''] [''legend'', ''series'', ''axis''] =
      Some (map (\<lambda>n. (n, legend_deps n)) ns, raised) \<and> distinct ns
    \<and> set ns = {n. affected legend_deps [''legend'', ''series'', ''axis''] [''series''] n
        \<and> resolvable legend_deps [''legend'', ''series'', ''axis''] n}"
  using topologicalTravel_order [of "[''legend'', ''series'', ''axis'']" "[''series'']" legend_deps] by auto

text \<open>The relation from a dependency in the list to the component that names it.\<close>

definition dep_rel :: "(string \<Rightarrow> string list) \<Rightarrow> string list \<Rightarrow> (string \<times> string) set" where
  "dep_rel deps full = {(d, n). n \<in> set full \<and> d \<in> set (avail deps full n)}"

lemma acyclic_resolvable:
  assumes "acyclic (dep_rel deps full)" "n \<in> set full"
  shows "resolvable deps full n"
proof -
  have "dep_rel deps full \<subseteq> set full \<times> set full" by (auto simp: dep_rel_def getAvailableDependencies_def)
  then have "finite (dep_rel deps full)" by (rule finite_subset) simp
  then have "wf (dep_rel deps full)" using assms(1) by (rule finite_acyclic_wf)
  then show ?thesis using assms(2)
  proof (induction n rule: wf_induct_rule)
    case (less n)
    then show ?case by (intro resolvable.intros) (auto simp: dep_rel_def getAvailableDependencies_def)
  qed
qed

lemma resolvable_no_circle: "resolvable deps full n \<Longrightarrow> (n, n) \<notin> (dep_rel deps full)\<^sup>+"
proof (induction rule: resolvable.induct)
  case (1 n)
  show ?case
  proof
    assume "(n, n) \<in> (dep_rel deps full)\<^sup>+"
    then obtain d where d: "(n, d) \<in> (dep_rel deps full)\<^sup>*" "(d, n) \<in> dep_rel deps full" by (meson tranclD2)
    then have "(d, d) \<in> (dep_rel deps full)\<^sup>+" by (meson rtrancl_into_trancl2)
    moreover have "d \<in> set (avail deps full n)" using d(2) by (simp add: dep_rel_def)
    ultimately show False using 1 by blast
  qed
qed

lemma affected_full: "affected deps full targets n \<Longrightarrow> set targets \<subseteq> set full \<Longrightarrow> n \<in> set full"
  by (induction rule: affected.induct) auto

text \<open>
  C12. Without circles, and with targets that are in the list, no error is thrown and every target and
  dependent of one is called back.
\<close>

theorem topologicalTravel_acyclic:
  assumes "distinct full" "targets \<noteq> []" "set targets \<subseteq> set full" "acyclic (dep_rel deps full)"
  shows "\<exists>ns. topologicalTravel deps targets full = Some (map (\<lambda>n. (n, deps n)) ns, False)
    \<and> set ns = {n. affected deps full targets n}"
proof -
  have all: "affected deps full targets n \<Longrightarrow> resolvable deps full n" for n
    using affected_full acyclic_resolvable assms(3,4) by blast
  obtain ns raised where 1: "topologicalTravel deps targets full = Some (map (\<lambda>n. (n, deps n)) ns, raised)"
      "set ns = {n. affected deps full targets n \<and> resolvable deps full n}"
      "raised \<longleftrightarrow> (\<exists>n. affected deps full targets n \<and> \<not> resolvable deps full n)"
    using travel_result [OF assms(1,2), of deps] by blast
  have "\<not> raised" using 1(3) all by blast
  moreover have "set ns = {n. affected deps full targets n}" using 1(2) all by auto
  ultimately show ?thesis using 1(1) by auto
qed

lemma topologicalTravel_acyclic_witness:
  "\<exists>ns. topologicalTravel (\<lambda>n. []) [''a''] [''a'', ''b''] = Some (map (\<lambda>n. (n, [])) ns, False) \<and> ''a'' \<in> set ns"
proof -
  have "acyclic (dep_rel (\<lambda>n. []) [''a'', ''b''])"
    by (simp add: dep_rel_def getAvailableDependencies_def acyclic_def)
  from topologicalTravel_acyclic [OF _ _ _ this, of "[''a'']"] obtain ns where
    "topologicalTravel (\<lambda>n. []) [''a''] [''a'', ''b''] = Some (map (\<lambda>n. (n, [])) ns, False)"
    "set ns = {n. affected (\<lambda>n. []) [''a'', ''b''] [''a''] n}" by auto
  moreover have "affected (\<lambda>n. []) [''a'', ''b''] [''a''] ''a''" by (rule affected.target) simp
  then have "''a'' \<in> set ns" unfolding calculation(2) by simp
  ultimately show ?thesis by blast
qed

text \<open>C16. If a target, or a component that depends on one, depends on itself through others, the error is thrown.\<close>

theorem topologicalTravel_circle:
  assumes "distinct full" "affected deps full targets n" "(n, n) \<in> (dep_rel deps full)\<^sup>+"
  shows "\<exists>calls. topologicalTravel deps targets full = Some (calls, True)"
proof -
  have "targets \<noteq> []"
  proof
    assume "targets = []"
    with assms(2) show False by (induction rule: affected.induct) auto
  qed
  then obtain ns raised where 1: "topologicalTravel deps targets full = Some (map (\<lambda>n. (n, deps n)) ns, raised)"
      "raised \<longleftrightarrow> (\<exists>n. affected deps full targets n \<and> \<not> resolvable deps full n)"
    using travel_result [OF assms(1), of targets deps] by blast
  have "raised" using 1(2) assms(2,3) resolvable_no_circle by blast
  then show ?thesis using 1(1) by auto
qed

lemma topologicalTravel_circle_witness:
  "\<exists>calls. topologicalTravel (\<lambda>n. if n = ''a'' then [''b''] else [''a'']) [''a''] [''a'', ''b''] = Some (calls, True)"
proof -
  let ?deps = "\<lambda>n. if n = ''a'' then [''b''] else [''a'' :: string]" and ?full = "[''a'', ''b'']"
  have "(''a'', ''b'') \<in> dep_rel ?deps ?full" "(''b'', ''a'') \<in> dep_rel ?deps ?full"
    by (simp_all add: dep_rel_def getAvailableDependencies_def)
  then have "(''a'', ''a'') \<in> (dep_rel ?deps ?full)\<^sup>+" by (meson trancl.simps)
  from topologicalTravel_circle [OF _ _ this, of "[''a'']"] show ?thesis by (simp add: affected.target)
qed

end
