(* ===== verification/Scene.thy ===== *)
theory Scene
  imports Timsort_Sort "HOL-Library.Product_Lexorder"
begin

text \<open>
  The scene: \<open>zrender/graphic/Group\<close> (module 30) and \<open>zrender/Storage\<close> (module 85). Elements live in a store and
  are named by their addresses; there is one storage, so the field \<open>__storage\<close> of a group is a
  flag. Calls into the classes of the elements (transforms, the redraw request) are not
  modelled, except that the elements whose \<open>update\<close> runs are recorded. The three depths that order
  the drawing are integers. A walk over the scene gives \<open>None\<close> when it does not end,
  which it does on a cyclic scene.
\<close>

section \<open>State\<close>

record node =
  n_id :: string
  n_name :: string
  n_group :: bool
  n_parent :: "nat option"
  n_children :: "nat list"
  n_storage :: bool
  n_dirty :: bool
  n_ignore :: bool
  n_zlevel :: int
  n_z :: int
  n_z2 :: int
  n_clipPath :: "nat option"
  n_clipPaths :: "nat list option"

record scene =
  s_nodes :: "nat \<Rightarrow> node"
  s_elements :: "string \<rightharpoonup> nat"
  s_roots :: "nat list"
  s_displayList :: "nat list"
  s_displayListLen :: int
  s_updated :: "nat list"

abbreviation node_of :: "scene \<Rightarrow> nat \<Rightarrow> node" where
  "node_of s r \<equiv> s_nodes s r"

definition upd_node :: "nat \<Rightarrow> (node \<Rightarrow> node) \<Rightarrow> scene \<Rightarrow> scene" where
  "upd_node r f s = s\<lparr>s_nodes := (s_nodes s)(r := f (s_nodes s r))\<rparr>"

definition newStorage :: "(nat \<Rightarrow> node) \<Rightarrow> scene" where
  "newStorage nodes = \<lparr>s_nodes = nodes, s_elements = Map.empty, s_roots = [], s_displayList = [],
     s_displayListLen = 0, s_updated = []\<rparr>"

text \<open>What the constructor of a group sets over its options.\<close>

definition newGroup :: "nat \<Rightarrow> node \<Rightarrow> scene \<Rightarrow> scene" where
  "newGroup r opts s = s\<lparr>s_nodes := (s_nodes s)(r := opts\<lparr>n_group := True, n_parent := None, n_children := [],
     n_storage := False, n_dirty := True\<rparr>)\<rparr>"

section \<open>The map of elements\<close>

definition addToMap :: "nat \<Rightarrow> scene \<Rightarrow> scene" where
  "addToMap el s =
     (let s = (if n_group (node_of s el) then upd_node el (\<lambda>n. n\<lparr>n_storage := True\<rparr>) s else s);
          s = upd_node el (\<lambda>n. n\<lparr>n_dirty := True\<rparr>) s in
      s\<lparr>s_elements := (s_elements s)(n_id (node_of s el) \<mapsto> el)\<rparr>)"

definition delFromMap :: "string \<Rightarrow> scene \<Rightarrow> scene" where
  "delFromMap elId s =
     (case s_elements s elId of
        None \<Rightarrow> s
      | Some el \<Rightarrow>
          let s = s\<lparr>s_elements := (s_elements s)(elId := None)\<rparr> in
          if n_group (node_of s el) then upd_node el (\<lambda>n. n\<lparr>n_storage := False\<rparr>) s else s)"

definition storage_get :: "string \<Rightarrow> scene \<Rightarrow> nat option" where
  "storage_get elId s = s_elements s elId"

text \<open>The two recursive walks, over what is left of a list of children.\<close>

partial_function (option) addChildrenToStorage :: "nat list \<Rightarrow> scene \<Rightarrow> scene option" where
  "addChildrenToStorage children s =
     (case children of
        [] \<Rightarrow> Some s
      | child # rest \<Rightarrow> do {
          s \<leftarrow> Some (addToMap child s);
          s \<leftarrow> (if n_group (node_of s child) then addChildrenToStorage (n_children (node_of s child)) s else Some s);
          addChildrenToStorage rest s })"

partial_function (option) delChildrenFromStorage :: "nat list \<Rightarrow> scene \<Rightarrow> scene option" where
  "delChildrenFromStorage children s =
     (case children of
        [] \<Rightarrow> Some s
      | child # rest \<Rightarrow> do {
          s \<leftarrow> Some (delFromMap (n_id (node_of s child)) s);
          s \<leftarrow> (if n_group (node_of s child) then delChildrenFromStorage (n_children (node_of s child)) s else Some s);
          delChildrenFromStorage rest s })"

section \<open>Groups\<close>

definition childAt :: "nat \<Rightarrow> nat \<Rightarrow> scene \<Rightarrow> nat option" where
  "childAt g idx s = (let cs = n_children (node_of s g) in if idx < length cs then Some (cs ! idx) else None)"

definition childOfName :: "nat \<Rightarrow> string \<Rightarrow> scene \<Rightarrow> nat option" where
  "childOfName g name s = List.find (\<lambda>c. n_name (node_of s c) = name) (n_children (node_of s g))"

definition childCount :: "nat \<Rightarrow> scene \<Rightarrow> nat" where
  "childCount g s = length (n_children (node_of s g))"

definition group_remove :: "nat \<Rightarrow> nat \<Rightarrow> scene \<Rightarrow> scene option" where
  "group_remove g child s =
     (if child \<notin> set (n_children (node_of s g)) then Some s
      else
        let storage = n_storage (node_of s g);
            s = upd_node g (\<lambda>n. n\<lparr>n_children := remove1 child (n_children n)\<rparr>) s;
            s = upd_node child (\<lambda>n. n\<lparr>n_parent := None\<rparr>) s in
        if storage then
          let s = delFromMap (n_id (node_of s child)) s in
          if n_group (node_of s child) then delChildrenFromStorage (n_children (node_of s child)) s else Some s
        else Some s)"

definition doAdd :: "nat \<Rightarrow> nat \<Rightarrow> scene \<Rightarrow> scene option" where
  "doAdd g child s =
     do { s \<leftarrow> (case n_parent (node_of s child) of None \<Rightarrow> Some s | Some p \<Rightarrow> group_remove p child s);
          s \<leftarrow> Some (upd_node child (\<lambda>n. n\<lparr>n_parent := Some g\<rparr>) s);
          if n_storage (node_of s g) \<and> \<not> n_storage (node_of s child) then
            let s = addToMap child s in
            if n_group (node_of s child) then addChildrenToStorage (n_children (node_of s child)) s else Some s
          else Some s }"

definition group_add :: "nat \<Rightarrow> nat \<Rightarrow> scene \<Rightarrow> scene option" where
  "group_add g child s =
     (if child \<noteq> g \<and> n_parent (node_of s child) \<noteq> Some g then
        doAdd g child (upd_node g (\<lambda>n. n\<lparr>n_children := n_children n @ [child]\<rparr>) s)
      else Some s)"

definition insert_before :: "nat \<Rightarrow> nat \<Rightarrow> nat list \<Rightarrow> nat list" where
  "insert_before x y xs = takeWhile (\<lambda>z. z \<noteq> y) xs @ x # dropWhile (\<lambda>z. z \<noteq> y) xs"

definition addBefore :: "nat \<Rightarrow> nat \<Rightarrow> nat \<Rightarrow> scene \<Rightarrow> scene option" where
  "addBefore g child nextSibling s =
     (if child \<noteq> g \<and> n_parent (node_of s child) \<noteq> Some g \<and> n_parent (node_of s nextSibling) = Some g \<and>
         nextSibling \<in> set (n_children (node_of s g)) then
        doAdd g child (upd_node g (\<lambda>n. n\<lparr>n_children := insert_before child nextSibling (n_children n)\<rparr>) s)
      else Some s)"

definition removeAllStep :: "bool \<Rightarrow> scene option \<Rightarrow> nat \<Rightarrow> scene option" where
  "removeAllStep storage so child =
     do { s \<leftarrow> so;
          s \<leftarrow> (if storage then
                 let s = delFromMap (n_id (node_of s child)) s in
                 if n_group (node_of s child) then delChildrenFromStorage (n_children (node_of s child)) s else Some s
               else Some s);
          Some (upd_node child (\<lambda>n. n\<lparr>n_parent := None\<rparr>) s) }"

definition removeAll :: "nat \<Rightarrow> scene \<Rightarrow> scene option" where
  "removeAll g s =
     do { s \<leftarrow> foldl (removeAllStep (n_storage (node_of s g))) (Some s) (n_children (node_of s g));
          Some (upd_node g (\<lambda>n. n\<lparr>n_children := []\<rparr>) s) }"

section \<open>Roots\<close>

definition addRoot :: "nat \<Rightarrow> scene \<Rightarrow> scene option" where
  "addRoot el s =
     (if s_elements s (n_id (node_of s el)) \<noteq> None then Some s
      else do {
        s \<leftarrow> (if n_group (node_of s el) then addChildrenToStorage (n_children (node_of s el)) s else Some s);
        s \<leftarrow> Some (addToMap el s);
        Some (s\<lparr>s_roots := s_roots s @ [el]\<rparr>) })"

definition delRootEl :: "nat \<Rightarrow> scene \<Rightarrow> scene option" where
  "delRootEl el s =
     (if el \<in> set (s_roots s) then
        let s = delFromMap (n_id (node_of s el)) s;
            s = s\<lparr>s_roots := remove1 el (s_roots s)\<rparr> in
        if n_group (node_of s el) then delChildrenFromStorage (n_children (node_of s el)) s else Some s
      else Some s)"

datatype root_arg = By_Id string | By_El nat

definition delRoot :: "root_arg \<Rightarrow> scene \<Rightarrow> scene option" where
  "delRoot elId s =
     (case elId of
        By_El el \<Rightarrow> delRootEl el s
      | By_Id i \<Rightarrow> (case s_elements s i of None \<Rightarrow> Some s | Some el \<Rightarrow> delRootEl el s))"

fun delRoots :: "root_arg list \<Rightarrow> scene \<Rightarrow> scene option" where
  "delRoots [] s = Some s"
| "delRoots (e # es) s = do { s \<leftarrow> delRoot e s; delRoots es s }"

definition clearRoots :: "scene \<Rightarrow> scene option" where
  "clearRoots s =
     do { s \<leftarrow> foldl (\<lambda>so root. do { s \<leftarrow> so;
              if n_group (node_of s root) then delChildrenFromStorage (n_children (node_of s root)) s else Some s })
            (Some s) (s_roots s);
          Some (s\<lparr>s_elements := Map.empty, s_roots := [], s_displayList := [], s_displayListLen := 0\<rparr>) }"

section \<open>The display list\<close>

definition shapeCompareFunc :: "scene \<Rightarrow> nat \<Rightarrow> nat \<Rightarrow> int" where
  "shapeCompareFunc s x y =
     (let a = node_of s x; b = node_of s y in
      if n_zlevel a = n_zlevel b then
        if n_z a = n_z b then n_z2 a - n_z2 b else n_z a - n_z b
      else n_zlevel a - n_zlevel b)"

text \<open>
  One element after the other of a list of children of \<open>parent\<close> (or of the roots): a dirty parent first
  makes the child dirty, then the child is updated, its clip path pushed, and the child is
  entered or appended to the display list.
\<close>

definition enter :: "nat \<Rightarrow> nat list option \<Rightarrow> scene \<Rightarrow> nat list option \<times> scene" where
  "enter el clipPaths s =
     (let s = (if n_dirty (node_of s el) then s\<lparr>s_updated := s_updated s @ [el]\<rparr> else s) in
      case n_clipPath (node_of s el) of
        None \<Rightarrow> (clipPaths, s)
      | Some c \<Rightarrow> (Some (case clipPaths of None \<Rightarrow> [c] | Some cs \<Rightarrow> cs @ [c]),
                   upd_node c (\<lambda>n. n\<lparr>n_parent := Some el\<rparr>) s))"

partial_function (option) updateAndAddDisplayables ::
  "bool \<Rightarrow> nat option \<Rightarrow> nat list option \<Rightarrow> nat list \<Rightarrow> scene \<Rightarrow> scene option" where
  "updateAndAddDisplayables includeIgnore parent clipPaths els s =
     (case els of
        [] \<Rightarrow> Some s
      | el # rest \<Rightarrow> do {
          s \<leftarrow> Some (case parent of
                 None \<Rightarrow> s
               | Some p \<Rightarrow> if n_dirty (node_of s p) then upd_node el (\<lambda>n. n\<lparr>n_dirty := True\<rparr>) s else s);
          s \<leftarrow> (if n_ignore (node_of s el) \<and> \<not> includeIgnore then Some s
               else let (cps, s) = enter el clipPaths s in
                 if n_group (node_of s el) then do {
                   s \<leftarrow> updateAndAddDisplayables includeIgnore (Some el) cps (n_children (node_of s el)) s;
                   Some (upd_node el (\<lambda>n. n\<lparr>n_dirty := False\<rparr>) s) }
                 else do {
                   let s = upd_node el (\<lambda>n. n\<lparr>n_clipPaths := cps\<rparr>) s in do {
                   dl \<leftarrow> arr_set (s_displayList s) (s_displayListLen s) el;
                   Some (s\<lparr>s_displayList := dl, s_displayListLen := s_displayListLen s + 1\<rparr>) } });
          updateAndAddDisplayables includeIgnore parent clipPaths rest s })"

definition updateDisplayList :: "bool \<Rightarrow> bool \<Rightarrow> scene \<Rightarrow> scene option" where
  "updateDisplayList canvasSupported includeIgnore s =
     do { s \<leftarrow> updateAndAddDisplayables includeIgnore None None (s_roots s) (s\<lparr>s_displayListLen := 0\<rparr>);
          s \<leftarrow> Some (s\<lparr>s_displayList := take (nat (s_displayListLen s)) (s_displayList s)\<rparr>);
          if canvasSupported then do {
            dl \<leftarrow> sort_array (s_displayList s) (shapeCompareFunc s) None None;
            Some (s\<lparr>s_displayList := dl\<rparr>) }
          else Some s }"

definition getDisplayList :: "bool \<Rightarrow> bool \<Rightarrow> bool \<Rightarrow> scene \<Rightarrow> (nat list \<times> scene) option" where
  "getDisplayList canvasSupported update includeIgnore s =
     do { s \<leftarrow> (if update then updateDisplayList canvasSupported includeIgnore s else Some s);
          Some (s_displayList s, s) }"

declare addChildrenToStorage.simps [code] delChildrenFromStorage.simps [code] updateAndAddDisplayables.simps [code]

section \<open>Comparing shapes\<close>

definition depth_key :: "scene \<Rightarrow> nat \<Rightarrow> int \<times> int \<times> int" where
  "depth_key s r = (n_zlevel (node_of s r), n_z (node_of s r), n_z2 (node_of s r))"

lemma shapeCompareFunc_less: "shapeCompareFunc s x y < 0 \<longleftrightarrow> depth_key s x < depth_key s y"
  and shapeCompareFunc_le: "shapeCompareFunc s x y \<le> 0 \<longleftrightarrow> depth_key s x \<le> depth_key s y"
  and shapeCompareFunc_0: "shapeCompareFunc s x y = 0 \<longleftrightarrow> depth_key s x = depth_key s y"
  by (auto simp: shapeCompareFunc_def depth_key_def Let_def less_prod_def less_eq_prod_def)

lemma shapeCompareFunc_swap: "0 < shapeCompareFunc s y x \<longleftrightarrow> depth_key s x < depth_key s y"
  by (auto simp: shapeCompareFunc_def depth_key_def Let_def less_prod_def)

interpretation shape: comparator "shapeCompareFunc s" for s
  by unfold_locales (auto simp: shapeCompareFunc_less shapeCompareFunc_le shapeCompareFunc_swap)

lemma shape_sort:
  assumes "int (length xs) < 2 ^ 31"
  shows "sort_array xs (shapeCompareFunc s) None None = Some (sort_key (depth_key s) xs)"
proof -
  obtain b where b: "sort_array xs (shapeCompareFunc s) None None = Some b"
      "rearr (shapeCompareFunc s) xs 0 (int (length xs)) b" "cmp_sorted (shapeCompareFunc s) (seg b 0 (int (length xs)))"
    using shape.sort_array_spec [of xs None None 0 "int (length xs)" s] assms by (auto simp: range_of_def)
  have seg: "seg b 0 (int (length xs)) = b" using rearr_length [OF b(2)] seg_whole [of b] by simp
  have st: "stable_eq (shapeCompareFunc s) xs b" using b(2) seg by (simp add: rearr_def)
  have "sort_key (depth_key s) xs = b"
  proof (rule properties_for_sort_key)
    show "mset b = mset xs" using shape.stable_eq_mset [OF st] by simp
    show "sorted (map (depth_key s) b)"
      using b(3) unfolding seg by (simp add: cmp_sorted_def shapeCompareFunc_le sorted_map)
    fix k assume "k \<in> set b"
    have "(\<lambda>y. shapeCompareFunc s k y = 0) = (\<lambda>x. depth_key s k = depth_key s x)" by (auto simp: shapeCompareFunc_0)
    then show "filter (\<lambda>x. depth_key s k = depth_key s x) b = filter (\<lambda>x. depth_key s k = depth_key s x) xs"
      using st by (metis stable_eq_def)
  qed
  then show ?thesis using b(1) by simp
qed

end
