(* ===== verification/Scene_Display.thy ===== *)
theory Scene_Display
  imports Scene
begin

text \<open>
  What is drawn, and in which order: on a scene whose groups form trees, \<open>updateDisplayList\<close> ends and leaves
  the visible shapes in depth-first order, stably sorted by depth, each with the clip paths
  of the groups it is in.
\<close>

section \<open>The trees of a scene\<close>

datatype tree = Node nat "tree list"

fun root :: "tree \<Rightarrow> nat" where
  "root (Node r ts) = r"

fun refs :: "tree \<Rightarrow> nat list" where
  "refs (Node r ts) = r # concat (map refs ts)"

fun matches :: "scene \<Rightarrow> tree \<Rightarrow> bool" where
  "matches s (Node r ts) \<longleftrightarrow>
     (if n_group (node_of s r) then n_children (node_of s r) = map root ts \<and> (\<forall>t\<in>set ts. matches s t) else ts = [])"

definition push_clip :: "scene \<Rightarrow> nat \<Rightarrow> nat list option \<Rightarrow> nat list option" where
  "push_clip s r cps =
     (case n_clipPath (node_of s r) of None \<Rightarrow> cps | Some c \<Rightarrow> Some (case cps of None \<Rightarrow> [c] | Some cs \<Rightarrow> cs @ [c]))"

text \<open>The visible shapes with their clip paths, and the elements to update.\<close>

fun leaves :: "bool \<Rightarrow> scene \<Rightarrow> nat list option \<Rightarrow> tree \<Rightarrow> (nat \<times> nat list option) list" where
  "leaves ig s cps (Node r ts) =
     (if n_ignore (node_of s r) \<and> \<not> ig then []
      else if n_group (node_of s r) then concat (map (leaves ig s (push_clip s r cps)) ts)
      else [(r, push_clip s r cps)])"

fun updates :: "bool \<Rightarrow> scene \<Rightarrow> bool \<Rightarrow> tree \<Rightarrow> nat list" where
  "updates ig s inherited (Node r ts) =
     (let d = inherited \<or> n_dirty (node_of s r) in
      if n_ignore (node_of s r) \<and> \<not> ig then []
      else (if d then [r] else []) @ (if n_group (node_of s r) then concat (map (updates ig s d) ts) else []))"

section \<open>What the walk keeps\<close>

definition same_static :: "scene \<Rightarrow> scene \<Rightarrow> bool" where
  "same_static s s' \<longleftrightarrow> (\<forall>r. n_id (node_of s' r) = n_id (node_of s r) \<and> n_group (node_of s' r) = n_group (node_of s r)
     \<and> n_children (node_of s' r) = n_children (node_of s r) \<and> n_ignore (node_of s' r) = n_ignore (node_of s r)
     \<and> n_zlevel (node_of s' r) = n_zlevel (node_of s r) \<and> n_z (node_of s' r) = n_z (node_of s r)
     \<and> n_z2 (node_of s' r) = n_z2 (node_of s r) \<and> n_clipPath (node_of s' r) = n_clipPath (node_of s r)
     \<and> n_storage (node_of s' r) = n_storage (node_of s r))
     \<and> s_elements s' = s_elements s \<and> s_roots s' = s_roots s"

lemma same_static_refl [simp]: "same_static s s"
  by (simp add: same_static_def)

lemma same_static_trans: "same_static s s' \<Longrightarrow> same_static s' s'' \<Longrightarrow> same_static s s''"
  by (simp add: same_static_def)

lemma same_static_upd:
  assumes "\<And>n. n_id (f n) = n_id n \<and> n_group (f n) = n_group n \<and> n_children (f n) = n_children n \<and> n_ignore (f n) = n_ignore n
    \<and> n_zlevel (f n) = n_zlevel n \<and> n_z (f n) = n_z n \<and> n_z2 (f n) = n_z2 n \<and> n_clipPath (f n) = n_clipPath n
    \<and> n_storage (f n) = n_storage n"
  shows "same_static s (upd_node r f s)"
  using assms by (simp add: same_static_def upd_node_def)

lemma same_static_cong:
  assumes "same_static s s'"
  shows "matches s' t = matches s t" "leaves ig s' cps t = leaves ig s cps t" "push_clip s' r cps = push_clip s r cps"
    "depth_key s' = depth_key s"
proof -
  show pc: "push_clip s' r cps = push_clip s r cps" for r cps
    using assms by (simp add: push_clip_def same_static_def)
  show "matches s' t = matches s t"
    using assms by (induction t) (auto simp: same_static_def)
  show "leaves ig s' cps t = leaves ig s cps t"
    using assms by (induction t arbitrary: cps) (auto simp: pc same_static_def cong: map_cong)
  show "depth_key s' = depth_key s"
    using assms by (simp add: fun_eq_iff depth_key_def same_static_def)
qed

lemma updates_cong:
  "same_static s s' \<Longrightarrow> (\<And>r. r \<in> set (refs t) \<Longrightarrow> n_dirty (node_of s' r) = n_dirty (node_of s r)) \<Longrightarrow>
     updates ig s' inh t = updates ig s inh t"
proof (induction t arbitrary: inh)
  case (Node r ts)
  have "map (updates ig s' d) ts = map (updates ig s d) ts" for d
    using Node by (intro map_cong) auto
  then show ?case using Node.prems by (simp add: same_static_def Let_def del: map_eq_conv)
qed

text \<open>The state after the walk over a forest, where the display list is filled up to its counter.\<close>

definition walked ::
  "bool \<Rightarrow> nat list option \<Rightarrow> bool \<Rightarrow> tree list \<Rightarrow> scene \<Rightarrow> scene \<Rightarrow> bool" where
  "walked ig cps inh ts s s' \<longleftrightarrow>
     same_static s s' \<and>
     s_displayListLen s' = s_displayListLen s + int (length (concat (map (leaves ig s cps) ts))) \<and>
     s_displayListLen s' \<le> int (length (s_displayList s')) \<and>
     take (nat (s_displayListLen s')) (s_displayList s')
       = take (nat (s_displayListLen s)) (s_displayList s) @ map fst (concat (map (leaves ig s cps) ts)) \<and>
     s_updated s' = s_updated s @ concat (map (updates ig s inh) ts) \<and>
     (\<forall>(r, c)\<in>set (concat (map (leaves ig s cps) ts)). n_clipPaths (node_of s' r) = c) \<and>
     (\<forall>r. r \<notin> set (concat (map refs ts)) \<longrightarrow>
        n_clipPaths (node_of s' r) = n_clipPaths (node_of s r) \<and> n_dirty (node_of s' r) = n_dirty (node_of s r))"

lemma leaves_refs: "(r, c) \<in> set (leaves ig s cps t) \<Longrightarrow> r \<in> set (refs t)"
  by (induction t arbitrary: cps) (auto split: if_splits)

lemma walked_trans:
  assumes w1: "walked ig cps inh ts s s1" and w2: "walked ig cps inh us s1 s2"
    and d: "set (concat (map refs ts)) \<inter> set (concat (map refs us)) = {}"
  shows "walked ig cps inh (ts @ us) s s2"
proof -
  have st: "same_static s s1" using w1 by (simp add: walked_def)
  have L: "map (leaves ig s1 cps) us = map (leaves ig s cps) us"
    using same_static_cong(2) [OF st] by simp
  have U: "map (updates ig s1 inh) us = map (updates ig s inh) us"
  proof (rule map_cong)
    fix t assume t: "t \<in> set us"
    show "updates ig s1 inh t = updates ig s inh t"
    proof (rule updates_cong [OF st])
      fix r assume "r \<in> set (refs t)"
      then have "r \<notin> set (concat (map refs ts))" using t d by auto
      then show "n_dirty (node_of s1 r) = n_dirty (node_of s r)" using w1 by (simp add: walked_def)
    qed
  qed simp
  have C: "n_clipPaths (node_of s2 r) = c" if "(r, c) \<in> set (concat (map (leaves ig s cps) ts))" for r c
  proof -
    have "r \<in> set (concat (map refs ts))" using that by (auto dest: leaves_refs)
    then have "r \<notin> set (concat (map refs us))" using d by blast
    then show ?thesis using w1 w2 that by (auto simp: walked_def)
  qed
  show ?thesis
    using w1 w2 C unfolding walked_def L U by (auto simp: same_static_trans)
qed

lemma arr_set_top:
  assumes "0 \<le> n" "n \<le> int (length xs)"
  shows "\<exists>ys. arr_set xs n v = Some ys \<and> take (nat (n + 1)) ys = take (nat n) xs @ [v] \<and> n + 1 \<le> int (length ys)"
proof -
  have e: "int (nat n) = n" "nat (n + 1) = Suc (nat n)" using assms by simp_all
  have l: "length (take (nat n) xs) = nat n" using assms by simp
  from take_push [of "nat n" xs, OF refl l, of v] obtain ys where
    ys: "arr_set xs n v = Some ys" "take (Suc (nat n)) ys = take (nat n) xs @ [v]" unfolding e by blast
  then have "length (take (Suc (nat n)) ys) = Suc (nat n)" using l by simp
  then have "n + 1 \<le> int (length ys)" using e by simp
  then show ?thesis using ys e by auto
qed

lemma updateAndAddDisplayables_Nil [simp]: "updateAndAddDisplayables ig par cps [] s = Some s"
  by (subst updateAndAddDisplayables.simps) simp

definition inherit_dirty :: "nat option \<Rightarrow> nat \<Rightarrow> scene \<Rightarrow> scene" where
  "inherit_dirty parent el s = (case parent of None \<Rightarrow> s
     | Some p \<Rightarrow> if n_dirty (node_of s p) then upd_node el (\<lambda>n. n\<lparr>n_dirty := True\<rparr>) s else s)"

definition parent_dirty :: "nat option \<Rightarrow> scene \<Rightarrow> bool" where
  "parent_dirty parent s = (case parent of None \<Rightarrow> False | Some p \<Rightarrow> n_dirty (node_of s p))"

lemma inherit_dirty:
  "same_static s (inherit_dirty par el s)" "s_displayListLen (inherit_dirty par el s) = s_displayListLen s"
  "s_displayList (inherit_dirty par el s) = s_displayList s" "s_updated (inherit_dirty par el s) = s_updated s"
  "n_clipPaths (node_of (inherit_dirty par el s) r) = n_clipPaths (node_of s r)"
  "n_dirty (node_of (inherit_dirty par el s) r) = (n_dirty (node_of s r) \<or> r = el \<and> parent_dirty par s)"
  by (auto simp: inherit_dirty_def parent_dirty_def upd_node_def same_static_def split: option.split)

lemma enter_eq:
  "enter el cps s = (push_clip s el cps, snd (enter el cps s))"
  "same_static s (snd (enter el cps s))" "s_displayListLen (snd (enter el cps s)) = s_displayListLen s"
  "s_displayList (snd (enter el cps s)) = s_displayList s"
  "s_updated (snd (enter el cps s)) = s_updated s @ (if n_dirty (node_of s el) then [el] else [])"
  "n_clipPaths (node_of (snd (enter el cps s)) r) = n_clipPaths (node_of s r)"
  "n_dirty (node_of (snd (enter el cps s)) r) = n_dirty (node_of s r)"
  by (auto simp: enter_def push_clip_def upd_node_def same_static_def Let_def split: option.split)

text \<open>The walk over a forest ends in the state described.\<close>

lemma walk_forest:
  assumes "\<forall>t\<in>set ts. matches s t" "distinct (concat (map refs ts))" "\<forall>p. par = Some p \<longrightarrow> p \<notin> set (concat (map refs ts))"
    and "0 \<le> s_displayListLen s" "s_displayListLen s \<le> int (length (s_displayList s))"
  shows "\<exists>s'. updateAndAddDisplayables ig par cps (map root ts) s = Some s' \<and> walked ig cps (parent_dirty par s) ts s s'"
  using assms
proof (induction "length (concat (map refs ts))" arbitrary: ts s par cps rule: less_induct)
  case less
  show ?case
  proof (cases ts)
    case Nil
    then show ?thesis using less.prems by (simp add: walked_def)
  next
    case (Cons t us)
    obtain r cs where t: "t = Node r cs" by (cases t)
    have d: "distinct (concat (map refs us))" "r \<notin> set (concat (map refs us))" "r \<notin> set (concat (map refs cs))"
        "distinct (concat (map refs cs))" "set (refs t) \<inter> set (concat (map refs us)) = {}"
      using less.prems(2) unfolding Cons t by auto
    define s1 where "s1 = inherit_dirty par r s"
    define inh where "inh \<longleftrightarrow> parent_dirty par s"
    have st1: "same_static s s1" by (simp add: s1_def inherit_dirty)
    have g1: "n_group (node_of s1 r) = n_group (node_of s r)" "n_ignore (node_of s1 r) = n_ignore (node_of s r)"
        "n_children (node_of s1 r) = n_children (node_of s r)"
      using st1 by (simp_all add: same_static_def)
    define body where "body = (if n_ignore (node_of s1 r) \<and> \<not> ig then Some s1
               else let (cps, s) = enter r cps s1 in
                 if n_group (node_of s r) then do {
                   s \<leftarrow> updateAndAddDisplayables ig (Some r) cps (n_children (node_of s r)) s;
                   Some (upd_node r (\<lambda>n. n\<lparr>n_dirty := False\<rparr>) s) }
                 else do {
                   let s = upd_node r (\<lambda>n. n\<lparr>n_clipPaths := cps\<rparr>) s in do {
                   dl \<leftarrow> arr_set (s_displayList s) (s_displayListLen s) r;
                   Some (s\<lparr>s_displayList := dl, s_displayListLen := s_displayListLen s + 1\<rparr>) } })"
    have unf: "updateAndAddDisplayables ig par cps (map root ts) s
        = do { s \<leftarrow> body; updateAndAddDisplayables ig par cps (map root us) s }"
      by (subst updateAndAddDisplayables.simps) (simp add: Cons t body_def s1_def inherit_dirty_def)
    have "\<exists>s2. body = Some s2 \<and> walked ig cps inh [t] s s2"
    proof (cases "n_ignore (node_of s r) \<and> \<not> ig")
      case True
      then have "body = Some s1" by (simp add: body_def g1)
      moreover have "walked ig cps inh [t] s s1"
        using True less.prems(4,5) by (auto simp: walked_def t s1_def inherit_dirty)
      ultimately show ?thesis by blast
    next
      case vis: False
      define s2 where "s2 = snd (enter r cps s1)"
      define cps' where "cps' = push_clip s r cps"
      have e: "enter r cps s1 = (cps', s2)"
        using enter_eq(1) [of r cps s1] same_static_cong(3) [OF st1] by (simp add: s2_def cps'_def)
      have st2: "same_static s s2" using same_static_trans [OF st1] enter_eq(2) by (simp add: s2_def)
      have len2: "s_displayListLen s2 = s_displayListLen s" "s_displayList s2 = s_displayList s"
        by (simp_all add: s2_def s1_def enter_eq(2-) inherit_dirty)
      have upd2: "s_updated s2 = s_updated s @ (if inh \<or> n_dirty (node_of s r) then [r] else [])"
        by (auto simp: s2_def s1_def enter_eq(2-) inherit_dirty inh_def)
      have fr2: "n_clipPaths (node_of s2 x) = n_clipPaths (node_of s x)"
          "n_dirty (node_of s2 x) = (n_dirty (node_of s x) \<or> x = r \<and> inh)" for x
        by (auto simp: s2_def s1_def enter_eq(2-) inherit_dirty inh_def)
      have g2: "n_group (node_of s2 r) = n_group (node_of s r)" "n_children (node_of s2 r) = n_children (node_of s r)"
        using st2 by (simp_all add: same_static_def)
      show ?thesis
      proof (cases "n_group (node_of s r)")
        case True
        have ch: "n_children (node_of s r) = map root cs" "\<forall>c\<in>set cs. matches s2 c"
          using less.prems(1) True same_static_cong(1) [OF st2] by (auto simp: Cons t)
        have small: "length (concat (map refs cs)) < length (concat (map refs ts))" by (simp add: Cons t)
        obtain s3 where s3: "updateAndAddDisplayables ig (Some r) cps' (map root cs) s2 = Some s3"
            "walked ig cps' (parent_dirty (Some r) s2) cs s2 s3"
          using less.hyps [OF small ch(2) d(4), of "Some r" cps'] d(3) less.prems(4,5) len2 by auto
        have pd: "parent_dirty (Some r) s2 \<longleftrightarrow> inh \<or> n_dirty (node_of s r)" using fr2 by (auto simp: parent_dirty_def)
        define s4 where "s4 = upd_node r (\<lambda>n. n\<lparr>n_dirty := False\<rparr>) s3"
        have st3: "same_static s s3" using same_static_trans [OF st2] s3(2) by (auto simp: walked_def)
        have st4: "same_static s s4"
          using same_static_trans [OF st3] same_static_upd [of "\<lambda>n. n\<lparr>n_dirty := False\<rparr>"] by (simp add: s4_def)
        have L: "map (leaves ig s2 cps') cs = map (leaves ig s cps') cs" using same_static_cong(2) [OF st2] by simp
        have U: "map (updates ig s2 x) cs = map (updates ig s x) cs" for x
          using d(3) fr2(2) by (intro map_cong updates_cong [OF st2]) auto
        have "body = Some s4" using vis True s3(1) ch by (auto simp: body_def g1 e g2 s4_def)
        moreover have "walked ig cps inh [t] s s4"
        proof -
          note w = s3(2) [unfolded walked_def pd L U]
          have lv: "concat (map (leaves ig s cps) [t]) = concat (map (leaves ig s cps') cs)"
            using vis True by (auto simp: t cps'_def)
          have up: "concat (map (updates ig s inh) [t]) = (if inh \<or> n_dirty (node_of s r) then [r] else [])
              @ concat (map (updates ig s (inh \<or> n_dirty (node_of s r))) cs)"
            using vis True by (auto simp: t Let_def)
          have rf: "set (concat (map refs [t])) = insert r (set (concat (map refs cs)))" by (simp add: t)
          have cp: "n_clipPaths (node_of s4 x) = n_clipPaths (node_of s3 x)"
            "x \<noteq> r \<Longrightarrow> n_dirty (node_of s4 x) = n_dirty (node_of s3 x)" for x
            by (simp_all add: s4_def upd_node_def)
          have dl: "s_displayListLen s4 = s_displayListLen s3" "s_displayList s4 = s_displayList s3"
            "s_updated s4 = s_updated s3" by (simp_all add: s4_def upd_node_def)
          show ?thesis
            unfolding walked_def lv up rf dl cp(1)
          proof (intro conjI)
            show "\<forall>x. x \<notin> insert r (set (concat (map refs cs))) \<longrightarrow> n_clipPaths (node_of s3 x) = n_clipPaths (node_of s x)
                \<and> n_dirty (node_of s4 x) = n_dirty (node_of s x)"
              using w cp(2) fr2 by simp
          qed (use w st4 len2 upd2 in auto)
        qed
        ultimately show ?thesis by blast
      next
        case False
        then have cs: "cs = []" using less.prems(1) by (auto simp: Cons t split: if_splits)
        define s3 where "s3 = upd_node r (\<lambda>n. n\<lparr>n_clipPaths := cps'\<rparr>) s2"
        have st3: "same_static s s3"
          using same_static_trans [OF st2] same_static_upd [of "\<lambda>n. n\<lparr>n_clipPaths := cps'\<rparr>"] by (simp add: s3_def)
        obtain dl where dl: "arr_set (s_displayList s) (s_displayListLen s) r = Some dl"
            "take (nat (s_displayListLen s + 1)) dl = take (nat (s_displayListLen s)) (s_displayList s) @ [r]"
            "s_displayListLen s + 1 \<le> int (length dl)"
          using arr_set_top [OF less.prems(4,5)] by blast
        define s4 where "s4 = s3\<lparr>s_displayList := dl, s_displayListLen := s_displayListLen s + 1\<rparr>"
        have "body = Some s4"
          using vis False dl(1) by (auto simp: body_def g1 e g2 s4_def s3_def Let_def len2 upd_node_def)
        moreover have "walked ig cps inh [t] s s4"
          using st3 dl vis False upd2 fr2 by (auto simp: walked_def t cs cps'_def s4_def s3_def upd_node_def same_static_def)
        ultimately show ?thesis by blast
      qed
    qed
    then obtain s2 where s2: "body = Some s2" "walked ig cps inh [t] s s2" by blast
    have st2: "same_static s s2" using s2(2) by (simp add: walked_def)
    have small: "length (concat (map refs us)) < length (concat (map refs ts))" by (simp add: Cons t)
    have m2: "\<forall>t\<in>set us. matches s2 t" using less.prems(1) same_static_cong(1) [OF st2] by (simp add: Cons)
    have inh2: "parent_dirty par s2 = inh"
      using s2(2) less.prems(3) by (auto simp: parent_dirty_def inh_def walked_def Cons split: option.split)
    have len2: "0 \<le> s_displayListLen s2" "s_displayListLen s2 \<le> int (length (s_displayList s2))"
      using s2(2) less.prems(4) by (auto simp: walked_def)
    obtain s' where "updateAndAddDisplayables ig par cps (map root us) s2 = Some s'" "walked ig cps inh us s2 s'"
      using less.hyps [OF small m2 d(1) _ len2, of par cps] less.prems(3) inh2 by (auto simp: Cons)
    then show ?thesis
      using s2 unf walked_trans [OF s2(2), of us s'] d(5) by (auto simp: Cons inh_def)
  qed
qed

section \<open>Properties\<close>

definition forest :: "scene \<Rightarrow> tree list \<Rightarrow> bool" where
  "forest s ts \<longleftrightarrow> s_roots s = map root ts \<and> (\<forall>t\<in>set ts. matches s t) \<and> distinct (concat (map refs ts))"

lemma updateDisplayList_walk:
  assumes "forest s ts" "int (length (concat (map (leaves ig s None) ts))) < 2 ^ 31"
  shows "\<exists>s'. updateDisplayList canvas ig s = Some s' \<and> same_static s s' \<and>
    s_displayList s' = (if canvas then sort_key (depth_key s) else (\<lambda>xs. xs)) (map fst (concat (map (leaves ig s None) ts))) \<and>
    s_displayListLen s' = int (length (s_displayList s')) \<and>
    (\<forall>(r, c)\<in>set (concat (map (leaves ig s None) ts)). n_clipPaths (node_of s' r) = c) \<and>
    s_updated s' = s_updated s @ concat (map (updates ig s False) ts)"
proof -
  let ?s0 = "s\<lparr>s_displayListLen := 0\<rparr>" and ?L = "concat (map (leaves ig s None) ts)"
  have st0: "same_static s ?s0" by (simp add: same_static_def)
  have m0: "\<forall>t\<in>set ts. matches ?s0 t" using assms(1) same_static_cong(1) [OF st0] by (simp add: forest_def)
  have L0: "map (leaves ig ?s0 None) ts = map (leaves ig s None) ts" using same_static_cong(2) [OF st0] by simp
  have U0: "map (updates ig ?s0 False) ts = map (updates ig s False) ts"
    by (intro map_cong updates_cong [OF st0]) simp_all
  have d: "distinct (concat (map refs ts))" and ro: "s_roots s = map root ts" using assms(1) by (simp_all add: forest_def)
  obtain s1 where s1: "updateAndAddDisplayables ig None None (map root ts) ?s0 = Some s1"
      "walked ig None (parent_dirty None ?s0) ts ?s0 s1"
    using walk_forest [OF m0 d, of None ig None] by auto
  define w where "w = s1\<lparr>s_displayList := take (nat (s_displayListLen s1)) (s_displayList s1)\<rparr>"
  note v = s1(2) [unfolded walked_def parent_dirty_def option.case L0 U0]
  have st: "same_static s s1" using same_static_trans [OF st0] v by blast
  have dl: "s_displayList w = map fst ?L" "s_displayListLen w = int (length ?L)" using v by (auto simp: w_def)
  have k: "depth_key w = depth_key s"
    using same_static_cong(4) [of s w] st by (simp add: w_def same_static_def)
  have srt: "sort_array (s_displayList w) (shapeCompareFunc w) None None = Some (sort_key (depth_key s) (map fst ?L))"
    using shape_sort [of "s_displayList w" w] assms(2) unfolding k dl(1) by simp
  have "updateDisplayList canvas ig s = (if canvas then Some (w\<lparr>s_displayList := sort_key (depth_key s) (map fst ?L)\<rparr>) else Some w)"
    using s1(1) srt ro by (simp add: updateDisplayList_def w_def)
  then show ?thesis
    using v st dl by (auto simp: w_def same_static_def)
qed


text \<open>
  The same update gives every visible shape the clip paths of the groups around it, from the
  outermost to its own, and runs \<open>update\<close> on exactly the visible elements that are dirty or
  inside a dirty group, parents first.
\<close>

theorem display_list_clip_and_update:
  assumes "forest s ts" "int (length (concat (map (leaves ig s None) ts))) < 2 ^ 31"
  shows "\<exists>s'. updateDisplayList canvas ig s = Some s'
    \<and> (\<forall>(r, c)\<in>set (concat (map (leaves ig s None) ts)). n_clipPaths (node_of s' r) = c)
    \<and> s_updated s' = s_updated s @ concat (map (updates ig s False) ts)"
  using updateDisplayList_walk [OF assms, of canvas] by blast

definition plain :: "string \<Rightarrow> int \<Rightarrow> node" where
  "plain i zz = \<lparr>n_id = i, n_name = i, n_group = False, n_parent = None, n_children = [], n_storage = False, n_dirty = False,
     n_ignore = False, n_zlevel = 0, n_z = zz, n_z2 = 0, n_clipPath = None, n_clipPaths = None\<rparr>"

definition small_scene :: scene where
  "small_scene = (newStorage (\<lambda>r. if r = 0 then (plain ''g'' 0)\<lparr>n_group := True, n_children := [1, 2, 3], n_dirty := True, n_clipPath := Some 9\<rparr>
      else if r = 1 then plain ''a'' 5 else if r = 2 then plain ''b'' 1
      else if r = 3 then (plain ''c'' 0)\<lparr>n_ignore := True\<rparr> else plain ''d'' 5))\<lparr>s_roots := [4, 0]\<rparr>"

lemma small_forest: "forest small_scene [Node 4 [], Node 0 [Node 1 [], Node 2 [], Node 3 []]]"
  by (simp add: forest_def small_scene_def newStorage_def plain_def)


lemma display_list_clip_and_update_witness:
  "\<exists>s'. updateDisplayList True False small_scene = Some s' \<and> n_clipPaths (node_of s' 1) = Some [9] \<and> s_updated s' = [0, 1, 2]"
proof -
  let ?ts = "[Node 4 [], Node 0 [Node 1 [], Node 2 [], Node 3 []]]"
  have l: "concat (map (leaves False small_scene None) ?ts) = [(4, None), (1, Some [9]), (2, Some [9])]"
    by (simp add: small_scene_def newStorage_def plain_def push_clip_def)
  then have "int (length (concat (map (leaves False small_scene None) ?ts))) < 2 ^ 31" by simp
  from display_list_clip_and_update [OF small_forest this, of True] show ?thesis
    unfolding l by (auto simp: small_scene_def newStorage_def plain_def)
qed

end
