(* ===== verification/Scene_Invariant.thy ===== *)
theory Scene_Invariant
  imports Scene_Display
begin

text \<open>
  The map of elements follows the scene: through every operation of groups and of the storage it
  holds exactly the elements that hang from a root, and the groups among them know their
  storage.
\<close>

section \<open>The invariant\<close>

definition in_map :: "scene \<Rightarrow> nat \<Rightarrow> bool" where
  "in_map s e \<longleftrightarrow> s_elements s (n_id (node_of s e)) = Some e"

definition child_rel :: "scene \<Rightarrow> (nat \<times> nat) set" where
  "child_rel s = {(c, p). c \<in> set (n_children (node_of s p))}"

text \<open>Names are unique, groups form trees, and parents and children agree.\<close>

definition shape_ok :: "scene \<Rightarrow> bool" where
  "shape_ok s \<longleftrightarrow> wf (child_rel s) \<and>
     (\<forall>e e'. n_id (node_of s e) = n_id (node_of s e') \<longrightarrow> e = e') \<and>
     (\<forall>p c. c \<in> set (n_children (node_of s p)) \<longleftrightarrow> n_parent (node_of s c) = Some p) \<and>
     (\<forall>p. distinct (n_children (node_of s p))) \<and>
     (\<forall>p. \<not> n_group (node_of s p) \<longrightarrow> n_children (node_of s p) = [])"

definition map_ok :: "scene \<Rightarrow> bool" where
  "map_ok s \<longleftrightarrow> finite (dom (s_elements s)) \<and>
     (\<forall>i e. s_elements s i = Some e \<longrightarrow> n_id (node_of s e) = i) \<and>
     (\<forall>e. n_storage (node_of s e) \<longleftrightarrow> n_group (node_of s e) \<and> in_map s e)"

definition hang_ok :: "scene \<Rightarrow> bool" where
  "hang_ok s \<longleftrightarrow> distinct (s_roots s) \<and>
     (\<forall>r\<in>set (s_roots s). in_map s r \<and> n_parent (node_of s r) = None) \<and>
     (\<forall>c p. n_parent (node_of s c) = Some p \<longrightarrow> (in_map s c \<longleftrightarrow> in_map s p)) \<and>
     (\<forall>c. in_map s c \<and> n_parent (node_of s c) = None \<longrightarrow> c \<in> set (s_roots s))"

definition scene_inv :: "scene \<Rightarrow> bool" where
  "scene_inv s \<longleftrightarrow> shape_ok s \<and> map_ok s \<and> hang_ok s"

lemma hang_okD:
  assumes "hang_ok s"
  shows "distinct (s_roots s)" "r \<in> set (s_roots s) \<Longrightarrow> in_map s r" "r \<in> set (s_roots s) \<Longrightarrow> n_parent (node_of s r) = None"
    and "in_map s c \<Longrightarrow> n_parent (node_of s c) = None \<Longrightarrow> c \<in> set (s_roots s)"
  using assms unfolding hang_ok_def by blast+

text \<open>The elements below a given one, itself included.\<close>

definition below :: "scene \<Rightarrow> nat \<Rightarrow> nat set" where
  "below s r = {e. (e, r) \<in> (child_rel s)\<^sup>*}"

lemma below_unfold: "below s r = insert r (\<Union>c\<in>set (n_children (node_of s r)). below s c)"
proof
  show "below s r \<subseteq> insert r (\<Union>c\<in>set (n_children (node_of s r)). below s c)"
  proof
    fix e assume "e \<in> below s r"
    then have "(e, r) \<in> (child_rel s)\<^sup>*" by (simp add: below_def)
    then show "e \<in> insert r (\<Union>c\<in>set (n_children (node_of s r)). below s c)"
      by (cases rule: rtranclE) (auto simp: below_def child_rel_def)
  qed
  show "insert r (\<Union>c\<in>set (n_children (node_of s r)). below s c) \<subseteq> below s r"
    by (auto simp: below_def child_rel_def intro: rtrancl_into_rtrancl)
qed

lemma tree_exists:
  assumes "shape_ok s"
  shows "\<exists>t. root t = r \<and> matches s t"
proof -
  have "wf (child_rel s)" using assms by (simp add: shape_ok_def)
  then show ?thesis
  proof (induction r rule: wf_induct_rule)
    case (less r)
    then have "\<forall>c\<in>set (n_children (node_of s r)). \<exists>t. root t = c \<and> matches s t" by (simp add: child_rel_def)
    then obtain f where f: "\<forall>c\<in>set (n_children (node_of s r)). root (f c) = c \<and> matches s (f c)" by metis
    have "map root (map f (n_children (node_of s r))) = n_children (node_of s r)"
      using f by (simp add: map_idI)
    then have "matches s (Node r (map f (n_children (node_of s r))))"
      using f assms by (auto simp: shape_ok_def)
    then show ?case by (metis root.simps)
  qed
qed

lemma refs_below: "shape_ok s \<Longrightarrow> matches s t \<Longrightarrow> set (refs t) = below s (root t)"
proof (induction t)
  case (Node r ts)
  have "n_children (node_of s r) = map root ts"
    using Node.prems by (cases "n_group (node_of s r)") (auto simp: shape_ok_def)
  moreover have "\<forall>t\<in>set ts. set (refs t) = below s (root t)"
    using Node by (auto split: if_splits)
  ultimately show ?case by (subst below_unfold) auto
qed

section \<open>Entering and leaving the map\<close>

text \<open>What the walks leave alone: everything but the map, the storage flags and the dirty flags.\<close>

definition same_shape :: "scene \<Rightarrow> scene \<Rightarrow> bool" where
  "same_shape s s' \<longleftrightarrow> (\<forall>r. n_id (node_of s' r) = n_id (node_of s r) \<and> n_group (node_of s' r) = n_group (node_of s r)
     \<and> n_children (node_of s' r) = n_children (node_of s r) \<and> n_parent (node_of s' r) = n_parent (node_of s r))
     \<and> s_roots s' = s_roots s"

lemma same_shape_refl [simp]: "same_shape s s"
  by (simp add: same_shape_def)

lemma same_shape_trans: "same_shape s s' \<Longrightarrow> same_shape s' s'' \<Longrightarrow> same_shape s s''"
  by (simp add: same_shape_def)

lemma same_shape_matches: "same_shape s s' \<Longrightarrow> matches s' t = matches s t"
  by (induction t) (auto simp: same_shape_def)

definition unique_ids :: "scene \<Rightarrow> bool" where
  "unique_ids s \<longleftrightarrow> (\<forall>e e'. n_id (node_of s e) = n_id (node_of s e') \<longrightarrow> e = e')"

text \<open>The map and the flags after a set of elements has entered, or left.\<close>

definition entered :: "nat set \<Rightarrow> scene \<Rightarrow> scene \<Rightarrow> bool" where
  "entered D s s' \<longleftrightarrow> same_shape s s' \<and> map_ok s' \<and> (\<forall>e. in_map s' e \<longleftrightarrow> in_map s e \<or> e \<in> D)"

definition gone :: "nat set \<Rightarrow> scene \<Rightarrow> scene \<Rightarrow> bool" where
  "gone D s s' \<longleftrightarrow> same_shape s s' \<and> map_ok s' \<and> (\<forall>e. in_map s' e \<longleftrightarrow> in_map s e \<and> e \<notin> D)"

lemma entered_trans: "entered D s s1 \<Longrightarrow> entered E s1 s2 \<Longrightarrow> entered (D \<union> E) s s2"
  by (auto simp: entered_def intro: same_shape_trans)

lemma gone_trans: "gone D s s1 \<Longrightarrow> gone E s1 s2 \<Longrightarrow> gone (D \<union> E) s s2"
  by (auto simp: gone_def intro: same_shape_trans)

lemma unique_ids_shape: "same_shape s s' \<Longrightarrow> unique_ids s \<Longrightarrow> unique_ids s'"
  by (simp add: unique_ids_def same_shape_def)

lemma addToMap_entered:
  assumes "unique_ids s" "map_ok s"
  shows "entered {e} s (addToMap e s)"
proof -
  have id: "n_id (node_of (addToMap e s) x) = n_id (node_of s x)" and grp: "n_group (node_of (addToMap e s) x) = n_group (node_of s x)" for x
    by (simp_all add: addToMap_def Let_def upd_node_def)
  have el: "s_elements (addToMap e s) = (s_elements s)(n_id (node_of s e) \<mapsto> e)"
    by (simp add: addToMap_def Let_def upd_node_def)
  have st: "n_storage (node_of (addToMap e s) x) \<longleftrightarrow> n_storage (node_of s x) \<or> x = e \<and> n_group (node_of s e)" for x
    by (simp add: addToMap_def Let_def upd_node_def)
  have im: "in_map (addToMap e s) x \<longleftrightarrow> in_map s x \<or> x = e" for x
    using assms(1) by (auto simp: in_map_def id el unique_ids_def)
  have "same_shape s (addToMap e s)"
    by (simp add: same_shape_def addToMap_def Let_def upd_node_def)
  moreover have "map_ok (addToMap e s)"
    using assms(2) unfolding map_ok_def im st id grp el by auto
  ultimately show ?thesis using im by (auto simp: entered_def)
qed

lemma delFromMap_gone:
  assumes "unique_ids s" "map_ok s"
  shows "gone {e} s (delFromMap (n_id (node_of s e)) s)"
proof -
  define s' where "s' = delFromMap (n_id (node_of s e)) s"
  show ?thesis
  proof (cases "s_elements s (n_id (node_of s e))")
    case None
    then show ?thesis using assms(2) by (auto simp: gone_def delFromMap_def in_map_def)
  next
    case (Some x)
    then have "x = e" using assms by (auto simp: map_ok_def unique_ids_def)
    then have s': "s' = (if n_group (node_of s e) then upd_node e (\<lambda>n. n\<lparr>n_storage := False\<rparr>) (s\<lparr>s_elements := (s_elements s)(n_id (node_of s e) := None)\<rparr>)
        else s\<lparr>s_elements := (s_elements s)(n_id (node_of s e) := None)\<rparr>)"
      using Some by (simp add: s'_def delFromMap_def Let_def)
    have id: "n_id (node_of s' x) = n_id (node_of s x)" and grp: "n_group (node_of s' x) = n_group (node_of s x)" for x
      by (simp_all add: s' upd_node_def)
    have el: "s_elements s' = (s_elements s)(n_id (node_of s e) := None)" by (simp add: s' upd_node_def)
    have st: "n_storage (node_of s' x) \<longleftrightarrow> n_storage (node_of s x) \<and> \<not> (x = e \<and> n_group (node_of s e))" for x
      by (simp add: s' upd_node_def)
    have im: "in_map s' x \<longleftrightarrow> in_map s x \<and> x \<noteq> e" for x
      using assms(1) by (auto simp: in_map_def id el unique_ids_def)
    have "same_shape s s'" by (simp add: same_shape_def s' upd_node_def)
    moreover have "map_ok s'"
      using assms(2) unfolding map_ok_def im st id grp el by auto
    ultimately show ?thesis using im by (auto simp: gone_def s'_def)
  qed
qed

lemma addChildren_entered:
  assumes "\<forall>t\<in>set ts. matches s t" "unique_ids s" "map_ok s"
  shows "\<exists>s'. addChildrenToStorage (map root ts) s = Some s' \<and> entered (set (concat (map refs ts))) s s'"
  using assms
proof (induction "length (concat (map refs ts))" arbitrary: ts s rule: less_induct)
  case less
  show ?case
  proof (cases ts)
    case Nil
    then show ?thesis using less.prems by (subst addChildrenToStorage.simps) (auto simp: entered_def)
  next
    case (Cons t us)
    obtain r cs where t: "t = Node r cs" by (cases t)
    define s1 where "s1 = addToMap r s"
    have e1: "entered {r} s s1" using addToMap_entered less.prems(2,3) by (simp add: s1_def)
    then have sh1: "same_shape s s1" and ok1: "map_ok s1" by (simp_all add: entered_def)
    have u1: "unique_ids s1" using unique_ids_shape sh1 less.prems(2) by blast
    have g1: "n_group (node_of s1 r) = n_group (node_of s r)" "n_children (node_of s1 r) = n_children (node_of s r)"
      using sh1 by (simp_all add: same_shape_def)
    obtain s2 where s2: "(if n_group (node_of s1 r) then addChildrenToStorage (n_children (node_of s1 r)) s1 else Some s1) = Some s2"
        "entered (set (concat (map refs cs))) s1 s2"
    proof (cases "n_group (node_of s r)")
      case True
      then have "n_children (node_of s r) = map root cs" "\<forall>c\<in>set cs. matches s1 c"
        using less.prems(1) same_shape_matches [OF sh1] by (auto simp: Cons t)
      moreover have "length (concat (map refs cs)) < length (concat (map refs ts))" by (simp add: Cons t)
      ultimately show ?thesis using less.hyps [of cs s1] u1 ok1 that True g1 by auto
    next
      case False
      then have "cs = []" using less.prems(1) by (auto simp: Cons t split: if_splits)
      then show ?thesis using False g1 that [of s1] ok1 by (auto simp: entered_def)
    qed
    have sh2: "same_shape s s2" using same_shape_trans [OF sh1] s2(2) by (simp add: entered_def)
    have "length (concat (map refs us)) < length (concat (map refs ts))" by (simp add: Cons t)
    then obtain s3 where s3: "addChildrenToStorage (map root us) s2 = Some s3" "entered (set (concat (map refs us))) s2 s3"
      using less.hyps [of us s2] less.prems(1,2) same_shape_matches [OF sh2] unique_ids_shape [OF sh2] s2(2)
      by (auto simp: Cons entered_def)
    have "entered (({r} \<union> set (concat (map refs cs))) \<union> set (concat (map refs us))) s s3"
      using entered_trans [OF entered_trans [OF e1 s2(2)] s3(2)] .
    moreover have "addChildrenToStorage (map root ts) s = do {
        s \<leftarrow> (if n_group (node_of s1 r) then addChildrenToStorage (n_children (node_of s1 r)) s1 else Some s1);
        addChildrenToStorage (map root us) s }"
      by (subst addChildrenToStorage.simps) (simp add: Cons t s1_def)
    moreover have "({r} \<union> set (concat (map refs cs))) \<union> set (concat (map refs us)) = set (concat (map refs ts))"
      by (auto simp: Cons t)
    ultimately show ?thesis unfolding s2(1) using s3(1) by (metis Option.bind.bind_lunit)
  qed
qed

lemma delChildren_gone:
  assumes "\<forall>t\<in>set ts. matches s t" "unique_ids s" "map_ok s"
  shows "\<exists>s'. delChildrenFromStorage (map root ts) s = Some s' \<and> gone (set (concat (map refs ts))) s s'"
  using assms
proof (induction "length (concat (map refs ts))" arbitrary: ts s rule: less_induct)
  case less
  show ?case
  proof (cases ts)
    case Nil
    then show ?thesis using less.prems by (subst delChildrenFromStorage.simps) (auto simp: gone_def)
  next
    case (Cons t us)
    obtain r cs where t: "t = Node r cs" by (cases t)
    define s1 where "s1 = delFromMap (n_id (node_of s r)) s"
    have e1: "gone {r} s s1" using delFromMap_gone less.prems(2,3) by (simp add: s1_def)
    then have sh1: "same_shape s s1" and ok1: "map_ok s1" by (simp_all add: gone_def)
    have u1: "unique_ids s1" using unique_ids_shape sh1 less.prems(2) by blast
    have g1: "n_group (node_of s1 r) = n_group (node_of s r)" "n_children (node_of s1 r) = n_children (node_of s r)"
      using sh1 by (simp_all add: same_shape_def)
    obtain s2 where s2: "(if n_group (node_of s1 r) then delChildrenFromStorage (n_children (node_of s1 r)) s1 else Some s1) = Some s2"
        "gone (set (concat (map refs cs))) s1 s2"
    proof (cases "n_group (node_of s r)")
      case True
      then have "n_children (node_of s r) = map root cs" "\<forall>c\<in>set cs. matches s1 c"
        using less.prems(1) same_shape_matches [OF sh1] by (auto simp: Cons t)
      moreover have "length (concat (map refs cs)) < length (concat (map refs ts))" by (simp add: Cons t)
      ultimately show ?thesis using less.hyps [of cs s1] u1 ok1 that True g1 by auto
    next
      case False
      then have "cs = []" using less.prems(1) by (auto simp: Cons t split: if_splits)
      then show ?thesis using False g1 that [of s1] ok1 by (auto simp: gone_def)
    qed
    have sh2: "same_shape s s2" using same_shape_trans [OF sh1] s2(2) by (simp add: gone_def)
    have "length (concat (map refs us)) < length (concat (map refs ts))" by (simp add: Cons t)
    then obtain s3 where s3: "delChildrenFromStorage (map root us) s2 = Some s3" "gone (set (concat (map refs us))) s2 s3"
      using less.hyps [of us s2] less.prems(1,2) same_shape_matches [OF sh2] unique_ids_shape [OF sh2] s2(2)
      by (auto simp: Cons gone_def)
    have "gone (({r} \<union> set (concat (map refs cs))) \<union> set (concat (map refs us))) s s3"
      using gone_trans [OF gone_trans [OF e1 s2(2)] s3(2)] .
    moreover have "delChildrenFromStorage (map root ts) s = do {
        s \<leftarrow> (if n_group (node_of s1 r) then delChildrenFromStorage (n_children (node_of s1 r)) s1 else Some s1);
        delChildrenFromStorage (map root us) s }"
      by (subst delChildrenFromStorage.simps) (simp add: Cons t s1_def)
    moreover have "({r} \<union> set (concat (map refs cs))) \<union> set (concat (map refs us)) = set (concat (map refs ts))"
      by (auto simp: Cons t)
    ultimately show ?thesis unfolding s2(1) using s3(1) by (metis Option.bind.bind_lunit)
  qed
qed

section \<open>Groups\<close>

lemma scene_invD:
  assumes "scene_inv s"
  shows "unique_ids s" "map_ok s" "shape_ok s" "hang_ok s" "wf (child_rel s)"
    and "c \<in> set (n_children (node_of s p)) \<longleftrightarrow> n_parent (node_of s c) = Some p"
    and "distinct (n_children (node_of s p))" "c \<in> set (n_children (node_of s p)) \<Longrightarrow> n_group (node_of s p)"
    and "n_parent (node_of s c) = Some p \<Longrightarrow> in_map s c \<longleftrightarrow> in_map s p"
    and "n_storage (node_of s p) \<longleftrightarrow> n_group (node_of s p) \<and> in_map s p"
proof -
  have s: "shape_ok s" "map_ok s" "hang_ok s" using assms by (simp_all add: scene_inv_def)
  show "shape_ok s" "map_ok s" "hang_ok s" by (fact s)+
  show "unique_ids s" "wf (child_rel s)" using s(1) by (simp_all add: shape_ok_def unique_ids_def)
  show c: "c \<in> set (n_children (node_of s p)) \<longleftrightarrow> n_parent (node_of s c) = Some p"
    using s(1) unfolding shape_ok_def by blast
  show "distinct (n_children (node_of s p))" using s(1) unfolding shape_ok_def by blast
  show "c \<in> set (n_children (node_of s p)) \<Longrightarrow> n_group (node_of s p)"
    using s(1) unfolding shape_ok_def by fastforce
  show "n_parent (node_of s c) = Some p \<Longrightarrow> in_map s c \<longleftrightarrow> in_map s p"
    using s(3) unfolding hang_ok_def by blast
  show "n_storage (node_of s p) \<longleftrightarrow> n_group (node_of s p) \<and> in_map s p"
    using s(2) unfolding map_ok_def by blast
qed

lemma below_parent:
  assumes "scene_inv s" "e \<noteq> c" "n_parent (node_of s e) = Some p"
  shows "e \<in> below s c \<longleftrightarrow> p \<in> below s c"
proof
  have ep: "(e, p) \<in> child_rel s" using scene_invD(6) [OF assms(1)] assms(3) by (simp add: child_rel_def)
  show "p \<in> below s c \<Longrightarrow> e \<in> below s c"
    using ep by (auto simp: below_def intro: converse_rtrancl_into_rtrancl)
  assume "e \<in> below s c"
  then have "(e, c) \<in> (child_rel s)\<^sup>*" by (simp add: below_def)
  then obtain q where "(e, q) \<in> child_rel s" "(q, c) \<in> (child_rel s)\<^sup>*"
    using assms(2) by (metis converse_rtranclE)
  moreover have "n_parent (node_of s e) = Some q" using calculation(1) scene_invD(6) [OF assms(1)] by (simp add: child_rel_def)
  then have "q = p" using assms(3) by simp
  ultimately show "p \<in> below s c" by (simp add: below_def)
qed

lemma below_no_parent: "scene_inv s \<Longrightarrow> n_parent (node_of s e) = None \<Longrightarrow> e \<in> below s c \<Longrightarrow> e = c"
  using scene_invD(6) by (auto simp: below_def child_rel_def elim: converse_rtranclE)

lemma parent_not_below:
  assumes "scene_inv s" "n_parent (node_of s c) = Some p"
  shows "p \<notin> below s c" "p \<noteq> c"
proof -
  have cp: "(c, p) \<in> child_rel s" using scene_invD(6) [OF assms(1)] assms(2) by (simp add: child_rel_def)
  have ac: "acyclic (child_rel s)" using scene_invD(5) [OF assms(1)] by (rule wf_acyclic)
  show "p \<notin> below s c" using cp ac by (auto simp: below_def acyclic_def dest: rtrancl_into_trancl2)
  then show "p \<noteq> c" by (auto simp: below_def)
qed

lemma below_in_map: "scene_inv s \<Longrightarrow> e \<in> below s c \<Longrightarrow> in_map s e \<longleftrightarrow> in_map s c"
proof -
  assume s: "scene_inv s" and "e \<in> below s c"
  then have "(e, c) \<in> (child_rel s)\<^sup>*" by (simp add: below_def)
  then show ?thesis
    using scene_invD(6,9) [OF s] by (induction rule: converse_rtrancl_induct) (auto simp: child_rel_def)
qed

lemma below_self [simp]: "c \<in> below s c"
  by (simp add: below_def)

lemma matches_frame:
  "matches s t \<Longrightarrow> (\<And>r. r \<in> set (refs t) \<Longrightarrow> n_children (node_of s' r) = n_children (node_of s r) \<and>
     n_group (node_of s' r) = n_group (node_of s r)) \<Longrightarrow> matches s' t"
proof (induction t)
  case (Node r ts)
  have "matches s' t" if "t \<in> set ts" for t
    using Node.prems that by (intro Node.IH) (auto split: if_splits)
  then show ?case using Node.prems by (auto split: if_splits)
qed

lemma delChildren_Nil: "delChildrenFromStorage [] = Some"
  by (rule ext) (subst delChildrenFromStorage.simps, simp)

lemma addChildren_Nil: "addChildrenToStorage [] = Some"
  by (rule ext) (subst addChildrenToStorage.simps, simp)

definition unlink :: "nat \<Rightarrow> nat \<Rightarrow> scene \<Rightarrow> scene" where
  "unlink p c s = upd_node c (\<lambda>n. n\<lparr>n_parent := None\<rparr>) (upd_node p (\<lambda>n. n\<lparr>n_children := remove1 c (n_children n)\<rparr>) s)"

lemma unlink_simps [simp]:
  "n_id (node_of (unlink p c s) x) = n_id (node_of s x)" "n_group (node_of (unlink p c s) x) = n_group (node_of s x)"
  "n_storage (node_of (unlink p c s) x) = n_storage (node_of s x)"
  "n_children (node_of (unlink p c s) x) = (if x = p then remove1 c (n_children (node_of s p)) else n_children (node_of s x))"
  "n_parent (node_of (unlink p c s) x) = (if x = c then None else n_parent (node_of s x))"
  "s_elements (unlink p c s) = s_elements s" "s_roots (unlink p c s) = s_roots s"
  "in_map (unlink p c s) x = in_map s x"
  by (simp_all add: unlink_def upd_node_def in_map_def)

text \<open>Detaching a child, whatever its place in the map.\<close>

lemma detach:
  assumes "unique_ids s" "map_ok s" "matches s t" "c \<in> set (n_children (node_of s p))" "root t = c"
    and "p \<notin> set (refs t)" "n_group (node_of s p)" "\<not> in_map s p \<Longrightarrow> \<forall>e\<in>set (refs t). \<not> in_map s e"
  shows "\<exists>s'. group_remove p c s = Some s' \<and> gone (set (refs t)) (unlink p c s) s'"
proof -
  let ?s = "unlink p c s"
  have ok: "map_ok ?s" and u: "unique_ids ?s" using assms(1,2) by (simp_all add: map_ok_def unique_ids_def)
  have m: "matches ?s t" by (rule matches_frame [OF assms(3)]) (use assms(6) in auto)
  have run: "group_remove p c s = (if in_map s p then delChildrenFromStorage [c] ?s else Some ?s)"
    using assms(2,4,7)
    by (subst delChildrenFromStorage.simps) (simp add: group_remove_def unlink_def [symmetric] Let_def map_ok_def delChildren_Nil)
  show ?thesis
  proof (cases "in_map s p")
    case True
    then show ?thesis using delChildren_gone [of "[t]" ?s] m u ok assms(5) run by auto
  next
    case False
    then show ?thesis using run assms(8) ok by (auto simp: gone_def)
  qed
qed

lemma in_map_shape: "same_shape s s' \<Longrightarrow> n_id (node_of s' x) = n_id (node_of s x) \<and> n_group (node_of s' x) = n_group (node_of s x)
  \<and> n_children (node_of s' x) = n_children (node_of s x) \<and> n_parent (node_of s' x) = n_parent (node_of s x) \<and> s_roots s' = s_roots s"
  by (simp add: same_shape_def)

text \<open>The state after some children of a group have been cut off together with all below them.\<close>

lemma cut_inv:
  assumes inv: "scene_inv s" and C: "C \<subseteq> set (n_children (node_of s g))" and ok: "map_ok s'" and ro: "s_roots s' = s_roots s"
    and f: "\<And>x. n_id (node_of s' x) = n_id (node_of s x) \<and> n_group (node_of s' x) = n_group (node_of s x)
      \<and> n_parent (node_of s' x) = (if x \<in> C then None else n_parent (node_of s x))
      \<and> n_children (node_of s' x) = (if x = g then filter (\<lambda>y. y \<notin> C) (n_children (node_of s g)) else n_children (node_of s x))"
    and im: "\<And>e. in_map s' e \<longleftrightarrow> in_map s e \<and> (\<forall>c\<in>C. e \<notin> below s c)"
  shows "scene_inv s'"
proof -
  note I = scene_invD [OF inv]
  have pc: "n_parent (node_of s c) = Some g" if "c \<in> C" for c using I(6) C that by auto
  have "child_rel s' \<subseteq> child_rel s" using f by (auto simp: child_rel_def split: if_splits)
  then have "wf (child_rel s')" using I(5) wf_subset by blast
  then have "shape_ok s'"
    unfolding shape_ok_def
  proof (intro conjI allI impI)
    fix e e' assume "n_id (node_of s' e) = n_id (node_of s' e')"
    then show "e = e'" using f I(1) by (simp add: unique_ids_def)
  next
    fix p x
    show "x \<in> set (n_children (node_of s' p)) \<longleftrightarrow> n_parent (node_of s' x) = Some p"
      using f [of p] f [of x] I(6) [of x p] I(6) [of x g] pc [of x]
      by (cases "p = g"; cases "x \<in> C") auto
  next
    fix p show "distinct (n_children (node_of s' p))" using f [of p] I(7) by simp
  next
    fix p assume "\<not> n_group (node_of s' p)"
    then have "\<not> n_group (node_of s p)" using f [of p] by simp
    then have "n_children (node_of s p) = []" using I(3) unfolding shape_ok_def by blast
    then show "n_children (node_of s' p) = []" using f [of p] by (cases "p = g") auto
  qed
  moreover have "hang_ok s'"
    unfolding hang_ok_def im
  proof (intro conjI ballI allI impI)
    show "distinct (s_roots s')" using hang_okD(1) [OF I(4)] ro by simp
  next
    fix r assume r: "r \<in> set (s_roots s')"
    then have r': "in_map s r" "n_parent (node_of s r) = None" using hang_okD(2,3) [OF I(4), of r] ro by simp_all
    then show "in_map s r" "n_parent (node_of s' r) = None" using f [of r] by simp_all
    fix c assume c: "c \<in> C"
    then have "r \<noteq> c" using r'(2) pc by fastforce
    then show "r \<notin> below s c" using below_no_parent [OF inv r'(2)] by blast
  next
    fix x p assume "n_parent (node_of s' x) = Some p"
    then have x: "x \<notin> C" "n_parent (node_of s x) = Some p" using f [of x] by (auto split: if_splits)
    then have "x \<in> below s c \<longleftrightarrow> p \<in> below s c" if "c \<in> C" for c
      using that by (intro below_parent [OF inv]) auto
    then show "in_map s x \<and> (\<forall>c\<in>C. x \<notin> below s c) \<longleftrightarrow> in_map s p \<and> (\<forall>c\<in>C. p \<notin> below s c)"
      using I(9) [OF x(2)] by blast
  next
    fix x assume x: "(in_map s x \<and> (\<forall>c\<in>C. x \<notin> below s c)) \<and> n_parent (node_of s' x) = None"
    then have "x \<notin> C" by auto
    then have "n_parent (node_of s x) = None" using x f [of x] by simp
    then show "x \<in> set (s_roots s')" using x hang_okD(4) [OF I(4), of x] ro by simp
  qed
  ultimately show ?thesis using ok by (simp add: scene_inv_def)
qed

lemma remove1_filter: "distinct xs \<Longrightarrow> remove1 c xs = filter (\<lambda>y. y \<notin> {c}) xs"
  by (induction xs) (auto intro!: filter_True [symmetric])

lemma group_remove_inv:
  assumes inv: "scene_inv s"
  shows "\<exists>s'. group_remove g c s = Some s' \<and> scene_inv s'"
proof (cases "c \<in> set (n_children (node_of s g))")
  case False
  then show ?thesis using inv by (simp add: group_remove_def)
next
  case c: True
  note I = scene_invD [OF inv]
  have pc: "n_parent (node_of s c) = Some g" using I(6) c by simp
  obtain t where t: "root t = c" "matches s t" using tree_exists I(3) by blast
  have D: "set (refs t) = below s c" using refs_below I(3) t by blast
  obtain s' where s': "group_remove g c s = Some s'" "gone (below s c) (unlink g c s) s'"
    using detach [of s t c g] I(1,2,8) t c D parent_not_below(1) [OF inv pc] below_in_map [OF inv] I(9) [OF pc] by metis
  have sh: "same_shape (unlink g c s) s'" using s'(2) by (simp add: gone_def)
  have "scene_inv s'"
    by (rule cut_inv [OF inv, of "{c}" g])
      (use c s'(2) in_map_shape [OF sh] remove1_filter [OF I(7)] in \<open>auto simp: gone_def\<close>)
  then show ?thesis using s'(1) by blast
qed

text \<open>Linking an element into a group, at any place among its children.\<close>

definition link :: "nat \<Rightarrow> nat list \<Rightarrow> scene \<Rightarrow> scene" where
  "link g cs s = upd_node g (\<lambda>n. n\<lparr>n_children := cs\<rparr>) s"

lemma link_simps [simp]:
  "n_id (node_of (link g cs s) x) = n_id (node_of s x)" "n_group (node_of (link g cs s) x) = n_group (node_of s x)"
  "n_storage (node_of (link g cs s) x) = n_storage (node_of s x)"
  "n_children (node_of (link g cs s) x) = (if x = g then cs else n_children (node_of s x))"
  "n_parent (node_of (link g cs s) x) = n_parent (node_of s x)"
  "s_elements (link g cs s) = s_elements s" "s_roots (link g cs s) = s_roots s"
  "in_map (link g cs s) x = in_map s x"
  by (simp_all add: link_def upd_node_def in_map_def)

lemma link_ok [simp]: "map_ok (link g cs s) = map_ok s" "unique_ids (link g cs s) = unique_ids s"
  by (simp_all add: map_ok_def unique_ids_def)

text \<open>Removing all children: the flags and the map are cleared child by child, the list at the end.\<close>

definition orphan :: "nat set \<Rightarrow> scene \<Rightarrow> scene" where
  "orphan C s = s\<lparr>s_nodes := (\<lambda>x. if x \<in> C then (s_nodes s x)\<lparr>n_parent := None\<rparr> else s_nodes s x)\<rparr>"

lemma orphan_simps [simp]:
  "n_id (node_of (orphan C s) x) = n_id (node_of s x)" "n_group (node_of (orphan C s) x) = n_group (node_of s x)"
  "n_children (node_of (orphan C s) x) = n_children (node_of s x)"
  "n_parent (node_of (orphan C s) x) = (if x \<in> C then None else n_parent (node_of s x))"
  "s_roots (orphan C s) = s_roots s"
  by (simp_all add: orphan_def)

lemma removeAll_steps:
  assumes "unique_ids s" "map_ok s" "\<forall>t\<in>set ts. matches s t" "storage \<or> (\<forall>t\<in>set ts. \<forall>e\<in>set (refs t). \<not> in_map s e)"
  shows "\<exists>s'. foldl (removeAllStep storage) (Some s) (map root ts) = Some s' \<and>
    same_shape (orphan (set (map root ts)) s) s' \<and> map_ok s' \<and> (\<forall>e. in_map s' e \<longleftrightarrow> in_map s e \<and> (\<forall>t\<in>set ts. e \<notin> set (refs t)))"
  using assms
proof (induction ts arbitrary: s)
  case Nil
  then show ?case by (auto simp: orphan_def same_shape_def)
next
  case (Cons t ts)
  obtain s1 where s1: "(if storage then delChildrenFromStorage [root t] s else Some s) = Some s1" "gone (set (refs t)) s s1"
  proof (cases storage)
    case True
    then show ?thesis using delChildren_gone [of "[t]" s] Cons.prems that by auto
  next
    case False
    then show ?thesis using Cons.prems that by (auto simp: gone_def)
  qed
  define s2 where "s2 = upd_node (root t) (\<lambda>n. n\<lparr>n_parent := None\<rparr>) s1"
  have step: "removeAllStep storage (Some s) (root t) = Some s2"
  proof -
    have "delChildrenFromStorage [root t] s = (let s = delFromMap (n_id (node_of s (root t))) s in
                 if n_group (node_of s (root t)) then delChildrenFromStorage (n_children (node_of s (root t))) s else Some s)"
      by (subst delChildrenFromStorage.simps) (simp add: delChildren_Nil Let_def)
    then show ?thesis using s1(1) by (auto simp: removeAllStep_def s2_def)
  qed
  have sh: "same_shape s s1" and im: "in_map s1 e \<longleftrightarrow> in_map s e \<and> e \<notin> set (refs t)" for e
    using s1(2) by (simp_all add: gone_def)
  have f2: "n_id (node_of s2 x) = n_id (node_of s x)" "n_group (node_of s2 x) = n_group (node_of s x)"
    "n_children (node_of s2 x) = n_children (node_of s x)" "n_storage (node_of s2 x) = n_storage (node_of s1 x)"
    "n_parent (node_of s2 x) = (if x = root t then None else n_parent (node_of s x))"
    "s_elements s2 = s_elements s1" "s_roots s2 = s_roots s" for x
    using in_map_shape [OF sh] by (simp_all add: s2_def upd_node_def)
  have im2: "in_map s2 e \<longleftrightarrow> in_map s e \<and> e \<notin> set (refs t)" for e
    using im [of e] in_map_shape [OF sh, of e] f2(1) [of e] f2(6) by (simp add: in_map_def)
  have ok2: "map_ok s2"
    using s1(2) f2 in_map_shape [OF sh] by (simp add: gone_def map_ok_def in_map_def)
  have u2: "unique_ids s2" using Cons.prems(1) f2(1) by (simp add: unique_ids_def)
  have m2: "\<forall>t\<in>set ts. matches s2 t" using Cons.prems(3) f2(2,3) by (auto intro: matches_frame)
  have "storage \<or> (\<forall>t\<in>set ts. \<forall>e\<in>set (refs t). \<not> in_map s2 e)" using Cons.prems(4) im2 by auto
  from Cons.IH [OF u2 ok2 m2 this] obtain s3 where
    s3: "foldl (removeAllStep storage) (Some s2) (map root ts) = Some s3" "same_shape (orphan (set (map root ts)) s2) s3"
      "map_ok s3" "\<forall>e. in_map s3 e \<longleftrightarrow> in_map s2 e \<and> (\<forall>t\<in>set ts. e \<notin> set (refs t))" by blast
  have "same_shape (orphan (set (map root (t # ts))) s) s3"
    using s3(2) f2 unfolding same_shape_def by simp
  then show ?case using step s3 im2 by auto
qed

lemma removeAll_inv:
  assumes inv: "scene_inv s"
  shows "\<exists>s'. removeAll g s = Some s' \<and> scene_inv s' \<and> n_children (node_of s' g) = []"
proof -
  note I = scene_invD [OF inv]
  let ?C = "set (n_children (node_of s g))"
  have "\<forall>c\<in>?C. \<exists>t. root t = c \<and> matches s t" using tree_exists I(3) by blast
  then obtain f where f: "\<forall>c\<in>?C. root (f c) = c \<and> matches s (f c)" by metis
  let ?ts = "map f (n_children (node_of s g))"
  have ro: "map root ?ts = n_children (node_of s g)" using f by (simp add: map_idI)
  have R: "set (refs (f c)) = below s c" if "c \<in> ?C" for c using f that refs_below [OF I(3)] by auto
  have "n_storage (node_of s g) \<or> (\<forall>t\<in>set ?ts. \<forall>e\<in>set (refs t). \<not> in_map s e)"
  proof (cases "in_map s g \<or> ?C = {}")
    case True
    then show ?thesis
    proof
      assume "in_map s g"
      moreover have "n_group (node_of s g)" if "c \<in> ?C" for c using I(8) that by blast
      ultimately show ?thesis using I(2) by (cases "?C = {}") (auto simp: map_ok_def)
    next
      assume "?C = {}"
      then show ?thesis by simp
    qed
  next
    case False
    then have "\<not> in_map s e" if "c \<in> ?C" "e \<in> below s c" for c e
      using below_in_map [OF inv that(2)] I(9) [of c g] I(6) that(1) by auto
    then show ?thesis using R by auto
  qed
  then obtain s1 where s1: "foldl (removeAllStep (n_storage (node_of s g))) (Some s) (n_children (node_of s g)) = Some s1"
      "same_shape (orphan ?C s) s1" "map_ok s1" "\<forall>e. in_map s1 e \<longleftrightarrow> in_map s e \<and> (\<forall>t\<in>set ?ts. e \<notin> set (refs t))"
    using removeAll_steps [of s ?ts "n_storage (node_of s g)"] I(1,2) f ro by auto
  define s2 where "s2 = link g [] s1"
  have "scene_inv s2"
    by (rule cut_inv [OF inv order_refl [of ?C]])
      (use s1 in_map_shape [OF s1(2)] R in \<open>auto simp: s2_def\<close>)
  then show ?thesis using s1(1) by (simp add: removeAll_def s2_def link_def upd_node_def)
qed

lemma detach_any:
  assumes inv: "scene_inv s" and g: "n_parent (node_of s c) \<noteq> Some g" "c \<notin> set (s_roots s)" "g \<notin> below s c"
    and s1: "s1 = link g cs s"
  shows "\<exists>s2. (case n_parent (node_of s1 c) of None \<Rightarrow> Some s1 | Some p \<Rightarrow> group_remove p c s1) = Some s2 \<and> map_ok s2 \<and>
    s_roots s2 = s_roots s \<and> (\<forall>e. in_map s2 e \<longleftrightarrow> in_map s e \<and> e \<notin> below s c) \<and>
    (\<forall>x. n_id (node_of s2 x) = n_id (node_of s x) \<and> n_group (node_of s2 x) = n_group (node_of s x) \<and>
       n_parent (node_of s2 x) = (if x = c then None else n_parent (node_of s x)) \<and>
       n_children (node_of s2 x) = (if x = g then cs else if n_parent (node_of s c) = Some x then remove1 c (n_children (node_of s x))
         else n_children (node_of s x)))"
proof -
  note I = scene_invD [OF inv]
  obtain t where t: "root t = c" "matches s t" using tree_exists I(3) by blast
  have D: "set (refs t) = below s c" using refs_below I(3) t by blast
  have m1: "matches s1 t" by (rule matches_frame [OF t(2)]) (use D g(3) in \<open>auto simp: s1\<close>)
  show ?thesis
  proof (cases "n_parent (node_of s c)")
    case None
    then have "\<not> in_map s c" using hang_okD(4) [OF I(4), of c] g(2) by blast
    then have "\<forall>e\<in>below s c. \<not> in_map s e" using below_in_map [OF inv] by blast
    then show ?thesis using None I(2) by (auto simp: s1)
  next
    case (Some p)
    have pg: "p \<noteq> g" using Some g(1) by auto
    have "\<exists>s2. group_remove p c s1 = Some s2 \<and> gone (set (refs t)) (unlink p c s1) s2"
    proof (rule detach [OF _ _ m1])
      show "unique_ids s1" "map_ok s1" "root t = c" using I(1,2) t by (simp_all add: s1)
      show "c \<in> set (n_children (node_of s1 p))" "n_group (node_of s1 p)"
        using I(6,8) Some pg by (auto simp: s1)
      show "p \<notin> set (refs t)" using parent_not_below(1) [OF inv Some] D by simp
      show "\<not> in_map s1 p \<Longrightarrow> \<forall>e\<in>set (refs t). \<not> in_map s1 e"
        using below_in_map [OF inv] I(9) [OF Some] by (simp add: s1 D)
    qed
    then obtain s2 where s2: "group_remove p c s1 = Some s2" "gone (below s c) (unlink p c s1) s2" using D by auto
    then have sh: "same_shape (unlink p c s1) s2" by (simp add: gone_def)
    have "\<forall>x. n_id (node_of s2 x) = n_id (node_of s x) \<and> n_group (node_of s2 x) = n_group (node_of s x) \<and>
       n_parent (node_of s2 x) = (if x = c then None else n_parent (node_of s x)) \<and>
       n_children (node_of s2 x) = (if x = g then cs else if n_parent (node_of s c) = Some x then remove1 c (n_children (node_of s x))
         else n_children (node_of s x))"
      using in_map_shape [OF sh] pg Some by (simp add: s1)
    moreover have "s_roots s2 = s_roots s" using in_map_shape [OF sh] by (simp add: s1)
    ultimately show ?thesis using s2 Some by (simp add: gone_def) (simp add: s1)
  qed
qed

lemma doAdd_inv:
  assumes inv: "scene_inv s" and g: "n_parent (node_of s c) \<noteq> Some g" "n_group (node_of s g)" "c \<notin> set (s_roots s)" "g \<notin> below s c"
    and cs: "distinct cs" "set cs = insert c (set (n_children (node_of s g)))"
  shows "\<exists>s'. doAdd g c (link g cs s) = Some s' \<and> scene_inv s' \<and>
    (\<forall>e. in_map s' e \<longleftrightarrow> (if e \<in> below s c then in_map s g else in_map s e)) \<and>
    n_children (node_of s' g) = cs \<and> n_parent (node_of s' c) = Some g"
proof -
  note I = scene_invD [OF inv]
  let ?D = "below s c"
  obtain s2 where s2: "(case n_parent (node_of (link g cs s) c) of None \<Rightarrow> Some (link g cs s) | Some p \<Rightarrow> group_remove p c (link g cs s)) = Some s2"
      "map_ok s2" "s_roots s2 = s_roots s" "\<forall>e. in_map s2 e \<longleftrightarrow> in_map s e \<and> e \<notin> ?D"
    and f2: "\<forall>x. n_id (node_of s2 x) = n_id (node_of s x) \<and> n_group (node_of s2 x) = n_group (node_of s x) \<and>
       n_parent (node_of s2 x) = (if x = c then None else n_parent (node_of s x)) \<and>
       n_children (node_of s2 x) = (if x = g then cs else if n_parent (node_of s c) = Some x then remove1 c (n_children (node_of s x))
         else n_children (node_of s x))"
    using detach_any [OF inv g(1,3,4) refl, of cs] by blast
  define s3 where "s3 = upd_node c (\<lambda>n. n\<lparr>n_parent := Some g\<rparr>) s2"
  have f3: "n_id (node_of s3 x) = n_id (node_of s x)" "n_group (node_of s3 x) = n_group (node_of s x)"
      "n_parent (node_of s3 x) = (if x = c then Some g else n_parent (node_of s x))"
      "n_children (node_of s3 x) = (if x = g then cs else if n_parent (node_of s c) = Some x then remove1 c (n_children (node_of s x))
         else n_children (node_of s x))"
      "n_storage (node_of s3 x) = n_storage (node_of s2 x)" for x
    using f2 by (simp_all add: s3_def upd_node_def)
  have el3: "s_elements s3 = s_elements s2" "s_roots s3 = s_roots s" using s2(3) by (simp_all add: s3_def upd_node_def)
  have im3: "in_map s3 e \<longleftrightarrow> in_map s e \<and> e \<notin> ?D" for e
    using s2(4) f2 f3(1) [of e] el3(1) by (simp add: in_map_def)
  have ok3: "map_ok s3"
    using s2(2) f2 f3 el3 by (simp add: map_ok_def in_map_def)
  have u3: "unique_ids s3" using I(1) f3(1) by (simp add: unique_ids_def)
  obtain t where t: "root t = c" "matches s t" using tree_exists I(3) by blast
  have D: "set (refs t) = ?D" using refs_below I(3) t by blast
  have "x \<in> ?D \<Longrightarrow> n_parent (node_of s c) \<noteq> Some x" for x using parent_not_below(1) [OF inv] by blast
  then have m3: "matches s3 t"
    using D g(4) f3 by (intro matches_frame [OF t(2)]) auto
  have flags: "n_storage (node_of s3 g) \<longleftrightarrow> in_map s g" "\<not> n_storage (node_of s3 c)"
    using ok3 g(2,4) im3 f3(2) by (auto simp: map_ok_def)
  have run: "doAdd g c (link g cs s) = (if in_map s g then addChildrenToStorage [c] s3 else Some s3)"
    unfolding doAdd_def s2(1) using flags
    by (subst addChildrenToStorage.simps) (simp add: s3_def [symmetric] Let_def addChildren_Nil)
  obtain s4 where s4: "doAdd g c (link g cs s) = Some s4" "same_shape s3 s4" "map_ok s4"
      "\<forall>e. in_map s4 e \<longleftrightarrow> (if e \<in> ?D then in_map s g else in_map s e)"
  proof (cases "in_map s g")
    case True
    then show ?thesis using addChildren_entered [of "[t]" s3] m3 u3 ok3 t(1) D run im3 that by (auto simp: entered_def)
  next
    case False
    then show ?thesis using run im3 ok3 that [of s3] by auto
  qed
  have f4: "n_id (node_of s4 x) = n_id (node_of s x)" "n_group (node_of s4 x) = n_group (node_of s x)"
      "n_parent (node_of s4 x) = (if x = c then Some g else n_parent (node_of s x))"
      "n_children (node_of s4 x) = (if x = g then cs else if n_parent (node_of s c) = Some x then remove1 c (n_children (node_of s x))
         else n_children (node_of s x))" "s_roots s4 = s_roots s" for x
    using in_map_shape [OF s4(2)] f3 el3(2) by simp_all
  have "child_rel s4 \<subseteq> insert (c, g) (child_rel s)"
    using f4(4) cs(2) by (auto simp: child_rel_def dest: notin_set_remove1 split: if_splits)
  moreover have "wf (insert (c, g) (child_rel s))" using I(5) g(4) by (simp add: below_def)
  ultimately have "wf (child_rel s4)" by (rule wf_subset [rotated])
  then have "shape_ok s4"
    unfolding shape_ok_def
  proof (intro conjI allI impI)
    fix e e' assume "n_id (node_of s4 e) = n_id (node_of s4 e')"
    then show "e = e'" using f4(1) I(1) by (simp add: unique_ids_def)
  next
    fix p x
    show "x \<in> set (n_children (node_of s4 p)) \<longleftrightarrow> n_parent (node_of s4 x) = Some p"
      using f4(3) [of x] f4(4) [of p] I(6) [of x p] I(6) [of x g] I(7) [of p] cs g(1)
      by (cases "p = g"; cases "x = c"; cases "n_parent (node_of s c) = Some p") auto
  next
    fix p show "distinct (n_children (node_of s4 p))" using f4(4) [of p] I(7) cs(1) by (simp add: distinct_remove1)
  next
    fix p assume "\<not> n_group (node_of s4 p)"
    then have n: "\<not> n_group (node_of s p)" using f4(2) by simp
    then have "n_children (node_of s p) = []" using I(3) unfolding shape_ok_def by blast
    moreover have "p \<noteq> g" using n g(2) by auto
    ultimately show "n_children (node_of s4 p) = []" using f4(4) [of p] by simp
  qed
  moreover have "hang_ok s4"
    unfolding hang_ok_def
  proof (intro conjI ballI allI impI)
    show "distinct (s_roots s4)" using hang_okD(1) [OF I(4)] f4(5) by simp
  next
    fix r assume "r \<in> set (s_roots s4)"
    then have r: "r \<in> set (s_roots s)" using f4(5) by simp
    then have rn: "n_parent (node_of s r) = None" and rm: "in_map s r" using hang_okD(2,3) [OF I(4), of r] by simp_all
    have rc: "r \<noteq> c" using r g(3) by blast
    then have "r \<notin> ?D" using below_no_parent [OF inv rn] by blast
    then show "in_map s4 r" "n_parent (node_of s4 r) = None" using s4(4) f4(3) rn rm rc by simp_all
  next
    fix x p assume xp: "n_parent (node_of s4 x) = Some p"
    show "in_map s4 x \<longleftrightarrow> in_map s4 p"
    proof (cases "x = c")
      case True
      then show ?thesis using xp f4(3) s4(4) g(4) by (auto simp: )
    next
      case False
      then have "n_parent (node_of s x) = Some p" using xp f4(3) by simp
      then show ?thesis using below_parent [OF inv False] I(9) s4(4) by simp
    qed
  next
    fix x assume "in_map s4 x \<and> n_parent (node_of s4 x) = None"
    then have x: "in_map s4 x" "n_parent (node_of s x) = None" "x \<noteq> c" using f4(3) [of x] by (auto split: if_splits)
    then have "x \<notin> ?D" using below_no_parent [OF inv] by blast
    then show "x \<in> set (s_roots s4)" using x s4(4) hang_okD(4) [OF I(4), of x] f4(5) by simp
  qed
  moreover have "n_children (node_of s4 g) = cs" "n_parent (node_of s4 c) = Some g" using f4 by simp_all
  ultimately show ?thesis using s4 by (auto simp: scene_inv_def)
qed

lemma group_add_inv:
  assumes inv: "scene_inv s" and g: "n_group (node_of s g)" "c \<notin> set (s_roots s)" "g \<notin> below s c"
  shows "\<exists>s'. group_add g c s = Some s' \<and> scene_inv s' \<and>
    (\<forall>e. in_map s' e \<longleftrightarrow> (if e \<in> below s c then in_map s g else in_map s e)) \<and> n_parent (node_of s' c) = Some g"
proof (cases "n_parent (node_of s c) = Some g")
  case True
  then show ?thesis
    using inv below_in_map [OF inv, of _ c] scene_invD(9) [OF inv True] by (auto simp: group_add_def)
next
  case False
  note I = scene_invD [OF inv]
  have "c \<noteq> g" using g(3) by auto
  then have "group_add g c s = doAdd g c (link g (n_children (node_of s g) @ [c]) s)"
    using False by (simp add: group_add_def link_def upd_node_def)
  moreover have "distinct (n_children (node_of s g) @ [c])" using I(6) I(7) False by simp
  ultimately show ?thesis
    using doAdd_inv [OF inv False g, of "n_children (node_of s g) @ [c]"] by auto
qed

lemma insert_before_set: "set (insert_before x y xs) = insert x (set xs)"
proof -
  have "set xs = set (takeWhile (\<lambda>z. z \<noteq> y) xs) \<union> set (dropWhile (\<lambda>z. z \<noteq> y) xs)"
    by (metis set_append takeWhile_dropWhile_id)
  then show ?thesis by (auto simp: insert_before_def)
qed

lemma insert_before_distinct:
  assumes "distinct xs" "x \<notin> set xs"
  shows "distinct (insert_before x y xs)"
proof -
  have xs: "takeWhile (\<lambda>z. z \<noteq> y) xs @ dropWhile (\<lambda>z. z \<noteq> y) xs = xs" by simp
  then have "distinct (takeWhile (\<lambda>z. z \<noteq> y) xs @ dropWhile (\<lambda>z. z \<noteq> y) xs)"
    "x \<notin> set (takeWhile (\<lambda>z. z \<noteq> y) xs @ dropWhile (\<lambda>z. z \<noteq> y) xs)" using assms unfolding xs by simp_all
  then show ?thesis unfolding insert_before_def distinct_append set_append by auto
qed

lemma addBefore_inv:
  assumes inv: "scene_inv s" and g: "n_group (node_of s g)" "c \<notin> set (s_roots s)" "g \<notin> below s c"
  shows "\<exists>s'. addBefore g c x s = Some s' \<and> scene_inv s'"
proof (cases "n_parent (node_of s c) = Some g \<or> n_parent (node_of s x) \<noteq> Some g")
  case True
  then show ?thesis using inv by (auto simp: addBefore_def)
next
  case False
  note I = scene_invD [OF inv]
  let ?cs = "insert_before c x (n_children (node_of s g))"
  have p: "n_parent (node_of s c) \<noteq> Some g" "c \<noteq> g" "x \<in> set (n_children (node_of s g))" using False g(3) I(6) by auto
  then have "addBefore g c x s = doAdd g c (link g ?cs s)"
    using False by (simp add: addBefore_def link_def upd_node_def)
  moreover have "distinct ?cs" using insert_before_distinct I(6,7) p(1) by simp
  ultimately show ?thesis
    using doAdd_inv [OF inv p(1) g, of ?cs] by (auto simp: insert_before_set)
qed

section \<open>Roots\<close>

lemma shape_ok_shape: "same_shape s s' \<Longrightarrow> shape_ok s' = shape_ok s"
  by (simp add: shape_ok_def child_rel_def same_shape_def)

lemma below_shape: "same_shape s s' \<Longrightarrow> below s' r = below s r"
  by (simp add: below_def child_rel_def same_shape_def)

lemma children_trees:
  assumes "scene_inv s"
  obtains ts where "map root ts = n_children (node_of s r)" "\<forall>t\<in>set ts. matches s t"
    and "insert r (\<Union>t\<in>set ts. set (refs t)) = below s r"
proof -
  note I = scene_invD [OF assms]
  obtain f where f: "\<forall>c. root (f c) = c \<and> matches s (f c)" using tree_exists [OF I(3)] by metis
  have "set (refs (f c)) = below s c" for c using refs_below [OF I(3), of "f c"] f by simp
  then have "insert r (\<Union>t\<in>set (map f (n_children (node_of s r))). set (refs t)) = below s r"
    using below_unfold [of s r] by simp
  moreover have "map root (map f (n_children (node_of s r))) = n_children (node_of s r)" using f by (simp add: map_idI)
  ultimately show thesis using f by (intro that [of "map f (n_children (node_of s r))"]) simp_all
qed

lemma addRoot_inv:
  assumes inv: "scene_inv s" and p: "n_parent (node_of s r) = None"
  shows "\<exists>s'. addRoot r s = Some s' \<and> scene_inv s' \<and> in_map s' r"
proof -
  note I = scene_invD [OF inv]
  show ?thesis
  proof (cases "s_elements s (n_id (node_of s r))")
    case (Some e)
    then have "n_id (node_of s e) = n_id (node_of s r)" using I(2) by (simp add: map_ok_def)
    then have "e = r" using I(1) by (simp add: unique_ids_def)
    then show ?thesis using Some inv by (simp add: addRoot_def in_map_def)
  next
    case None
    then have nr: "\<not> in_map s r" by (simp add: in_map_def)
    then have out: "\<not> in_map s e" if "e \<in> below s r" for e using below_in_map [OF inv that] by simp
    obtain ts where ts: "map root ts = n_children (node_of s r)" "\<forall>t\<in>set ts. matches s t"
      "insert r (\<Union>t\<in>set ts. set (refs t)) = below s r" by (rule children_trees [OF inv])
    let ?D = "\<Union>t\<in>set ts. set (refs t)"
    obtain s1 where s1: "addChildrenToStorage (n_children (node_of s r)) s = Some s1" "entered ?D s s1"
      using addChildren_entered [OF ts(2) I(1,2)] ts(1) by auto
    have leaf: "\<not> n_group (node_of s r) \<Longrightarrow> n_children (node_of s r) = []" using I(3) unfolding shape_ok_def by blast
    have run: "(if n_group (node_of s r) then addChildrenToStorage (n_children (node_of s r)) s else Some s) = Some s1"
      using s1(1) leaf by (auto simp: addChildren_Nil)
    have e1: "same_shape s s1" "map_ok s1" using s1(2) by (simp_all add: entered_def)
    have "entered {r} s1 (addToMap r s1)"
      by (rule addToMap_entered [OF unique_ids_shape [OF e1(1) I(1)] e1(2)])
    then have e2: "entered (below s r) s (addToMap r s1)"
      using entered_trans [OF s1(2)] ts(3) by (metis Un_insert_right insert_is_Un sup_bot.right_neutral)
    define s2 where "s2 = (addToMap r s1)\<lparr>s_roots := s_roots s @ [r]\<rparr>"
    have sh: "same_shape s (addToMap r s1)" and im: "in_map (addToMap r s1) e \<longleftrightarrow> in_map s e \<or> e \<in> below s r"
      and ok: "map_ok (addToMap r s1)" for e
      using e2 by (simp_all add: entered_def)
    have im2: "in_map s2 e \<longleftrightarrow> in_map s e \<or> e \<in> below s r" for e using im [of e] by (simp add: s2_def in_map_def)
    have n2: "n_parent (node_of s2 x) = n_parent (node_of s x)" for x using in_map_shape [OF sh] by (simp add: s2_def)
    have "shape_ok s2 = shape_ok (addToMap r s1)" by (simp add: s2_def shape_ok_def child_rel_def)
    then have "shape_ok s2" using shape_ok_shape [OF sh] I(3) by simp
    moreover have "map_ok s2" using ok by (simp add: s2_def map_ok_def in_map_def)
    moreover have "hang_ok s2"
      unfolding hang_ok_def im2 n2
    proof (intro conjI ballI allI impI)
      show "distinct (s_roots s2)" using hang_okD(1,2) [OF I(4)] nr by (auto simp: s2_def)
    next
      fix x assume "x \<in> set (s_roots s2)"
      then show "in_map s x \<or> x \<in> below s r" "n_parent (node_of s x) = None"
        using hang_okD(2,3) [OF I(4)] p by (auto simp: s2_def)
    next
      fix x q assume xq: "n_parent (node_of s x) = Some q"
      then have "x \<noteq> r" using p by auto
      then show "in_map s x \<or> x \<in> below s r \<longleftrightarrow> in_map s q \<or> q \<in> below s r"
        using below_parent [OF inv _ xq] I(9) [OF xq] by blast
    next
      fix x assume x: "(in_map s x \<or> x \<in> below s r) \<and> n_parent (node_of s x) = None"
      then show "x \<in> set (s_roots s2)"
        using hang_okD(4) [OF I(4), of x] below_no_parent [OF inv, of x r] by (auto simp: s2_def)
    qed
    moreover have "addRoot r s = Some s2"
      using None run in_map_shape [OF e1(1)] in_map_shape [OF sh] by (simp add: addRoot_def s2_def)
    ultimately show ?thesis using im2 [of r] by (auto simp: scene_inv_def)
  qed
qed

lemma delRootEl_inv:
  assumes inv: "scene_inv s"
  shows "\<exists>s'. delRootEl r s = Some s' \<and> scene_inv s' \<and> r \<notin> set (s_roots s')"
proof (cases "r \<in> set (s_roots s)")
  case False
  then show ?thesis using inv by (simp add: delRootEl_def)
next
  case r: True
  note I = scene_invD [OF inv]
  have p: "n_parent (node_of s r) = None" by (rule hang_okD(3) [OF I(4) r])
  obtain ts where ts: "map root ts = n_children (node_of s r)" "\<forall>t\<in>set ts. matches s t"
    "insert r (\<Union>t\<in>set ts. set (refs t)) = below s r" by (rule children_trees [OF inv])
  define s1 where "s1 = delFromMap (n_id (node_of s r)) s"
  have g1: "gone {r} s s1" unfolding s1_def by (rule delFromMap_gone [OF I(1,2)])
  have e1: "same_shape s s1" "map_ok s1" using g1 by (simp_all add: gone_def)
  define s2 where "s2 = s1\<lparr>s_roots := remove1 r (s_roots s)\<rparr>"
  have n2: "n_children (node_of s2 x) = n_children (node_of s x)" "n_group (node_of s2 x) = n_group (node_of s x)" for x
    using in_map_shape [OF e1(1), of x] by (simp_all add: s2_def)
  have m2: "\<forall>t\<in>set ts. matches s2 t" using matches_frame [of s _ s2] n2 ts(2) by blast
  have u2: "unique_ids s2" using unique_ids_shape [OF e1(1) I(1)] by (simp add: s2_def unique_ids_def)
  have ok2: "map_ok s2" using e1(2) by (simp add: s2_def map_ok_def in_map_def)
  let ?D = "\<Union>t\<in>set ts. set (refs t)"
  obtain s3 where s3: "delChildrenFromStorage (n_children (node_of s r)) s2 = Some s3" "gone ?D s2 s3"
    using delChildren_gone [OF m2 u2 ok2] ts(1) by auto
  have leaf: "\<not> n_group (node_of s r) \<Longrightarrow> n_children (node_of s r) = []" using I(3) unfolding shape_ok_def by blast
  have run: "delRootEl r s = Some s3"
    using r s3(1) leaf in_map_shape [OF e1(1)] by (cases "n_group (node_of s r)") (auto simp: delRootEl_def s1_def [symmetric] s2_def Let_def delChildren_Nil)
  have e3: "same_shape s2 s3" "map_ok s3" using s3(2) by (simp_all add: gone_def)
  have n3: "n_parent (node_of s3 x) = n_parent (node_of s x)" for x
    using in_map_shape [OF e3(1)] in_map_shape [OF e1(1)] by (simp add: s2_def)
  have im3: "in_map s3 e \<longleftrightarrow> in_map s e \<and> e \<notin> below s r" for e
  proof -
    have "in_map s3 e \<longleftrightarrow> in_map s2 e \<and> e \<notin> ?D" using s3(2) unfolding gone_def by blast
    moreover have "in_map s1 e \<longleftrightarrow> in_map s e \<and> e \<noteq> r" using g1 unfolding gone_def by blast
    moreover have "in_map s2 e = in_map s1 e" by (simp add: s2_def in_map_def)
    ultimately show ?thesis unfolding ts(3) [symmetric] by blast
  qed
  have ro: "s_roots s3 = remove1 r (s_roots s)" using in_map_shape [OF e3(1)] by (simp add: s2_def)
  have "shape_ok s2 = shape_ok s1" by (simp add: s2_def shape_ok_def child_rel_def)
  then have "shape_ok s3" using shape_ok_shape [OF e3(1)] shape_ok_shape [OF e1(1)] I(3) by simp
  moreover have "hang_ok s3"
    unfolding hang_ok_def im3 n3 ro
  proof (intro conjI ballI allI impI)
    show "distinct (remove1 r (s_roots s))" using hang_okD(1) [OF I(4)] by (rule distinct_remove1)
  next
    fix x assume "x \<in> set (remove1 r (s_roots s))"
    then have x: "x \<in> set (s_roots s)" "x \<noteq> r" using hang_okD(1) [OF I(4)] by simp_all
    then show "n_parent (node_of s x) = None" "in_map s x" using hang_okD(2,3) [OF I(4)] by simp_all
    then show "x \<notin> below s r" using below_no_parent [OF inv, of x r] x(2) by blast
  next
    fix x q assume xq: "n_parent (node_of s x) = Some q"
    then have "x \<noteq> r" using p by auto
    then show "in_map s x \<and> x \<notin> below s r \<longleftrightarrow> in_map s q \<and> q \<notin> below s r"
      using below_parent [OF inv _ xq] I(9) [OF xq] by blast
  next
    fix x assume x: "(in_map s x \<and> x \<notin> below s r) \<and> n_parent (node_of s x) = None"
    then have "x \<noteq> r" by auto
    then show "x \<in> set (remove1 r (s_roots s))" using x hang_okD(4) [OF I(4), of x] by simp
  qed
  ultimately have "scene_inv s3" using e3(2) by (simp add: scene_inv_def)
  then show ?thesis using run ro hang_okD(1) [OF I(4)] by simp
qed

text \<open>In a scene with the invariant, the map holds what hangs from the roots.\<close>

lemma in_map_finite:
  assumes "map_ok s" "unique_ids s"
  shows "finite {e. in_map s e}"
proof -
  have "finite (ran (s_elements s))" using assms(1) by (intro finite_ran) (simp add: map_ok_def)
  moreover have "{e. in_map s e} \<subseteq> ran (s_elements s)" by (auto simp: in_map_def ran_def)
  ultimately show ?thesis by (rule finite_subset [rotated])
qed

lemma in_map_roots:
  assumes inv: "scene_inv s"
  shows "in_map s e \<longleftrightarrow> (\<exists>r\<in>set (s_roots s). e \<in> below s r)"
proof
  note I = scene_invD [OF inv]
  show "\<exists>r\<in>set (s_roots s). e \<in> below s r \<Longrightarrow> in_map s e"
    using below_in_map [OF inv] hang_okD(2) [OF I(4)] by blast
  let ?R = "child_rel s \<inter> {e. in_map s e} \<times> {e. in_map s e}"
  have "acyclic ?R" using wf_acyclic [OF I(5)] by (rule acyclic_subset) simp
  moreover have "finite ?R" using in_map_finite [OF I(2,1)] by (intro finite_Int disjI2) simp
  ultimately have wf: "wf (?R\<inverse>)" by (simp add: finite_acyclic_wf_converse)
  show "in_map s e \<Longrightarrow> \<exists>r\<in>set (s_roots s). e \<in> below s r"
  proof (induction e rule: wf_induct_rule [OF wf])
    case (1 e)
    show ?case
    proof (cases "n_parent (node_of s e)")
      case None
      then show ?thesis using hang_okD(4) [OF I(4) "1.prems"] below_self by blast
    next
      case (Some p)
      then have "(p, e) \<in> ?R\<inverse>" "in_map s p" using I(6) I(9) [OF Some] "1.prems" by (auto simp: child_rel_def)
      then obtain r where r: "r \<in> set (s_roots s)" "p \<in> below s r" using "1.IH" by blast
      then have "e \<in> below s r" using below_parent [OF inv _ Some, of r] by (cases "e = r") simp_all
      then show ?thesis using r(1) by blast
    qed
  qed
qed

section \<open>Reachable scenes\<close>

text \<open>The elements before any of them is linked or shown.\<close>

definition fresh :: "(nat \<Rightarrow> node) \<Rightarrow> bool" where
  "fresh nodes \<longleftrightarrow> (\<forall>e e'. n_id (nodes e) = n_id (nodes e') \<longrightarrow> e = e') \<and>
     (\<forall>e. n_parent (nodes e) = None \<and> n_children (nodes e) = [] \<and> \<not> n_storage (nodes e))"

lemma newStorage_inv: "fresh nodes \<Longrightarrow> scene_inv (newStorage nodes)"
  by (simp add: scene_inv_def shape_ok_def map_ok_def hang_ok_def fresh_def newStorage_def child_rel_def in_map_def)

text \<open>
  The operations a client may apply: an element that is added to a group is not a root and has
  not that group below it, and a root has no parent.
\<close>

inductive scene_step :: "scene \<Rightarrow> scene \<Rightarrow> bool" where
  add: "n_group (node_of s g) \<Longrightarrow> c \<notin> set (s_roots s) \<Longrightarrow> g \<notin> below s c \<Longrightarrow> group_add g c s = Some s' \<Longrightarrow> scene_step s s'"
| before: "n_group (node_of s g) \<Longrightarrow> c \<notin> set (s_roots s) \<Longrightarrow> g \<notin> below s c \<Longrightarrow> addBefore g c x s = Some s' \<Longrightarrow> scene_step s s'"
| drop: "group_remove g c s = Some s' \<Longrightarrow> scene_step s s'"
| drop_all: "removeAll g s = Some s' \<Longrightarrow> scene_step s s'"
| root: "n_parent (node_of s r) = None \<Longrightarrow> addRoot r s = Some s' \<Longrightarrow> scene_step s s'"
| unroot: "delRoots args s = Some s' \<Longrightarrow> scene_step s s'"

lemma delRoots_inv: "scene_inv s \<Longrightarrow> \<exists>s'. delRoots args s = Some s' \<and> scene_inv s'"
proof (induction args arbitrary: s)
  case (Cons a args)
  have "\<exists>s'. delRoot a s = Some s' \<and> scene_inv s'"
    using delRootEl_inv [OF Cons.prems] Cons.prems by (auto simp: delRoot_def split: root_arg.split option.split)
  then obtain s1 where "delRoot a s = Some s1" "scene_inv s1" by blast
  then show ?case using Cons.IH [of s1] by simp
qed simp

lemma scene_step_inv: "scene_step s s' \<Longrightarrow> scene_inv s \<Longrightarrow> scene_inv s'"
proof (induction rule: scene_step.induct)
  case (add s g c s')
  then show ?case using group_add_inv [of s g c] by auto
next
  case (before s g c x s')
  then show ?case using addBefore_inv [of s g c x] by auto
next
  case (drop g c s s')
  then show ?case using group_remove_inv [of s g c] by auto
next
  case (drop_all g s s')
  then show ?case using removeAll_inv [of s g] by auto
next
  case (root s r s')
  then show ?case using addRoot_inv [of s r] by auto
next
  case (unroot args s s')
  then show ?case using delRoots_inv [of s args] by auto
qed

lemma reachable_inv: "scene_step\<^sup>*\<^sup>* (newStorage nodes) s \<Longrightarrow> fresh nodes \<Longrightarrow> scene_inv s"
  by (induction rule: rtranclp_induct) (simp_all add: newStorage_inv scene_step_inv)

section \<open>Properties\<close>


text \<open>
  C7. In every reachable scene, adding to a group an element that is not a root and has not the
  group below it returns; afterwards the element hangs from the group, and all below it is in the
  map exactly if the group is, while the rest of the map is as before.
\<close>

theorem group_add_moves:
  assumes "fresh nodes" "scene_step\<^sup>*\<^sup>* (newStorage nodes) s"
    and "n_group (node_of s g)" "c \<notin> set (s_roots s)" "g \<notin> below s c"
  shows "\<exists>s'. group_add g c s = Some s' \<and> n_parent (node_of s' c) = Some g \<and> c \<in> set (n_children (node_of s' g)) \<and>
    (\<forall>e. storage_get (n_id (node_of s' e)) s' = Some e \<longleftrightarrow>
      storage_get (n_id (node_of s (if e \<in> below s c then g else e))) s = Some (if e \<in> below s c then g else e))"
proof -
  have inv: "scene_inv s" by (rule reachable_inv [OF assms(2,1)])
  obtain s' where s': "group_add g c s = Some s'" "scene_inv s'" "n_parent (node_of s' c) = Some g"
      "\<forall>e. in_map s' e \<longleftrightarrow> (if e \<in> below s c then in_map s g else in_map s e)"
    using group_add_inv [OF inv assms(3-5)] by blast
  have "c \<in> set (n_children (node_of s' g))" using scene_invD(6) [OF s'(2)] s'(3) by simp
  then show ?thesis using s'(1,3,4) by (simp add: in_map_def storage_get_def)
qed

text \<open>A group 0 shown as a root, into which element 1 is added.\<close>

definition demo_nodes :: "nat \<Rightarrow> node" where
  "demo_nodes r = \<lparr>n_id = replicate r CHR ''i'', n_name = [], n_group = (r = 0 \<or> r = 2), n_parent = None, n_children = [],
     n_storage = False, n_dirty = True, n_ignore = False, n_zlevel = 0, n_z = 0, n_z2 = 0, n_clipPath = None, n_clipPaths = None\<rparr>"

definition demo_root :: scene where
  "demo_root = the (addRoot 0 (newStorage demo_nodes))"

definition demo_added :: scene where
  "demo_added = the (group_add 0 1 demo_root)"

lemma demo_fresh: "fresh demo_nodes"
proof -
  have "r = r'" if "replicate r CHR ''i'' = replicate r' CHR ''i''" for r r' :: nat
    using that by (metis length_replicate)
  then show ?thesis by (simp add: fresh_def demo_nodes_def)
qed

lemma demo_root_run: "addRoot 0 (newStorage demo_nodes) = Some demo_root"
  by (simp add: demo_root_def addRoot_def newStorage_def demo_nodes_def addChildrenToStorage.simps addToMap_def upd_node_def Let_def)

lemma demo_root_nodes: "node_of demo_root = demo_nodes(0 := (demo_nodes 0)\<lparr>n_storage := True\<rparr>)" "s_roots demo_root = [0]"
    "s_elements demo_root = [n_id (demo_nodes 0) \<mapsto> 0]"
  by (auto simp: demo_root_def addRoot_def newStorage_def demo_nodes_def addChildrenToStorage.simps addToMap_def upd_node_def Let_def)

lemma demo_added_run: "group_add 0 1 demo_root = Some demo_added"
  by (simp add: demo_added_def group_add_def doAdd_def demo_root_nodes upd_node_def addToMap_def Let_def demo_nodes_def)

lemma demo_below: "0 \<notin> below demo_root 1"
  by (subst below_unfold) (simp add: demo_root_nodes demo_nodes_def)

lemma demo_steps: "scene_step\<^sup>*\<^sup>* (newStorage demo_nodes) demo_root" "scene_step\<^sup>*\<^sup>* (newStorage demo_nodes) demo_added"
proof -
  have "scene_step (newStorage demo_nodes) demo_root"
    by (rule scene_step.root [OF _ demo_root_run]) (simp add: newStorage_def demo_nodes_def)
  moreover have "scene_step demo_root demo_added"
    by (rule scene_step.add [OF _ _ demo_below demo_added_run]) (simp_all add: demo_root_nodes demo_nodes_def)
  ultimately show "scene_step\<^sup>*\<^sup>* (newStorage demo_nodes) demo_root" "scene_step\<^sup>*\<^sup>* (newStorage demo_nodes) demo_added"
    by (auto intro: rtranclp.rtrancl_into_rtrancl)
qed


theorem group_add_moves_witness:
  "\<exists>s'. group_add 0 1 demo_root = Some s' \<and> n_parent (node_of s' 1) = Some 0 \<and> storage_get (n_id (node_of s' 1)) s' = Some 1"
proof -
  have "n_group (node_of demo_root 0)" "1 \<notin> set (s_roots demo_root)" by (simp_all add: demo_root_nodes demo_nodes_def)
  from group_add_moves [OF demo_fresh demo_steps(1) this demo_below]
  obtain s' where s': "group_add 0 1 demo_root = Some s'" "n_parent (node_of s' 1) = Some 0"
    "\<forall>e. storage_get (n_id (node_of s' e)) s' = Some e \<longleftrightarrow>
      storage_get (n_id (node_of demo_root (if e \<in> below demo_root 1 then 0 else e))) demo_root = Some (if e \<in> below demo_root 1 then 0 else e)"
    by blast
  have "storage_get (n_id (node_of s' 1)) s' = Some 1"
    using s'(3) below_self [of 1 demo_root] by (simp add: storage_get_def demo_root_nodes demo_nodes_def)
  then show ?thesis using s'(1,2) by blast
qed

text \<open>
  Clearing all roots at once empties the map but leaves a root group its storage flag: an
  element that is added to the group later enters the map although the group is not shown.
\<close>

lemma clearRoots_leaves_flag:
  "\<exists>s s'. clearRoots demo_root = Some s \<and> s_roots s = [] \<and> n_storage (node_of s 0) \<and>
    group_add 0 1 s = Some s' \<and> storage_get (n_id (node_of s' 1)) s' = Some 1"
  by (simp add: clearRoots_def demo_root_nodes demo_nodes_def delChildrenFromStorage.simps group_add_def doAdd_def upd_node_def
      addToMap_def Let_def storage_get_def)

end
