(* ===== verification/Data_List.thy ===== *)
theory Data_List
  imports Js_Strings Data_Differ
begin

text \<open>
  The table of data \<open>data/List\<close> (module 98): the raw columns, the indices of the rows that are left, the
  names and identifiers of rows, stacking and the cache of extents, with filtering, mapping,
  sampling and differences. Columns are never written once a list has been returned, so lists that
  share columns are modelled as values. Numbers are integers in the exact range, the two
  infinities and \<open>NaN\<close>; \<open>Undef\<close> is what a hole of an array reads as.
\<close>

section \<open>Numbers\<close>

datatype num = Undef | NaN | NegInf | Fin int | PosInf

fun num_less :: "num \<Rightarrow> num \<Rightarrow> bool" where
  "num_less (Fin a) (Fin b) = (a < b)"
| "num_less NegInf (Fin b) = True"
| "num_less NegInf PosInf = True"
| "num_less (Fin a) PosInf = True"
| "num_less _ _ = False"

definition num_isNaN :: "num \<Rightarrow> bool" where
  "num_isNaN x \<longleftrightarrow> x = Undef \<or> x = NaN"

definition num_le :: "num \<Rightarrow> num \<Rightarrow> bool" where
  "num_le x y \<longleftrightarrow> num_less x y \<or> x = y \<and> \<not> num_isNaN x"

text \<open>Strict equality: only \<open>NaN\<close> differs from itself.\<close>

definition num_eq :: "num \<Rightarrow> num \<Rightarrow> bool" where
  "num_eq x y \<longleftrightarrow> x = y \<and> x \<noteq> NaN"

fun num_add :: "num \<Rightarrow> num \<Rightarrow> num" where
  "num_add (Fin a) (Fin b) = Fin (a + b)"
| "num_add PosInf (Fin b) = PosInf"
| "num_add (Fin a) PosInf = PosInf"
| "num_add PosInf PosInf = PosInf"
| "num_add NegInf (Fin b) = NegInf"
| "num_add (Fin a) NegInf = NegInf"
| "num_add NegInf NegInf = NegInf"
| "num_add _ _ = NaN"

fun num_neg :: "num \<Rightarrow> num" where
  "num_neg (Fin a) = Fin (- a)"
| "num_neg PosInf = NegInf"
| "num_neg NegInf = PosInf"
| "num_neg _ = NaN"

definition num_sub :: "num \<Rightarrow> num \<Rightarrow> num" where
  "num_sub x y = num_add x (num_neg y)"

definition num_abs :: "num \<Rightarrow> num" where
  "num_abs x = (if num_less x (Fin 0) then num_neg x else x)"

section \<open>State\<close>

record diminfo =
  di_name :: string
  di_type :: string
  di_stackable :: bool

text \<open>A dimension is given by its name or by its description, and is addressed by name or position.\<close>

datatype dimdef = Named string | Described string "string option" bool

datatype dim = By_Name string | By_Index nat

text \<open>What the list reads of a raw item besides its values.\<close>

record item =
  r_name :: "string option"
  r_id :: "string option"
  r_values :: "num list"

type_synonym column = "num list"

record ('v, 'y) dlist =
  dl_dimensions :: "string list"
  dl_infos :: "string \<rightharpoonup> diminfo"
  dl_indices :: "nat list"
  dl_storage :: "string \<rightharpoonup> column"
  dl_nameList :: "nat \<rightharpoonup> string"
  dl_idList :: "nat \<rightharpoonup> string"
  dl_stackedOn :: "(nat list \<times> (string \<rightharpoonup> column)) list"
  dl_rawData :: "item list"
  dl_extent :: "string \<times> bool \<rightharpoonup> num \<times> num"
  dl_visual :: "string \<rightharpoonup> 'v"
  dl_itemVisuals :: "nat \<Rightarrow> string \<rightharpoonup> 'v"
  dl_layout :: "string \<rightharpoonup> 'y"
  dl_itemLayouts :: "nat \<rightharpoonup> (string \<rightharpoonup> 'y)"

definition dim_info :: "dimdef \<Rightarrow> diminfo" where
  "dim_info d = (case d of
      Named n \<Rightarrow> \<lparr>di_name = n, di_type = ''number'', di_stackable = False\<rparr>
    | Described n t s \<Rightarrow> \<lparr>di_name = n,
        di_type = (case t of None \<Rightarrow> ''number'' | Some t \<Rightarrow> if t = '''' then ''number'' else t), di_stackable = s\<rparr>)"

definition newList :: "dimdef list option \<Rightarrow> ('v, 'y) dlist" where
  "newList dimensions =
     (let infos = map dim_info (case dimensions of None \<Rightarrow> [Named ''x'', Named ''y''] | Some ds \<Rightarrow> ds) in
      \<lparr>dl_dimensions = map di_name infos,
       dl_infos = foldl (\<lambda>m d. m(di_name d \<mapsto> d)) Map.empty infos,
       dl_indices = [], dl_storage = Map.empty, dl_nameList = Map.empty, dl_idList = Map.empty,
       dl_stackedOn = [], dl_rawData = [], dl_extent = Map.empty, dl_visual = Map.empty,
       dl_itemVisuals = (\<lambda>_. Map.empty), dl_layout = Map.empty, dl_itemLayouts = Map.empty\<rparr>)"

definition getDimension :: "dim \<Rightarrow> ('v, 'y) dlist \<Rightarrow> string" where
  "getDimension d l = (case d of
      By_Name n \<Rightarrow> n
    | By_Index i \<Rightarrow> if i < length (dl_dimensions l) \<and> dl_dimensions l ! i \<noteq> '''' then dl_dimensions l ! i else dec i)"

definition getDimensionInfo :: "dim \<Rightarrow> ('v, 'y) dlist \<Rightarrow> diminfo option" where
  "getDimensionInfo d l = dl_infos l (getDimension d l)"

section \<open>Filling a list\<close>

definition entry_at :: "string list \<Rightarrow> nat \<Rightarrow> string" where
  "entry_at nameList i = (if i < length nameList then nameList ! i else '''')"

text \<open>
  How often a name was met, in a plain object. Of an inherited name the first count is a function, whose
  increment is \<open>NaN\<close> and counts as zero afterwards, and \<open>__proto__\<close> cannot be set to a number at all.
\<close>

definition repeat_count :: "(string \<rightharpoonup> nat) \<Rightarrow> string \<Rightarrow> nat" where
  "repeat_count m k = (case m k of None \<Rightarrow> 0 | Some c \<Rightarrow> c)"

definition count_name :: "string \<Rightarrow> (string \<rightharpoonup> nat) \<Rightarrow> (string \<rightharpoonup> nat)" where
  "count_name k m = (case m k of
      Some c \<Rightarrow> m(k \<mapsto> c + 1)
    | None \<Rightarrow> if k = ''__proto__'' then m else m(k \<mapsto> (if k \<in> set object_members then 0 else 1)))"

text \<open>Name and identifier of one row; a repeated name gets a numbered identifier.\<close>

definition assignName ::
  "string list \<Rightarrow> (nat \<rightharpoonup> string) \<times> (nat \<rightharpoonup> string) \<times> (string \<rightharpoonup> nat) \<Rightarrow> nat \<times> item \<Rightarrow>
     (nat \<rightharpoonup> string) \<times> (nat \<rightharpoonup> string) \<times> (string \<rightharpoonup> nat)" where
  "assignName nameList = (\<lambda>(names, ids, count) (i, it).
     let names = (if entry_at nameList i \<noteq> '''' then names(i \<mapsto> entry_at nameList i)
                  else case r_name it of None \<Rightarrow> names | Some n \<Rightarrow> names(i \<mapsto> n));
         name = (case names i of None \<Rightarrow> '''' | Some n \<Rightarrow> n);
         given = (case r_id it of None \<Rightarrow> '''' | Some d \<Rightarrow> d);
         (id, count) = (if given = '''' \<and> name \<noteq> '''' then
             (if repeat_count count name > 0 then name @ ''__ec__'' @ dec (repeat_count count name) else name, count_name name count)
           else (given, count));
         ids = (if id \<noteq> '''' then ids(i \<mapsto> id) else ids) in
     (names, ids, count))"

definition assignNames :: "string list \<Rightarrow> item list \<Rightarrow> (nat \<rightharpoonup> string) \<times> (nat \<rightharpoonup> string) \<times> (string \<rightharpoonup> nat)" where
  "assignNames nameList data = foldl (assignName nameList) (Map.empty, Map.empty, Map.empty) (enumerate 0 data)"

text \<open>
  The column types: a typed array of integers stores only 32-bit integers, a typed array of
  floats no holes. Another type has no constructor, which raises a \<open>TypeError\<close>, here \<open>None\<close>.
\<close>

definition dataCtors :: "string list" where
  "dataCtors = [''float'', ''int'', ''ordinal'', ''number'', ''time'']"

definition stored :: "string \<Rightarrow> num \<Rightarrow> num" where
  "stored t v =
     (if t = ''int'' then (case v of Fin i \<Rightarrow> Fin (to_int32 i) | _ \<Rightarrow> Fin 0)
      else if t = ''float'' \<and> v = Undef then NaN else v)"

definition blank :: "string \<Rightarrow> nat \<Rightarrow> column" where
  "blank t n = replicate n (if t = ''int'' \<or> t = ''float'' then Fin 0 else Undef)"

text \<open>A write past the end is lost in a typed array and extends another one.\<close>

definition put_cell :: "string \<Rightarrow> column \<Rightarrow> nat \<Rightarrow> num \<Rightarrow> column" where
  "put_cell t xs i v =
     (if i < length xs then xs[i := stored t v]
      else if t = ''int'' \<or> t = ''float'' then xs else xs @ replicate (i - length xs) Undef @ [v])"

definition type_of :: "string \<Rightarrow> ('v, 'y) dlist \<Rightarrow> string" where
  "type_of d l = (case dl_infos l d of None \<Rightarrow> '''' | Some i \<Rightarrow> di_type i)"

text \<open>The getter of a value gets the item, the dimension, the row and the position of the dimension.\<close>

definition initData ::
  "item list \<Rightarrow> string list \<Rightarrow> (item \<Rightarrow> string \<Rightarrow> nat \<Rightarrow> nat \<Rightarrow> num) \<Rightarrow> ('v, 'y) dlist \<Rightarrow> ('v, 'y) dlist option" where
  "initData data nameList dimValueGetter l =
     (if list_all (\<lambda>d. type_of d l \<in> set dataCtors) (dl_dimensions l) then
        let (names, ids, _) = assignNames nameList data in
        Some (l\<lparr>dl_rawData := data,
          dl_storage := foldl (\<lambda>m (k, d). m(d \<mapsto> map (\<lambda>(idx, it). stored (type_of d l) (dimValueGetter it d idx k)) (enumerate 0 data)))
            Map.empty (enumerate 0 (dl_dimensions l)),
          dl_indices := [0..<length data],
          dl_nameList := names, dl_idList := ids\<rparr>)
      else None)"

section \<open>Reading\<close>

definition count :: "('v, 'y) dlist \<Rightarrow> nat" where
  "count l = length (dl_indices l)"

text \<open>A cell of a column; \<open>None\<close> is a row out of range, for which the code returns \<open>NaN\<close>.\<close>

definition cell :: "nat list \<Rightarrow> (string \<rightharpoonup> column) \<Rightarrow> string \<Rightarrow> nat \<Rightarrow> num" where
  "cell indices storage d idx =
     (if idx < length indices then
        case storage d of None \<Rightarrow> Undef
        | Some xs \<Rightarrow> if indices ! idx < length xs then xs ! (indices ! idx) else Undef
      else NaN)"

definition stackValue :: "num \<Rightarrow> num \<Rightarrow> num" where
  "stackValue value stackedValue =
     (if num_le (Fin 0) value \<and> num_less (Fin 0) stackedValue \<or> num_le value (Fin 0) \<and> num_less stackedValue (Fin 0)
      then num_add value stackedValue else value)"

definition get :: "string \<Rightarrow> nat \<Rightarrow> bool \<Rightarrow> ('v, 'y) dlist \<Rightarrow> num" where
  "get d idx stack l =
     (let value = cell (dl_indices l) (dl_storage l) d idx in
      if idx < length (dl_indices l) \<and> stack \<and> (case dl_infos l d of None \<Rightarrow> False | Some i \<Rightarrow> di_stackable i)
      then foldl (\<lambda>v (indices, storage). stackValue v (cell indices storage d idx)) value (dl_stackedOn l)
      else value)"

definition getValues :: "string list option \<Rightarrow> nat \<Rightarrow> bool \<Rightarrow> ('v, 'y) dlist \<Rightarrow> num list" where
  "getValues dimensions idx stack l =
     map (\<lambda>d. get d idx stack l) (case dimensions of None \<Rightarrow> dl_dimensions l | Some ds \<Rightarrow> ds)"

definition hasValue :: "nat \<Rightarrow> ('v, 'y) dlist \<Rightarrow> bool" where
  "hasValue idx l = list_all (\<lambda>d.
     \<not> ((case dl_infos l d of None \<Rightarrow> True | Some i \<Rightarrow> di_type i \<noteq> ''ordinal'') \<and> num_isNaN (get d idx False l))) (dl_dimensions l)"

definition extend :: "num \<times> num \<Rightarrow> num \<Rightarrow> num \<times> num" where
  "extend = (\<lambda>(lo, hi) v. (if num_less v lo then v else lo, if num_less hi v then v else hi))"

definition getDataExtent :: "dim \<Rightarrow> bool \<Rightarrow> ('v, 'y) dlist \<Rightarrow> (num \<times> num) \<times> ('v, 'y) dlist" where
  "getDataExtent dm stack l =
     (let d = getDimension dm l;
          stack = (case getDimensionInfo (By_Name d) l of None \<Rightarrow> False | Some i \<Rightarrow> di_stackable i) \<and> stack in
      case dl_extent l (d, stack) of
        Some e \<Rightarrow> (e, l)
      | None \<Rightarrow>
          (case dl_storage l d of
             None \<Rightarrow> ((PosInf, NegInf), l)
           | Some _ \<Rightarrow>
               let e = foldl extend (PosInf, NegInf) (map (\<lambda>i. get d i stack l) [0..<count l]) in
               (e, l\<lparr>dl_extent := (dl_extent l)((d, stack) \<mapsto> e)\<rparr>)))"

definition getSum :: "string \<Rightarrow> bool \<Rightarrow> ('v, 'y) dlist \<Rightarrow> num" where
  "getSum d stack l =
     (case dl_storage l d of
        None \<Rightarrow> Fin 0
      | Some _ \<Rightarrow> foldl num_add (Fin 0) (filter (\<lambda>v. \<not> num_isNaN v) (map (\<lambda>i. get d i stack l) [0..<count l])))"

section \<open>Looking up rows\<close>

definition find_row :: "(nat \<Rightarrow> bool) \<Rightarrow> nat list \<Rightarrow> int" where
  "find_row p indices = (case List.find (\<lambda>i. p (indices ! i)) [0..<length indices] of None \<Rightarrow> -1 | Some i \<Rightarrow> int i)"

definition indexOf :: "string \<Rightarrow> num \<Rightarrow> ('v, 'y) dlist \<Rightarrow> int" where
  "indexOf d value l =
     (case dl_storage l d of
        None \<Rightarrow> -1
      | Some dimData \<Rightarrow>
          find_row (\<lambda>raw. num_eq (if raw < length dimData then dimData ! raw else Undef) value) (dl_indices l))"

definition indexOfName :: "string \<Rightarrow> ('v, 'y) dlist \<Rightarrow> int" where
  "indexOfName name l = find_row (\<lambda>raw. dl_nameList l raw = Some name) (dl_indices l)"

text \<open>
  The binary search among the indices; \<open>js_or x 0\<close> cuts the half down to a 32-bit integer. With
  fewer than $2^{31}$ rows the middle lies between the bounds; the test that it does only makes the
  recursion end where a longer array would wrap around.
\<close>

function searchRaw :: "nat list \<Rightarrow> nat \<Rightarrow> int \<Rightarrow> int \<Rightarrow> int" where
  "searchRaw indices rawIndex left right =
     (if 0 \<le> left \<and> left \<le> right then
        let mid = js_or ((left + right) div 2) 0 in
        if \<not> (left \<le> mid \<and> mid \<le> right) then -1
        else if indices ! nat mid < rawIndex then searchRaw indices rawIndex (mid + 1) right
        else if indices ! nat mid > rawIndex then searchRaw indices rawIndex left (mid - 1)
        else mid
      else -1)"
  by pat_completeness auto
termination by (relation "measure (\<lambda>(indices, rawIndex, left, right). nat (right - left + 1))") auto

definition indexOfRawIndex :: "nat \<Rightarrow> ('v, 'y) dlist \<Rightarrow> int" where
  "indexOfRawIndex rawIndex l =
     (let indices = dl_indices l in
      if rawIndex < length indices \<and> indices ! rawIndex = rawIndex then int rawIndex
      else searchRaw indices rawIndex 0 (int (length indices) - 1))"

definition nearestStep :: "num \<Rightarrow> num \<Rightarrow> (num \<times> int) \<Rightarrow> nat \<times> num \<Rightarrow> num \<times> int" where
  "nearestStep value maxDistance = (\<lambda>(minDist, nearestIdx) (i, v).
     let diff = num_sub value v; dist = num_abs diff in
     if num_le diff maxDistance \<and> (num_less dist minDist \<or> num_eq dist minDist \<and> num_less (Fin 0) diff)
     then (dist, int i) else (minDist, nearestIdx))"

text \<open>The greatest number of the language, above every number in the exact range.\<close>

definition MAX_VALUE :: int where
  "MAX_VALUE = (2 ^ 53 - 1) * 2 ^ 971"

definition indexOfNearest :: "string \<Rightarrow> num \<Rightarrow> bool \<Rightarrow> num option \<Rightarrow> ('v, 'y) dlist \<Rightarrow> int" where
  "indexOfNearest d value stack maxDistance l =
     (case dl_storage l d of
        None \<Rightarrow> -1
      | Some _ \<Rightarrow>
          snd (foldl (nearestStep value (case maxDistance of None \<Rightarrow> PosInf | Some m \<Rightarrow> m)) (Fin MAX_VALUE, -1)
            (map (\<lambda>i. (i, get d i stack l)) [0..<count l])))"

definition getRawIndex :: "int \<Rightarrow> ('v, 'y) dlist \<Rightarrow> int" where
  "getRawIndex idx l = (if 0 \<le> idx \<and> idx < int (count l) then int (dl_indices l ! nat idx) else -1)"

definition getRawDataItem :: "int \<Rightarrow> ('v, 'y) dlist \<Rightarrow> item option" where
  "getRawDataItem idx l =
     (let raw = getRawIndex idx l in if 0 \<le> raw \<and> raw < int (length (dl_rawData l)) then Some (dl_rawData l ! nat raw) else None)"

definition getName :: "nat \<Rightarrow> ('v, 'y) dlist \<Rightarrow> string" where
  "getName idx l = (if idx < count l then (case dl_nameList l (dl_indices l ! idx) of None \<Rightarrow> '''' | Some n \<Rightarrow> n) else '''')"

definition getId :: "nat \<Rightarrow> ('v, 'y) dlist \<Rightarrow> string" where
  "getId idx l =
     (if idx < count l then
        case dl_idList l (dl_indices l ! idx) of
          Some d \<Rightarrow> if d \<noteq> '''' then d else dec (dl_indices l ! idx)
        | None \<Rightarrow> dec (dl_indices l ! idx)
      else ''-1'')"

section \<open>Travelling, filtering, mapping and sampling\<close>

text \<open>The arguments of each call: the values of the dimensions, then the row.\<close>

definition each :: "dim list \<Rightarrow> bool \<Rightarrow> ('v, 'y) dlist \<Rightarrow> (num list \<times> nat) list" where
  "each dims stack l =
     (let ds = map (\<lambda>d. getDimension d l) dims in
      map (\<lambda>i. (map (\<lambda>d. get d i stack l) ds, i)) [0..<count l])"

definition mapArray :: "dim list \<Rightarrow> (num list \<Rightarrow> nat \<Rightarrow> 'r) \<Rightarrow> bool \<Rightarrow> ('v, 'y) dlist \<Rightarrow> 'r list" where
  "mapArray dims cb stack l = map (\<lambda>(vs, i). cb vs i) (each dims stack l)"

definition filterSelf :: "dim list \<Rightarrow> (num list \<Rightarrow> nat \<Rightarrow> bool) \<Rightarrow> bool \<Rightarrow> ('v, 'y) dlist \<Rightarrow> ('v, 'y) dlist" where
  "filterSelf dims cb stack l =
     (let ds = map (\<lambda>d. getDimension d l) dims;
          newIndices = concat (map (\<lambda>i. if cb (map (\<lambda>d. get d i stack l) ds) i then [dl_indices l ! i] else []) [0..<count l]) in
      l\<lparr>dl_indices := newIndices, dl_extent := Map.empty\<rparr>)"

definition described :: "('v, 'y) dlist \<Rightarrow> string \<Rightarrow> dimdef" where
  "described l d = (case getDimensionInfo (By_Name d) l of
      None \<Rightarrow> Named d
    | Some i \<Rightarrow> Described (di_name i) (Some (di_type i)) (di_stackable i))"

definition transferProperties :: "('v, 'y) dlist \<Rightarrow> ('v, 'y) dlist \<Rightarrow> ('v, 'y) dlist" where
  "transferProperties a b = a\<lparr>dl_stackedOn := dl_stackedOn b, dl_nameList := dl_nameList b,
     dl_idList := dl_idList b, dl_rawData := dl_rawData b\<rparr>"

definition cloneListForMapAndSample :: "('v, 'y) dlist \<Rightarrow> string list \<Rightarrow> ('v, 'y) dlist" where
  "cloneListForMapAndSample original excludeDimensions =
     (let l = transferProperties (newList (Some (map (described original) (dl_dimensions original)))) original in
      l\<lparr>dl_storage := foldl (\<lambda>m d. m(d :=
          (if d \<in> set excludeDimensions
           then map_option (\<lambda>xs. blank (type_of d original) (length xs)) (dl_storage original d)
           else dl_storage original d))) Map.empty (dl_dimensions original)\<rparr>)"

text \<open>A callback gives no value, or the values for the first of the dimensions.\<close>

definition mapStep ::
  "nat list \<Rightarrow> (num list \<Rightarrow> nat \<Rightarrow> num list option) \<Rightarrow> string list \<Rightarrow> ('v, 'y) dlist \<Rightarrow> num list \<times> nat \<Rightarrow> ('v, 'y) dlist" where
  "mapStep indices cb ds = (\<lambda>target (vs, idx).
     case cb vs idx of
       None \<Rightarrow> target
     | Some ret \<Rightarrow>
         foldl (\<lambda>target (d, v). case dl_storage target d of
              None \<Rightarrow> target
            | Some xs \<Rightarrow> target\<lparr>dl_storage := (dl_storage target)(d \<mapsto> put_cell (type_of d target) xs (indices ! idx) v)\<rparr>)
           target (zip ds ret))"

definition map_list ::
  "dim list \<Rightarrow> (num list \<Rightarrow> nat \<Rightarrow> num list option) \<Rightarrow> bool \<Rightarrow> ('v, 'y) dlist \<Rightarrow> ('v, 'y) dlist" where
  "map_list dims cb stack l =
     (let ds = map (\<lambda>d. getDimension d l) dims;
          target = (cloneListForMapAndSample l ds)\<lparr>dl_indices := dl_indices l\<rparr> in
      foldl (mapStep (dl_indices l) cb ds) target (each (map By_Name ds) stack l))"

text \<open>
  The frames of a sampling. The size of a frame shrinks to what is left at the end; a size of
  zero never ends. \<open>None\<close> is also a sampled position outside the frame indices.
\<close>

partial_function (option) sampleLoop ::
  "string \<Rightarrow> (num list \<Rightarrow> num) \<Rightarrow> (num list \<Rightarrow> num \<Rightarrow> nat) \<Rightarrow> nat list \<Rightarrow> nat \<Rightarrow> nat \<Rightarrow> nat list \<Rightarrow> column \<Rightarrow> nat list
     \<Rightarrow> (column \<times> nat list) option" where
  "sampleLoop t sampleValue sampleIndex originalIndices i frameSize frameIndices dimStore indices =
     (if i < length originalIndices then
        let frameSize = min frameSize (length originalIndices - i);
            idxs = take frameSize (drop i originalIndices);
            frameValues = map (\<lambda>idx. if idx < length dimStore then dimStore ! idx else Undef) idxs;
            frameIndices = idxs @ drop frameSize frameIndices;
            value = sampleValue frameValues;
            k = sampleIndex frameValues value in
        if k < length frameIndices then
          sampleLoop t sampleValue sampleIndex originalIndices (i + frameSize) frameSize frameIndices
            (put_cell t dimStore (frameIndices ! k) value) (indices @ [frameIndices ! k])
        else None
      else Some (dimStore, indices))"

definition downSample ::
  "string \<Rightarrow> nat \<Rightarrow> (num list \<Rightarrow> num) \<Rightarrow> (num list \<Rightarrow> num \<Rightarrow> nat) \<Rightarrow> ('v, 'y) dlist \<Rightarrow> ('v, 'y) dlist option" where
  "downSample dimension frameSize sampleValue sampleIndex l =
     (let target = cloneListForMapAndSample l [dimension] in
      do { column \<leftarrow> dl_storage l dimension;
           (dimStore, indices) \<leftarrow> sampleLoop (type_of dimension l) sampleValue sampleIndex (dl_indices l) 0 frameSize [] column [];
           Some (target\<lparr>dl_storage := (dl_storage target)(dimension \<mapsto> dimStore), dl_indices := indices\<rparr>) })"

definition cloneShallow :: "('v, 'y) dlist \<Rightarrow> ('v, 'y) dlist" where
  "cloneShallow l =
     (transferProperties (newList (Some (map (described l) (dl_dimensions l)))) l)
       \<lparr>dl_storage := dl_storage l, dl_indices := dl_indices l, dl_extent := dl_extent l\<rparr>"

text \<open>The key of a row in a difference: its identifier, or its raw index behind a prefix.\<close>

definition diffKey :: "(nat \<rightharpoonup> string) \<Rightarrow> nat \<Rightarrow> nat \<Rightarrow> string" where
  "diffKey idList idx i = (case idList idx of Some d \<Rightarrow> d | None \<Rightarrow> ''e'' @ [CHR 0x00, CHR 0x00] @ dec idx)"

definition diff :: "('v, 'y) dlist option \<Rightarrow> ('v, 'y) dlist \<Rightarrow> nat differ" where
  "diff otherList l =
     newDiffer (case otherList of None \<Rightarrow> [] | Some other \<Rightarrow> dl_indices other) (dl_indices l)
       (diffKey (case otherList of None \<Rightarrow> Map.empty | Some other \<Rightarrow> dl_idList other)) (diffKey (dl_idList l))"

section \<open>Rows and the nodes they show\<close>

text \<open>
  Trees and graphs over a table write the position of each row into the node for it. A row without a node
  is a write to \<open>undefined\<close>, a \<open>TypeError\<close>.
\<close>

fun index_rows :: "(int \<Rightarrow> 'n \<Rightarrow> 'n) \<Rightarrow> int \<Rightarrow> nat list \<Rightarrow> 'n list \<Rightarrow> 'n list option" where
  "index_rows put i [] nodes = Some nodes"
| "index_rows put i (r # rs) nodes =
     (if r < length nodes then index_rows put (i + 1) rs (nodes[r := put i (nodes ! r)]) else None)"

declare sampleLoop.simps [code]

section \<open>Visuals and layouts\<close>

text \<open>A key with a value, or an object whose own members are set in order. Values are not null.\<close>

datatype 'v setting = Member string 'v | Members "(string \<times> 'v) list"

fun settings :: "'v setting \<Rightarrow> (string \<times> 'v) list" where
  "settings (Member k v) = [(k, v)]"
| "settings (Members kvs) = kvs"

definition set_members :: "'v setting \<Rightarrow> (string \<rightharpoonup> 'v) \<Rightarrow> (string \<rightharpoonup> 'v)" where
  "set_members st m = foldl (\<lambda>m (k, v). m(k \<mapsto> v)) m (settings st)"

definition getVisual :: "string \<Rightarrow> ('v, 'y) dlist \<Rightarrow> 'v option" where
  "getVisual key l = dl_visual l key"

definition setVisual :: "'v setting \<Rightarrow> ('v, 'y) dlist \<Rightarrow> ('v, 'y) dlist" where
  "setVisual st l = l\<lparr>dl_visual := set_members st (dl_visual l)\<rparr>"

definition setLayout :: "'y setting \<Rightarrow> ('v, 'y) dlist \<Rightarrow> ('v, 'y) dlist" where
  "setLayout st l = l\<lparr>dl_layout := set_members st (dl_layout l)\<rparr>"

definition getLayout :: "string \<Rightarrow> ('v, 'y) dlist \<Rightarrow> 'y option" where
  "getLayout key l = dl_layout l key"

definition getItemLayout :: "nat \<Rightarrow> ('v, 'y) dlist \<Rightarrow> (string \<rightharpoonup> 'y) option" where
  "getItemLayout idx l = dl_itemLayouts l idx"

definition setItemLayout :: "nat \<Rightarrow> (string \<rightharpoonup> 'y) \<Rightarrow> bool \<Rightarrow> ('v, 'y) dlist \<Rightarrow> ('v, 'y) dlist" where
  "setItemLayout idx layout merge l =
     l\<lparr>dl_itemLayouts := (dl_itemLayouts l)(idx \<mapsto>
        (if merge then (case dl_itemLayouts l idx of None \<Rightarrow> Map.empty | Some y \<Rightarrow> y) ++ layout else layout))\<rparr>"

definition clearItemLayouts :: "('v, 'y) dlist \<Rightarrow> ('v, 'y) dlist" where
  "clearItemLayouts l = l\<lparr>dl_itemLayouts := Map.empty\<rparr>"

definition getItemVisual :: "nat \<Rightarrow> string \<Rightarrow> bool \<Rightarrow> ('v, 'y) dlist \<Rightarrow> 'v option" where
  "getItemVisual idx key ignoreParent l =
     (case dl_itemVisuals l idx key of
        None \<Rightarrow> if ignoreParent then None else getVisual key l
      | Some v \<Rightarrow> Some v)"

definition setItemVisual :: "nat \<Rightarrow> 'v setting \<Rightarrow> ('v, 'y) dlist \<Rightarrow> ('v, 'y) dlist" where
  "setItemVisual idx st l = l\<lparr>dl_itemVisuals := (dl_itemVisuals l)(idx := set_members st (dl_itemVisuals l idx))\<rparr>"

definition clearAllVisual :: "('v, 'y) dlist \<Rightarrow> ('v, 'y) dlist" where
  "clearAllVisual l = l\<lparr>dl_visual := Map.empty, dl_itemVisuals := (\<lambda>_. Map.empty)\<rparr>"

end

