(* ===== verification/Data_List_Facts.thy ===== *)
theory Data_List_Facts
  imports Data_List
begin

text \<open>
  What holds of every table: its rows are in increasing raw order, the cached extents are the
  extents, rows are found by binary search, identifiers tell rows apart, sampling takes one row per
  frame, and the difference from a filtered table reports what was dropped.
\<close>

section \<open>Filtering rows\<close>

lemma concat_filter: "concat (map (\<lambda>i. if P i then [f i] else []) xs) = map f (filter P xs)"
  by (induction xs) auto

lemma rows_filter:
  "dl_indices (filterSelf dims cb stack l) =
     map ((!) (dl_indices l)) (filter (\<lambda>i. cb (map (\<lambda>d. get (getDimension d l) i stack l) dims) i) [0..<count l])"
  by (simp add: filterSelf_def Let_def concat_filter comp_def)

lemma sorted_map_nth_filter:
  assumes "sorted_wrt (<) xs"
  shows "sorted_wrt (<) (map ((!) xs) (filter P [0..<length xs]))"
proof -
  have s: "sorted_wrt (<) (filter P [0..<length xs])" using sorted_wrt_upt by (rule sorted_wrt_filter)
  show ?thesis
    unfolding sorted_wrt_map
    by (rule sorted_wrt_mono_rel [OF _ s]) (use assms in \<open>auto simp: sorted_wrt_iff_nth_less\<close>)
qed

section \<open>Binary search\<close>

declare searchRaw.simps [simp del]

lemma searchRaw_sound:
  assumes "sorted_wrt (<) indices" "int (length indices) < 2 ^ 31"
    and "0 \<le> left" "right < int (length indices)"
  shows "(\<exists>i. int i = searchRaw indices r left right \<and> i < length indices \<and> indices ! i = r) \<or>
    searchRaw indices r left right = -1 \<and> (\<forall>i<length indices. left \<le> int i \<longrightarrow> int i \<le> right \<longrightarrow> indices ! i \<noteq> r)"
  using assms(3-)
proof (induction "nat (right - left + 1)" arbitrary: left right rule: less_induct)
  case less
  show ?case
  proof (cases "left \<le> right")
    case False
    then show ?thesis by (auto simp: searchRaw.simps)
  next
    case True
    define mid where "mid = (left + right) div 2"
    have m: "left \<le> mid" "mid \<le> right" using True by (simp_all add: mid_def)
    have b: "0 \<le> mid" "mid < int (length indices)" "mid < 2 ^ 31" using m less.prems assms(2) by linarith+
    then have or: "js_or mid 0 = mid" by (simp add: js_or_def to_int32_id)
    have lt: "\<And>i j. i < j \<Longrightarrow> j < length indices \<Longrightarrow> indices ! i < indices ! j"
      using assms(1) by (simp add: sorted_wrt_iff_nth_less)
    have run: "searchRaw indices r left right =
        (if indices ! nat mid < r then searchRaw indices r (mid + 1) right
         else if indices ! nat mid > r then searchRaw indices r left (mid - 1) else mid)"
      using True less.prems(1) m by (subst searchRaw.simps) (simp add: mid_def [symmetric] or Let_def)
    consider (lo) "indices ! nat mid < r" | (hi) "indices ! nat mid > r" | (eq) "indices ! nat mid = r" by linarith
    then show ?thesis
    proof cases
      case lo
      have out: "indices ! i \<noteq> r" if "i < length indices" "int i \<le> mid" for i
      proof -
        have "i = nat mid \<or> i < nat mid" "nat mid < length indices" using that b by linarith+
        then show ?thesis using lo lt [of i "nat mid"] by auto
      qed
      have "nat (right - (mid + 1) + 1) < nat (right - left + 1)" "0 \<le> mid + 1" using m b by linarith+
      from less.hyps [OF this less.prems(2)] show ?thesis
        using run lo out by (metis zless_add1_eq zle_add1_eq_le not_less)
    next
      case hi
      have out: "indices ! i \<noteq> r" if "i < length indices" "mid \<le> int i" for i
      proof -
        have "i = nat mid \<or> nat mid < i" using that b by linarith
        then show ?thesis using hi lt [of "nat mid" i] that by auto
      qed
      have "nat (mid - 1 - left + 1) < nat (right - left + 1)" "mid - 1 < int (length indices)" using m b by linarith+
      from less.hyps [OF this(1) less.prems(1) this(2)] show ?thesis
        using run hi out by (metis not_less zle_diff1_eq order.asym)
    next
      case eq
      then show ?thesis using run b by (intro disjI1 exI [of _ "nat mid"]) auto
    qed
  qed
qed

lemma indexOfRawIndex_correct:
  assumes "sorted_wrt (<) (dl_indices l)" "int (count l) < 2 ^ 31"
  shows "(if r \<in> set (dl_indices l) then 0 \<le> indexOfRawIndex r l \<and> getRawIndex (indexOfRawIndex r l) l = int r
    else indexOfRawIndex r l = -1)"
proof (cases "r < length (dl_indices l) \<and> dl_indices l ! r = r")
  case True
  then show ?thesis by (auto simp: indexOfRawIndex_def getRawIndex_def count_def in_set_conv_nth)
next
  case False
  then have run: "indexOfRawIndex r l = searchRaw (dl_indices l) r 0 (int (length (dl_indices l)) - 1)"
    by (auto simp: indexOfRawIndex_def Let_def)
  have "int (length (dl_indices l)) < 2 ^ 31" "int (length (dl_indices l)) - 1 < int (length (dl_indices l))"
    using assms(2) by (simp_all add: count_def)
  from searchRaw_sound [OF assms(1) this(1) order_refl this(2), of r]
  consider i where "int i = indexOfRawIndex r l" "i < length (dl_indices l)" "dl_indices l ! i = r"
    | "indexOfRawIndex r l = -1" "r \<notin> set (dl_indices l)"
    unfolding run [symmetric] by (auto simp: in_set_conv_nth)
  then show ?thesis
  proof cases
    case (1 i)
    then have "r \<in> set (dl_indices l)" by auto
    moreover have "getRawIndex (int i) l = int r" using 1(2,3) by (simp add: getRawIndex_def count_def)
    moreover note 1(1)
    ultimately show ?thesis by (metis of_nat_0_le_iff)
  next
    case 2
    then show ?thesis by simp
  qed
qed

section \<open>Extents\<close>

text \<open>What \<open>getDataExtent\<close> computes when nothing is cached.\<close>

definition extent_of :: "string \<Rightarrow> bool \<Rightarrow> ('v, 'y) dlist \<Rightarrow> num \<times> num" where
  "extent_of d stack l = foldl extend (PosInf, NegInf) (map (\<lambda>i. get d i stack l) [0..<count l])"

definition extents_ok :: "('v, 'y) dlist \<Rightarrow> bool" where
  "extents_ok l \<longleftrightarrow> (\<forall>d stack e. dl_extent l (d, stack) = Some e \<longrightarrow> e = extent_of d stack l)"

lemma get_cong:
  assumes "dl_indices l' = dl_indices l" "dl_storage l' = dl_storage l" "dl_stackedOn l' = dl_stackedOn l"
    and "map_option di_stackable (dl_infos l' d) = map_option di_stackable (dl_infos l d)"
  shows "get d i stack l' = get d i stack l"
  using assms(4) unfolding get_def Let_def assms(1-3) by (cases "dl_infos l d"; cases "dl_infos l' d") simp_all

lemma extent_cong:
  assumes "dl_indices l' = dl_indices l" "dl_storage l' = dl_storage l" "dl_stackedOn l' = dl_stackedOn l"
    and "map_option di_stackable (dl_infos l' d) = map_option di_stackable (dl_infos l d)"
  shows "extent_of d stack l' = extent_of d stack l"
  by (simp add: extent_of_def count_def assms(1) get_cong [OF assms])

lemma getDataExtent_ok:
  assumes "extents_ok l"
  shows "extents_ok (snd (getDataExtent dm stack l))"
proof -
  have "extent_of d st (l\<lparr>dl_extent := m\<rparr>) = extent_of d st l" for d st m by (rule extent_cong) simp_all
  then show ?thesis
    using assms by (auto simp: getDataExtent_def extents_ok_def Let_def extent_of_def [symmetric] split: option.split)
qed

lemma filterSelf_extents: "extents_ok (filterSelf dims cb stack l)"
  by (simp add: extents_ok_def filterSelf_def Let_def)

text \<open>The dimension descriptions that a list and its clones hold.\<close>

definition infos_ok :: "('v, 'y) dlist \<Rightarrow> bool" where
  "infos_ok l \<longleftrightarrow> dom (dl_infos l) = set (dl_dimensions l) \<and>
     (\<forall>d i. dl_infos l d = Some i \<longrightarrow> di_name i = d \<and> di_type i \<noteq> '''')"

lemma fold_infos:
  "foldl (\<lambda>m d. m(di_name d \<mapsto> d)) m ds x = (case List.find (\<lambda>d. di_name d = x) (rev ds) of None \<Rightarrow> m x | Some d \<Rightarrow> Some d)"
  by (induction ds arbitrary: m rule: rev_induct) auto

lemma find_SomeD: "List.find P xs = Some x \<Longrightarrow> x \<in> set xs \<and> P x"
  by (induction xs) (auto split: if_splits)

lemma newList_infos: "infos_ok (newList dims :: ('v, 'y) dlist)"
proof -
  define infos where "infos = map dim_info (case dims of None \<Rightarrow> [Named ''x'', Named ''y''] | Some ds \<Rightarrow> ds)"
  have t: "di_type i \<noteq> ''''" if "i \<in> set infos" for i
    using that by (auto simp: infos_def dim_info_def split: dimdef.splits option.splits if_splits)
  have l: "dl_infos (newList dims :: ('v, 'y) dlist) x = List.find (\<lambda>d. di_name d = x) (rev infos)"
    "dl_dimensions (newList dims :: ('v, 'y) dlist) = map di_name infos" for x
    by (simp_all add: newList_def infos_def Let_def fold_infos split: option.split)
  have "dom (dl_infos (newList dims :: ('v, 'y) dlist)) = di_name ` set infos"
    unfolding dom_def l(1) by (auto simp: find_None_iff dest: find_SomeD)
  moreover have "di_name i = d \<and> di_type i \<noteq> ''''" if "dl_infos (newList dims :: ('v, 'y) dlist) d = Some i" for d i
    using that t unfolding l(1) by (auto dest: find_SomeD)
  ultimately show ?thesis by (simp add: infos_ok_def l(2))
qed

section \<open>Copies\<close>

lemma described_info:
  assumes "infos_ok l" "d \<in> set (dl_dimensions l)"
  shows "dl_infos l d = Some (dim_info (described l d))" "di_name (dim_info (described l d)) = d"
proof -
  obtain i where i: "dl_infos l d = Some i" using assms unfolding infos_ok_def by blast
  then have "di_name i = d" "di_type i \<noteq> ''''" using assms(1) unfolding infos_ok_def by blast+
  then show "dl_infos l d = Some (dim_info (described l d))" "di_name (dim_info (described l d)) = d"
    using i by (simp_all add: described_def dim_info_def getDimensionInfo_def getDimension_def)
qed

lemma clone_infos:
  fixes l :: "('v, 'y) dlist"
  assumes "infos_ok l"
  defines "c \<equiv> newList (Some (map (described l) (dl_dimensions l))) :: ('v, 'y) dlist"
  shows "dl_infos c = dl_infos l" "dl_dimensions c = dl_dimensions l"
proof -
  let ?is = "map dim_info (map (described l) (dl_dimensions l))"
  have c: "dl_infos c x = List.find (\<lambda>d. di_name d = x) (rev ?is)" "dl_dimensions c = map di_name ?is" for x
    by (simp_all add: c_def newList_def Let_def fold_infos split: option.split)
  show "dl_dimensions c = dl_dimensions l"
    unfolding c(2) using described_info(2) [OF assms(1)] by (simp add: comp_def map_idI)
  show "dl_infos c = dl_infos l"
  proof
    fix x
    show "dl_infos c x = dl_infos l x"
    proof (cases "List.find (\<lambda>d. di_name d = x) (rev ?is)")
      case None
      then have "x \<notin> set (dl_dimensions l)"
        using described_info(2) [OF assms(1)] by (fastforce simp: find_None_iff)
      then have "dl_infos l x = None" using assms(1) unfolding infos_ok_def by blast
      then show ?thesis using None unfolding c(1) by simp
    next
      case (Some i)
      then obtain d where "d \<in> set (dl_dimensions l)" "i = dim_info (described l d)" "di_name i = x"
        by (auto dest!: find_SomeD)
      then show ?thesis using described_info [OF assms(1), of d] Some unfolding c(1) by simp
    qed
  qed
qed

section \<open>Sampling\<close>

lemma sampleLoop_frames:
  assumes "\<And>vs v. vs \<noteq> [] \<Longrightarrow> sampleIndex vs v < length vs" "sorted_wrt (<) rows"
    and "0 < sz" "sorted_wrt (<) taken" "\<forall>x\<in>set taken. \<forall>y\<in>set (drop i rows). x < y" "set taken \<subseteq> set rows"
  shows "\<exists>col taken'. sampleLoop t sampleValue sampleIndex rows i sz fi column taken = Some (col, taken') \<and>
    sorted_wrt (<) taken' \<and> set taken' \<subseteq> set rows \<and> length taken' = length taken + (length rows - i + sz - 1) div sz"
  using assms(3-)
proof (induction "length rows - i" arbitrary: i sz fi column taken rule: less_induct)
  case less
  show ?case
  proof (cases "i < length rows")
    case False
    then show ?thesis using less.prems by (subst sampleLoop.simps) simp
  next
    case True
    define n where "n = min sz (length rows - i)"
    define idxs where "idxs = take n (drop i rows)"
    define vs where "vs = map (\<lambda>idx. if idx < length column then column ! idx else Undef) idxs"
    define k where "k = sampleIndex vs (sampleValue vs)"
    have n: "0 < n" "n \<le> sz" "i + n \<le> length rows" using True less.prems(1) by (simp_all add: n_def)
    have ln: "length idxs = n" using n by (simp add: idxs_def)
    have lv: "length vs = n" by (simp add: vs_def ln)
    then have "vs \<noteq> []" using n(1) by auto
    then have k: "k < n" using assms(1) [of vs "sampleValue vs"] lv by (simp add: k_def)
    let ?x = "idxs ! k"
    have x: "?x = rows ! (i + k)" using k n by (simp add: idxs_def)
    have run: "sampleLoop t sampleValue sampleIndex rows i sz fi column taken =
        sampleLoop t sampleValue sampleIndex rows (i + n) n (idxs @ drop n fi) (put_cell t column ?x (sampleValue vs)) (taken @ [?x])"
    proof -
      have "k < length (idxs @ drop n fi)" "(idxs @ drop n fi) ! k = ?x" using k ln by (simp_all add: nth_append)
      then show ?thesis
        by (subst sampleLoop.simps) (simp only: True if_True Let_def n_def [symmetric] idxs_def [symmetric] vs_def [symmetric] k_def [symmetric])
    qed
    have up: "rows ! a < rows ! b" if "a < b" "b < length rows" for a b
      using that assms(2) by (simp add: sorted_wrt_iff_nth_less)
    have xin: "?x \<in> set (drop i rows)" "?x \<in> set rows" using x k n nth_mem [of k "drop i rows"] by simp_all
    have "sorted_wrt (<) (taken @ [?x])" using less.prems(2,3) xin by (simp add: sorted_wrt_append)
    moreover have "\<forall>a\<in>set (taken @ [?x]). \<forall>y\<in>set (drop (i + n) rows). a < y"
    proof (intro ballI)
      fix a y assume a: "a \<in> set (taken @ [?x])" and "y \<in> set (drop (i + n) rows)"
      then obtain m where "m < length (drop (i + n) rows)" "y = drop (i + n) rows ! m" unfolding in_set_conv_nth by blast
      then have m: "y = rows ! (i + n + m)" "i + n + m < length rows" by simp_all
      then have "y \<in> set (drop i rows)" using nth_mem [of "n + m" "drop i rows"] by (simp add: add.assoc)
      moreover have "?x < y" unfolding x m(1) using k m(2) by (intro up) simp_all
      ultimately show "a < y" using a less.prems(3) by auto
    qed
    moreover have "set (taken @ [?x]) \<subseteq> set rows" using less.prems(4) xin by simp
    moreover have "length rows - (i + n) < length rows - i" using n True by simp
    ultimately obtain col taken' where ih: "sampleLoop t sampleValue sampleIndex rows (i + n) n (idxs @ drop n fi)
          (put_cell t column ?x (sampleValue vs)) (taken @ [?x]) = Some (col, taken')"
        "sorted_wrt (<) taken'" "set taken' \<subseteq> set rows"
        "length taken' = length (taken @ [?x]) + (length rows - (i + n) + n - 1) div n"
      using less.hyps [of "i + n" n "taken @ [?x]"] n(1) by blast
    have "1 + (length rows - (i + n) + n - 1) div n = (length rows - i + sz - 1) div sz"
    proof (cases "sz \<le> length rows - i")
      case True
      then have "n = sz" "length rows - (i + n) = length rows - i - sz" by (simp_all add: n_def)
      moreover have "length rows - i + sz - 1 = sz + (length rows - i - 1)" "length rows - i - sz + sz - 1 = length rows - i - 1"
        using True less.prems(1) by linarith+
      ultimately show ?thesis using less.prems(1) by (simp only: div_add_self1 neq0_conv [symmetric] simp_thms add.commute [of 1])
    next
      case False
      then have e: "n = length rows - i" "length rows - (i + n) = 0" by (simp_all add: n_def)
      have "(length rows - i + sz - 1) div sz = 1" using False True by (intro div_nat_eqI) simp_all
      then show ?thesis using e n(1) by simp
    qed
    then show ?thesis using ih run by auto
  qed
qed

section \<open>Every table\<close>

text \<open>The tables that the operations make, from the one that is filled.\<close>

inductive made :: "('v, 'y) dlist \<Rightarrow> bool" where
  init: "initData data nameList getter (newList dims) = Some l \<Longrightarrow> made l"
| filtered: "made l \<Longrightarrow> made (filterSelf ds keep stack l)"
| measured: "made l \<Longrightarrow> made (snd (getDataExtent dm stack l))"
| mapped: "made l \<Longrightarrow> made (map_list ds f stack l)"
| sampled: "made l \<Longrightarrow> (\<And>vs v. vs \<noteq> [] \<Longrightarrow> sampleIndex vs v < length vs) \<Longrightarrow> 0 < sz \<Longrightarrow>
    downSample d sz sampleValue sampleIndex l = Some l' \<Longrightarrow> made l'"
| cloned: "made l \<Longrightarrow> made (cloneShallow l)"
| dressed: "made l \<Longrightarrow> made (l\<lparr>dl_visual := vis, dl_itemVisuals := ivis, dl_layout := lay, dl_itemLayouts := ilay\<rparr>)"

definition table_ok :: "('v, 'y) dlist \<Rightarrow> bool" where
  "table_ok l \<longleftrightarrow> sorted_wrt (<) (dl_indices l) \<and> extents_ok l \<and> infos_ok l"

lemma infos_cong: "dl_infos l' = dl_infos l \<Longrightarrow> dl_dimensions l' = dl_dimensions l \<Longrightarrow> infos_ok l' = infos_ok l"
  by (simp add: infos_ok_def)

lemma extents_empty: "dl_extent l = Map.empty \<Longrightarrow> extents_ok l"
  by (simp add: extents_ok_def)

lemma newList_fields [simp]:
  "dl_extent (newList dims) = Map.empty" "dl_stackedOn (newList dims) = []"
  by (simp_all add: newList_def Let_def)

lemma transfer_fields [simp]:
  "dl_infos (transferProperties a b) = dl_infos a" "dl_dimensions (transferProperties a b) = dl_dimensions a"
  "dl_extent (transferProperties a b) = dl_extent a" "dl_stackedOn (transferProperties a b) = dl_stackedOn b"
  by (simp_all add: transferProperties_def)

lemma copy_fields:
  assumes "infos_ok l"
  shows "dl_infos (cloneListForMapAndSample l ex) = dl_infos l" "dl_dimensions (cloneListForMapAndSample l ex) = dl_dimensions l"
    and "dl_extent (cloneListForMapAndSample l ex) = Map.empty"
  using clone_infos [OF assms] by (simp_all add: cloneListForMapAndSample_def Let_def)

lemma mapStep_fields:
  "dl_indices (mapStep rows cb ds t a) = dl_indices t" "dl_infos (mapStep rows cb ds t a) = dl_infos t"
  "dl_dimensions (mapStep rows cb ds t a) = dl_dimensions t" "dl_extent (mapStep rows cb ds t a) = dl_extent t"
proof -
  have "dl_indices (foldl (\<lambda>t (d, v). case dl_storage t d of None \<Rightarrow> t
            | Some xs \<Rightarrow> t\<lparr>dl_storage := (dl_storage t)(d \<mapsto> put_cell (type_of d t) xs i v)\<rparr>) t zs) = dl_indices t \<and>
        dl_infos (foldl (\<lambda>t (d, v). case dl_storage t d of None \<Rightarrow> t
            | Some xs \<Rightarrow> t\<lparr>dl_storage := (dl_storage t)(d \<mapsto> put_cell (type_of d t) xs i v)\<rparr>) t zs) = dl_infos t \<and>
        dl_dimensions (foldl (\<lambda>t (d, v). case dl_storage t d of None \<Rightarrow> t
            | Some xs \<Rightarrow> t\<lparr>dl_storage := (dl_storage t)(d \<mapsto> put_cell (type_of d t) xs i v)\<rparr>) t zs) = dl_dimensions t \<and>
        dl_extent (foldl (\<lambda>t (d, v). case dl_storage t d of None \<Rightarrow> t
            | Some xs \<Rightarrow> t\<lparr>dl_storage := (dl_storage t)(d \<mapsto> put_cell (type_of d t) xs i v)\<rparr>) t zs) = dl_extent t" for zs i
    by (induction zs arbitrary: t) (auto split: option.splits)
  then show "dl_indices (mapStep rows cb ds t a) = dl_indices t" "dl_infos (mapStep rows cb ds t a) = dl_infos t"
    "dl_dimensions (mapStep rows cb ds t a) = dl_dimensions t" "dl_extent (mapStep rows cb ds t a) = dl_extent t"
    by (cases a; simp add: mapStep_def split: option.split)+
qed

lemma mapSteps_fields:
  "dl_indices (foldl (mapStep rows cb ds) t as) = dl_indices t" "dl_infos (foldl (mapStep rows cb ds) t as) = dl_infos t"
  "dl_dimensions (foldl (mapStep rows cb ds) t as) = dl_dimensions t" "dl_extent (foldl (mapStep rows cb ds) t as) = dl_extent t"
  by (induction as arbitrary: t) (simp_all add: mapStep_fields)

lemma downSample_returns:
  assumes "\<And>vs v. vs \<noteq> [] \<Longrightarrow> sampleIndex vs v < length vs" "table_ok l" "0 < sz" "dl_storage l d = Some column"
  shows "\<exists>l'. downSample d sz sampleValue sampleIndex l = Some l' \<and> table_ok l' \<and>
    set (dl_indices l') \<subseteq> set (dl_indices l) \<and> count l' = (count l + sz - 1) div sz"
proof -
  have ok: "sorted_wrt (<) (dl_indices l)" "infos_ok l" using assms(2) by (simp_all add: table_ok_def)
  obtain col rows where r: "sampleLoop (type_of d l) sampleValue sampleIndex (dl_indices l) 0 sz [] column [] = Some (col, rows)"
      "sorted_wrt (<) rows" "set rows \<subseteq> set (dl_indices l)" "length rows = (count l + sz - 1) div sz"
    using sampleLoop_frames [where sampleIndex = sampleIndex and sampleValue = sampleValue and t = "type_of d l" and i = 0 and fi = "[]"
        and taken = "[]" and column = column, OF assms(1) ok(1) assms(3)] by (auto simp: count_def)
  then show ?thesis
    using assms(4) ok(2) copy_fields [OF ok(2)]
    by (simp add: downSample_def Let_def table_ok_def extents_ok_def infos_ok_def count_def)
qed

lemma made_ok: "made (l :: ('v, 'y) dlist) \<Longrightarrow> table_ok l"
proof (induction rule: made.induct)
  case (init data nameList getter dims l)
  then have "dl_indices l = [0..<length data]" "dl_extent l = Map.empty"
    and "dl_infos l = dl_infos (newList dims :: ('v, 'y) dlist)" "dl_dimensions l = dl_dimensions (newList dims :: ('v, 'y) dlist)"
    by (auto simp: initData_def split: if_splits prod.splits)
  then show ?case
    using infos_cong [of l "newList dims :: ('v, 'y) dlist"] newList_infos [of dims, where ?'v = 'v and ?'y = 'y] by (simp add: table_ok_def extents_empty sorted_wrt_upt)
next
  case (filtered l ds keep stack)
  then have "sorted_wrt (<) (dl_indices (filterSelf ds keep stack l))"
    unfolding rows_filter count_def table_ok_def by (intro sorted_map_nth_filter) simp
  moreover have "infos_ok (filterSelf ds keep stack l)"
    using filtered by (simp add: table_ok_def filterSelf_def infos_ok_def Let_def)
  ultimately show ?case by (simp add: table_ok_def filterSelf_extents)
next
  case (measured l dm stack)
  then have "extents_ok (snd (getDataExtent dm stack l))" by (intro getDataExtent_ok) (simp add: table_ok_def)
  then show ?case
    using measured by (auto simp: table_ok_def getDataExtent_def infos_ok_def Let_def split: option.split)
next
  case (mapped l ds f stack)
  then show ?case
    using copy_fields [of l] by (auto simp: table_ok_def map_list_def Let_def mapSteps_fields infos_ok_def intro!: extents_empty)
next
  case (sampled l sampleIndex sz d sampleValue l')
  then obtain column where "dl_storage l d = Some column" by (auto simp: downSample_def Let_def bind_eq_Some_conv)
  then show ?case using downSample_returns [of sampleIndex l sz d column sampleValue] sampled by auto
next
  case (cloned l)
  then have ok: "infos_ok l" "extents_ok l" "sorted_wrt (<) (dl_indices l)" by (simp_all add: table_ok_def)
  have "extent_of d st (cloneShallow l) = extent_of d st l" for d st
    using clone_infos [OF ok(1)] by (intro extent_cong) (simp_all add: cloneShallow_def)
  then show ?case
    using ok clone_infos [OF ok(1)] by (simp add: table_ok_def cloneShallow_def extents_ok_def infos_ok_def)
next
  case (dressed l ilay lay ivis vis)
  have "extent_of d st (l\<lparr>dl_visual := vis, dl_itemVisuals := ivis, dl_layout := lay, dl_itemLayouts := ilay\<rparr>) = extent_of d st l" for d st
    by (intro extent_cong) simp_all
  then show ?case using dressed by (simp add: table_ok_def extents_ok_def infos_ok_def)
qed

section \<open>Identifiers\<close>

text \<open>The name of each row, and the identifier that is made for it when it has none of its own.\<close>

definition row_name :: "string list \<Rightarrow> item list \<Rightarrow> nat \<Rightarrow> string" where
  "row_name nameList data i =
     (if entry_at nameList i \<noteq> '''' then entry_at nameList i else case r_name (data ! i) of None \<Rightarrow> '''' | Some n \<Rightarrow> n)"

definition repeats :: "(nat \<Rightarrow> string) \<Rightarrow> nat \<Rightarrow> nat" where
  "repeats name i = length (filter (\<lambda>j. name j = name i) [0..<i])"

definition made_id :: "(nat \<Rightarrow> string) \<Rightarrow> nat \<Rightarrow> string" where
  "made_id name i = (if repeats name i > 0 then name i @ ''__ec__'' @ dec (repeats name i) else name i)"

lemma row_name_snoc: "i < length data \<Longrightarrow> row_name nameList (data @ [it]) i = row_name nameList data i"
  by (simp add: row_name_def nth_append)

lemma repeats_cong: "(\<And>j. j \<le> i \<Longrightarrow> f j = g j) \<Longrightarrow> repeats f i = repeats g i"
  unfolding repeats_def by (rule arg_cong [where f = length], rule filter_cong) auto

lemma repeat_count_bump:
  "k \<notin> set object_members \<Longrightarrow> repeat_count (count_name k m) n = (if n = k then repeat_count m n + 1 else repeat_count m n)"
  by (auto simp: repeat_count_def count_name_def object_members_def split: option.split)

lemma assignNames_made:
  assumes "\<forall>it\<in>set data. r_id it = None"
    "\<forall>i<length data. row_name nameList data i \<noteq> '''' \<and> row_name nameList data i \<notin> set object_members"
  shows "\<exists>names ids cnt. assignNames nameList data = (names, ids, cnt) \<and>
    (\<forall>n. repeat_count cnt n = length (filter (\<lambda>j. row_name nameList data j = n) [0..<length data])) \<and>
    (\<forall>i<length data. ids i = Some (made_id (row_name nameList data) i))"
  using assms
proof (induction data rule: rev_induct)
  case Nil
  then show ?case by (simp add: assignNames_def repeat_count_def)
next
  case (snoc it data)
  let ?nm = "row_name nameList (data @ [it])" and ?n = "length data"
  have old: "row_name nameList data i = ?nm i" if "i < ?n" for i using row_name_snoc [OF that] by simp
  obtain names ids cnt where ih: "assignNames nameList data = (names, ids, cnt)"
      "\<forall>n. repeat_count cnt n = length (filter (\<lambda>j. row_name nameList data j = n) [0..<?n])"
      "\<forall>i<?n. ids i = Some (made_id (row_name nameList data) i)"
  proof -
    have "\<forall>x\<in>set data. r_id x = None" using snoc.prems(1) by simp
    moreover have "\<forall>i<?n. row_name nameList data i \<noteq> '''' \<and> row_name nameList data i \<notin> set object_members" using snoc.prems(2) old by simp
    ultimately show thesis using snoc.IH that by blast
  qed
  have cnt: "repeat_count cnt n = length (filter (\<lambda>j. ?nm j = n) [0..<?n])" for n
    using ih(2) old by (auto intro!: arg_cong [where f = length] filter_cong)
  have ids: "ids i = Some (made_id ?nm i)" if "i < ?n" for i
  proof -
    have "repeats (row_name nameList data) i = repeats ?nm i" using that old by (intro repeats_cong) simp
    then show ?thesis using ih(3) that old by (simp add: made_id_def)
  qed
  have it: "r_id it = None" "?nm ?n \<noteq> ''''" "?nm ?n \<notin> set object_members" using snoc.prems by simp_all
  have rep: "repeats ?nm ?n = repeat_count cnt (?nm ?n)" by (simp add: repeats_def cnt)
  have run: "assignNames nameList (data @ [it]) = assignName nameList (names, ids, cnt) (?n, it)"
    using ih(1) by (simp add: assignNames_def enumerate_append_eq)
  obtain names' where "assignName nameList (names, ids, cnt) (?n, it) =
      (names', ids(?n \<mapsto> made_id ?nm ?n), count_name (?nm ?n) cnt)"
    using it(1,2) unfolding made_id_def rep
    by (auto simp: assignName_def row_name_def nth_append Let_def split: option.splits if_splits)
  moreover have "repeat_count (count_name (?nm ?n) cnt) n = length (filter (\<lambda>j. ?nm j = n) [0..<length (data @ [it])])" for n
    by (auto simp: cnt repeat_count_bump [OF it(3)])
  moreover have "(ids(?n \<mapsto> made_id ?nm ?n)) i = Some (made_id ?nm i)" if "i < length (data @ [it])" for i
    using that ids by (cases "i = ?n") auto
  ultimately show ?case using run by auto
qed

text \<open>Two texts that end in numbers behind a common mark are equal only if the numbers are.\<close>

lemma numbered_inj:
  assumes "a @ ''__ec__'' @ dec m = b @ ''__ec__'' @ dec n"
  shows "a = b \<and> m = n"
proof -
  have tw: "takeWhile is_digit (rev (x @ ''__ec__'' @ dec k)) = rev (dec k)" for x k
  proof -
    have "\<forall>c\<in>set (rev (dec k)). is_digit c" using dec_digits by simp
    moreover have "\<not> is_digit CHR ''_''" by (simp add: is_digit_def)
    ultimately have "takeWhile is_digit (rev (dec k) @ rev (x @ ''__ec__'')) = rev (dec k)"
      by (subst takeWhile_append2) auto
    then show ?thesis by simp
  qed
  have "rev (dec m) = rev (dec n)" using tw [of a m] tw [of b n] assms by metis
  then show ?thesis using assms by simp
qed

lemma repeats_less:
  assumes "i < j" "name i = name j"
  shows "repeats name i < repeats name j"
proof -
  have "[0..<j] = [0..<i] @ i # [Suc i..<j]" using assms(1) by (metis le0 less_imp_le upt_add_eq_append upt_conv_Cons le_add_diff_inverse)
  then show ?thesis using assms(2) by (simp add: repeats_def)
qed

lemma made_id_inj:
  assumes "\<And>i j k. i < n \<Longrightarrow> j < n \<Longrightarrow> name i \<noteq> name j @ ''__ec__'' @ dec k" "i < n" "j < n" "made_id name i = made_id name j"
  shows "i = j"
proof (rule ccontr)
  assume ne: "i \<noteq> j"
  have "name i = name j \<and> repeats name i = repeats name j"
  proof (cases "repeats name i > 0"; cases "repeats name j > 0")
    assume "repeats name i > 0" "repeats name j > 0"
    then have "name i @ ''__ec__'' @ dec (repeats name i) = name j @ ''__ec__'' @ dec (repeats name j)"
      using assms(4) by (simp only: made_id_def if_True)
    then show ?thesis by (rule numbered_inj)
  next
    assume "repeats name i > 0" "\<not> repeats name j > 0"
    then have "name j = name i @ ''__ec__'' @ dec (repeats name i)" using assms(4) by (simp add: made_id_def)
    then show ?thesis using assms(1) [OF assms(3,2)] by blast
  next
    assume "\<not> repeats name i > 0" "repeats name j > 0"
    then have "name i = name j @ ''__ec__'' @ dec (repeats name j)" using assms(4) by (simp add: made_id_def)
    then show ?thesis using assms(1) [OF assms(2,3)] by blast
  next
    assume "\<not> repeats name i > 0" "\<not> repeats name j > 0"
    then show ?thesis using assms(4) by (simp add: made_id_def)
  qed
  moreover have "i < j \<or> j < i" using ne by linarith
  ultimately show False using repeats_less [of i j name] repeats_less [of j i name] by auto
qed

lemma getId_made:
  assumes "initData data nameList getter l0 = Some l" "\<forall>it\<in>set data. r_id it = None"
    and "\<forall>i<length data. row_name nameList data i \<noteq> '''' \<and> row_name nameList data i \<notin> set object_members" "i < length data"
  shows "getId i l = made_id (row_name nameList data) i"
proof -
  obtain names ids cnt where a: "assignNames nameList data = (names, ids, cnt)"
    "\<forall>i<length data. ids i = Some (made_id (row_name nameList data) i)"
    using assignNames_made [OF assms(2,3)] by blast
  have "dl_idList l = ids" "dl_indices l = [0..<length data]"
    using assms(1) a(1) by (auto simp: initData_def split: if_splits)
  moreover have "made_id (row_name nameList data) i \<noteq> ''''" using assms(3,4) by (simp add: made_id_def)
  ultimately show ?thesis using a(2) assms(4) by (simp add: getId_def count_def)
qed

section \<open>The difference from a filtered table\<close>

lemma lookup_nth: "distinct ks \<Longrightarrow> j < length ks \<Longrightarrow> lookup ks (ks ! j) = Some j"
proof -
  assume d: "distinct ks" and j: "j < length ks"
  then have "(ks ! j, j) \<in> set (zip ks [0..<length ks])" by (auto simp: set_zip)
  then show ?thesis using d by (simp add: lookup_def)
qed

lemma lookup_None: "k \<notin> set ks \<Longrightarrow> lookup ks k = None"
  by (auto simp: lookup_def map_of_eq_None_iff dest: set_zip_leftD)

lemma lookup_filtered:
  assumes "distinct ks" "i < length ks"
  shows "lookup (map ((!) ks) (filter P [0..<length ks])) (ks ! i) = (if P i then Some (length (filter P [0..<i])) else None)"
proof -
  let ?js = "filter P [0..<length ks]"
  have inj: "ks ! a = ks ! b \<longleftrightarrow> a = b" if "a < length ks" "b < length ks" for a b
    using that assms(1) by (simp add: nth_eq_iff_index_eq)
  have d: "distinct (map ((!) ks) ?js)" using inj by (auto simp: distinct_map intro!: inj_onI)
  show ?thesis
  proof (cases "P i")
    case True
    have "[0..<length ks] = [0..<i] @ i # [Suc i..<length ks]"
      using assms(2) by (metis le0 less_imp_le upt_add_eq_append upt_conv_Cons le_add_diff_inverse)
    then have "?js = filter P [0..<i] @ i # filter P [Suc i..<length ks]" using True by simp
    then have "length (filter P [0..<i]) < length ?js" "map ((!) ks) ?js ! length (filter P [0..<i]) = ks ! i"
      by (simp_all add: nth_append)
    then show ?thesis using True lookup_nth [OF d, of "length (filter P [0..<i])"] by simp
  next
    case False
    then have "ks ! i \<notin> set (map ((!) ks) ?js)" using inj assms(2) by auto
    then show ?thesis using False lookup_None by simp
  qed
qed

definition row_keys :: "('v, 'y) dlist \<Rightarrow> string list" where
  "row_keys l = map (\<lambda>r. diffKey (dl_idList l) r 0) (dl_indices l)"

lemma keys_of_const: "keys_of rows (diffKey ids) = map (\<lambda>r. diffKey ids r 0) rows"
  by (rule nth_equalityI) (simp_all add: keys_of_def nth_enumerate_eq diffKey_def)

section \<open>Rows and their nodes\<close>

lemma index_rows_run:
  "distinct rows \<Longrightarrow> \<forall>r\<in>set rows. r < length nodes \<Longrightarrow>
    \<exists>nodes'. index_rows set_index i rows nodes = Some nodes' \<and> length nodes' = length nodes \<and>
      (\<forall>j<length rows. nodes' ! (rows ! j) = set_index (i + int j) (nodes ! (rows ! j))) \<and>
      (\<forall>r. r \<notin> set rows \<longrightarrow> nodes' ! r = nodes ! r)"
proof (induction rows arbitrary: i nodes)
  case (Cons r rows)
  let ?nodes = "nodes[r := set_index i (nodes ! r)]"
  obtain nodes' where n: "index_rows set_index (i + 1) rows ?nodes = Some nodes'" "length nodes' = length nodes"
      "\<forall>j<length rows. nodes' ! (rows ! j) = set_index (i + 1 + int j) (?nodes ! (rows ! j))"
      "\<forall>x. x \<notin> set rows \<longrightarrow> nodes' ! x = ?nodes ! x"
    using Cons.IH [of ?nodes "i + 1"] Cons.prems by auto
  have ne: "rows ! j \<noteq> r" if "j < length rows" for j using that Cons.prems(1) by auto
  have "nodes' ! ((r # rows) ! j) = set_index (i + int j) (nodes ! ((r # rows) ! j))" if "j < length (r # rows)" for j
  proof (cases j)
    case 0
    then show ?thesis using n(4) Cons.prems by simp
  next
    case (Suc j')
    then show ?thesis using n(3) ne [of j'] that by (simp add: add.assoc)
  qed
  then show ?case using n Cons.prems by (intro exI [of _ nodes']) auto
qed simp

lemma index_rows_range: "index_rows set_index i rows nodes = Some nodes' \<Longrightarrow> \<forall>r\<in>set rows. r < length nodes"
  by (induction rows arbitrary: i nodes) (fastforce split: if_splits)+

lemma index_rows_keeps:
  assumes "index_rows put i rows nodes = Some nodes'" "\<And>j n. f (put j n) = f n"
  shows "map f nodes' = map f nodes"
  using assms(1)
proof (induction rows arbitrary: i nodes)
  case (Cons r rows)
  then have r: "r < length nodes" and "index_rows put (i + 1) rows (nodes[r := put i (nodes ! r)]) = Some nodes'"
    by (simp_all split: if_splits)
  from Cons.IH [OF this(2)] show ?case by (simp add: map_update assms(2) list_update_same_conv r)
qed simp

text \<open>
  What carries a row: the positions that the rows of a table give, and -1 where there is no row. Nodes of
  trees, and nodes and edges of graphs, are such things.
\<close>

definition carries :: "('n \<Rightarrow> int) \<Rightarrow> nat list \<Rightarrow> 'n list \<Rightarrow> bool" where
  "carries idx rows xs \<longleftrightarrow> (\<forall>j<length rows. idx (xs ! (rows ! j)) = int j) \<and> (\<forall>r<length xs. r \<notin> set rows \<longrightarrow> idx (xs ! r) = -1)"

lemma carries_shown:
  assumes "carries idx rows xs" "r < length xs"
  shows "idx (xs ! r) \<ge> 0 \<longleftrightarrow> r \<in> set rows"
  using assms by (auto simp: carries_def in_set_conv_nth)

locale row_holder =
  fixes row_of :: "'n \<Rightarrow> int" and hold :: "int \<Rightarrow> 'n \<Rightarrow> 'n"
  assumes row_of_hold: "row_of (hold i n) = i"
begin

lemma index_rows_carries:
  assumes "distinct rows" "\<forall>r\<in>set rows. r < length xs" "\<And>x. x \<in> set xs \<Longrightarrow> row_of x = -1"
  shows "\<exists>ys. index_rows hold 0 rows xs = Some ys \<and> length ys = length xs \<and> carries row_of rows ys"
proof -
  obtain ys where y: "index_rows hold 0 rows xs = Some ys" "length ys = length xs"
      "\<forall>j<length rows. ys ! (rows ! j) = hold (0 + int j) (xs ! (rows ! j))" "\<forall>r. r \<notin> set rows \<longrightarrow> ys ! r = xs ! r"
    using index_rows_run [OF assms(1,2), of hold 0] by blast
  have "carries row_of rows ys" using y(2-4) row_of_hold assms(3) by (simp add: carries_def)
  then show ?thesis using y(1,2) by blast
qed

end

end
