(* ===== verification/Data_List_Props.thy ===== *)
theory Data_List_Props
  imports Data_List_Facts
begin

text \<open>
  The properties of the table: the cache of extents, the search of rows, identifiers, sampling, and
  the difference from a table that was filtered.
\<close>

section \<open>A small table\<close>

definition row :: "string \<Rightarrow> int \<Rightarrow> item" where
  "row n v = \<lparr>r_name = Some n, r_id = None, r_values = [Fin v]\<rparr>"

definition first_value :: "item \<Rightarrow> string \<Rightarrow> nat \<Rightarrow> nat \<Rightarrow> num" where
  "first_value it d i k = (case r_values it of [] \<Rightarrow> NaN | v # _ \<Rightarrow> v)"

definition cities :: "(unit, unit) dlist" where
  "cities = the (initData [row ''a'' 5, row ''b'' 2, row ''a'' 9, row ''c'' 4] [] first_value (newList (Some [Named ''v''])))"

lemmas cities_simps = row_def first_value_def cities_def initData_def newList_def dim_info_def dataCtors_def type_of_def
  assignNames_def assignName_def repeat_count_def count_name_def object_members_def entry_at_def enumerate_simps stored_def Let_def

lemma dec_1: "dec (Suc 0) = ''1''"
  by (simp add: dec.simps digit_def char_of_def bit_0)

lemma cities_made: "made cities"
proof -
  have "initData [row ''a'' 5, row ''b'' 2, row ''a'' 9, row ''c'' 4] [] first_value (newList (Some [Named ''v''])) = Some cities"
    by (simp add: cities_simps)
  then show ?thesis by (rule made.init)
qed

lemma cities_columns: "dl_indices cities = [0, 1, 2, 3]" "dl_storage cities = [''v'' \<mapsto> [Fin 5, Fin 2, Fin 9, Fin 4]]"
    "dl_dimensions cities = [''v'']" "dl_stackedOn cities = []" "dl_extent cities = Map.empty"
    "dl_infos cities = [''v'' \<mapsto> \<lparr>di_name = ''v'', di_type = ''number'', di_stackable = False\<rparr>]"
  by (simp_all add: cities_simps upt_rec)

lemma cities_ids: "dl_idList cities = [0 \<mapsto> ''a'', 1 \<mapsto> ''b'', 2 \<mapsto> ''a__ec__1'', 3 \<mapsto> ''c'']"
  by (simp add: cities_simps dec_1 numeral_2_eq_2 numeral_3_eq_3)

section \<open>Properties\<close>





text \<open>
  C20. Rows that have names but no identifiers of their own get pairwise different identifiers,
  unless the name of one is the name of another followed by the mark and a number, or a name is
  that of a member every object has.
\<close>

theorem generated_ids_distinct:
  assumes "initData data nameList getter l0 = Some l" "\<forall>it\<in>set data. r_id it = None"
    and "\<forall>i<length data. row_name nameList data i \<noteq> '''' \<and> row_name nameList data i \<notin> set object_members"
    and "\<forall>i<length data. \<forall>j<length data. \<forall>k. row_name nameList data i \<noteq> row_name nameList data j @ ''__ec__'' @ dec k"
  shows "distinct (map (\<lambda>i. getId i l) [0..<length data])"
proof -
  have "inj_on (\<lambda>i. getId i l) {0..<length data}"
  proof (rule inj_onI)
    fix i j assume "i \<in> {0..<length data}" "j \<in> {0..<length data}" "getId i l = getId j l"
    then have "i < length data" "j < length data" "made_id (row_name nameList data) i = made_id (row_name nameList data) j"
      using getId_made [OF assms(1-3)] by simp_all
    then show "i = j" using made_id_inj [of "length data" "row_name nameList data" i j] assms(4) by blast
  qed
  then show ?thesis by (simp add: distinct_map)
qed

lemma generated_ids_distinct_witness:
  "distinct (map (\<lambda>i. getId i cities) [0..<4])"
proof -
  let ?data = "[row ''a'' 5, row ''b'' 2, row ''a'' 9, row ''c'' 4]"
  have "initData ?data [] first_value (newList (Some [Named ''v''])) = Some cities" by (simp add: cities_simps)
  moreover have "\<forall>it\<in>set ?data. r_id it = None" by (simp add: row_def)
  moreover have len: "\<forall>i<length ?data. length (row_name [] ?data i) = 1"
    by (simp add: row_name_def entry_at_def row_def All_less_Suc)
  have long: "x \<noteq> y @ ''__ec__'' @ dec k" if "length x = 1" for x y k
  proof
    assume "x = y @ ''__ec__'' @ dec k"
    then have "length x = length y + 6 + length (dec k)" by simp
    then show False using that by simp
  qed
  have "\<forall>i<length ?data. \<forall>j<length ?data. \<forall>k. row_name [] ?data i \<noteq> row_name [] ?data j @ ''__ec__'' @ dec k"
    using len long by blast
  moreover have "\<forall>x\<in>set object_members. length x \<noteq> 1" by (simp add: object_members_def)
  then have "\<forall>i<length ?data. row_name [] ?data i \<noteq> '''' \<and> row_name [] ?data i \<notin> set object_members" using len by fastforce
  ultimately have "distinct (map (\<lambda>i. getId i cities) [0..<length ?data])" by (intro generated_ids_distinct)
  moreover have "length ?data = 4" by simp
  ultimately show ?thesis by (simp only:)
qed

text \<open>A name that every object has is not counted the first time.\<close>

lemma inherited_names_collide:
  "\<exists>l. initData [row ''valueOf'' 1, row ''valueOf'' 2] [] first_value (newList None :: (unit, unit) dlist) = Some l \<and>
    getId 0 l = getId 1 l"
  by (simp add: cities_simps getId_def count_def numeral_2_eq_2 upt_rec)

text \<open>A name that looks like a numbered one collides with it.\<close>

lemma generated_ids_collide:
  "\<exists>l. initData [row ''a'' 1, row ''a'' 2, row ''a__ec__1'' 3] [] first_value (newList None :: (unit, unit) dlist) = Some l \<and>
    getId 1 l = getId 2 l"
  by (simp add: cities_simps getId_def count_def dec_1 numeral_2_eq_2 upt_rec)



text \<open>With a rate above one the frame is empty, and sampling never ends.\<close>

lemma sampleLoop_stuck:
  "sampleLoop t sv si rows i n fi col taken = Some r \<Longrightarrow> n = 0 \<longrightarrow> length rows \<le> i"
  by (erule sampleLoop.raw_induct [rotated, where P = "\<lambda>t sv si rows i n fi col taken r. n = 0 \<longrightarrow> length rows \<le> i"])
    (fastforce simp: Let_def split: if_splits)

lemma downSample_rate_above_one:
  assumes "dl_indices l \<noteq> []"
  shows "downSample d 0 sampleValue sampleIndex l = None"
proof -
  have "sampleLoop t sv si rows 0 0 fi col taken = None" if "rows \<noteq> []" for t sv si rows fi col taken
    using sampleLoop_stuck [of t sv si rows 0 0 fi col taken] that
    by (cases "sampleLoop t sv si rows 0 0 fi col taken") auto
  then show ?thesis using assms by (cases "dl_storage l d") (simp_all add: downSample_def Let_def)
qed

text \<open>
  When the rows of a table have different keys, its difference from a filtered clone of it
  reports every row that is kept as an update with its new position, every other one as
  removed, and adds nothing.
\<close>

theorem diff_of_filtered:
  assumes "distinct (row_keys l)"
    and "kept = (\<lambda>i. keep (map (\<lambda>d. get (getDimension d l) i stack l) dims) i)"
  shows "execute (set_add (set_update (set_remove (diff (Some l) (filterSelf dims keep stack l))))) =
    map (\<lambda>i. if kept i then Update (length (filter kept [0..<i])) i else Remove i) [0..<count l]"
proof -
  let ?f = "filterSelf dims keep stack l" and ?ks = "row_keys l"
  let ?d = "set_add (set_update (set_remove (diff (Some l) ?f)))"
  let ?js = "filter kept [0..<length ?ks]"
  have n: "length ?ks = count l" by (simp add: row_keys_def count_def)
  have old: "keys_of (d_old ?d) (d_oldKey ?d) = ?ks"
    by (simp add: diff_def newDiffer_def set_add_def set_update_def set_remove_def keys_of_const row_keys_def)
  have "keys_of (d_new ?d) (d_newKey ?d) = map (\<lambda>r. diffKey (dl_idList l) r 0) (dl_indices ?f)"
    by (simp add: diff_def newDiffer_def set_add_def set_update_def set_remove_def keys_of_const filterSelf_def Let_def)
  also have "\<dots> = map ((!) ?ks) ?js"
    unfolding rows_filter n assms(2) by (simp add: row_keys_def count_def)
  finally have new: "keys_of (d_new ?d) (d_newKey ?d) = map ((!) ?ks) ?js" .
  have dn: "distinct (map ((!) ?ks) ?js)"
    using assms(1) by (auto simp: distinct_map nth_eq_iff_index_eq intro!: inj_onI)
  have len: "length (d_old ?d) = count l" "length (d_new ?d) = length ?js"
    using arg_cong [OF old, of length] arg_cong [OF new, of length] n by simp_all
  have run: "execute ?d =
      map (\<lambda>i. case lookup (map ((!) ?ks) ?js) (?ks ! i) of None \<Rightarrow> Remove i | Some j \<Rightarrow> Update j i) [0..<count l]
      @ map Add (filter (\<lambda>j. map ((!) ?ks) ?js ! j \<notin> set ?ks) [0..<length ?js])"
    using execute_by_lookup [of ?d] assms(1) dn old new len by (simp add: set_add_def set_update_def set_remove_def)
  have "filter (\<lambda>j. map ((!) ?ks) ?js ! j \<notin> set ?ks) [0..<length ?js] = []"
    by (auto simp: filter_empty_conv) (metis atLeastLessThan_iff filter_is_subset nth_mem set_upt subset_iff)
  moreover have "map (\<lambda>i. case lookup (map ((!) ?ks) ?js) (?ks ! i) of None \<Rightarrow> Remove i | Some j \<Rightarrow> Update j i) [0..<count l] =
      map (\<lambda>i. if kept i then Update (length (filter kept [0..<i])) i else Remove i) [0..<count l]"
    using lookup_filtered [OF assms(1), of _ kept] n by auto
  ultimately show ?thesis using run by simp
qed

lemma diff_of_filtered_witness:
  "execute (set_add (set_update (set_remove (diff (Some cities) (filterSelf [] (\<lambda>vs i. i \<noteq> 1) False cities))))) =
    [Update 0 0, Remove 1, Update 1 2, Update 2 3]"
proof -
  have "distinct (row_keys cities)" by (simp add: row_keys_def diffKey_def cities_columns cities_ids)
  then show ?thesis
    using diff_of_filtered [of cities _ "\<lambda>vs i. i \<noteq> 1" False "[]", OF _ refl]
    by (simp add: count_def cities_columns upt_rec)
qed

end
