(* ===== verification/Data_Tree.thy ===== *)
theory Data_Tree
  imports Data_List_Facts
begin

text \<open>
  The tree over a table, \<open>data/Tree\<close> (module 186). Nodes are kept in the order they are made, and a
  reference to a node is its position there, which is also the raw row of its data item. Walks
  over the references give \<open>None\<close> when they do not end or leave the tree, which the theorems
  exclude. The models of levels and the columns of the table are parameters.
\<close>

section \<open>State\<close>

record tnode =
  tn_name :: string
  tn_depth :: nat
  tn_height :: nat
  tn_parentNode :: "nat option"
  tn_dataIndex :: int
  tn_children :: "nat list"
  tn_viewChildren :: "nat list"

record ('v, 'y, 'm) tree =
  tr_root :: "nat option"
  tr_data :: "('v, 'y) dlist"
  tr_nodes :: "tnode list"
  tr_levelModels :: "'m list"

definition newTreeNode :: "string option \<Rightarrow> tnode" where
  "newTreeNode name = \<lparr>tn_name = (case name of None \<Rightarrow> '''' | Some n \<Rightarrow> n), tn_depth = 0, tn_height = 0,
     tn_parentNode = None, tn_dataIndex = -1, tn_children = [], tn_viewChildren = []\<rparr>"

definition newTree :: "'m list \<Rightarrow> ('v, 'y) dlist \<Rightarrow> ('v, 'y, 'm) tree" where
  "newTree levelModels data = \<lparr>tr_root = None, tr_data = data, tr_nodes = [], tr_levelModels = levelModels\<rparr>"

definition isRemoved :: "tnode \<Rightarrow> bool" where
  "isRemoved n \<longleftrightarrow> tn_dataIndex n < 0"

section \<open>Walks\<close>

datatype order = Preorder | Postorder | Other_Order

datatype attr = Children | View_Children

fun attr_of :: "attr \<Rightarrow> tnode \<Rightarrow> nat list" where
  "attr_of Children n = tn_children n"
| "attr_of View_Children n = tn_viewChildren n"

text \<open>
  The nodes a callback is called with, over what is left of a list of children; the callback says which
  nodes it suppresses the visit below. A list of one node is the walk from that node.
\<close>

partial_function (option) eachNodes :: "tnode list \<Rightarrow> order \<Rightarrow> attr \<Rightarrow> (nat \<Rightarrow> bool) \<Rightarrow> nat list \<Rightarrow> nat list option" where
  "eachNodes nodes order attr suppress refs =
     (case refs of
        [] \<Rightarrow> Some []
      | r # rest \<Rightarrow>
          if r < length nodes then do {
            sub \<leftarrow> (if order = Preorder \<and> suppress r then Some []
                     else eachNodes nodes order attr suppress (attr_of attr (nodes ! r)));
            others \<leftarrow> eachNodes nodes order attr suppress rest;
            Some ((if order = Preorder then [r] else []) @ sub @ (if order = Postorder then [r] else []) @ others) }
          else None)"

definition eachNode :: "order \<Rightarrow> attr \<Rightarrow> (nat \<Rightarrow> bool) \<Rightarrow> nat \<Rightarrow> ('v, 'y, 'm) tree \<Rightarrow> nat list option" where
  "eachNode order attr suppress r t = eachNodes (tr_nodes t) order attr suppress [r]"

text \<open>Depths on the way down, heights on the way up; the result also has the greatest height of the nodes listed.\<close>

partial_function (option) updateDepths :: "nat \<Rightarrow> nat list \<Rightarrow> nat \<Rightarrow> tnode list \<Rightarrow> (nat \<times> tnode list) option" where
  "updateDepths depth refs height nodes =
     (case refs of
        [] \<Rightarrow> Some (height, nodes)
      | r # rest \<Rightarrow>
          if r < length nodes then do {
            (h, nodes) \<leftarrow> updateDepths (depth + 1) (tn_children (nodes ! r)) 0 (nodes[r := (nodes ! r)\<lparr>tn_depth := depth\<rparr>]);
            let nodes = nodes[r := (nodes ! r)\<lparr>tn_height := h + 1\<rparr>] in
            updateDepths depth rest (if h + 1 > height then h + 1 else height) nodes }
          else None)"

definition updateDepthAndHeight :: "nat \<Rightarrow> nat \<Rightarrow> tnode list \<Rightarrow> tnode list option" where
  "updateDepthAndHeight r depth nodes = map_option snd (updateDepths depth [r] 0 nodes)"

definition node_id :: "('v, 'y, 'm) tree \<Rightarrow> nat \<Rightarrow> string" where
  "node_id t r =
     (let i = tn_dataIndex (tr_nodes t ! r) in if i < 0 then ''-1'' else getId (nat i) (tr_data t))"

text \<open>The first node that satisfies a test, in preorder.\<close>

partial_function (option) searchNodes :: "tnode list \<Rightarrow> (nat \<Rightarrow> bool) \<Rightarrow> nat list \<Rightarrow> nat option option" where
  "searchNodes nodes p refs =
     (case refs of
        [] \<Rightarrow> Some None
      | r # rest \<Rightarrow>
          if r < length nodes then
            if p r then Some (Some r)
            else do { res \<leftarrow> searchNodes nodes p (tn_children (nodes ! r));
                      case res of Some x \<Rightarrow> Some (Some x) | None \<Rightarrow> searchNodes nodes p rest }
          else None)"

definition getNodeById :: "string \<Rightarrow> nat \<Rightarrow> ('v, 'y, 'm) tree \<Rightarrow> nat option option" where
  "getNodeById nodeId r t = searchNodes (tr_nodes t) (\<lambda>x. node_id t x = nodeId) [r]"

definition contains :: "nat \<Rightarrow> nat \<Rightarrow> ('v, 'y, 'm) tree \<Rightarrow> bool option" where
  "contains node r t = map_option (\<lambda>res. res \<noteq> None) (searchNodes (tr_nodes t) (\<lambda>x. x = node) [r])"

partial_function (option) ancestorLoop :: "tnode list \<Rightarrow> nat option \<Rightarrow> nat list \<Rightarrow> nat list option" where
  "ancestorLoop nodes node ancestors =
     (case node of
        None \<Rightarrow> Some ancestors
      | Some r \<Rightarrow> if r < length nodes then ancestorLoop nodes (tn_parentNode (nodes ! r)) (ancestors @ [r]) else None)"

definition getAncestors :: "bool \<Rightarrow> nat \<Rightarrow> ('v, 'y, 'm) tree \<Rightarrow> nat list option" where
  "getAncestors includeSelf r t =
     map_option rev (ancestorLoop (tr_nodes t) (if includeSelf then Some r else tn_parentNode (tr_nodes t ! r)) [])"

declare eachNodes.simps [code] updateDepths.simps [code] searchNodes.simps [code] ancestorLoop.simps [code]

section \<open>Nodes and their data\<close>

text \<open>Reads and writes of a node that has been removed have no row.\<close>

definition getValue :: "string option \<Rightarrow> nat \<Rightarrow> ('v, 'y, 'm) tree \<Rightarrow> num" where
  "getValue dimension r t =
     (let i = tn_dataIndex (tr_nodes t ! r);
          d = getDimension (By_Name (case dimension of None \<Rightarrow> ''value'' | Some d \<Rightarrow> if d = '''' then ''value'' else d)) (tr_data t) in
      if i < 0 then NaN else get d (nat i) False (tr_data t))"

definition tree_setLayout :: "(string \<rightharpoonup> 'y) \<Rightarrow> bool \<Rightarrow> nat \<Rightarrow> ('v, 'y, 'm) tree \<Rightarrow> ('v, 'y, 'm) tree" where
  "tree_setLayout layout merge r t =
     (let i = tn_dataIndex (tr_nodes t ! r) in
      if i \<ge> 0 then t\<lparr>tr_data := setItemLayout (nat i) layout merge (tr_data t)\<rparr> else t)"

definition tree_setVisual :: "'v setting \<Rightarrow> nat \<Rightarrow> ('v, 'y, 'm) tree \<Rightarrow> ('v, 'y, 'm) tree" where
  "tree_setVisual st r t =
     (let i = tn_dataIndex (tr_nodes t ! r) in
      if i \<ge> 0 then t\<lparr>tr_data := setItemVisual (nat i) st (tr_data t)\<rparr> else t)"

definition tree_getRawIndex :: "nat \<Rightarrow> ('v, 'y, 'm) tree \<Rightarrow> int" where
  "tree_getRawIndex r t = getRawIndex (tn_dataIndex (tr_nodes t ! r)) (tr_data t)"

definition getLevelModel :: "nat \<Rightarrow> ('v, 'y, 'm) tree \<Rightarrow> 'm option" where
  "getLevelModel r t =
     (let d = tn_depth (tr_nodes t ! r) in if d < length (tr_levelModels t) then Some (tr_levelModels t ! d) else None)"

section \<open>The tree\<close>

definition getNodeByDataIndex :: "int \<Rightarrow> ('v, 'y, 'm) tree \<Rightarrow> nat option" where
  "getNodeByDataIndex dataIndex t =
     (let raw = getRawIndex dataIndex (tr_data t) in
      if 0 \<le> raw \<and> raw < int (length (tr_nodes t)) then Some (nat raw) else None)"

definition tree_update :: "('v, 'y, 'm) tree \<Rightarrow> ('v, 'y, 'm) tree option" where
  "tree_update t =
     do { nodes \<leftarrow> index_rows (\<lambda>i n. n\<lparr>tn_dataIndex := i\<rparr>) 0 (dl_indices (tr_data t)) (map (\<lambda>n. n\<lparr>tn_dataIndex := -1\<rparr>) (tr_nodes t));
          Some (t\<lparr>tr_nodes := nodes\<rparr>) }"

text \<open>The table of a tree is linked to it: filtering the table updates the tree.\<close>

definition tree_filter ::
  "dim list \<Rightarrow> (num list \<Rightarrow> nat \<Rightarrow> bool) \<Rightarrow> bool \<Rightarrow> ('v, 'y, 'm) tree \<Rightarrow> ('v, 'y, 'm) tree option" where
  "tree_filter dims keep stack t = tree_update (t\<lparr>tr_data := filterSelf dims keep stack (tr_data t)\<rparr>)"

definition tree_clearLayouts :: "('v, 'y, 'm) tree \<Rightarrow> ('v, 'y, 'm) tree" where
  "tree_clearLayouts t = t\<lparr>tr_data := clearItemLayouts (tr_data t)\<rparr>"

text \<open>The members of a node; \<open>getNodeByName\<close> of a tree calls the one of its root, which there is not.\<close>

definition treeNode_members :: "string list" where
  "treeNode_members = [''constructor'', ''isRemoved'', ''eachNode'', ''updateDepthAndHeight'', ''getNodeById'', ''contains'',
     ''getAncestors'', ''getValue'', ''setLayout'', ''getLayout'', ''getModel'', ''getLevelModel'', ''setVisual'',
     ''getVisual'', ''getRawIndex'', ''getId'']"

definition getNodeByName :: "(string \<Rightarrow> 'r) \<Rightarrow> string \<Rightarrow> ('v, 'y, 'm) tree \<Rightarrow> 'r option" where
  "getNodeByName method name t = (if ''getNodeByName'' \<in> set treeNode_members then Some (method name) else None)"

section \<open>Building a tree\<close>

text \<open>A node of the given data: its name, its item for the table, and its children.\<close>

datatype dnode = DNode (dn_name: "string option") (dn_item: item) (dn_children: "dnode list")

definition addChild :: "nat \<Rightarrow> nat \<Rightarrow> tnode list \<Rightarrow> tnode list" where
  "addChild child node nodes =
     (if tn_parentNode (nodes ! child) = Some node then nodes
      else let nodes = nodes[node := (nodes ! node)\<lparr>tn_children := tn_children (nodes ! node) @ [child]\<rparr>] in
        nodes[child := (nodes ! child)\<lparr>tn_parentNode := Some node\<rparr>])"

text \<open>The new node is in the list of nodes from the start; the code adds it after it has linked it.\<close>

fun buildHierarchy :: "dnode \<Rightarrow> nat option \<Rightarrow> tnode list \<times> item list \<Rightarrow> tnode list \<times> item list"
and buildChildren :: "dnode list \<Rightarrow> nat option \<Rightarrow> tnode list \<times> item list \<Rightarrow> tnode list \<times> item list" where
  "buildHierarchy (DNode name it children) parent (nodes, listData) =
     (let r = length nodes;
          nodes = nodes @ [newTreeNode name];
          nodes = (case parent of Some p \<Rightarrow> addChild r p nodes | None \<Rightarrow> nodes) in
      buildChildren children (Some r) (nodes, listData @ [it]))"
| "buildChildren [] parent st = st"
| "buildChildren (d # ds) parent st = buildChildren ds parent (buildHierarchy d parent st)"

definition createTree ::
  "dimdef list \<Rightarrow> (item \<Rightarrow> string \<Rightarrow> nat \<Rightarrow> nat \<Rightarrow> num) \<Rightarrow> 'm list \<Rightarrow> dnode \<Rightarrow> ('v, 'y, 'm) tree option" where
  "createTree dimensions getter levelModels dataRoot =
     (let (nodes, listData) = buildHierarchy dataRoot None ([], []) in
      do { nodes \<leftarrow> updateDepthAndHeight 0 0 nodes;
           list \<leftarrow> initData listData [] getter (newList (Some dimensions));
           tree_update ((newTree levelModels list)\<lparr>tr_root := Some 0, tr_nodes := nodes\<rparr>) })"

end
