(* ===== verification/Data_Tree_Facts.thy ===== *)
theory Data_Tree_Facts
  imports Data_Tree
begin

text \<open>
  The nodes of a built tree written out: the data in preorder, with depths, heights, parents and
  children. Walks visit the nodes in that order, and an update keeps nodes and rows in step.
\<close>

section \<open>The expected nodes\<close>

fun dsize :: "dnode \<Rightarrow> nat" and dsizes :: "dnode list \<Rightarrow> nat" where
  "dsize (DNode name it ds) = Suc (dsizes ds)"
| "dsizes [] = 0"
| "dsizes (d # ds) = dsize d + dsizes ds"

fun dheight :: "dnode \<Rightarrow> nat" and dheights :: "dnode list \<Rightarrow> nat" where
  "dheight (DNode name it ds) = Suc (dheights ds)"
| "dheights [] = 0"
| "dheights (d # ds) = max (dheight d) (dheights ds)"

fun items :: "dnode \<Rightarrow> item list" and items_list :: "dnode list \<Rightarrow> item list" where
  "items (DNode name it ds) = it # items_list ds"
| "items_list [] = []"
| "items_list (d # ds) = items d @ items_list ds"

fun offsets :: "nat \<Rightarrow> dnode list \<Rightarrow> nat list" where
  "offsets i [] = []"
| "offsets i (d # ds) = i # offsets (i + dsize d) ds"

text \<open>
  The nodes of some data from position \<open>i\<close> below a parent; \<open>full\<close> says whether depths and heights are set.
\<close>

fun laid :: "bool \<Rightarrow> nat \<Rightarrow> nat option \<Rightarrow> nat \<Rightarrow> dnode \<Rightarrow> tnode list"
and laids :: "bool \<Rightarrow> nat \<Rightarrow> nat option \<Rightarrow> nat \<Rightarrow> dnode list \<Rightarrow> tnode list" where
  "laid full i p k (DNode name it ds) =
     \<lparr>tn_name = (case name of None \<Rightarrow> '''' | Some n \<Rightarrow> n), tn_depth = (if full then k else 0),
      tn_height = (if full then Suc (dheights ds) else 0), tn_parentNode = p, tn_dataIndex = -1,
      tn_children = offsets (Suc i) ds, tn_viewChildren = []\<rparr> # laids full (Suc i) (Some i) (Suc k) ds"
| "laids full i p k [] = []"
| "laids full i p k (d # ds) = laid full i p k d @ laids full (i + dsize d) p k ds"

lemma length_laid [simp]: "length (laid full i p k d) = dsize d" "length (laids full i p k ds) = dsizes ds"
  by (induction full i p k d and full i p k ds rule: laid_laids.induct) simp_all

lemma length_items [simp]: "length (items d) = dsize d" "length (items_list ds) = dsizes ds"
  by (induction d and ds rule: items_items_list.induct) simp_all

lemma dsize_pos [simp]: "0 < dsize d"
  by (cases d) simp

section \<open>Building\<close>

lemma addChild_new:
  assumes "r = length nodes" "p < length nodes" "tn_parentNode n = None"
  shows "addChild r p (nodes @ [n]) =
    nodes[p := (nodes ! p)\<lparr>tn_children := tn_children (nodes ! p) @ [r]\<rparr>] @ [n\<lparr>tn_parentNode := Some p\<rparr>]"
  using assms by (simp add: addChild_def Let_def nth_append list_update_append)

text \<open>The parent gains the references of its children; the rest is appended.\<close>

definition gain :: "nat option \<Rightarrow> nat list \<Rightarrow> tnode list \<Rightarrow> tnode list" where
  "gain p rs nodes = (case p of None \<Rightarrow> nodes
     | Some p \<Rightarrow> nodes[p := (nodes ! p)\<lparr>tn_children := tn_children (nodes ! p) @ rs\<rparr>])"

lemma gain_simps [simp]: "length (gain p rs nodes) = length nodes" "gain p [] nodes = nodes"
  by (cases p; simp add: gain_def)+

lemma gain_gain: "pred_option (\<lambda>p. p < length nodes) p \<Longrightarrow> gain p rs (gain p qs nodes) = gain p (qs @ rs) nodes"
  by (cases p) (simp_all add: gain_def)

lemma gain_append: "pred_option (\<lambda>p. p < length nodes) p \<Longrightarrow> gain p rs (nodes @ ns) = gain p rs nodes @ ns"
  by (cases p) (simp_all add: gain_def list_update_append nth_append)

lemma build_laid:
  "pred_option (\<lambda>p. p < length nodes) p \<Longrightarrow>
     buildHierarchy d p (nodes, data) = (gain p [length nodes] nodes @ laid False (length nodes) p k d, data @ items d)"
  "pred_option (\<lambda>p. p < length nodes) p \<Longrightarrow> p \<noteq> None \<or> ds = [] \<Longrightarrow>
     buildChildren ds p (nodes, data) =
       (gain p (offsets (length nodes) ds) nodes @ laids False (length nodes) p k ds, data @ items_list ds)"
proof (induction d and ds arbitrary: nodes data p k and nodes data p k rule: dsize_dsizes.induct)
  case (1 name it ds)
  let ?n = "newTreeNode name" and ?r = "length nodes"
  let ?n' = "?n\<lparr>tn_parentNode := p\<rparr>"
  have start: "(case p of Some p \<Rightarrow> addChild ?r p (nodes @ [?n]) | None \<Rightarrow> nodes @ [?n]) = gain p [?r] nodes @ [?n']"
    using "1.prems" by (cases p) (simp_all add: gain_def addChild_new newTreeNode_def)
  have "buildHierarchy (DNode name it ds) p (nodes, data) = buildChildren ds (Some ?r) (gain p [?r] nodes @ [?n'], data @ [it])"
    by (simp add: start Let_def)
  also have "\<dots> = (gain (Some ?r) (offsets (Suc ?r) ds) (gain p [?r] nodes @ [?n']) @ laids False (Suc ?r) (Some ?r) (Suc k) ds,
      (data @ [it]) @ items_list ds)"
    by (subst "1.IH" [where k = "Suc k"]) simp_all
  also have "gain (Some ?r) (offsets (Suc ?r) ds) (gain p [?r] nodes @ [?n']) =
      gain p [?r] nodes @ [?n'\<lparr>tn_children := offsets (Suc ?r) ds\<rparr>]"
    by (simp add: gain_def [of "Some ?r"] newTreeNode_def nth_append list_update_append)
  finally show ?case by (simp add: newTreeNode_def)
next
  case 2
  then show ?case by simp
next
  case (3 d ds)
  let ?n1 = "gain p [length nodes] nodes @ laid False (length nodes) p k d"
  have p1: "pred_option (\<lambda>p. p < length ?n1) p" using "3.prems"(1) by (cases p) auto
  have "buildChildren (d # ds) p (nodes, data) = buildChildren ds p (?n1, data @ items d)"
    using "3.IH"(1) [OF "3.prems"(1), of data k] by simp
  also have "\<dots> = (gain p (offsets (length ?n1) ds) ?n1 @ laids False (length ?n1) p k ds, (data @ items d) @ items_list ds)"
    using "3.IH"(2) [OF p1, of "data @ items d" k] "3.prems"(2) by auto
  also have "gain p (offsets (length ?n1) ds) ?n1 =
      gain p (length nodes # offsets (length nodes + dsize d) ds) nodes @ laid False (length nodes) p k d"
    using "3.prems"(1) by (simp add: gain_append gain_gain)
  finally show ?case by simp
qed

section \<open>Depths and heights\<close>

lemma updateDepths_laid:
  "length pre = i \<Longrightarrow> updateDepths k (i # rest) h (pre @ laid False i p k0 d @ post) =
     updateDepths k rest (max h (dheight d)) (pre @ laid True i p k d @ post)"
  "length pre = i \<Longrightarrow> updateDepths k (offsets i ds @ rest) h (pre @ laids False i p k0 ds @ post) =
     updateDepths k rest (max h (dheights ds)) (pre @ laids True i p k ds @ post)"
proof (induction d and ds arbitrary: pre i p k k0 h rest post and pre i p k k0 h rest post rule: dsize_dsizes.induct)
  case (1 name it ds)
  let ?nodes = "pre @ laid False i p k0 (DNode name it ds) @ post"
  let ?n = "(?nodes ! i)\<lparr>tn_depth := k\<rparr>"
  have n: "?nodes ! i = hd (laid False i p k0 (DNode name it ds))" using "1.prems" by (simp add: nth_append)
  have ch: "tn_children (?nodes ! i) = offsets (Suc i) ds" unfolding n by simp
  have up: "?nodes[i := ?n] = (pre @ [?n]) @ laids False (Suc i) (Some i) (Suc k0) ds @ post"
    using "1.prems" by (simp add: n list_update_append)
  have "updateDepths (Suc k) (offsets (Suc i) ds @ []) 0 ((pre @ [?n]) @ laids False (Suc i) (Some i) (Suc k0) ds @ post) =
      updateDepths (Suc k) [] (max 0 (dheights ds)) ((pre @ [?n]) @ laids True (Suc i) (Some i) (Suc k) ds @ post)"
    by (rule "1.IH") (simp add: "1.prems")
  also have "\<dots> = Some (dheights ds, (pre @ [?n]) @ laids True (Suc i) (Some i) (Suc k) ds @ post)"
    by (subst updateDepths.simps) simp
  finally have sub: "updateDepths (k + 1) (tn_children (?nodes ! i)) 0 (?nodes[i := ?n]) =
      Some (dheights ds, (pre @ [?n]) @ laids True (Suc i) (Some i) (Suc k) ds @ post)"
    unfolding up ch by simp
  have set: "((pre @ [?n]) @ ns @ post)[i := (((pre @ [?n]) @ ns @ post) ! i)\<lparr>tn_height := v\<rparr>] = pre @ (?n\<lparr>tn_height := v\<rparr>) # ns @ post" for ns v
    using "1.prems" by (simp add: nth_append list_update_append)
  have "?n\<lparr>tn_height := dheights ds + 1\<rparr> # laids True (Suc i) (Some i) (Suc k) ds = laid True i p k (DNode name it ds)"
    unfolding n by simp
  then have "pre @ (?n\<lparr>tn_height := dheights ds + 1\<rparr>) # laids True (Suc i) (Some i) (Suc k) ds @ post = pre @ laid True i p k (DNode name it ds) @ post"
    by (metis append_Cons)
  moreover have "(if dheights ds + 1 > h then dheights ds + 1 else h) = max h (dheight (DNode name it ds))" by simp
  ultimately show ?case
    by (subst updateDepths.simps) (simp only: list.case sub set bind.simps Let_def prod.case length_append length_laid "1.prems" if_True
        less_add_same_cancel1 dsize_pos add.assoc trans_less_add1 add_pos_pos)
next
  case 2
  then show ?case by simp
next
  case (3 d ds)
  have "updateDepths k (offsets i (d # ds) @ rest) h (pre @ laids False i p k0 (d # ds) @ post) =
      updateDepths k (i # (offsets (i + dsize d) ds @ rest)) h (pre @ laid False i p k0 d @ (laids False (i + dsize d) p k0 ds @ post))"
    by simp
  also have "\<dots> = updateDepths k (offsets (i + dsize d) ds @ rest) (max h (dheight d))
      (pre @ laid True i p k d @ (laids False (i + dsize d) p k0 ds @ post))"
    by (rule "3.IH"(1) [OF "3.prems"])
  also have "\<dots> = updateDepths k rest (max (max h (dheight d)) (dheights ds))
      ((pre @ laid True i p k d) @ laids True (i + dsize d) p k ds @ post)"
    using "3.IH"(2) [of "pre @ laid True i p k d" "i + dsize d" k rest "max h (dheight d)" p k0 post] "3.prems" by simp
  finally show ?case by (simp add: max.assoc)
qed

lemma updateDepthAndHeight_laid:
  "updateDepthAndHeight 0 0 (laid False 0 None k d) = Some (laid True 0 None 0 d)"
proof -
  have "updateDepths 0 [0] 0 (laid False 0 None k d) = updateDepths 0 [] (max 0 (dheight d)) (laid True 0 None 0 d)"
    using updateDepths_laid(1) [of "[]" 0 0 "[]" 0 None k d "[]"] by simp
  then show ?thesis by (subst (asm) (2) updateDepths.simps) (simp add: updateDepthAndHeight_def)
qed

section \<open>Walks\<close>

text \<open>The positions a walk visits.\<close>

fun visits :: "order \<Rightarrow> (nat \<Rightarrow> bool) \<Rightarrow> nat \<Rightarrow> dnode \<Rightarrow> nat list"
and visitss :: "order \<Rightarrow> (nat \<Rightarrow> bool) \<Rightarrow> nat \<Rightarrow> dnode list \<Rightarrow> nat list" where
  "visits order suppress i (DNode name it ds) =
     (if order = Preorder then i # (if suppress i then [] else visitss order suppress (Suc i) ds)
      else visitss order suppress (Suc i) ds @ (if order = Postorder then [i] else []))"
| "visitss order suppress i [] = []"
| "visitss order suppress i (d # ds) = visits order suppress i d @ visitss order suppress (i + dsize d) ds"

lemma visits_all:
  "visits Preorder (\<lambda>_. False) i d = [i..<i + dsize d]"
  "visitss Preorder (\<lambda>_. False) i ds = [i..<i + dsizes ds]"
proof (induction Preorder "\<lambda>_ :: nat. False" i d and Preorder "\<lambda>_ :: nat. False" i ds rule: visits_visitss.induct)
  case (1 i name it ds)
  then show ?case by (simp add: upt_rec [of i])
next
  case (3 i d ds)
  then show ?case by (simp add: upt_add_eq_append [symmetric] add.assoc) (metis add.assoc le_add1 upt_add_eq_append)
qed simp

text \<open>Nodes with the same children as the expected ones.\<close>

definition same_children :: "tnode list \<Rightarrow> tnode list \<Rightarrow> bool" where
  "same_children nodes nodes' \<longleftrightarrow> map tn_children nodes = map tn_children nodes' \<and> map tn_viewChildren nodes = map tn_viewChildren nodes'"

lemma same_childrenD:
  "same_children nodes nodes' \<Longrightarrow> length nodes = length nodes'"
  "same_children nodes nodes' \<Longrightarrow> i < length nodes' \<Longrightarrow> tn_children (nodes ! i) = tn_children (nodes' ! i)"
  unfolding same_children_def by (metis length_map, metis length_map nth_map)

lemma eachNodes_laid:
  "same_children nodes (pre @ laid full i p k d @ post) \<Longrightarrow> length pre = i \<Longrightarrow>
     eachNodes nodes order Children suppress (i # rest) =
       map_option ((@) (visits order suppress i d)) (eachNodes nodes order Children suppress rest)"
  "same_children nodes (pre @ laids full i p k ds @ post) \<Longrightarrow> length pre = i \<Longrightarrow>
     eachNodes nodes order Children suppress (offsets i ds @ rest) =
       map_option ((@) (visitss order suppress i ds)) (eachNodes nodes order Children suppress rest)"
proof (induction d and ds arbitrary: pre i p k rest post and pre i p k rest post rule: dsize_dsizes.induct)
  case (1 name it ds)
  have i: "i < length nodes" "tn_children (nodes ! i) = offsets (Suc i) ds"
    using "1.prems" same_childrenD(1) [OF "1.prems"(1)] same_childrenD(2) [OF "1.prems"(1), of i] by (simp_all add: nth_append)
  have "eachNodes nodes order Children suppress (offsets (Suc i) ds @ []) =
      map_option ((@) (visitss order suppress (Suc i) ds)) (eachNodes nodes order Children suppress [])"
    by (rule "1.IH" [of "pre @ [hd (laid full i p k (DNode name it ds))]" "Suc i" "Some i" "Suc k" post])
      (use "1.prems" in simp_all)
  then have sub: "eachNodes nodes order Children suppress (offsets (Suc i) ds) = Some (visitss order suppress (Suc i) ds)"
    by (simp add: eachNodes.simps [of _ _ _ _ "[]"])
  show ?case
    using i sub by (subst eachNodes.simps) (cases "eachNodes nodes order Children suppress rest"; cases order; simp)
next
  case 2
  then show ?case by (simp add: option.map_ident)
next
  case (3 d ds)
  have "eachNodes nodes order Children suppress (i # (offsets (i + dsize d) ds @ rest)) =
      map_option ((@) (visits order suppress i d)) (eachNodes nodes order Children suppress (offsets (i + dsize d) ds @ rest))"
    by (rule "3.IH"(1) [of pre i p k "laids full (i + dsize d) p k ds @ post"]) (use "3.prems" in simp_all)
  moreover have "eachNodes nodes order Children suppress (offsets (i + dsize d) ds @ rest) =
      map_option ((@) (visitss order suppress (i + dsize d) ds)) (eachNodes nodes order Children suppress rest)"
    by (rule "3.IH"(2) [of "pre @ laid full i p k d" "i + dsize d" p k post]) (use "3.prems" in simp_all)
  ultimately show ?case by (simp add: option.map_comp comp_def)
qed

section \<open>Ancestors\<close>

text \<open>Every node but the first has a parent before it, one level up.\<close>

lemma parents_laid:
  "j < dsize d \<Longrightarrow> (let n = laid True i p k d ! j in
     j = 0 \<and> tn_parentNode n = p \<and> tn_depth n = k \<or>
     (\<exists>q<j. tn_parentNode n = Some (i + q) \<and> tn_depth n = Suc (tn_depth (laid True i p k d ! q))))"
  "j < dsizes ds \<Longrightarrow> (let n = laids True i p k ds ! j in
     tn_parentNode n = p \<and> tn_depth n = k \<or>
     (\<exists>q<j. tn_parentNode n = Some (i + q) \<and> tn_depth n = Suc (tn_depth (laids True i p k ds ! q))))"
proof (induction d and ds arbitrary: i p k j and i p k j rule: dsize_dsizes.induct)
  case (1 name it ds)
  show ?case
  proof (cases j)
    case 0
    then show ?thesis by simp
  next
    case (Suc j')
    let ?ns = "laids True (Suc i) (Some i) (Suc k) ds"
    have "j' < dsizes ds" using "1.prems" Suc by simp
    from "1.IH" [OF this, of "Suc i" "Some i" "Suc k"]
    consider "tn_parentNode (?ns ! j') = Some i" "tn_depth (?ns ! j') = Suc k"
      | q where "q < j'" "tn_parentNode (?ns ! j') = Some (Suc i + q)" "tn_depth (?ns ! j') = Suc (tn_depth (?ns ! q))"
      by (auto simp: Let_def)
    then show ?thesis
    proof cases
      case 1
      then show ?thesis using Suc by (auto simp: Let_def intro!: exI [of _ 0])
    next
      case (2 q)
      then show ?thesis using Suc by (auto simp: Let_def intro!: exI [of _ "Suc q"])
    qed
  qed
next
  case 2
  then show ?case by simp
next
  case (3 d ds)
  show ?case
  proof (cases "j < dsize d")
    case True
    have at: "laids True i p k (d # ds) ! q = laid True i p k d ! q" if "q < dsize d" for q
      using that by (simp add: nth_append)
    from "3.IH"(1) [OF True, of i p k]
    consider "tn_parentNode (laid True i p k d ! j) = p" "tn_depth (laid True i p k d ! j) = k"
      | q where "q < j" "tn_parentNode (laid True i p k d ! j) = Some (i + q)"
          "tn_depth (laid True i p k d ! j) = Suc (tn_depth (laid True i p k d ! q))"
      unfolding Let_def by blast
    then show ?thesis
    proof cases
      case 1
      then show ?thesis unfolding at [OF True] Let_def by blast
    next
      case (2 q)
      then have "q < dsize d" using True by simp
      then show ?thesis using 2 at unfolding at [OF True] Let_def by metis
    qed
  next
    case False
    define j' where "j' = j - dsize d"
    let ?ns = "laids True (i + dsize d) p k ds"
    have j: "j = dsize d + j'" "j' < dsizes ds" using False "3.prems" by (simp_all add: j'_def)
    have at: "laids True i p k (d # ds) ! (dsize d + q) = ?ns ! q" for q by (simp add: nth_append)
    from "3.IH"(2) [OF j(2), of "i + dsize d" p k]
    consider "tn_parentNode (?ns ! j') = p" "tn_depth (?ns ! j') = k"
      | q where "q < j'" "tn_parentNode (?ns ! j') = Some (i + dsize d + q)" "tn_depth (?ns ! j') = Suc (tn_depth (?ns ! q))"
      by (auto simp: Let_def)
    then show ?thesis
    proof cases
      case 1
      then show ?thesis unfolding j(1) at Let_def by blast
    next
      case (2 q)
      then show ?thesis unfolding j(1) at Let_def using at [of q]
        by (intro disjI2 exI [of _ "dsize d + q"]) (simp add: add.assoc)
    qed
  qed
qed

section \<open>Nodes and rows\<close>

text \<open>The data index of a node is the row that shows it, or -1.\<close>

abbreviation in_step :: "nat list \<Rightarrow> tnode list \<Rightarrow> bool" where
  "in_step \<equiv> carries tn_dataIndex"

interpretation tree_rows: row_holder tn_dataIndex "\<lambda>i n. n\<lparr>tn_dataIndex := i\<rparr>"
  by unfold_locales simp

abbreviation unindexed :: "tnode list \<Rightarrow> tnode list" where
  "unindexed nodes \<equiv> map (\<lambda>n. n\<lparr>tn_dataIndex := -1\<rparr>) nodes"

lemma index_rows_unindexed:
  assumes "index_rows (\<lambda>i n. n\<lparr>tn_dataIndex := i\<rparr>) i rows nodes = Some nodes'"
  shows "unindexed nodes' = unindexed nodes"
  by (rule index_rows_keeps [OF assms]) simp

lemma tree_update_run:
  assumes "distinct (dl_indices (tr_data t))" "\<forall>r\<in>set (dl_indices (tr_data t)). r < length (tr_nodes t)"
  shows "\<exists>nodes. tree_update t = Some (t\<lparr>tr_nodes := nodes\<rparr>) \<and> unindexed nodes = unindexed (tr_nodes t) \<and>
    in_step (dl_indices (tr_data t)) nodes"
proof -
  have "\<exists>nodes. index_rows (\<lambda>i n. n\<lparr>tn_dataIndex := i\<rparr>) 0 (dl_indices (tr_data t)) (unindexed (tr_nodes t)) = Some nodes \<and>
      length nodes = length (unindexed (tr_nodes t)) \<and> in_step (dl_indices (tr_data t)) nodes"
    by (rule tree_rows.index_rows_carries [OF assms(1)]) (use assms(2) in auto)
  then obtain nodes where n: "index_rows (\<lambda>i n. n\<lparr>tn_dataIndex := i\<rparr>) 0 (dl_indices (tr_data t)) (unindexed (tr_nodes t)) = Some nodes"
      "in_step (dl_indices (tr_data t)) nodes" by blast
  then show ?thesis using index_rows_unindexed [OF n(1)] by (intro exI [of _ nodes]) (simp add: tree_update_def comp_def)
qed

inductive grown :: "dnode \<Rightarrow> ('v, 'y, 'm) tree \<Rightarrow> bool" where
  created: "createTree dimensions getter levelModels d = Some t \<Longrightarrow> grown d t"
| filtered: "grown d t \<Longrightarrow> tree_filter dims keep stack t = Some t' \<Longrightarrow> grown d t'"
| layout: "grown d t \<Longrightarrow> grown d (tree_setLayout lay merge r t)"
| visual: "grown d t \<Longrightarrow> grown d (tree_setVisual st r t)"
| cleared: "grown d t \<Longrightarrow> grown d (tree_clearLayouts t)"

definition tree_ok :: "dnode \<Rightarrow> ('v, 'y, 'm) tree \<Rightarrow> bool" where
  "tree_ok d t \<longleftrightarrow> tr_root t = Some 0 \<and> unindexed (tr_nodes t) = laid True 0 None 0 d \<and> made (tr_data t) \<and>
     set (dl_indices (tr_data t)) \<subseteq> {..<dsize d} \<and> in_step (dl_indices (tr_data t)) (tr_nodes t)"

lemma unindexed_laid: "unindexed (laid full i p k d) = laid full i p k d" "unindexed (laids full i p k ds) = laids full i p k ds"
  by (induction full i p k d and full i p k ds rule: laid_laids.induct) simp_all

lemma createTree_run:
  assumes "initData (items d) [] getter (newList (Some dimensions)) = Some l"
  shows "\<exists>nodes. createTree dimensions getter levelModels d =
      Some \<lparr>tr_root = Some 0, tr_data = l, tr_nodes = nodes, tr_levelModels = levelModels\<rparr> \<and>
    unindexed nodes = laid True 0 None 0 d \<and> in_step [0..<dsize d] nodes \<and> dl_indices l = [0..<dsize d]"
proof -
  have b: "buildHierarchy d None ([], []) = (laid False 0 None 0 d, items d)"
    using build_laid(1) [of "[]" None d "[]" 0] by (simp add: gain_def)
  have rows: "dl_indices l = [0..<dsize d]"
    using assms by (auto simp: initData_def split: if_splits prod.splits)
  let ?t = "(newTree levelModels l)\<lparr>tr_root := Some 0, tr_nodes := laid True 0 None 0 d\<rparr>"
  obtain nodes where "tree_update ?t = Some (?t\<lparr>tr_nodes := nodes\<rparr>)" "unindexed nodes = laid True 0 None 0 d"
      "in_step [0..<dsize d] nodes"
    using tree_update_run [of ?t] rows unindexed_laid(1) [of True 0 None 0 d] by (auto simp: newTree_def)
  then show ?thesis
    using assms b rows updateDepthAndHeight_laid [of 0 d] by (simp add: createTree_def newTree_def)
qed

lemma made_layouts: "made l \<Longrightarrow> made (l\<lparr>dl_itemLayouts := y\<rparr>)" "made l \<Longrightarrow> made (l\<lparr>dl_itemVisuals := v\<rparr>)"
  using made.dressed [of l, where vis = "dl_visual l" and ivis = "dl_itemVisuals l" and lay = "dl_layout l" and ilay = y]
    made.dressed [of l, where vis = "dl_visual l" and ivis = v and lay = "dl_layout l" and ilay = "dl_itemLayouts l"] by simp_all

lemma grown_ok: "grown d (t :: ('v, 'y, 'm) tree) \<Longrightarrow> tree_ok d t"
proof (induction rule: grown.induct)
  case (created dimensions getter levelModels d t)
  then obtain l :: "('v, 'y) dlist" where l: "initData (items d) [] getter (newList (Some dimensions)) = Some l"
    using build_laid(1) [of "[]" None d "[]" 0]
    by (auto simp: createTree_def gain_def bind_eq_Some_conv)
  then show ?case
    using createTree_run [OF l, of levelModels] created made.init [OF l] by (auto simp: tree_ok_def)
next
  case (filtered d t dims keep stack t')
  let ?l = "filterSelf dims keep stack (tr_data t)"
  have ok: "tree_ok d t" by (rule filtered.IH)
  have m: "made ?l" using ok by (intro made.filtered) (simp add: tree_ok_def)
  have d: "distinct (dl_indices ?l)" using made_ok [OF m] by (simp add: table_ok_def strict_sorted_iff)
  have sub: "set (dl_indices ?l) \<subseteq> set (dl_indices (tr_data t))"
    unfolding rows_filter count_def by auto
  have len: "length (tr_nodes t) = dsize d" using ok by (metis length_laid(1) length_map tree_ok_def)
  have "\<forall>r\<in>set (dl_indices ?l). r < length (tr_nodes t)" using sub ok len by (auto simp: tree_ok_def)
  then obtain nodes where "tree_filter dims keep stack t = Some (t\<lparr>tr_data := ?l, tr_nodes := nodes\<rparr>)"
      "unindexed nodes = unindexed (tr_nodes t)" "in_step (dl_indices ?l) nodes"
    using tree_update_run [of "t\<lparr>tr_data := ?l\<rparr>"] d by (auto simp: tree_filter_def)
  then show ?case using filtered.hyps(2) ok m sub by (auto simp: tree_ok_def)
next
  case (layout d t lay merge r)
  then show ?case by (auto simp: tree_ok_def tree_setLayout_def setItemLayout_def Let_def made_layouts)
next
  case (visual d t st r)
  then show ?case by (auto simp: tree_ok_def tree_setVisual_def setItemVisual_def Let_def made_layouts)
next
  case (cleared d t)
  then show ?case by (auto simp: tree_ok_def tree_clearLayouts_def clearItemLayouts_def made_layouts)
qed

end
