(* ===== verification/Data_Tree_Props.thy ===== *)
theory Data_Tree_Props
  imports Data_Tree_Facts
begin

text \<open>
  The properties of trees over tables: what is built, how nodes and rows stay in step while
  the table is filtered, and what the walks over the nodes give.
\<close>

section \<open>A small tree\<close>

definition leaf :: "string \<Rightarrow> int \<Rightarrow> dnode list \<Rightarrow> dnode" where
  "leaf n v ds = DNode (Some n) \<lparr>r_name = Some n, r_id = None, r_values = [Fin v]\<rparr> ds"

definition disk :: dnode where
  "disk = leaf ''root'' 9 [leaf ''usr'' 6 [leaf ''bin'' 2 [], leaf ''lib'' 4 []], leaf ''tmp'' 3 []]"

definition value_of :: "item \<Rightarrow> string \<Rightarrow> nat \<Rightarrow> nat \<Rightarrow> num" where
  "value_of it d i k = (case r_values it of [] \<Rightarrow> NaN | v # _ \<Rightarrow> v)"

definition disk_list :: "(unit, unit) dlist" where
  "disk_list = the (initData (items disk) [] value_of (newList (Some [Named ''value''])))"

lemma disk_list_run: "initData (items disk) [] value_of (newList (Some [Named ''value''])) = Some disk_list"
  by (simp add: disk_list_def initData_def newList_def dim_info_def type_of_def dataCtors_def Let_def split: prod.split)

lemma disk_size [simp]: "dsize disk = 5"
  by (simp add: disk_def leaf_def)

definition disk_tree :: "(unit, unit, unit) tree" where
  "disk_tree = the (createTree [Named ''value''] value_of [] disk)"

lemma disk_tree_run: "createTree [Named ''value''] value_of [] disk = Some disk_tree"
  using createTree_run [OF disk_list_run, of "[] :: unit list"] by (auto simp: disk_tree_def)

lemma disk_grown: "grown disk disk_tree"
  by (rule grown.created [OF disk_tree_run])

section \<open>Properties\<close>

text \<open>
  C21. Building a tree lays its nodes out in preorder: each has the depth, height, parent and
  children of its place in the data, and its own position as its data index.
\<close>

theorem createTree_lays_out:
  assumes "initData (items d) [] getter (newList (Some dimensions)) = Some l"
  shows "createTree dimensions getter levelModels d = Some \<lparr>tr_root = Some 0, tr_data = l,
    tr_nodes = map (\<lambda>r. (laid True 0 None 0 d ! r)\<lparr>tn_dataIndex := int r\<rparr>) [0..<dsize d], tr_levelModels = levelModels\<rparr>"
proof -
  obtain nodes where n: "createTree dimensions getter levelModels d =
      Some \<lparr>tr_root = Some 0, tr_data = l, tr_nodes = nodes, tr_levelModels = levelModels\<rparr>"
    "unindexed nodes = laid True 0 None 0 d" "in_step [0..<dsize d] nodes"
    using createTree_run [OF assms, of levelModels] by blast
  have len: "length nodes = dsize d" using arg_cong [OF n(2), of length] by simp
  have "nodes ! r = (laid True 0 None 0 d ! r)\<lparr>tn_dataIndex := int r\<rparr>" if "r < dsize d" for r
  proof -
    have "tn_dataIndex (nodes ! r) = int r" using n(3) that by (simp add: carries_def)
    moreover have "(nodes ! r)\<lparr>tn_dataIndex := -1\<rparr> = laid True 0 None 0 d ! r"
      using arg_cong [OF n(2), of "\<lambda>ns. ns ! r"] that len by simp
    ultimately show ?thesis by (metis tnode.surjective tnode.update_convs(5))
  qed
  then have "nodes = map (\<lambda>r. (laid True 0 None 0 d ! r)\<lparr>tn_dataIndex := int r\<rparr>) [0..<dsize d]"
    using len by (intro nth_equalityI) simp_all
  then show ?thesis using n(1) by simp
qed

lemma createTree_lays_out_witness:
  "map (\<lambda>n. (tn_name n, tn_depth n, tn_height n, tn_parentNode n, tn_children n)) (tr_nodes disk_tree) =
    [(''root'', 0, 3, None, [1, 4]), (''usr'', 1, 2, Some 0, [2, 3]), (''bin'', 2, 1, Some 1, []),
     (''lib'', 2, 1, Some 1, []), (''tmp'', 1, 1, Some 0, [])]"
proof -
  have e: "disk_tree = \<lparr>tr_root = Some 0, tr_data = disk_list,
      tr_nodes = map (\<lambda>r. (laid True 0 None 0 disk ! r)\<lparr>tn_dataIndex := int r\<rparr>) [0..<dsize disk], tr_levelModels = []\<rparr>"
    using createTree_lays_out [OF disk_list_run, of "[] :: unit list"] disk_tree_run by simp
  have "tr_nodes disk_tree = map (\<lambda>r. (laid True 0 None 0 disk ! r)\<lparr>tn_dataIndex := int r\<rparr>) [0..<5]"
    by (subst e) simp
  moreover have "[0..<5] = [0, 1, 2, 3, 4 :: nat]" by (simp add: upt_rec numeral_eq_Suc)
  ultimately show ?thesis by (simp add: disk_def leaf_def)
qed

text \<open>
  C22. However a tree and its table are filtered and dressed, each node carries the row that shows it, or
  -1 when it is removed, and the node found for a row is the one that carries it.
\<close>

theorem tree_tracks_rows:
  assumes "grown d t" "int (count (tr_data t)) < 2 ^ 31" "r < dsize d"
  shows "tn_dataIndex (tr_nodes t ! r) = indexOfRawIndex r (tr_data t) \<and>
    (isRemoved (tr_nodes t ! r) \<longleftrightarrow> r \<notin> set (dl_indices (tr_data t))) \<and>
    (\<not> isRemoved (tr_nodes t ! r) \<longrightarrow> getNodeByDataIndex (tn_dataIndex (tr_nodes t ! r)) t = Some r)"
proof -
  let ?l = "tr_data t"
  have ok: "tree_ok d t" by (rule grown_ok [OF assms(1)])
  have len: "length (tr_nodes t) = dsize d" using ok by (metis length_laid(1) length_map tree_ok_def)
  have s: "sorted_wrt (<) (dl_indices ?l)" using ok made_ok by (auto simp: tree_ok_def table_ok_def)
  note look = indexOfRawIndex_correct [OF s assms(2), of r]
  have step: "in_step (dl_indices ?l) (tr_nodes t)" using ok by (simp add: tree_ok_def)
  show ?thesis
  proof (cases "r \<in> set (dl_indices ?l)")
    case True
    then obtain j where j: "j < count ?l" "dl_indices ?l ! j = r" by (auto simp: in_set_conv_nth count_def)
    then have i: "tn_dataIndex (tr_nodes t ! r) = int j" using step by (auto simp: carries_def count_def)
    have "getRawIndex (indexOfRawIndex r ?l) ?l = int r" "0 \<le> indexOfRawIndex r ?l" using look True by simp_all
    then have "nat (indexOfRawIndex r ?l) < count ?l" "dl_indices ?l ! nat (indexOfRawIndex r ?l) = r"
      by (auto simp: getRawIndex_def split: if_splits)
    moreover have "distinct (dl_indices ?l)" using s by (simp add: strict_sorted_iff)
    ultimately have "nat (indexOfRawIndex r ?l) = j" using j by (auto simp: count_def nth_eq_iff_index_eq)
    then have "indexOfRawIndex r ?l = int j" using \<open>0 \<le> indexOfRawIndex r ?l\<close> by linarith
    moreover have "getNodeByDataIndex (int j) t = Some r"
      using j assms(3) len by (simp add: getNodeByDataIndex_def getRawIndex_def)
    ultimately show ?thesis using True i by (simp add: isRemoved_def)
  next
    case False
    then have "tn_dataIndex (tr_nodes t ! r) = -1" using step len assms(3) by (simp add: carries_def)
    then show ?thesis using False look by (simp add: isRemoved_def)
  qed
qed

lemma tree_tracks_rows_witness:
  "\<exists>t. tree_filter [] (\<lambda>vs i. i \<noteq> 1) False disk_tree = Some t \<and>
    isRemoved (tr_nodes t ! 1) \<and> tn_dataIndex (tr_nodes t ! 3) = indexOfRawIndex 3 (tr_data t)"
proof -
  let ?l = "filterSelf [] (\<lambda>vs i. i \<noteq> 1) False (tr_data disk_tree)"
  have ok: "tree_ok disk disk_tree" by (rule grown_ok [OF disk_grown])
  obtain nodes where e: "disk_tree = \<lparr>tr_root = Some 0, tr_data = disk_list, tr_nodes = nodes, tr_levelModels = []\<rparr>"
      and i: "dl_indices disk_list = [0..<5]"
    using createTree_run [OF disk_list_run, of "[] :: unit list"] disk_tree_run by auto
  have rows: "dl_indices (tr_data disk_tree) = [0..<5]" by (subst e) (simp add: i)
  have l: "dl_indices ?l = [0, 2, 3, 4]" by (simp add: filterSelf_def rows count_def upt_rec numeral_eq_Suc Let_def)
  have len: "length (tr_nodes disk_tree) = 5" using ok by (metis disk_size length_laid(1) length_map tree_ok_def)
  obtain nodes where t: "tree_filter [] (\<lambda>vs i. i \<noteq> 1) False disk_tree = Some (disk_tree\<lparr>tr_data := ?l, tr_nodes := nodes\<rparr>)"
    using tree_update_run [of "disk_tree\<lparr>tr_data := ?l\<rparr>"] l len by (auto simp: tree_filter_def)
  note g = grown.filtered [OF disk_grown t]
  show ?thesis
    using tree_tracks_rows [OF g, of 1] tree_tracks_rows [OF g, of 3] t l by (auto simp: count_def)
qed

text \<open>
  C23. Whatever the order and whatever subtrees the callback suppresses, a walk from the root ends and
  visits the nodes the data prescribe; in preorder without suppression these are all nodes, in
  the order of their raw rows.
\<close>

theorem eachNode_visits:
  assumes "grown d t"
  shows "eachNode order Children suppress 0 t = Some (visits order suppress 0 d) \<and>
    eachNode Preorder Children (\<lambda>_. False) 0 t = Some [0..<dsize d]"
proof -
  have ok: "unindexed (tr_nodes t) = laid True 0 None 0 d" using grown_ok [OF assms] by (simp add: tree_ok_def)
  have "same_children (tr_nodes t) ([] @ laid True 0 None 0 d @ [])"
    unfolding same_children_def ok [symmetric] by simp
  from eachNodes_laid(1) [OF this]
  have w: "eachNodes (tr_nodes t) order Children suppress [0] = Some (visits order suppress 0 d)" for order suppress
    by (simp add: eachNodes.simps [of _ _ _ _ "[]"])
  then show ?thesis using visits_all(1) [of 0 d] by (simp add: eachNode_def)
qed

lemma eachNode_visits_witness:
  "eachNode Postorder Children (\<lambda>_. False) 0 disk_tree = Some [2, 3, 1, 4, 0]"
  using eachNode_visits [OF disk_grown, of Postorder "\<lambda>_. False"] by (simp add: disk_def leaf_def)

text \<open>
  The ancestors of a node, itself included, are the path from the root: it starts at the
  root, ends at the node, is as long as the node is deep, and each is the parent of the next.
\<close>

theorem getAncestors_is_path:
  assumes "grown d t" "r < dsize d"
  shows "\<exists>path. getAncestors True r t = Some path \<and> length path = Suc (tn_depth (tr_nodes t ! r)) \<and> hd path = 0 \<and> last path = r \<and>
    (\<forall>j. Suc j < length path \<longrightarrow> tn_parentNode (tr_nodes t ! (path ! Suc j)) = Some (path ! j))"
proof -
  have ok: "unindexed (tr_nodes t) = laid True 0 None 0 d" using grown_ok [OF assms(1)] by (simp add: tree_ok_def)
  have len: "length (tr_nodes t) = dsize d" using arg_cong [OF ok, of length] by simp
  have at: "laid True 0 None 0 d ! x = (tr_nodes t ! x)\<lparr>tn_dataIndex := -1\<rparr>" if "x < dsize d" for x
    using arg_cong [OF ok, of "\<lambda>ns. ns ! x"] that len by simp
  have up: "x = 0 \<and> tn_parentNode (tr_nodes t ! x) = None \<and> tn_depth (tr_nodes t ! x) = 0 \<or>
      (\<exists>q<x. tn_parentNode (tr_nodes t ! x) = Some q \<and> tn_depth (tr_nodes t ! x) = Suc (tn_depth (tr_nodes t ! q)))" if x: "x < dsize d" for x
    using parents_laid(1) [OF x, of 0 None 0] at x by (fastforce simp: Let_def)
  have "\<exists>path. ancestorLoop (tr_nodes t) (Some r) acc = Some (acc @ rev path) \<and> length path = Suc (tn_depth (tr_nodes t ! r)) \<and>
      hd path = 0 \<and> last path = r \<and> (\<forall>j. Suc j < length path \<longrightarrow> tn_parentNode (tr_nodes t ! (path ! Suc j)) = Some (path ! j))" for acc
    using assms(2)
  proof (induction r arbitrary: acc rule: less_induct)
    case (less r)
    have loop: "ancestorLoop (tr_nodes t) (Some r) acc = ancestorLoop (tr_nodes t) (tn_parentNode (tr_nodes t ! r)) (acc @ [r])"
      using less.prems len by (subst ancestorLoop.simps) simp
    from up [OF less.prems] show ?case
    proof (elim disjE exE conjE)
      assume "r = 0" "tn_parentNode (tr_nodes t ! r) = None" "tn_depth (tr_nodes t ! r) = 0"
      then show ?thesis using loop by (intro exI [of _ "[0]"]) (simp add: ancestorLoop.simps [of _ None])
    next
      fix q assume q: "q < r" "tn_parentNode (tr_nodes t ! r) = Some q" "tn_depth (tr_nodes t ! r) = Suc (tn_depth (tr_nodes t ! q))"
      have "q < dsize d" using q(1) less.prems by simp
      from less.IH [OF q(1) this, of "acc @ [r]"]
      obtain path where p: "ancestorLoop (tr_nodes t) (Some q) (acc @ [r]) = Some ((acc @ [r]) @ rev path)"
          "length path = Suc (tn_depth (tr_nodes t ! q))" "hd path = 0" "last path = q"
          "\<forall>j. Suc j < length path \<longrightarrow> tn_parentNode (tr_nodes t ! (path ! Suc j)) = Some (path ! j)"
        by blast
      have ne: "path \<noteq> []" using p(2) by auto
      have "tn_parentNode (tr_nodes t ! ((path @ [r]) ! Suc j)) = Some ((path @ [r]) ! j)" if "Suc j < length (path @ [r])" for j
      proof (cases "Suc j < length path")
        case True
        then have "(path @ [r]) ! Suc j = path ! Suc j" "(path @ [r]) ! j = path ! j" by (simp_all add: nth_append)
        then show ?thesis using p(5) True by (simp only:)
      next
        case False
        then have "Suc j = length path" using that by simp
        then have j: "j = length path - 1" "j < length path" using ne by (cases path; simp)+
        have "(path @ [r]) ! Suc j = r" using \<open>Suc j = length path\<close> by (simp only: nth_append_length)
        moreover have "path ! j = q" using p(4) unfolding last_conv_nth [OF ne] j(1) [symmetric] .
        then have "(path @ [r]) ! j = q" using j(2) by (simp only: nth_append if_True)
        ultimately show ?thesis using q(2) by (simp only:)
      qed
      then show ?thesis using loop q p ne by (intro exI [of _ "path @ [r]"]) simp
    qed
  qed
  from this [of "[]"] show ?thesis by (auto simp: getAncestors_def)
qed

lemma getAncestors_is_path_witness:
  "\<exists>path. getAncestors True 3 disk_tree = Some path \<and> hd path = 0 \<and> last path = 3"
  using getAncestors_is_path [OF disk_grown, of 3] by auto

text \<open>Looking a node up by name always raises: nodes have no such member.\<close>

lemma getNodeByName_raises: "getNodeByName method name t = None"
  by (simp add: getNodeByName_def treeNode_members_def)

end
