(* ===== verification/Data_Graph.thy ===== *)
theory Data_Graph
  imports Data_List_Facts
begin

text \<open>
  The graph over two tables, \<open>data/Graph\<close> (module 199), and its construction from given nodes and links
  (module 198). Nodes and edges are kept in the order they are made and a reference is a
  position there. The dictionary of nodes is a plain object, so an inherited name counts as
  present. \<open>None\<close> is a \<open>TypeError\<close>, or a walk that does not end.
\<close>

section \<open>State\<close>

record gnode =
  gn_id :: string
  gn_inEdges :: "nat list"
  gn_outEdges :: "nat list"
  gn_edges :: "nat list"
  gn_dataIndex :: int
  gn_visited :: bool

record gedge =
  ge_node1 :: nat
  ge_node2 :: nat
  ge_dataIndex :: int

record ('v, 'y) graph =
  gr_directed :: bool
  gr_nodes :: "gnode list"
  gr_edges :: "gedge list"
  gr_nodesMap :: "string \<rightharpoonup> nat"
  gr_edgesMap :: "string \<rightharpoonup> nat"
  gr_data :: "('v, 'y) dlist"
  gr_edgeData :: "('v, 'y) dlist"

definition newGraph :: "bool \<Rightarrow> ('v, 'y) graph" where
  "newGraph directed = \<lparr>gr_directed = directed, gr_nodes = [], gr_edges = [], gr_nodesMap = Map.empty,
     gr_edgesMap = Map.empty, gr_data = newList (Some []), gr_edgeData = newList (Some [])\<rparr>"

definition newNode :: "string \<Rightarrow> int option \<Rightarrow> gnode" where
  "newNode nodeId dataIndex = \<lparr>gn_id = nodeId, gn_inEdges = [], gn_outEdges = [], gn_edges = [],
     gn_dataIndex = (case dataIndex of None \<Rightarrow> -1 | Some i \<Rightarrow> i), gn_visited = False\<rparr>"

definition newEdge :: "nat \<Rightarrow> nat \<Rightarrow> int option \<Rightarrow> gedge" where
  "newEdge n1 n2 dataIndex = \<lparr>ge_node1 = n1, ge_node2 = n2, ge_dataIndex = (case dataIndex of None \<Rightarrow> -1 | Some i \<Rightarrow> i)\<rparr>"

definition isDirected :: "('v, 'y) graph \<Rightarrow> bool" where
  "isDirected g = gr_directed g"

definition degree :: "gnode \<Rightarrow> nat" where
  "degree n = length (gn_edges n)"

definition inDegree :: "gnode \<Rightarrow> nat" where
  "inDegree n = length (gn_inEdges n)"

definition outDegree :: "gnode \<Rightarrow> nat" where
  "outDegree n = length (gn_outEdges n)"

section \<open>Nodes\<close>

text \<open>The new node, or nothing when its identifier is taken.\<close>

definition addNode :: "string option \<Rightarrow> int option \<Rightarrow> ('v, 'y) graph \<Rightarrow> nat option \<times> ('v, 'y) graph" where
  "addNode nodeId dataIndex g =
     (let k = (case nodeId of Some k \<Rightarrow> if k = '''' then text_of dataIndex else k | None \<Rightarrow> text_of dataIndex) in
      if has_key (gr_nodesMap g) k then (None, g)
      else let r = length (gr_nodes g) in
        (Some r, g\<lparr>gr_nodes := gr_nodes g @ [newNode k dataIndex], gr_nodesMap := (gr_nodesMap g)(k \<mapsto> r)\<rparr>))"

definition getNodeByIndex :: "int \<Rightarrow> ('v, 'y) graph \<Rightarrow> nat option" where
  "getNodeByIndex dataIndex g =
     (let raw = getRawIndex dataIndex (gr_data g) in
      if 0 \<le> raw \<and> raw < int (length (gr_nodes g)) then Some (nat raw) else None)"

text \<open>An inherited member is a function, not a node: \<open>None\<close> in the place of a node.\<close>

definition graph_getNodeById :: "string \<Rightarrow> ('v, 'y) graph \<Rightarrow> nat option option" where
  "graph_getNodeById k g = (case gr_nodesMap g k of Some r \<Rightarrow> Some (Some r)
     | None \<Rightarrow> if k \<in> set object_members then None else Some None)"

section \<open>Edges\<close>

text \<open>An end of an edge is given by position, by identifier, or as a node.\<close>

datatype endpoint = At nat | Of_Id string | Node_Ref nat

definition resolve :: "endpoint \<Rightarrow> ('v, 'y) graph \<Rightarrow> nat option option" where
  "resolve e g = (case e of
      Node_Ref r \<Rightarrow> Some (Some r)
    | At i \<Rightarrow> if i < length (gr_nodes g) then Some (Some i) else graph_getNodeById ''undefined'' g
    | Of_Id k \<Rightarrow> graph_getNodeById k g)"

definition edge_key :: "nat \<Rightarrow> nat \<Rightarrow> ('v, 'y) graph \<Rightarrow> string" where
  "edge_key n1 n2 g = gn_id (gr_nodes g ! n1) @ ''-'' @ gn_id (gr_nodes g ! n2)"

definition upd_gnode :: "nat \<Rightarrow> (gnode \<Rightarrow> gnode) \<Rightarrow> ('v, 'y) graph \<Rightarrow> ('v, 'y) graph" where
  "upd_gnode r f g = g\<lparr>gr_nodes := (gr_nodes g)[r := f (gr_nodes g ! r)]\<rparr>"

definition link_edge :: "nat \<Rightarrow> nat \<Rightarrow> int option \<Rightarrow> ('v, 'y) graph \<Rightarrow> ('v, 'y) graph" where
  "link_edge n1 n2 dataIndex g =
     (let e = length (gr_edges g); key = edge_key n1 n2 g;
          g = (if gr_directed g then
                 upd_gnode n2 (\<lambda>n. n\<lparr>gn_inEdges := gn_inEdges n @ [e]\<rparr>)
                   (upd_gnode n1 (\<lambda>n. n\<lparr>gn_outEdges := gn_outEdges n @ [e]\<rparr>) g)
               else g);
          g = upd_gnode n1 (\<lambda>n. n\<lparr>gn_edges := gn_edges n @ [e]\<rparr>) g;
          g = (if n1 \<noteq> n2 then upd_gnode n2 (\<lambda>n. n\<lparr>gn_edges := gn_edges n @ [e]\<rparr>) g else g) in
      g\<lparr>gr_edges := gr_edges g @ [newEdge n1 n2 dataIndex], gr_edgesMap := (gr_edgesMap g)(key \<mapsto> e)\<rparr>)"

definition addEdge ::
  "endpoint \<Rightarrow> endpoint \<Rightarrow> int option \<Rightarrow> ('v, 'y) graph \<Rightarrow> (nat option \<times> ('v, 'y) graph) option" where
  "addEdge e1 e2 dataIndex g =
     (case (resolve e1 g, resolve e2 g) of
        (Some None, _) \<Rightarrow> Some (None, g)
      | (_, Some None) \<Rightarrow> Some (None, g)
      | (Some (Some n1), Some (Some n2)) \<Rightarrow>
          if has_key (gr_edgesMap g) (edge_key n1 n2 g) then Some (None, g)
          else Some (Some (length (gr_edges g)), link_edge n1 n2 dataIndex g)
      | _ \<Rightarrow> None)"

definition getEdgeByIndex :: "int \<Rightarrow> ('v, 'y) graph \<Rightarrow> nat option" where
  "getEdgeByIndex dataIndex g =
     (let raw = getRawIndex dataIndex (gr_edgeData g) in
      if 0 \<le> raw \<and> raw < int (length (gr_edges g)) then Some (nat raw) else None)"

text \<open>The ends are identifiers or nodes.\<close>

definition end_id :: "endpoint \<Rightarrow> ('v, 'y) graph \<Rightarrow> string" where
  "end_id e g = (case e of Node_Ref r \<Rightarrow> gn_id (gr_nodes g ! r) | Of_Id k \<Rightarrow> k | At i \<Rightarrow> dec i)"

definition getEdge :: "endpoint \<Rightarrow> endpoint \<Rightarrow> ('v, 'y) graph \<Rightarrow> nat option" where
  "getEdge e1 e2 g =
     (let k1 = end_id e1 g; k2 = end_id e2 g; m = gr_edgesMap g in
      if gr_directed g then m (k1 @ ''-'' @ k2)
      else case m (k1 @ ''-'' @ k2) of Some e \<Rightarrow> Some e | None \<Rightarrow> m (k2 @ ''-'' @ k1))"

section \<open>Travelling\<close>

text \<open>The nodes and edges a callback is called with.\<close>

definition graph_eachNode :: "('v, 'y) graph \<Rightarrow> nat list" where
  "graph_eachNode g = filter (\<lambda>i. gn_dataIndex (gr_nodes g ! i) \<ge> 0) [0..<length (gr_nodes g)]"

definition eachEdge :: "('v, 'y) graph \<Rightarrow> nat list" where
  "eachEdge g = filter (\<lambda>i. let e = gr_edges g ! i in
     ge_dataIndex e \<ge> 0 \<and> gn_dataIndex (gr_nodes g ! ge_node1 e) \<ge> 0 \<and> gn_dataIndex (gr_nodes g ! ge_node2 e) \<ge> 0)
     [0..<length (gr_edges g)]"

datatype direction = Out | In | Both

fun edgeType :: "direction \<Rightarrow> gnode \<Rightarrow> nat list" where
  "edgeType Out n = gn_outEdges n"
| "edgeType In n = gn_inEdges n"
| "edgeType Both n = gn_edges n"

text \<open>
  The state of a breadth-first walk: the flags are in the nodes, the calls of the callback are pairs of
  a node and the node it was reached from. The callback stops the walk when \<open>stop\<close> holds.
\<close>

type_synonym visit = "nat \<times> nat option"

definition otherNode :: "nat \<Rightarrow> gedge \<Rightarrow> nat" where
  "otherNode cur e = (if ge_node1 e = cur then ge_node2 e else ge_node1 e)"

definition set_visited :: "bool \<Rightarrow> nat \<Rightarrow> gnode list \<Rightarrow> gnode list" where
  "set_visited b r nodes = nodes[r := (nodes ! r)\<lparr>gn_visited := b\<rparr>]"

text \<open>The edges of one node; the first component says that the walk was stopped.\<close>

fun bfsEdges :: "(visit \<Rightarrow> bool) \<Rightarrow> gedge list \<Rightarrow> nat \<Rightarrow> nat list \<Rightarrow> gnode list \<times> nat list \<times> visit list
    \<Rightarrow> bool \<times> gnode list \<times> nat list \<times> visit list" where
  "bfsEdges stop edges cur [] (nodes, queue, calls) = (False, nodes, queue, calls)"
| "bfsEdges stop edges cur (i # is) (nodes, queue, calls) =
     (let other = otherNode cur (edges ! i) in
      if gn_visited (nodes ! other) then bfsEdges stop edges cur is (nodes, queue, calls)
      else let calls = calls @ [(other, Some cur)] in
        if stop (other, Some cur) then (True, nodes, queue, calls)
        else bfsEdges stop edges cur is (set_visited True other nodes, queue @ [other], calls))"

partial_function (option) bfsLoop :: "(visit \<Rightarrow> bool) \<Rightarrow> gedge list \<Rightarrow> direction \<Rightarrow> gnode list \<Rightarrow> nat list \<Rightarrow> visit list
    \<Rightarrow> (gnode list \<times> visit list) option" where
  "bfsLoop stop edges dir nodes queue calls =
     (case queue of
        [] \<Rightarrow> Some (nodes, calls)
      | cur # rest \<Rightarrow> do {
          (stopped, nodes, queue, calls) \<leftarrow> Some (bfsEdges stop edges cur (edgeType dir (nodes ! cur)) (nodes, rest, calls));
          if stopped then Some (nodes, calls) else bfsLoop stop edges dir nodes queue calls })"

definition breadthFirstTraverse ::
  "(visit \<Rightarrow> bool) \<Rightarrow> endpoint \<Rightarrow> direction \<Rightarrow> ('v, 'y) graph \<Rightarrow> (visit list \<times> ('v, 'y) graph) option" where
  "breadthFirstTraverse stop startNode dir g =
     (case (case startNode of Node_Ref r \<Rightarrow> Some (Some r) | Of_Id k \<Rightarrow> graph_getNodeById k g | At i \<Rightarrow> graph_getNodeById (dec i) g) of
        None \<Rightarrow> None
      | Some None \<Rightarrow> Some ([], g)
      | Some (Some r) \<Rightarrow>
          let nodes = map (\<lambda>n. n\<lparr>gn_visited := False\<rparr>) (gr_nodes g) in
          if stop (r, None) then Some ([(r, None)], g\<lparr>gr_nodes := nodes\<rparr>)
          else do {
            (nodes, calls) \<leftarrow> bfsLoop stop (gr_edges g) dir nodes [r] [(r, None)];
            Some (calls, g\<lparr>gr_nodes := nodes\<rparr>) })"

declare bfsLoop.simps [code]

section \<open>Keeping up with the tables\<close>

text \<open>Rows of edges go with the rows of their nodes.\<close>

definition graph_update :: "('v, 'y) graph \<Rightarrow> ('v, 'y) graph option" where
  "graph_update g =
     do { nodes \<leftarrow> index_rows (\<lambda>i n. n\<lparr>gn_dataIndex := i\<rparr>) 0 (dl_indices (gr_data g))
            (map (\<lambda>n. n\<lparr>gn_dataIndex := -1\<rparr>) (gr_nodes g));
          let edgeData = filterSelf [] (\<lambda>_ idx. let e = gr_edges g ! (dl_indices (gr_edgeData g) ! idx) in
                gn_dataIndex (nodes ! ge_node1 e) \<ge> 0 \<and> gn_dataIndex (nodes ! ge_node2 e) \<ge> 0) False (gr_edgeData g) in
          do { edges \<leftarrow> index_rows (\<lambda>i e. e\<lparr>ge_dataIndex := i\<rparr>) 0 (dl_indices edgeData)
                 (map (\<lambda>e. e\<lparr>ge_dataIndex := -1\<rparr>) (gr_edges g));
               Some (g\<lparr>gr_nodes := nodes, gr_edges := edges, gr_edgeData := edgeData\<rparr>) } }"

text \<open>The table of nodes is linked to the graph: filtering it updates the graph.\<close>

definition graph_filter ::
  "dim list \<Rightarrow> (num list \<Rightarrow> nat \<Rightarrow> bool) \<Rightarrow> bool \<Rightarrow> ('v, 'y) graph \<Rightarrow> ('v, 'y) graph option" where
  "graph_filter dims keep stack g = graph_update (g\<lparr>gr_data := filterSelf dims keep stack (gr_data g)\<rparr>)"

section \<open>Copying\<close>

fun cloneNodes :: "gnode list \<Rightarrow> ('v, 'y) graph \<Rightarrow> ('v, 'y) graph" where
  "cloneNodes [] g = g"
| "cloneNodes (n # ns) g = cloneNodes ns (snd (addNode (Some (gn_id n)) (Some (gn_dataIndex n)) g))"

fun cloneEdges :: "gnode list \<Rightarrow> gedge list \<Rightarrow> ('v, 'y) graph \<Rightarrow> ('v, 'y) graph option" where
  "cloneEdges nodes [] g = Some g"
| "cloneEdges nodes (e # es) g =
     do { (_, g) \<leftarrow> addEdge (Of_Id (gn_id (nodes ! ge_node1 e))) (Of_Id (gn_id (nodes ! ge_node2 e))) (Some (ge_dataIndex e)) g;
          cloneEdges nodes es g }"

definition graph_clone :: "('v, 'y) graph \<Rightarrow> ('v, 'y) graph option" where
  "graph_clone g = cloneEdges (gr_nodes g) (gr_edges g) (cloneNodes (gr_nodes g) (newGraph (gr_directed g)))"

section \<open>Building a graph\<close>

record given_node =
  gv_id :: "string option"
  gv_name :: "string option"
  gv_item :: item

record given_link =
  lk_source :: endpoint
  lk_target :: endpoint
  lk_id :: "string option"
  lk_item :: item

text \<open>The identifier of a node, else its name, else its position.\<close>

fun addNodes :: "nat \<Rightarrow> given_node list \<Rightarrow> ('v, 'y) graph \<Rightarrow> ('v, 'y) graph" where
  "addNodes i [] g = g"
| "addNodes i (n # ns) g =
     (let k = (case gv_id n of Some k \<Rightarrow> Some k | None \<Rightarrow> (case gv_name n of Some k \<Rightarrow> Some k | None \<Rightarrow> Some (dec i))) in
      addNodes (i + 1) ns (snd (addNode k (Some (int i)) g)))"

definition link_name :: "given_link \<Rightarrow> string" where
  "link_name l = (case lk_id l of Some k \<Rightarrow> k | None \<Rightarrow>
     (case lk_source l of At i \<Rightarrow> dec i | Of_Id k \<Rightarrow> k | Node_Ref r \<Rightarrow> dec r) @ '' > '' @
     (case lk_target l of At i \<Rightarrow> dec i | Of_Id k \<Rightarrow> k | Node_Ref r \<Rightarrow> dec r))"

fun addLinks :: "given_link list \<Rightarrow> nat \<times> item list \<times> string list \<Rightarrow> ('v, 'y) graph
    \<Rightarrow> ((nat \<times> item list \<times> string list) \<times> ('v, 'y) graph) option" where
  "addLinks [] st g = Some (st, g)"
| "addLinks (l # ls) (linkCount, validEdges, names) g =
     do { (e, g) \<leftarrow> addEdge (lk_source l) (lk_target l) (Some (int linkCount)) g;
          addLinks ls (if e = None then (linkCount, validEdges, names)
                       else (linkCount + 1, validEdges @ [lk_item l], names @ [link_name l])) g }"

definition createGraphFromNodeEdge ::
  "given_node list \<Rightarrow> given_link list \<Rightarrow> bool \<Rightarrow> dimdef list \<Rightarrow> (item \<Rightarrow> string \<Rightarrow> nat \<Rightarrow> nat \<Rightarrow> num)
     \<Rightarrow> ('v, 'y) graph option" where
  "createGraphFromNodeEdge nodes links directed dimensions getter =
     do { ((_, validEdges, linkNames), g) \<leftarrow> addLinks links (0, [], []) (addNodes 0 nodes (newGraph directed));
          nodeData \<leftarrow> initData (map gv_item nodes) [] getter (newList (Some dimensions));
          edgeData \<leftarrow> initData validEdges linkNames getter (newList (Some [Named ''value'']));
          graph_update (g\<lparr>gr_data := nodeData, gr_edgeData := edgeData\<rparr>) }"

end
