(* ===== verification/Data_Graph_Facts.thy ===== *)
theory Data_Graph_Facts
  imports Data_Graph
begin

text \<open>
  What every graph satisfies: the lists of edges at the nodes, the dictionaries and the lists of nodes and edges say
  the same. A copy is determined by nodes and edges, and a breadth-first walk reaches what
  the edges reach.
\<close>

section \<open>The invariant\<close>

definition incident :: "('v, 'y) graph \<Rightarrow> (gedge \<Rightarrow> bool) \<Rightarrow> nat list" where
  "incident g p = filter (\<lambda>e. p (gr_edges g ! e)) [0..<length (gr_edges g)]"

definition node_ok :: "('v, 'y) graph \<Rightarrow> nat \<Rightarrow> gnode \<Rightarrow> bool" where
  "node_ok g n x \<longleftrightarrow> gn_edges x = incident g (\<lambda>e. ge_node1 e = n \<or> ge_node2 e = n) \<and>
     gn_outEdges x = (if gr_directed g then incident g (\<lambda>e. ge_node1 e = n) else []) \<and>
     gn_inEdges x = (if gr_directed g then incident g (\<lambda>e. ge_node2 e = n) else []) \<and>
     gn_id x \<noteq> '''' \<and> gn_id x \<notin> set object_members"

definition key_of_edge :: "('v, 'y) graph \<Rightarrow> gedge \<Rightarrow> string" where
  "key_of_edge g e = edge_key (ge_node1 e) (ge_node2 e) g"

definition graph_ok :: "('v, 'y) graph \<Rightarrow> bool" where
  "graph_ok g \<longleftrightarrow> (\<forall>n<length (gr_nodes g). node_ok g n (gr_nodes g ! n)) \<and>
     (\<forall>e\<in>set (gr_edges g). ge_node1 e < length (gr_nodes g) \<and> ge_node2 e < length (gr_nodes g)) \<and>
     (\<forall>k r. gr_nodesMap g k = Some r \<longleftrightarrow> r < length (gr_nodes g) \<and> gn_id (gr_nodes g ! r) = k) \<and>
     (\<forall>k e. gr_edgesMap g k = Some e \<longleftrightarrow> e < length (gr_edges g) \<and> key_of_edge g (gr_edges g ! e) = k)"

lemma graph_okD:
  assumes "graph_ok g"
  shows "n < length (gr_nodes g) \<Longrightarrow> node_ok g n (gr_nodes g ! n)"
    and "e \<in> set (gr_edges g) \<Longrightarrow> ge_node1 e < length (gr_nodes g) \<and> ge_node2 e < length (gr_nodes g)"
    and "gr_nodesMap g k = Some r \<longleftrightarrow> r < length (gr_nodes g) \<and> gn_id (gr_nodes g ! r) = k"
    and "gr_edgesMap g k = Some i \<longleftrightarrow> i < length (gr_edges g) \<and> key_of_edge g (gr_edges g ! i) = k"
  using assms unfolding graph_ok_def by blast+

lemma graph_okI:
  assumes "\<And>n. n < length (gr_nodes g) \<Longrightarrow> node_ok g n (gr_nodes g ! n)"
    and "\<And>e. e \<in> set (gr_edges g) \<Longrightarrow> ge_node1 e < length (gr_nodes g) \<and> ge_node2 e < length (gr_nodes g)"
    and "\<And>k r. gr_nodesMap g k = Some r \<longleftrightarrow> r < length (gr_nodes g) \<and> gn_id (gr_nodes g ! r) = k"
    and "\<And>k i. gr_edgesMap g k = Some i \<longleftrightarrow> i < length (gr_edges g) \<and> key_of_edge g (gr_edges g ! i) = k"
  shows "graph_ok g"
  using assms unfolding graph_ok_def by blast

text \<open>A node or an edge at the end.\<close>

lemma incident_new: "gr_edges g' = gr_edges g @ [e] \<Longrightarrow> incident g' p = incident g p @ (if p e then [length (gr_edges g)] else [])"
  by (auto simp: incident_def nth_append intro!: filter_cong)

lemma incident_same: "gr_edges g' = gr_edges g \<Longrightarrow> incident g' = incident g"
  by (simp add: incident_def fun_eq_iff)

lemma newGraph_ok: "graph_ok (newGraph d)"
  by (simp add: graph_ok_def newGraph_def)

lemma dec_not_member: "dec n \<notin> set object_members"
proof
  assume "dec n \<in> set object_members"
  moreover have "\<forall>m\<in>set object_members. \<exists>c\<in>set m. \<not> is_digit c" by (simp add: object_members_def is_digit_def)
  ultimately show False using dec_digits by blast
qed

lemma addNode_ok:
  assumes ok: "graph_ok g"
  shows "graph_ok (snd (addNode nodeId i g))"
proof -
  define k where "k = (case nodeId of Some k \<Rightarrow> if k = '''' then text_of i else k | None \<Rightarrow> text_of i)"
  have kn: "k \<noteq> ''''" using text_of_not_Nil by (auto simp: k_def split: option.split)
  define g' where "g' = snd (addNode nodeId i g)"
  show ?thesis
  proof (cases "has_key (gr_nodesMap g) k")
    case True
    then show ?thesis using ok by (simp add: addNode_def k_def [symmetric])
  next
    case False
    let ?N = "length (gr_nodes g)"
    have g': "g' = g\<lparr>gr_nodes := gr_nodes g @ [newNode k i], gr_nodesMap := (gr_nodesMap g)(k \<mapsto> ?N)\<rparr>"
      using False by (simp add: g'_def addNode_def k_def [symmetric] Let_def)
    have k: "gr_nodesMap g k = None" "k \<notin> set object_members" using False by (simp_all add: has_key_def)
    have lt: "ge_node1 (gr_edges g ! e) \<noteq> ?N \<and> ge_node2 (gr_edges g ! e) \<noteq> ?N" if "e < length (gr_edges g)" for e
      using graph_okD(2) [OF ok, of "gr_edges g ! e"] that by auto
    have none: "incident g (\<lambda>e. ge_node1 e = ?N \<or> ge_node2 e = ?N) = []" "incident g (\<lambda>e. ge_node1 e = ?N) = []"
        "incident g (\<lambda>e. ge_node2 e = ?N) = []"
      using lt by (auto simp: incident_def filter_empty_conv)
    have inc: "incident g' = incident g" by (rule incident_same) (simp add: g')
    have "node_ok g' n (gr_nodes g' ! n)" if "n < length (gr_nodes g')" for n
      using that graph_okD(1) [OF ok, of n] k kn none unfolding node_ok_def inc
      by (cases "n = ?N") (auto simp: g' nth_append newNode_def)
    moreover have "gr_nodesMap g' x = Some r \<longleftrightarrow> r < length (gr_nodes g') \<and> gn_id (gr_nodes g' ! r) = x" for x r
      using graph_okD(3) [OF ok, of x r] graph_okD(3) [OF ok, of k r] k(1)
      by (cases "r = ?N"; cases "x = k") (auto simp: g' nth_append newNode_def less_Suc_eq)
    moreover have "key_of_edge g' e = key_of_edge g e" if "e \<in> set (gr_edges g)" for e
      using graph_okD(2) [OF ok that] by (simp add: key_of_edge_def edge_key_def g' nth_append)
    moreover have "ge_node1 e < length (gr_nodes g') \<and> ge_node2 e < length (gr_nodes g')" if "e \<in> set (gr_edges g')" for e
      using graph_okD(2) [OF ok, of e] that by (simp add: g' less_SucI)
    moreover have "gr_edgesMap g' x = Some j \<longleftrightarrow> j < length (gr_edges g') \<and> key_of_edge g (gr_edges g' ! j) = x" for x j
      using graph_okD(4) [OF ok, of x j] by (simp add: g')
    moreover have "gr_edges g' = gr_edges g" by (simp add: g')
    ultimately show ?thesis
      unfolding g'_def [symmetric] by (intro graph_okI) (simp_all cong: conj_cong)
  qed
qed

lemma upd_gnode_simps [simp]:
  "gr_edges (upd_gnode r f g) = gr_edges g" "gr_edgesMap (upd_gnode r f g) = gr_edgesMap g"
  "gr_nodesMap (upd_gnode r f g) = gr_nodesMap g" "gr_directed (upd_gnode r f g) = gr_directed g"
  "length (gr_nodes (upd_gnode r f g)) = length (gr_nodes g)"
  "gr_data (upd_gnode r f g) = gr_data g" "gr_edgeData (upd_gnode r f g) = gr_edgeData g"
  by (simp_all add: upd_gnode_def)

lemma upd_gnode_nth: "r < length (gr_nodes g) \<Longrightarrow> gr_nodes (upd_gnode r f g) ! n = (if n = r then f (gr_nodes g ! n) else gr_nodes g ! n)"
  by (simp add: upd_gnode_def)

lemma link_edge_fields:
  "gr_edges (link_edge n1 n2 i g) = gr_edges g @ [newEdge n1 n2 i]"
  "gr_edgesMap (link_edge n1 n2 i g) = (gr_edgesMap g)(edge_key n1 n2 g \<mapsto> length (gr_edges g))"
  "gr_nodesMap (link_edge n1 n2 i g) = gr_nodesMap g" "gr_directed (link_edge n1 n2 i g) = gr_directed g"
  "length (gr_nodes (link_edge n1 n2 i g)) = length (gr_nodes g)"
  "gr_data (link_edge n1 n2 i g) = gr_data g" "gr_edgeData (link_edge n1 n2 i g) = gr_edgeData g"
  by (simp_all add: link_edge_def Let_def)

lemma link_edge_nodes:
  assumes "n1 < length (gr_nodes g)" "n2 < length (gr_nodes g)"
  shows "gr_nodes (link_edge n1 n2 i g) ! n = (gr_nodes g ! n)\<lparr>
      gn_edges := gn_edges (gr_nodes g ! n) @ (if n = n1 \<or> n = n2 then [length (gr_edges g)] else []),
      gn_outEdges := gn_outEdges (gr_nodes g ! n) @ (if gr_directed g \<and> n = n1 then [length (gr_edges g)] else []),
      gn_inEdges := gn_inEdges (gr_nodes g ! n) @ (if gr_directed g \<and> n = n2 then [length (gr_edges g)] else [])\<rparr>"
  using assms by (simp add: link_edge_def Let_def upd_gnode_nth)

lemma link_edge_ok:
  assumes ok: "graph_ok g" and n: "n1 < length (gr_nodes g)" "n2 < length (gr_nodes g)"
    and fresh: "gr_edgesMap g (edge_key n1 n2 g) = None"
  shows "graph_ok (link_edge n1 n2 i g)"
proof -
  define g' where "g' = link_edge n1 n2 i g"
  note f = link_edge_fields [of n1 n2 i g, folded g'_def] link_edge_nodes [OF n, of i, folded g'_def]
  have id: "gn_id (gr_nodes g' ! x) = gn_id (gr_nodes g ! x)" for x by (simp add: f(8))
  have "node_ok g' x (gr_nodes g' ! x)" if "x < length (gr_nodes g')" for x
    using graph_okD(1) [OF ok, of x] that f(5) unfolding node_ok_def incident_new [OF f(1)] f(4,8)
    by (auto simp: newEdge_def)
  moreover have key: "key_of_edge g' e = key_of_edge g e" for e by (simp add: key_of_edge_def edge_key_def id)
  moreover have "gr_edgesMap g' x = Some j \<longleftrightarrow> j < length (gr_edges g') \<and> key_of_edge g' (gr_edges g' ! j) = x" for x j
    using graph_okD(4) [OF ok, of x j] graph_okD(4) [OF ok, of "edge_key n1 n2 g" j] fresh
    unfolding key f(1,2)
    by (cases "j = length (gr_edges g)"; cases "x = edge_key n1 n2 g") (auto simp: nth_append key_of_edge_def newEdge_def)
  moreover have "ge_node1 e < length (gr_nodes g') \<and> ge_node2 e < length (gr_nodes g')" if "e \<in> set (gr_edges g')" for e
    using graph_okD(2) [OF ok, of e] that n f(5) by (auto simp: f(1) newEdge_def)
  moreover have "gr_nodesMap g' x = Some r \<longleftrightarrow> r < length (gr_nodes g') \<and> gn_id (gr_nodes g' ! r) = x" for x r
    using graph_okD(3) [OF ok, of x r] by (simp add: f(3,5) id)
  ultimately show ?thesis unfolding g'_def [symmetric] by (intro graph_okI)
qed

section \<open>Every graph\<close>

lemma resolve_range:
  assumes "graph_ok g" "resolve e g = Some (Some n)" "\<And>r. e = Node_Ref r \<Longrightarrow> r < length (gr_nodes g)"
  shows "n < length (gr_nodes g)"
  using assms graph_okD(3) [OF assms(1), of _ n]
  by (auto simp: resolve_def graph_getNodeById_def split: endpoint.splits if_splits option.splits)

lemma addEdge_cases:
  assumes "addEdge e1 e2 i g = Some (r, g')"
  shows "r = None \<and> g' = g \<or> (\<exists>n1 n2. resolve e1 g = Some (Some n1) \<and> resolve e2 g = Some (Some n2) \<and>
    \<not> has_key (gr_edgesMap g) (edge_key n1 n2 g) \<and> r = Some (length (gr_edges g)) \<and> g' = link_edge n1 n2 i g)"
proof (cases "resolve e1 g = Some None \<or> resolve e2 g = Some None")
  case True
  then show ?thesis using assms by (cases "resolve e1 g"; cases "the (resolve e1 g)") (auto simp: addEdge_def)
next
  case False
  then obtain n1 n2 where "resolve e1 g = Some (Some n1)" "resolve e2 g = Some (Some n2)"
    using assms by (cases "resolve e1 g"; cases "resolve e2 g") (auto simp: addEdge_def)
  then show ?thesis using assms by (simp add: addEdge_def split: if_splits)
qed

lemma addEdge_ok:
  assumes "graph_ok g" "addEdge e1 e2 i g = Some (r, g')"
    and "\<And>n. e1 = Node_Ref n \<or> e2 = Node_Ref n \<Longrightarrow> n < length (gr_nodes g)"
  shows "graph_ok g'"
proof -
  consider "g' = g" | n1 n2 where "resolve e1 g = Some (Some n1)" "resolve e2 g = Some (Some n2)"
      "\<not> has_key (gr_edgesMap g) (edge_key n1 n2 g)" "g' = link_edge n1 n2 i g"
    using addEdge_cases [OF assms(2)] by blast
  then show ?thesis
  proof cases
    case 1
    then show ?thesis using assms(1) by simp
  next
    case (2 n1 n2)
    then show ?thesis
      using link_edge_ok [OF assms(1), of n1 n2 i] resolve_range [OF assms(1) 2(1)] resolve_range [OF assms(1) 2(2)] assms(3)
      by (simp add: has_key_def)
  qed
qed

text \<open>Data indices, flags and tables do not matter to the invariant.\<close>

definition bare_node :: "gnode \<Rightarrow> gnode" where
  "bare_node n = n\<lparr>gn_dataIndex := 0, gn_visited := False\<rparr>"

definition bare_edge :: "gedge \<Rightarrow> gedge" where
  "bare_edge e = e\<lparr>ge_dataIndex := 0\<rparr>"

lemma bare_fields: "bare_node x = bare_node y \<Longrightarrow> gn_id x = gn_id y \<and> gn_edges x = gn_edges y \<and> gn_inEdges x = gn_inEdges y \<and> gn_outEdges x = gn_outEdges y"
  "bare_edge e = bare_edge f \<Longrightarrow> ge_node1 e = ge_node1 f \<and> ge_node2 e = ge_node2 f"
  by (cases x; cases y; simp add: bare_node_def) (cases e; cases f; simp add: bare_edge_def)

definition same_graph :: "('v, 'y) graph \<Rightarrow> ('v, 'y) graph \<Rightarrow> bool" where
  "same_graph g g' \<longleftrightarrow> gr_directed g' = gr_directed g \<and> map bare_node (gr_nodes g') = map bare_node (gr_nodes g) \<and>
     map bare_edge (gr_edges g') = map bare_edge (gr_edges g) \<and> gr_nodesMap g' = gr_nodesMap g \<and> gr_edgesMap g' = gr_edgesMap g"

lemma same_graphD:
  assumes "same_graph g g'"
  shows "length (gr_nodes g') = length (gr_nodes g)" "length (gr_edges g') = length (gr_edges g)"
    and "n < length (gr_nodes g) \<Longrightarrow> bare_node (gr_nodes g' ! n) = bare_node (gr_nodes g ! n)"
    and "i < length (gr_edges g) \<Longrightarrow> bare_edge (gr_edges g' ! i) = bare_edge (gr_edges g ! i)"
proof -
  have n: "map bare_node (gr_nodes g') = map bare_node (gr_nodes g)" and e: "map bare_edge (gr_edges g') = map bare_edge (gr_edges g)"
    using assms by (simp_all add: same_graph_def)
  show ln: "length (gr_nodes g') = length (gr_nodes g)" using arg_cong [OF n, of length] by simp
  show le: "length (gr_edges g') = length (gr_edges g)" using arg_cong [OF e, of length] by simp
  show "n < length (gr_nodes g) \<Longrightarrow> bare_node (gr_nodes g' ! n) = bare_node (gr_nodes g ! n)"
    using arg_cong [OF n, of "\<lambda>ns. ns ! n"] ln by simp
  show "i < length (gr_edges g) \<Longrightarrow> bare_edge (gr_edges g' ! i) = bare_edge (gr_edges g ! i)"
    using arg_cong [OF e, of "\<lambda>es. es ! i"] le by simp
qed

lemma same_graph_ok:
  assumes ok: "graph_ok g" and s: "same_graph g g'"
  shows "graph_ok g'"
proof -
  note L = same_graphD [OF s]
  have id: "gn_id (gr_nodes g' ! n) = gn_id (gr_nodes g ! n)" if "n < length (gr_nodes g)" for n
    using bare_fields(1) [OF L(3) [OF that]] by simp
  have ends: "ge_node1 (gr_edges g' ! i) = ge_node1 (gr_edges g ! i) \<and> ge_node2 (gr_edges g' ! i) = ge_node2 (gr_edges g ! i)"
    if "i < length (gr_edges g)" for i
    using bare_fields(2) [OF L(4) [OF that]] by simp
  have inc: "incident g' (\<lambda>e. ge_node1 e = n \<or> ge_node2 e = n) = incident g (\<lambda>e. ge_node1 e = n \<or> ge_node2 e = n)"
      "incident g' (\<lambda>e. ge_node1 e = n) = incident g (\<lambda>e. ge_node1 e = n)"
      "incident g' (\<lambda>e. ge_node2 e = n) = incident g (\<lambda>e. ge_node2 e = n)" for n
    unfolding incident_def L(2) using ends by (intro filter_cong; simp)+
  have "node_ok g' n (gr_nodes g' ! n)" if "n < length (gr_nodes g)" for n
    using graph_okD(1) [OF ok that] bare_fields(1) [OF L(3) [OF that]] s unfolding node_ok_def inc same_graph_def by simp
  moreover have rng: "ge_node1 (gr_edges g' ! i) < length (gr_nodes g) \<and> ge_node2 (gr_edges g' ! i) < length (gr_nodes g)"
    if "i < length (gr_edges g)" for i
    using graph_okD(2) [OF ok, of "gr_edges g ! i"] ends [OF that] that by simp
  moreover have "key_of_edge g' (gr_edges g' ! i) = key_of_edge g (gr_edges g ! i)" if "i < length (gr_edges g)" for i
    using ends [OF that] rng [OF that] id by (simp add: key_of_edge_def edge_key_def)
  moreover have "gr_nodesMap g' x = Some r \<longleftrightarrow> r < length (gr_nodes g') \<and> gn_id (gr_nodes g' ! r) = x" for x r
    using graph_okD(3) [OF ok, of x r] s id [of r] L(1) by (auto simp: same_graph_def)
  moreover have "gr_edgesMap g' x = Some j \<longleftrightarrow> j < length (gr_edges g') \<and> key_of_edge g' (gr_edges g' ! j) = x" for x j
    using graph_okD(4) [OF ok, of x j] s calculation(3) [of j] L(2) by (auto simp: same_graph_def)
  moreover have "ge_node1 e < length (gr_nodes g') \<and> ge_node2 e < length (gr_nodes g')" if e: "e \<in> set (gr_edges g')" for e
  proof -
    obtain i where "i < length (gr_edges g)" "e = gr_edges g' ! i" using e L(2) by (auto simp: in_set_conv_nth)
    then show ?thesis using rng L(1) by simp
  qed
  ultimately show ?thesis using L(1) by (intro graph_okI) simp_all
qed

section \<open>Breadth-first walks\<close>

definition visited :: "gnode list \<Rightarrow> nat set" where
  "visited nodes = {n. n < length nodes \<and> gn_visited (nodes ! n)}"

definition unflag :: "gnode list \<Rightarrow> gnode list" where
  "unflag nodes = map (\<lambda>n. n\<lparr>gn_visited := False\<rparr>) nodes"

text \<open>One step of a walk in some direction.\<close>

definition steps :: "direction \<Rightarrow> gedge list \<Rightarrow> gnode list \<Rightarrow> (nat \<times> nat) set" where
  "steps dir edges nodes = {(cur, x). cur < length nodes \<and> (\<exists>i\<in>set (edgeType dir (nodes ! cur)). x = otherNode cur (edges ! i))}"

lemma set_visited_fields:
  assumes "r < length nodes"
  shows "visited (set_visited True r nodes) = insert r (visited nodes)" "unflag (set_visited True r nodes) = unflag nodes"
    and "length (set_visited True r nodes) = length nodes"
proof -
  show "visited (set_visited True r nodes) = insert r (visited nodes)"
    using assms by (auto simp: visited_def set_visited_def nth_list_update split: if_splits)
  show "unflag (set_visited True r nodes) = unflag nodes"
    using assms by (intro nth_equalityI) (auto simp: unflag_def set_visited_def nth_list_update)
  show "length (set_visited True r nodes) = length nodes" by (simp add: set_visited_def)
qed

lemma bfsEdges_free:
  assumes "\<And>i. i \<in> set is \<Longrightarrow> otherNode cur (edges ! i) < length nodes"
  shows "\<exists>nodes' new. bfsEdges (\<lambda>_. False) edges cur is (nodes, queue, calls) =
      (False, nodes', queue @ new, calls @ map (\<lambda>x. (x, Some cur)) new) \<and>
    unflag nodes' = unflag nodes \<and> visited nodes' = visited nodes \<union> set new \<and> distinct new \<and> set new \<inter> visited nodes = {} \<and>
    visited nodes \<union> set new = visited nodes \<union> {otherNode cur (edges ! i) | i. i \<in> set is} \<and>
    set new \<subseteq> {otherNode cur (edges ! i) | i. i \<in> set is}"
  using assms
proof (induction "is" arbitrary: nodes queue calls)
  case Nil
  then show ?case by (intro exI [of _ nodes] exI [of _ "[]"]) auto
next
  case (Cons i "is")
  let ?x = "otherNode cur (edges ! i)"
  have x: "?x < length nodes" using Cons.prems by simp
  show ?case
  proof (cases "gn_visited (nodes ! ?x)")
    case True
    then have "?x \<in> visited nodes" using x by (simp add: visited_def)
    moreover obtain nodes' new where ih: "bfsEdges (\<lambda>_. False) edges cur is (nodes, queue, calls) =
        (False, nodes', queue @ new, calls @ map (\<lambda>x. (x, Some cur)) new)"
      "unflag nodes' = unflag nodes" "visited nodes' = visited nodes \<union> set new" "distinct new" "set new \<inter> visited nodes = {}"
      "visited nodes \<union> set new = visited nodes \<union> {otherNode cur (edges ! i) | i. i \<in> set is}"
      "set new \<subseteq> {otherNode cur (edges ! i) | i. i \<in> set is}"
      using Cons.IH [of nodes queue calls] Cons.prems by auto
    ultimately show ?thesis using True by (intro exI [of _ nodes'] exI [of _ new]) (auto simp: Let_def)
  next
    case False
    let ?nodes = "set_visited True ?x nodes"
    note f = set_visited_fields [OF x]
    obtain nodes' new where ih: "bfsEdges (\<lambda>_. False) edges cur is (?nodes, queue @ [?x], calls @ [(?x, Some cur)]) =
        (False, nodes', (queue @ [?x]) @ new, (calls @ [(?x, Some cur)]) @ map (\<lambda>x. (x, Some cur)) new)"
      "unflag nodes' = unflag ?nodes" "visited nodes' = visited ?nodes \<union> set new" "distinct new" "set new \<inter> visited ?nodes = {}"
      "visited ?nodes \<union> set new = visited ?nodes \<union> {otherNode cur (edges ! i) | i. i \<in> set is}"
      "set new \<subseteq> {otherNode cur (edges ! i) | i. i \<in> set is}"
      using Cons.IH [of ?nodes "queue @ [?x]" "calls @ [(?x, Some cur)]"] Cons.prems f(3) by auto
    have nx: "?x \<notin> visited nodes" using False by (simp add: visited_def)
    have "bfsEdges (\<lambda>_. False) edges cur (i # is) (nodes, queue, calls) =
        (False, nodes', queue @ (?x # new), calls @ map (\<lambda>x. (x, Some cur)) (?x # new))"
      using False ih(1) by (simp add: Let_def)
    moreover have "unflag nodes' = unflag nodes" "visited nodes' = visited nodes \<union> set (?x # new)"
      using ih(2,3) f by auto
    moreover have "distinct (?x # new)" "set (?x # new) \<inter> visited nodes = {}" using ih(4,5) nx f(1) by auto
    moreover have "visited nodes \<union> set (?x # new) = visited nodes \<union> {otherNode cur (edges ! j) | j. j \<in> set (i # is)}"
      using ih(6) f(1) by auto
    moreover have "set (?x # new) \<subseteq> {otherNode cur (edges ! j) | j. j \<in> set (i # is)}" using ih(7) by auto
    ultimately show ?thesis by blast
  qed
qed

text \<open>What a walk from \<open>r\<close> has done when \<open>queue\<close> is left.\<close>

definition walking :: "(nat \<times> nat) set \<Rightarrow> nat \<Rightarrow> nat set \<Rightarrow> nat list \<Rightarrow> visit list \<Rightarrow> bool" where
  "walking R r V queue calls \<longleftrightarrow> (\<exists>rest. calls = (r, None) # rest \<and> distinct (map fst rest) \<and> set (map fst rest) = V \<and>
     set queue \<subseteq> insert r V \<and> V \<subseteq> R\<^sup>+ `` {r} \<and> (\<forall>x\<in>insert r V - set queue. R `` {x} \<subseteq> V) \<and>
     (\<forall>(x, from)\<in>set rest. \<exists>y. from = Some y \<and> (y, x) \<in> R))"

lemma walking_done:
  assumes "walking R r V [] calls"
  shows "V = R\<^sup>+ `` {r}"
proof
  have closed: "R `` {x} \<subseteq> V" if "x \<in> insert r V" for x using assms that by (auto simp: walking_def)
  show "V \<subseteq> R\<^sup>+ `` {r}" using assms by (auto simp: walking_def)
  show "R\<^sup>+ `` {r} \<subseteq> V"
  proof
    fix x assume "x \<in> R\<^sup>+ `` {r}"
    then have "(r, x) \<in> R\<^sup>+" by simp
    then show "x \<in> V" by (induction rule: trancl_induct) (use closed in blast)+
  qed
qed

lemma steps_unflag: "steps dir edges (unflag nodes) = steps dir edges nodes" "length (unflag nodes) = length nodes"
    "n < length nodes \<Longrightarrow> edgeType dir (unflag nodes ! n) = edgeType dir (nodes ! n)"
proof -
  show l: "length (unflag nodes) = length nodes" by (simp add: unflag_def)
  show e: "n < length nodes \<Longrightarrow> edgeType dir (unflag nodes ! n) = edgeType dir (nodes ! n)" for n
    by (cases dir) (simp_all add: unflag_def)
  show "steps dir edges (unflag nodes) = steps dir edges nodes" using l e by (auto simp: steps_def)
qed

lemma bfsLoop_free:
  assumes "steps dir edges nodes0 \<subseteq> {..<length nodes0} \<times> {..<length nodes0}" "r < length nodes0"
    and "unflag nodes = unflag nodes0" "walking (steps dir edges nodes0) r (visited nodes) queue calls"
  shows "\<exists>nodes' calls'. bfsLoop (\<lambda>_. False) edges dir nodes queue calls = Some (nodes', calls') \<and>
    unflag nodes' = unflag nodes0 \<and> walking (steps dir edges nodes0) r (visited nodes') [] calls'"
  using assms(3,4)
proof (induction "2 * (length nodes0 - card (visited nodes)) + length queue" arbitrary: nodes queue calls rule: less_induct)
  case less
  let ?R = "steps dir edges nodes0"
  have ln: "length nodes = length nodes0" using less.prems(1) by (metis steps_unflag(2))
  show ?case
  proof (cases queue)
    case Nil
    then show ?thesis using less.prems by (subst bfsLoop.simps) simp
  next
    case (Cons cur rest)
    let ?is = "edgeType dir (nodes ! cur)"
    have V: "visited nodes \<subseteq> {..<length nodes0}" using ln by (auto simp: visited_def)
    have cur: "cur < length nodes0" using less.prems(2) Cons V assms(2) by (auto simp: walking_def)
    have et: "edgeType dir (nodes0 ! cur) = ?is"
      using steps_unflag(3) [of cur nodes dir] steps_unflag(3) [of cur nodes0 dir] cur ln less.prems(1) by simp
    have succ: "{otherNode cur (edges ! i) | i. i \<in> set ?is} = ?R `` {cur}" using cur et by (auto simp: steps_def)
    have "otherNode cur (edges ! i) < length nodes" if "i \<in> set ?is" for i
    proof -
      have "(cur, otherNode cur (edges ! i)) \<in> ?R" using that cur et unfolding steps_def by auto
      then have "(cur, otherNode cur (edges ! i)) \<in> {..<length nodes0} \<times> {..<length nodes0}" by (rule subsetD [OF assms(1)])
      then show ?thesis using ln by simp
    qed
    from bfsEdges_free [OF this, of ?is rest calls]
    obtain nodes' new where b: "bfsEdges (\<lambda>_. False) edges cur ?is (nodes, rest, calls) =
        (False, nodes', rest @ new, calls @ map (\<lambda>x. (x, Some cur)) new)"
      "unflag nodes' = unflag nodes" "visited nodes' = visited nodes \<union> set new" "distinct new" "set new \<inter> visited nodes = {}"
      "visited nodes \<union> set new = visited nodes \<union> ?R `` {cur}" "set new \<subseteq> ?R `` {cur}"
      unfolding succ by auto
    have run: "bfsLoop (\<lambda>_. False) edges dir nodes queue calls =
        bfsLoop (\<lambda>_. False) edges dir nodes' (rest @ new) (calls @ map (\<lambda>x. (x, Some cur)) new)"
      using Cons b(1) by (subst bfsLoop.simps) simp
    have w: "walking ?R r (visited nodes') (rest @ new) (calls @ map (\<lambda>x. (x, Some cur)) new)"
    proof -
      obtain cs where cs: "calls = (r, None) # cs" "distinct (map fst cs)" "set (map fst cs) = visited nodes"
          "set queue \<subseteq> insert r (visited nodes)" "visited nodes \<subseteq> ?R\<^sup>+ `` {r}"
          "\<forall>x\<in>insert r (visited nodes) - set queue. ?R `` {x} \<subseteq> visited nodes"
          "\<forall>(x, from)\<in>set cs. \<exists>y. from = Some y \<and> (y, x) \<in> ?R"
        using less.prems(2) unfolding walking_def by blast
      have cr: "cur \<in> insert r (visited nodes)" using cs(4) Cons by auto
      let ?cs = "cs @ map (\<lambda>x. (x, Some cur)) new"
      have fst: "map fst ?cs = map fst cs @ new" by (simp add: comp_def)
      have "distinct (map fst ?cs)" "set (map fst ?cs) = visited nodes'"
        unfolding fst using cs(2,3) b(3,4,5) by auto
      moreover have "set (rest @ new) \<subseteq> insert r (visited nodes')" using cs(4) Cons b(3) by auto
      moreover have "visited nodes' \<subseteq> ?R\<^sup>+ `` {r}"
      proof -
        have "?R `` {cur} \<subseteq> ?R\<^sup>+ `` {r}" using cr cs(5) by (auto intro: trancl_into_trancl)
        then show ?thesis using b(3,7) cs(5) by blast
      qed
      moreover have "?R `` {x} \<subseteq> visited nodes'" if "x \<in> insert r (visited nodes') - set (rest @ new)" for x
        using that b(3,6) cs(6) Cons by auto
      moreover have "\<forall>(x, from)\<in>set ?cs. \<exists>y. from = Some y \<and> (y, x) \<in> ?R" using cs(7) b(7) by auto
      ultimately show ?thesis unfolding walking_def using cs(1) by (intro exI [of _ ?cs]) auto
    qed
    have "card (visited nodes') = card (visited nodes) + length new"
      using b(3,4,5) V by (metis card_Un_disjoint distinct_card finite_lessThan finite_set inf_commute infinite_super)
    moreover have "card (visited nodes') \<le> length nodes0"
    proof -
      have ln': "length nodes' = length nodes0" using b(2) less.prems(1) by (metis steps_unflag(2))
      have "visited nodes' \<subseteq> {..<length nodes0}" using ln' by (auto simp: visited_def)
      then show ?thesis using card_mono [of "{..<length nodes0}"] by fastforce
    qed
    ultimately have "2 * (length nodes0 - card (visited nodes')) + length (rest @ new) <
        2 * (length nodes0 - card (visited nodes)) + length queue" using Cons by simp
    from less.hyps [OF this _ w] show ?thesis unfolding run using b(2) less.prems(1) by simp
  qed
qed

section \<open>Copies\<close>

text \<open>Nodes, edges and direction determine a graph up to data indices, flags and tables.\<close>

lemma graph_determined:
  assumes "graph_ok g" "graph_ok g'" "gr_directed g' = gr_directed g" "gr_edges g' = gr_edges g"
    and "length (gr_nodes g') = length (gr_nodes g)" "\<And>n. n < length (gr_nodes g) \<Longrightarrow> gn_id (gr_nodes g' ! n) = gn_id (gr_nodes g ! n)"
  shows "gr_nodesMap g' = gr_nodesMap g" "gr_edgesMap g' = gr_edgesMap g"
    and "n < length (gr_nodes g) \<Longrightarrow> gn_edges (gr_nodes g' ! n) = gn_edges (gr_nodes g ! n) \<and>
      gn_inEdges (gr_nodes g' ! n) = gn_inEdges (gr_nodes g ! n) \<and> gn_outEdges (gr_nodes g' ! n) = gn_outEdges (gr_nodes g ! n)"
proof -
  have "gr_nodesMap g' k = Some r \<longleftrightarrow> gr_nodesMap g k = Some r" for k r
    using graph_okD(3) [OF assms(1), of k r] graph_okD(3) [OF assms(2), of k r] assms(5,6) by auto
  then show "gr_nodesMap g' = gr_nodesMap g" by (intro ext) (metis option.exhaust)
  have "key_of_edge g' e = key_of_edge g e" if "e \<in> set (gr_edges g)" for e
    using graph_okD(2) [OF assms(1) that] assms(6) by (simp add: key_of_edge_def edge_key_def)
  then have "gr_edgesMap g' k = Some i \<longleftrightarrow> gr_edgesMap g k = Some i" for k i
    using graph_okD(4) [OF assms(1), of k i] graph_okD(4) [OF assms(2), of k i] assms(4) by auto
  then show "gr_edgesMap g' = gr_edgesMap g" by (intro ext) (metis option.exhaust)
  have inc: "incident g' = incident g" by (rule incident_same [OF assms(4)])
  show "gn_edges (gr_nodes g' ! n) = gn_edges (gr_nodes g ! n) \<and> gn_inEdges (gr_nodes g' ! n) = gn_inEdges (gr_nodes g ! n) \<and>
      gn_outEdges (gr_nodes g' ! n) = gn_outEdges (gr_nodes g ! n)" if "n < length (gr_nodes g)"
    using graph_okD(1) [OF assms(1) that] graph_okD(1) [OF assms(2), of n] that assms(3,5)
    unfolding node_ok_def inc by simp
qed

lemma addNode_fresh:
  assumes "k \<noteq> ''''" "k \<notin> set object_members" "gr_nodesMap g k = None"
  shows "snd (addNode (Some k) (Some i) g) = g\<lparr>gr_nodes := gr_nodes g @ [newNode k (Some i)], gr_nodesMap := (gr_nodesMap g)(k \<mapsto> length (gr_nodes g))\<rparr>"
  using assms by (simp add: addNode_def has_key_def Let_def)

lemma cloneNodes_run:
  assumes "graph_ok g" "distinct (map gn_id ns)" "\<forall>n\<in>set ns. gn_id n \<noteq> '''' \<and> gn_id n \<notin> set object_members \<and> gr_nodesMap g (gn_id n) = None"
  shows "graph_ok (cloneNodes ns g) \<and> gr_nodes (cloneNodes ns g) = gr_nodes g @ map (\<lambda>n. newNode (gn_id n) (Some (gn_dataIndex n))) ns \<and>
    gr_edges (cloneNodes ns g) = gr_edges g \<and> gr_directed (cloneNodes ns g) = gr_directed g \<and>
    gr_data (cloneNodes ns g) = gr_data g \<and> gr_edgeData (cloneNodes ns g) = gr_edgeData g"
  using assms
proof (induction ns arbitrary: g)
  case (Cons n ns)
  let ?g = "snd (addNode (Some (gn_id n)) (Some (gn_dataIndex n)) g)"
  have g: "?g = g\<lparr>gr_nodes := gr_nodes g @ [newNode (gn_id n) (Some (gn_dataIndex n))], gr_nodesMap := (gr_nodesMap g)(gn_id n \<mapsto> length (gr_nodes g))\<rparr>"
    using Cons.prems(3) by (intro addNode_fresh) auto
  have "\<forall>x\<in>set ns. gn_id x \<noteq> '''' \<and> gn_id x \<notin> set object_members \<and> gr_nodesMap ?g (gn_id x) = None"
  proof
    fix x assume x: "x \<in> set ns"
    then have "gn_id x \<noteq> gn_id n" using Cons.prems(2) by (metis distinct.simps(2) image_eqI list.set_map list.simps(9))
    then show "gn_id x \<noteq> '''' \<and> gn_id x \<notin> set object_members \<and> gr_nodesMap ?g (gn_id x) = None"
      using Cons.prems(3) x by (simp add: g)
  qed
  moreover have "graph_ok ?g" by (rule addNode_ok [OF Cons.prems(1)])
  ultimately show ?case using Cons.IH [of ?g] Cons.prems(2) by (simp add: g)
qed simp

lemma dash_not_member: "x @ ''-'' @ y \<notin> set object_members"
proof
  assume "x @ ''-'' @ y \<in> set object_members"
  moreover have "\<forall>m\<in>set object_members. CHR ''-'' \<notin> set m" by (simp add: object_members_def)
  ultimately show False by fastforce
qed

lemma cloneEdges_run:
  assumes ok0: "graph_ok g0" and "graph_ok g" "length (gr_nodes g) = length (gr_nodes g0)"
    and "\<And>n. n < length (gr_nodes g0) \<Longrightarrow> gn_id (gr_nodes g ! n) = gn_id (gr_nodes g0 ! n)"
    and "gr_edges g0 = gr_edges g @ es"
  shows "\<exists>g'. cloneEdges (gr_nodes g0) es g = Some g' \<and> graph_ok g' \<and> gr_edges g' = gr_edges g0 \<and>
    gr_directed g' = gr_directed g \<and> length (gr_nodes g') = length (gr_nodes g0) \<and> gr_data g' = gr_data g \<and> gr_edgeData g' = gr_edgeData g \<and>
    (\<forall>n. gn_id (gr_nodes g' ! n) = gn_id (gr_nodes g ! n) \<and> gn_dataIndex (gr_nodes g' ! n) = gn_dataIndex (gr_nodes g ! n) \<and>
      gn_visited (gr_nodes g' ! n) = gn_visited (gr_nodes g ! n))"
  using assms(2-)
proof (induction es arbitrary: g)
  case Nil
  then show ?case by simp
next
  case (Cons e es)
  let ?a = "ge_node1 e" and ?b = "ge_node2 e"
  have ab: "?a < length (gr_nodes g0)" "?b < length (gr_nodes g0)" using graph_okD(2) [OF ok0, of e] Cons.prems(4) by simp_all
  have find: "gr_nodesMap g (gn_id (gr_nodes g0 ! n)) = Some n" if "n < length (gr_nodes g0)" for n
    using graph_okD(3) [OF Cons.prems(1)] Cons.prems(2,3) that by simp
  have res: "resolve (Of_Id (gn_id (gr_nodes g0 ! n))) g = Some (Some n)" if "n < length (gr_nodes g0)" for n
    using find [OF that] by (simp add: resolve_def graph_getNodeById_def)
  have key: "key_of_edge g x = key_of_edge g0 x" if "x \<in> set (gr_edges g0)" for x
    using graph_okD(2) [OF ok0 that] Cons.prems(3) by (simp add: key_of_edge_def edge_key_def)
  have fresh: "gr_edgesMap g (edge_key ?a ?b g) = None"
  proof (rule ccontr)
    assume "gr_edgesMap g (edge_key ?a ?b g) \<noteq> None"
    then obtain j where "gr_edgesMap g (edge_key ?a ?b g) = Some j" by blast
    then have j: "j < length (gr_edges g)" "key_of_edge g (gr_edges g ! j) = key_of_edge g e"
      using graph_okD(4) [OF Cons.prems(1)] by (simp_all add: key_of_edge_def)
    have "gr_edges g ! j \<in> set (gr_edges g0)" "e \<in> set (gr_edges g0)" using j(1) Cons.prems(4) by simp_all
    then have "key_of_edge g0 (gr_edges g0 ! j) = key_of_edge g0 e" using j key Cons.prems(4) by (simp add: nth_append)
    moreover have "gr_edges g0 ! length (gr_edges g) = e" "length (gr_edges g) < length (gr_edges g0)" using Cons.prems(4) by simp_all
    ultimately have "gr_edgesMap g0 (key_of_edge g0 e) = Some j" "gr_edgesMap g0 (key_of_edge g0 e) = Some (length (gr_edges g))"
      using graph_okD(4) [OF ok0] j(1) by simp_all
    then show False using j(1) by simp
  qed
  let ?g = "link_edge ?a ?b (Some (ge_dataIndex e)) g"
  have "\<not> has_key (gr_edgesMap g) (edge_key ?a ?b g)"
    using fresh dash_not_member by (simp add: has_key_def edge_key_def)
  then have add: "addEdge (Of_Id (gn_id (gr_nodes g0 ! ?a))) (Of_Id (gn_id (gr_nodes g0 ! ?b))) (Some (ge_dataIndex e)) g
      = Some (Some (length (gr_edges g)), ?g)"
    using res [OF ab(1)] res [OF ab(2)] by (simp add: addEdge_def)
  have abg: "?a < length (gr_nodes g)" "?b < length (gr_nodes g)" using ab Cons.prems(2) by simp_all
  note f = link_edge_fields [of ?a ?b "Some (ge_dataIndex e)" g] link_edge_nodes [OF abg, of "Some (ge_dataIndex e)"]
  have "newEdge ?a ?b (Some (ge_dataIndex e)) = e" by (simp add: newEdge_def)
  then have "gr_edges g0 = gr_edges ?g @ es" using Cons.prems(4) f(1) by simp
  moreover have "graph_ok ?g" by (rule link_edge_ok [OF Cons.prems(1) abg fresh])
  ultimately obtain g' where "cloneEdges (gr_nodes g0) es ?g = Some g' \<and> graph_ok g' \<and> gr_edges g' = gr_edges g0 \<and>
    gr_directed g' = gr_directed ?g \<and> length (gr_nodes g') = length (gr_nodes g0) \<and> gr_data g' = gr_data ?g \<and> gr_edgeData g' = gr_edgeData ?g \<and>
    (\<forall>n. gn_id (gr_nodes g' ! n) = gn_id (gr_nodes ?g ! n) \<and> gn_dataIndex (gr_nodes g' ! n) = gn_dataIndex (gr_nodes ?g ! n) \<and>
      gn_visited (gr_nodes g' ! n) = gn_visited (gr_nodes ?g ! n))"
    using Cons.IH [of ?g] Cons.prems(2,3) f(5,8) by auto
  then show ?case using add f by (intro exI [of _ g']) simp
qed

lemma newGraph_fields:
  "gr_nodes (newGraph d) = []" "gr_edges (newGraph d) = []" "gr_directed (newGraph d) = d" "gr_nodesMap (newGraph d) = Map.empty"
  "gr_edgesMap (newGraph d) = Map.empty" "gr_data (newGraph d) = newList (Some [])" "gr_edgeData (newGraph d) = newList (Some [])"
  by (simp_all add: newGraph_def)

lemma graph_clone_run:
  fixes g :: "('v, 'y) graph"
  assumes ok: "graph_ok g"
  shows "graph_clone g = Some \<lparr>gr_directed = gr_directed g, gr_nodes = unflag (gr_nodes g), gr_edges = gr_edges g,
    gr_nodesMap = gr_nodesMap g, gr_edgesMap = gr_edgesMap g, gr_data = newList (Some []), gr_edgeData = newList (Some [])\<rparr>"
proof -
  let ?N = "length (gr_nodes g)" and ?g1 = "cloneNodes (gr_nodes g) (newGraph (gr_directed g) :: ('v, 'y) graph)"
  have "distinct (map gn_id (gr_nodes g))"
  proof -
    have "i = j" if "i < ?N" "j < ?N" "gn_id (gr_nodes g ! i) = gn_id (gr_nodes g ! j)" for i j
      using that graph_okD(3) [OF ok, of "gn_id (gr_nodes g ! i)"] by (metis option.inject)
    then show ?thesis by (auto simp: distinct_conv_nth)
  qed
  moreover have "\<forall>n\<in>set (gr_nodes g). gn_id n \<noteq> '''' \<and> gn_id n \<notin> set object_members"
    using graph_okD(1) [OF ok] by (auto simp: in_set_conv_nth node_ok_def)
  ultimately have "graph_ok ?g1 \<and> gr_nodes ?g1 = gr_nodes (newGraph (gr_directed g) :: ('v, 'y) graph) @
      map (\<lambda>n. newNode (gn_id n) (Some (gn_dataIndex n))) (gr_nodes g) \<and>
      gr_edges ?g1 = gr_edges (newGraph (gr_directed g) :: ('v, 'y) graph) \<and> gr_directed ?g1 = gr_directed (newGraph (gr_directed g) :: ('v, 'y) graph) \<and>
      gr_data ?g1 = gr_data (newGraph (gr_directed g) :: ('v, 'y) graph) \<and> gr_edgeData ?g1 = gr_edgeData (newGraph (gr_directed g) :: ('v, 'y) graph)"
    by (intro cloneNodes_run [OF newGraph_ok]) (simp_all add: newGraph_fields)
  then have g1: "graph_ok ?g1" "gr_nodes ?g1 = map (\<lambda>n. newNode (gn_id n) (Some (gn_dataIndex n))) (gr_nodes g)"
      "gr_edges ?g1 = []" "gr_directed ?g1 = gr_directed g" "gr_data ?g1 = newList (Some [])" "gr_edgeData ?g1 = newList (Some [])"
    by (simp_all add: newGraph_fields)
  have n1: "gn_id (gr_nodes ?g1 ! n) = gn_id (gr_nodes g ! n)" "gn_dataIndex (gr_nodes ?g1 ! n) = gn_dataIndex (gr_nodes g ! n)"
      "\<not> gn_visited (gr_nodes ?g1 ! n)" if "n < ?N" for n
    using that by (simp_all add: g1(2) newNode_def)
  obtain g' where g': "cloneEdges (gr_nodes g) (gr_edges g) ?g1 = Some g'" "graph_ok g'" "gr_edges g' = gr_edges g"
      "gr_directed g' = gr_directed g" "length (gr_nodes g') = ?N" "gr_data g' = newList (Some [])" "gr_edgeData g' = newList (Some [])"
    and nodes: "\<forall>n. gn_id (gr_nodes g' ! n) = gn_id (gr_nodes ?g1 ! n) \<and> gn_dataIndex (gr_nodes g' ! n) = gn_dataIndex (gr_nodes ?g1 ! n) \<and>
      gn_visited (gr_nodes g' ! n) = gn_visited (gr_nodes ?g1 ! n)"
    using cloneEdges_run [OF ok g1(1), of "gr_edges g"] n1 unfolding g1(3-6) by (auto simp: g1(2))
  note det = graph_determined [OF ok g'(2,4,3,5)]
  have ids: "n < ?N \<Longrightarrow> gn_id (gr_nodes g' ! n) = gn_id (gr_nodes g ! n)" for n using nodes n1 by simp
  have "gr_nodes g' ! n = (gr_nodes g ! n)\<lparr>gn_visited := False\<rparr>" if "n < ?N" for n
  proof -
    have "gn_id (gr_nodes g' ! n) = gn_id (gr_nodes g ! n)" "gn_dataIndex (gr_nodes g' ! n) = gn_dataIndex (gr_nodes g ! n)"
      "\<not> gn_visited (gr_nodes g' ! n)" using nodes n1 [OF that] by simp_all
    then show ?thesis using det(3) [OF ids that] by (cases "gr_nodes g' ! n"; cases "gr_nodes g ! n") simp
  qed
  then have "gr_nodes g' = unflag (gr_nodes g)" using g'(5) by (intro nth_equalityI) (simp_all add: unflag_def)
  moreover have "gr_nodesMap g' = gr_nodesMap g" "gr_edgesMap g' = gr_edgesMap g" using det(1,2) ids by blast+
  ultimately show ?thesis using g' by (simp add: graph_clone_def)
qed

section \<open>Rows of tables\<close>

lemma bare_indexed:
  "map bare_node (map (\<lambda>n. n\<lparr>gn_dataIndex := -1\<rparr>) ns) = map bare_node ns" "bare_node (n\<lparr>gn_dataIndex := i\<rparr>) = bare_node n"
  "map bare_edge (map (\<lambda>e. e\<lparr>ge_dataIndex := -1\<rparr>) es) = map bare_edge es" "bare_edge (e\<lparr>ge_dataIndex := i\<rparr>) = bare_edge e"
  by (simp_all add: bare_node_def bare_edge_def)

lemma graph_update_same:
  assumes "graph_update g = Some g'"
  shows "same_graph g g'"
proof -
  obtain nodes edges rows ed where n: "index_rows (\<lambda>i n. n\<lparr>gn_dataIndex := i\<rparr>) 0 (dl_indices (gr_data g))
        (map (\<lambda>n. n\<lparr>gn_dataIndex := -1\<rparr>) (gr_nodes g)) = Some nodes"
      and e: "index_rows (\<lambda>i e. e\<lparr>ge_dataIndex := i\<rparr>) 0 rows (map (\<lambda>e. e\<lparr>ge_dataIndex := -1\<rparr>) (gr_edges g)) = Some edges"
      and g': "g' = g\<lparr>gr_nodes := nodes, gr_edges := edges, gr_edgeData := ed\<rparr>"
    using assms by (auto simp: graph_update_def Let_def bind_eq_Some_conv)
  show ?thesis
    using index_rows_keeps [OF n, of bare_node] index_rows_keeps [OF e, of bare_edge]
    by (simp add: same_graph_def g' bare_indexed del: map_map)
qed

interpretation node_rows: row_holder gn_dataIndex "\<lambda>i n. n\<lparr>gn_dataIndex := i\<rparr>"
  by unfold_locales simp

interpretation edge_rows: row_holder ge_dataIndex "\<lambda>i e. e\<lparr>ge_dataIndex := i\<rparr>"
  by unfold_locales simp

definition both_shown :: "nat list \<Rightarrow> gedge \<Rightarrow> bool" where
  "both_shown rows e \<longleftrightarrow> ge_node1 e \<in> set rows \<and> ge_node2 e \<in> set rows"

lemma graph_update_run:
  assumes ok: "graph_ok g"
    and d: "distinct (dl_indices (gr_data g))" "\<forall>r\<in>set (dl_indices (gr_data g)). r < length (gr_nodes g)"
    and e: "distinct (dl_indices (gr_edgeData g))" "\<forall>r\<in>set (dl_indices (gr_edgeData g)). r < length (gr_edges g)"
  shows "\<exists>g'. graph_update g = Some g' \<and> same_graph g g' \<and> gr_data g' = gr_data g \<and>
    dl_indices (gr_edgeData g') = filter (\<lambda>r. both_shown (dl_indices (gr_data g)) (gr_edges g ! r)) (dl_indices (gr_edgeData g)) \<and>
    carries gn_dataIndex (dl_indices (gr_data g')) (gr_nodes g') \<and> carries ge_dataIndex (dl_indices (gr_edgeData g')) (gr_edges g')"
proof -
  let ?rows = "dl_indices (gr_data g)"
  let ?ns = "map (\<lambda>n. n\<lparr>gn_dataIndex := -1\<rparr>) (gr_nodes g)" and ?es = "map (\<lambda>e. e\<lparr>ge_dataIndex := -1\<rparr>) (gr_edges g)"
  have "\<exists>nodes. index_rows (\<lambda>i n. n\<lparr>gn_dataIndex := i\<rparr>) 0 ?rows ?ns = Some nodes \<and> length nodes = length ?ns \<and> carries gn_dataIndex ?rows nodes"
    by (rule node_rows.index_rows_carries [OF d(1)]) (use d(2) in auto)
  then obtain nodes where n: "index_rows (\<lambda>i n. n\<lparr>gn_dataIndex := i\<rparr>) 0 ?rows ?ns = Some nodes"
      "length nodes = length (gr_nodes g)" "carries gn_dataIndex ?rows nodes" by (auto simp only: length_map)
  let ?keep = "\<lambda>r. gn_dataIndex (nodes ! ge_node1 (gr_edges g ! r)) \<ge> 0 \<and> gn_dataIndex (nodes ! ge_node2 (gr_edges g ! r)) \<ge> 0"
  let ?ed = "filterSelf [] (\<lambda>_ idx. ?keep (dl_indices (gr_edgeData g) ! idx)) False (gr_edgeData g)"
  have shown: "?keep r \<longleftrightarrow> both_shown ?rows (gr_edges g ! r)" if "r < length (gr_edges g)" for r
    using graph_okD(2) [OF ok, of "gr_edges g ! r"] that carries_shown [OF n(3)] n(2) by (simp add: both_shown_def)
  have "dl_indices ?ed = map ((!) (dl_indices (gr_edgeData g))) (filter (?keep \<circ> (!) (dl_indices (gr_edgeData g))) [0..<length (dl_indices (gr_edgeData g))])"
    unfolding rows_filter by (simp add: count_def comp_def)
  also have "\<dots> = filter ?keep (dl_indices (gr_edgeData g))" by (simp only: filter_map [symmetric] map_nth)
  also have "\<dots> = filter (\<lambda>r. both_shown ?rows (gr_edges g ! r)) (dl_indices (gr_edgeData g))"
    using e(2) shown by (intro filter_cong) simp_all
  finally have rows: "dl_indices ?ed = filter (\<lambda>r. both_shown ?rows (gr_edges g ! r)) (dl_indices (gr_edgeData g))" .
  have "\<exists>edges. index_rows (\<lambda>i e. e\<lparr>ge_dataIndex := i\<rparr>) 0 (dl_indices ?ed) ?es = Some edges \<and> length edges = length ?es \<and>
      carries ge_dataIndex (dl_indices ?ed) edges"
    by (rule edge_rows.index_rows_carries) (use e rows in auto)
  then obtain edges where es: "index_rows (\<lambda>i e. e\<lparr>ge_dataIndex := i\<rparr>) 0 (dl_indices ?ed) ?es = Some edges"
      "carries ge_dataIndex (dl_indices ?ed) edges" by blast
  let ?g = "g\<lparr>gr_nodes := nodes, gr_edges := edges, gr_edgeData := ?ed\<rparr>"
  have run: "graph_update g = Some ?g" using n(1) es(1) by (simp add: graph_update_def Let_def)
  show ?thesis
    using run graph_update_same [OF run] rows n(3) es(2) by (intro exI [of _ ?g]) simp
qed

end
