(* ===== verification/Data_Graph_Props.thy ===== *)
theory Data_Graph_Props
  imports Data_Graph_Facts
begin

text \<open>
  The properties of graphs over tables: the agreement of nodes, edges and dictionaries under every
  operation, copies, breadth-first walks, and the rows that the graph and its tables share.
\<close>

section \<open>Graphs that are made\<close>

lemma bfsEdges_unflag: "bfsEdges stop edges cur is (nodes, queue, calls) = (b, nodes', q, c) \<Longrightarrow> unflag nodes' = unflag nodes"
proof (induction "is" arbitrary: nodes queue calls)
  case (Cons i "is")
  have "unflag (set_visited True r nodes) = unflag nodes" for r
  proof (cases "r < length nodes")
    case False
    then have "set_visited True r nodes = nodes" by (simp add: set_visited_def list_update_beyond)
    then show ?thesis by simp
  qed (rule set_visited_fields)
  then show ?case using Cons by (auto simp: Let_def split: if_splits)
qed simp

lemma bfsLoop_unflag:
  assumes "bfsLoop stop edges dir nodes queue calls = Some (nodes', calls')"
  shows "unflag nodes' = unflag nodes"
proof -
  have "unflag (fst res) = unflag nodes" if "bfsLoop stop edges dir nodes queue calls = Some res" for res
    using that
  proof (induction rule: bfsLoop.raw_induct [rotated, consumes 1])
    case (1 bfsLoop stop edges dir nodes queue calls res)
    show ?case
    proof (cases queue)
      case (Cons cur rest)
      obtain b ns q c where e: "bfsEdges stop edges cur (edgeType dir (nodes ! cur)) (nodes, rest, calls) = (b, ns, q, c)"
        by (metis prod_cases4)
      show ?thesis using "1"(1) [of stop edges dir ns q c res] "1"(2) Cons e bfsEdges_unflag [OF e] by (auto split: if_splits)
    qed (use "1"(2) in auto)
  qed
  then show ?thesis using assms by fastforce
qed

lemma breadthFirstTraverse_same:
  assumes "breadthFirstTraverse stop startNode dir g = Some (calls, g')"
  shows "same_graph g g'"
proof -
  have u: "same_graph g (g\<lparr>gr_nodes := ns\<rparr>)" if "unflag ns = unflag (gr_nodes g)" for ns
  proof -
    have "map bare_node xs = map (\<lambda>n. n\<lparr>gn_dataIndex := 0\<rparr>) (unflag xs)" for xs by (simp add: bare_node_def unflag_def)
    then show ?thesis using that by (simp add: same_graph_def)
  qed
  have "unflag (unflag (gr_nodes g)) = unflag (gr_nodes g)" by (simp add: unflag_def)
  moreover have "same_graph g g" by (simp add: same_graph_def)
  ultimately show ?thesis
    using assms bfsLoop_unflag u unfolding breadthFirstTraverse_def unflag_def [symmetric]
    by (fastforce simp: Let_def bind_eq_Some_conv split: option.splits if_splits)
qed

inductive graph_made :: "('v, 'y) graph \<Rightarrow> bool" where
  new: "graph_made (newGraph directed)"
| node: "graph_made g \<Longrightarrow> graph_made (snd (addNode nodeId i g))"
| edge: "graph_made g \<Longrightarrow> addEdge e1 e2 i g = Some (r, g') \<Longrightarrow>
    (\<And>n. e1 = Node_Ref n \<or> e2 = Node_Ref n \<Longrightarrow> n < length (gr_nodes g)) \<Longrightarrow> graph_made g'"
| walked: "graph_made g \<Longrightarrow> breadthFirstTraverse stop start dir g = Some (calls, g') \<Longrightarrow> graph_made g'"
| tabled: "graph_made g \<Longrightarrow> graph_made (g\<lparr>gr_data := d, gr_edgeData := ed\<rparr>)"
| updated: "graph_made g \<Longrightarrow> graph_update g = Some g' \<Longrightarrow> graph_made g'"
| cloned: "graph_made g \<Longrightarrow> graph_clone g = Some g' \<Longrightarrow> graph_made g'"

lemma graph_made_ok: "graph_made g \<Longrightarrow> graph_ok g"
proof (induction rule: graph_made.induct)
  case (edge g e1 e2 i r g')
  show ?case by (rule addEdge_ok [OF edge.IH edge.hyps(2)]) (rule edge.hyps(3))
next
  case (tabled g d ed)
  then show ?case by (auto intro: same_graph_ok simp: same_graph_def)
next
  case (cloned g g')
  then have "g' = \<lparr>gr_directed = gr_directed g, gr_nodes = unflag (gr_nodes g), gr_edges = gr_edges g,
    gr_nodesMap = gr_nodesMap g, gr_edgesMap = gr_edgesMap g, gr_data = newList (Some []), gr_edgeData = newList (Some [])\<rparr>"
    using graph_clone_run by fastforce
  then have "same_graph g g'" by (simp add: same_graph_def unflag_def bare_node_def)
  then show ?case using cloned.IH by (rule same_graph_ok [rotated])
qed (auto intro: newGraph_ok addNode_ok same_graph_ok breadthFirstTraverse_same graph_update_same)

lemma addNodes_made: "graph_made g \<Longrightarrow> graph_made (addNodes i ns g)"
  by (induction ns arbitrary: i g) (simp_all add: graph_made.node)

lemma addLinks_made:
  assumes "addLinks ls st g = Some (st', g')" "graph_made g"
    "\<And>l n. l \<in> set ls \<Longrightarrow> lk_source l \<noteq> Node_Ref n \<and> lk_target l \<noteq> Node_Ref n"
  shows "graph_made g'"
  using assms
proof (induction ls arbitrary: st g)
  case (Cons l ls)
  obtain c v n where st: "st = (c, v, n)" by (metis prod_cases3)
  obtain e g1 where e: "addEdge (lk_source l) (lk_target l) (Some (int c)) g = Some (e, g1)" 
      and st1: "addLinks ls (if e = None then (c, v, n) else (c + 1, v @ [lk_item l], n @ [link_name l])) g1 = Some (st', g')"
    using Cons.prems(1) st by (auto simp: bind_eq_Some_conv split del: if_split)
  have "graph_made g1" by (rule graph_made.edge [OF Cons.prems(2) e]) (use Cons.prems(3) in auto)
  then show ?case using Cons.IH [OF st1] Cons.prems(3) by auto
qed simp

text \<open>Links of data name their ends; a graph built from data is one of these.\<close>

lemma createGraph_made:
  assumes "createGraphFromNodeEdge nodes links directed dimensions getter = Some g"
    "\<And>l n. l \<in> set links \<Longrightarrow> lk_source l \<noteq> Node_Ref n \<and> lk_target l \<noteq> Node_Ref n"
  shows "graph_made g"
proof -
  obtain st g1 d ed where a: "addLinks links (0, [], []) (addNodes 0 nodes (newGraph directed)) = Some (st, g1)"
      and u: "graph_update (g1\<lparr>gr_data := d, gr_edgeData := ed\<rparr>) = Some g"
    using assms(1) by (auto simp: createGraphFromNodeEdge_def bind_eq_Some_conv)
  show ?thesis
    by (rule graph_made.updated [OF graph_made.tabled u], rule addLinks_made [OF a addNodes_made [OF graph_made.new]]) (rule assms(2))
qed

section \<open>A small graph\<close>

definition given :: "string \<Rightarrow> int \<Rightarrow> given_node" where
  "given k v = \<lparr>gv_id = Some k, gv_name = None, gv_item = \<lparr>r_name = Some k, r_id = None, r_values = [Fin v]\<rparr>\<rparr>"

definition linked :: "string \<Rightarrow> string \<Rightarrow> given_link" where
  "linked a b = \<lparr>lk_source = Of_Id a, lk_target = Of_Id b, lk_id = None, lk_item = \<lparr>r_name = None, r_id = None, r_values = [Fin 1]\<rparr>\<rparr>"

definition first_value :: "item \<Rightarrow> string \<Rightarrow> nat \<Rightarrow> nat \<Rightarrow> num" where
  "first_value it d i k = (case r_values it of [] \<Rightarrow> NaN | v # _ \<Rightarrow> v)"

definition chain :: "(unit, unit) graph option" where
  "chain = createGraphFromNodeEdge [given ''a'' 1, given ''b'' 2, given ''c'' 3] [linked ''a'' ''b'', linked ''b'' ''c'', linked ''a'' ''b'']
     False [Named ''value''] first_value"

definition chain_nodes :: "gnode list" where
  "chain_nodes = [\<lparr>gn_id = ''a'', gn_inEdges = [], gn_outEdges = [], gn_edges = [0], gn_dataIndex = 0, gn_visited = False\<rparr>,
     \<lparr>gn_id = ''b'', gn_inEdges = [], gn_outEdges = [], gn_edges = [0, 1], gn_dataIndex = 1, gn_visited = False\<rparr>,
     \<lparr>gn_id = ''c'', gn_inEdges = [], gn_outEdges = [], gn_edges = [1], gn_dataIndex = 2, gn_visited = False\<rparr>]"

definition chain_edges :: "gedge list" where
  "chain_edges = [\<lparr>ge_node1 = 0, ge_node2 = 1, ge_dataIndex = 0\<rparr>, \<lparr>ge_node1 = 1, ge_node2 = 2, ge_dataIndex = 1\<rparr>]"

definition chain_value :: "(unit, unit) graph" where
  "chain_value = the chain"

lemma chain_links:
  "addLinks [linked ''a'' ''b'', linked ''b'' ''c'', linked ''a'' ''b''] (0, [], [])
     (addNodes 0 [given ''a'' 1, given ''b'' 2, given ''c'' 3] (newGraph False)) =
   Some ((2, [lk_item (linked ''a'' ''b''), lk_item (linked ''b'' ''c'')], [''a > b'', ''b > c'']),
     \<lparr>gr_directed = False, gr_nodes = chain_nodes, gr_edges = chain_edges,
      gr_nodesMap = [''a'' \<mapsto> 0, ''b'' \<mapsto> 1, ''c'' \<mapsto> 2], gr_edgesMap = [''a-b'' \<mapsto> 0, ''b-c'' \<mapsto> 1],
      gr_data = newList (Some []), gr_edgeData = newList (Some [])\<rparr>)"
  by (simp add: linked_def given_def addNode_def addEdge_def has_key_def object_members_def newGraph_def newNode_def resolve_def
      graph_getNodeById_def edge_key_def link_edge_def upd_gnode_def newEdge_def link_name_def Let_def chain_nodes_def chain_edges_def numeral_2_eq_2)


lemma first_value_init:
  "\<exists>l. initData its names first_value (newList (Some [Named ''value'']) :: (unit, unit) dlist) = Some l \<and> dl_indices l = [0..<length its]"
  by (simp add: initData_def newList_def dim_info_def type_of_def dataCtors_def Let_def split: prod.split)

lemma chain_run:
  "\<exists>d ed. chain = Some \<lparr>gr_directed = False, gr_nodes = chain_nodes, gr_edges = chain_edges,
      gr_nodesMap = [''a'' \<mapsto> 0, ''b'' \<mapsto> 1, ''c'' \<mapsto> 2], gr_edgesMap = [''a-b'' \<mapsto> 0, ''b-c'' \<mapsto> 1],
      gr_data = d, gr_edgeData = ed\<rparr> \<and> dl_indices d = [0, 1, 2] \<and> dl_indices ed = [0, 1]"
proof -
  obtain d where d: "initData (map gv_item [given ''a'' 1, given ''b'' 2, given ''c'' 3]) [] first_value
      (newList (Some [Named ''value'']) :: (unit, unit) dlist) = Some d" "dl_indices d = [0, 1, 2]"
    using first_value_init [of "map gv_item [given ''a'' 1, given ''b'' 2, given ''c'' 3]" "[]"] by (auto simp: upt_rec numeral_eq_Suc)
  obtain ed where ed: "initData [lk_item (linked ''a'' ''b''), lk_item (linked ''b'' ''c'')] [''a > b'', ''b > c''] first_value
      (newList (Some [Named ''value'']) :: (unit, unit) dlist) = Some ed" "dl_indices ed = [0, 1]"
    using first_value_init [of "[lk_item (linked ''a'' ''b''), lk_item (linked ''b'' ''c'')]" "[''a > b'', ''b > c'']"] by (auto simp: upt_rec numeral_eq_Suc)
  show ?thesis
    unfolding chain_def createGraphFromNodeEdge_def chain_links bind.bind_lunit prod.case d(1) ed(1)
    by (simp add: graph_update_def Let_def filterSelf_def count_def d(2) ed(2) chain_nodes_def chain_edges_def)
qed


lemma chain_made: "chain = Some chain_value" "graph_made chain_value"
  "gr_nodes chain_value = chain_nodes" "gr_edges chain_value = chain_edges" "gr_directed chain_value = False"
  "dl_indices (gr_data chain_value) = [0, 1, 2]" "dl_indices (gr_edgeData chain_value) = [0, 1]"
proof -
  show c: "chain = Some chain_value" using chain_run unfolding chain_value_def by (metis option.sel)
  show "graph_made chain_value" by (rule createGraph_made [OF c [unfolded chain_def]]) (auto simp: linked_def)
  show "gr_nodes chain_value = chain_nodes" "gr_edges chain_value = chain_edges" "gr_directed chain_value = False"
    "dl_indices (gr_data chain_value) = [0, 1, 2]" "dl_indices (gr_edgeData chain_value) = [0, 1]"
  proof -
    obtain d ed where e: "chain_value = \<lparr>gr_directed = False, gr_nodes = chain_nodes, gr_edges = chain_edges,
        gr_nodesMap = [''a'' \<mapsto> 0, ''b'' \<mapsto> 1, ''c'' \<mapsto> 2], gr_edgesMap = [''a-b'' \<mapsto> 0, ''b-c'' \<mapsto> 1],
        gr_data = d, gr_edgeData = ed\<rparr>" and i: "dl_indices d = [0, 1, 2]" "dl_indices ed = [0, 1]"
      using chain_run unfolding c option.inject by blast
    show "gr_nodes chain_value = chain_nodes" "gr_edges chain_value = chain_edges" "gr_directed chain_value = False"
      "dl_indices (gr_data chain_value) = [0, 1, 2]" "dl_indices (gr_edgeData chain_value) = [0, 1]"
      unfolding e by (simp_all only: graph.simps i)
  qed
qed

section \<open>Properties\<close>

text \<open>
  C24. Whatever is done to a graph, each node lists exactly the edges at it (and, in a directed graph,
  those out of it and into it), and every node and edge is found by its identifier or its ends.
\<close>

theorem graph_stays_consistent:
  assumes "graph_made g"
  shows "(\<forall>n<length (gr_nodes g). let x = gr_nodes g ! n in
      gn_edges x = incident g (\<lambda>e. ge_node1 e = n \<or> ge_node2 e = n) \<and>
      gn_outEdges x = (if isDirected g then incident g (\<lambda>e. ge_node1 e = n) else []) \<and>
      gn_inEdges x = (if isDirected g then incident g (\<lambda>e. ge_node2 e = n) else []) \<and>
      graph_getNodeById (gn_id x) g = Some (Some n)) \<and>
    (\<forall>i<length (gr_edges g). let e = gr_edges g ! i in
      ge_node1 e < length (gr_nodes g) \<and> ge_node2 e < length (gr_nodes g) \<and>
      getEdge (Node_Ref (ge_node1 e)) (Node_Ref (ge_node2 e)) g = Some i)"
proof -
  have ok: "graph_ok g" by (rule graph_made_ok [OF assms])
  have "gr_nodesMap g (gn_id (gr_nodes g ! n)) = Some n" if "n < length (gr_nodes g)" for n
    using graph_okD(3) [OF ok] that by blast
  moreover have "gr_edgesMap g (key_of_edge g (gr_edges g ! i)) = Some i" if "i < length (gr_edges g)" for i
    using graph_okD(4) [OF ok] that by blast
  ultimately show ?thesis
    using graph_okD(1) [OF ok] graph_okD(2) [OF ok nth_mem]
    by (simp add: Let_def node_ok_def isDirected_def graph_getNodeById_def getEdge_def end_id_def key_of_edge_def edge_key_def)
qed

lemma graph_stays_consistent_witness:
  "graph_getNodeById ''b'' chain_value = Some (Some 1) \<and> getEdge (Node_Ref 1) (Node_Ref 2) chain_value = Some 1 \<and>
    incident chain_value (\<lambda>e. ge_node1 e = 1 \<or> ge_node2 e = 1) = [0, 1]"
proof -
  have l: "1 < length chain_nodes" "1 < length chain_edges" by (simp_all add: chain_nodes_def chain_edges_def)
  note c = graph_stays_consistent [OF chain_made(2), unfolded chain_made(3,4)]
  show ?thesis
    using conjunct1 [OF c, rule_format, OF l(1)] conjunct2 [OF c, rule_format, OF l(2)]
    by (simp add: Let_def chain_nodes_def chain_edges_def)
qed



text \<open>Nodes that one edge joins in a direction.\<close>

definition joined :: "direction \<Rightarrow> ('v, 'y) graph \<Rightarrow> (nat \<times> nat) set" where
  "joined dir g = {(x, y). \<exists>e\<in>set (gr_edges g). case dir of
      Out \<Rightarrow> isDirected g \<and> ge_node1 e = x \<and> ge_node2 e = y
    | In \<Rightarrow> isDirected g \<and> ge_node2 e = x \<and> ge_node1 e = y
    | Both \<Rightarrow> ge_node1 e = x \<and> ge_node2 e = y \<or> ge_node2 e = x \<and> ge_node1 e = y}"

lemma in_incident: "i \<in> set (incident g p) \<longleftrightarrow> i < length (gr_edges g) \<and> p (gr_edges g ! i)"
  by (auto simp: incident_def)

lemma bex_nth: "(\<exists>e\<in>set es. P e) \<longleftrightarrow> (\<exists>i<length es. P (es ! i))"
  by (metis in_set_conv_nth)

lemma steps_joined:
  assumes "graph_ok g"
  shows "steps dir (gr_edges g) (gr_nodes g) = joined dir g"
    and "joined dir g \<subseteq> {..<length (gr_nodes g)} \<times> {..<length (gr_nodes g)}"
proof -
  show r: "joined dir g \<subseteq> {..<length (gr_nodes g)} \<times> {..<length (gr_nodes g)}"
    using graph_okD(2) [OF assms] by (cases dir) (fastforce simp: joined_def)+
  have "(x, y) \<in> steps dir (gr_edges g) (gr_nodes g) \<longleftrightarrow> (x, y) \<in> joined dir g" if x: "x < length (gr_nodes g)" for x y
    using graph_okD(1) [OF assms x] unfolding joined_def bex_nth
    by (cases dir) (auto simp: steps_def node_ok_def in_incident isDirected_def otherNode_def x split: if_splits)
  then show "steps dir (gr_edges g) (gr_nodes g) = joined dir g" using r by (auto simp: steps_def)
qed


text \<open>
  C26. A breadth-first walk that is not stopped ends; it calls back the start, then each node
  reachable by one edge or more exactly once, from a neighbour, and leaves the graph as it was
  up to the marks.
\<close>

theorem breadthFirstTraverse_reaches:
  assumes "graph_made g" "r < length (gr_nodes g)"
  shows "\<exists>rest nodes. breadthFirstTraverse (\<lambda>_. False) (Node_Ref r) dir g = Some ((r, None) # rest, g\<lparr>gr_nodes := nodes\<rparr>) \<and>
    map (\<lambda>n. n\<lparr>gn_visited := False\<rparr>) nodes = map (\<lambda>n. n\<lparr>gn_visited := False\<rparr>) (gr_nodes g) \<and>
    distinct (map fst rest) \<and> set (map fst rest) = (joined dir g)\<^sup>+ `` {r} \<and>
    (\<forall>(x, from)\<in>set rest. \<exists>y. from = Some y \<and> (y, x) \<in> joined dir g)"
proof -
  note s = steps_joined [OF graph_made_ok [OF assms(1)], of dir]
  let ?ns = "unflag (gr_nodes g)"
  have u: "steps dir (gr_edges g) ?ns = joined dir g" "length ?ns = length (gr_nodes g)" using s(1) by (simp_all add: steps_unflag)
  have "visited ?ns = {}" by (simp add: visited_def unflag_def)
  then have "walking (steps dir (gr_edges g) ?ns) r (visited ?ns) [r] [(r, None)]" by (simp add: walking_def)
  then obtain nodes calls where b: "bfsLoop (\<lambda>_. False) (gr_edges g) dir ?ns [r] [(r, None)] = Some (nodes, calls)"
      "unflag nodes = unflag ?ns" and w: "walking (steps dir (gr_edges g) ?ns) r (visited nodes) [] calls"
    using bfsLoop_free [of dir "gr_edges g" ?ns r ?ns "[r]" "[(r, None)]"] s(2) u assms(2) by auto
  obtain rest where rest: "calls = (r, None) # rest" "distinct (map fst rest)" "set (map fst rest) = visited nodes"
      "\<forall>(x, from)\<in>set rest. \<exists>y. from = Some y \<and> (y, x) \<in> joined dir g"
    using w unfolding walking_def u(1) by blast
  have "unflag ?ns = ?ns" by (simp add: unflag_def)
  moreover have "breadthFirstTraverse (\<lambda>_. False) (Node_Ref r) dir g = Some (calls, g\<lparr>gr_nodes := nodes\<rparr>)"
    unfolding breadthFirstTraverse_def unflag_def [symmetric] by (simp add: Let_def b(1))
  moreover have "visited nodes = (joined dir g)\<^sup>+ `` {r}" using walking_done [OF w] unfolding u(1) .
  ultimately show ?thesis
    using rest b(2) unfolding unflag_def by (intro exI [of _ rest] exI [of _ nodes]) simp
qed

lemma breadthFirstTraverse_reaches_witness:
  "\<exists>rest g. breadthFirstTraverse (\<lambda>_. False) (Node_Ref 2) Both chain_value = Some ((2, None) # rest, g) \<and>
    distinct (map fst rest) \<and> 0 \<in> set (map fst rest)"
proof -
  have l: "2 < length (gr_nodes chain_value)" by (simp add: chain_made(3) chain_nodes_def)
  have "(2, 1) \<in> joined Both chain_value" "(1, 0) \<in> joined Both chain_value"
    by (simp_all add: joined_def chain_made(4) chain_edges_def)
  then have "(2, 0) \<in> (joined Both chain_value)\<^sup>+" by (meson trancl.simps)
  then show ?thesis using breadthFirstTraverse_reaches [OF chain_made(2) l, of Both] by blast
qed

text \<open>
  After an update the rows of edges are those whose ends both have a row, the nodes and edges that
  are walked are the rows of the two tables in order, and each row leads back to its node or edge.
\<close>

theorem graph_update_shows:
  assumes "graph_made g"
    and "sorted_wrt (<) (dl_indices (gr_data g))" "\<forall>r\<in>set (dl_indices (gr_data g)). r < length (gr_nodes g)"
    and "sorted_wrt (<) (dl_indices (gr_edgeData g))" "\<forall>r\<in>set (dl_indices (gr_edgeData g)). r < length (gr_edges g)"
  shows "\<exists>g'. graph_update g = Some g' \<and> gr_data g' = gr_data g \<and>
    dl_indices (gr_edgeData g') = filter (\<lambda>i. both_shown (dl_indices (gr_data g)) (gr_edges g ! i)) (dl_indices (gr_edgeData g)) \<and>
    graph_eachNode g' = dl_indices (gr_data g') \<and> eachEdge g' = dl_indices (gr_edgeData g') \<and>
    (\<forall>n\<in>set (graph_eachNode g'). getNodeByIndex (gn_dataIndex (gr_nodes g' ! n)) g' = Some n) \<and>
    (\<forall>i\<in>set (eachEdge g'). getEdgeByIndex (ge_dataIndex (gr_edges g' ! i)) g' = Some i)"
proof -
  have ok: "graph_ok g" by (rule graph_made_ok [OF assms(1)])
  let ?rows = "dl_indices (gr_data g)"
  have dist: "distinct ?rows" "distinct (dl_indices (gr_edgeData g))" using assms(2,4) by (simp_all add: strict_sorted_iff)
  obtain g' where g': "graph_update g = Some g'" "same_graph g g'" "gr_data g' = gr_data g"
      "dl_indices (gr_edgeData g') = filter (\<lambda>r. both_shown ?rows (gr_edges g ! r)) (dl_indices (gr_edgeData g))"
      "carries gn_dataIndex ?rows (gr_nodes g')" "carries ge_dataIndex (dl_indices (gr_edgeData g')) (gr_edges g')"
    using graph_update_run [OF ok dist(1) assms(3) dist(2) assms(5)] by auto
  let ?erows = "dl_indices (gr_edgeData g')"
  note len = same_graphD(1,2) [OF g'(2)]
  have srt: "sorted_wrt (<) ?erows" "\<forall>r\<in>set ?erows. r < length (gr_edges g')"
    using assms(4,5) len(2) by (simp_all add: g'(4) sorted_wrt_filter)
  have ends: "ge_node1 (gr_edges g' ! i) = ge_node1 (gr_edges g ! i) \<and> ge_node2 (gr_edges g' ! i) = ge_node2 (gr_edges g ! i)"
    if "i < length (gr_edges g)" for i
    using bare_fields(2) [OF same_graphD(4) [OF g'(2) that]] .
  have rows: "xs = filter (\<lambda>i. i \<in> set xs) [0..<n]" if "sorted_wrt (<) xs" "\<forall>r\<in>set xs. r < n" for xs :: "nat list" and n
    by (rule strict_sorted_equal) (use that in \<open>auto simp: sorted_wrt_filter\<close>)
  have nodes: "graph_eachNode g' = ?rows"
    unfolding graph_eachNode_def by (subst rows [OF assms(2,3)]) (auto simp: len intro!: filter_cong carries_shown [OF g'(5)])
  have edges: "eachEdge g' = ?erows"
    unfolding eachEdge_def
  proof (subst rows [OF srt], rule filter_cong)
    fix i assume "i \<in> set [0..<length (gr_edges g')]"
    then have i: "i < length (gr_edges g')" "i < length (gr_edges g)" using len by simp_all
    have b: "ge_node1 (gr_edges g ! i) < length (gr_nodes g')" "ge_node2 (gr_edges g ! i) < length (gr_nodes g')"
      using graph_okD(2) [OF ok nth_mem [OF i(2)]] len by simp_all
    have "i \<in> set ?erows \<longrightarrow> both_shown ?rows (gr_edges g ! i)" by (simp add: g'(4))
    then show "(let e = gr_edges g' ! i in 0 \<le> ge_dataIndex e \<and> 0 \<le> gn_dataIndex (gr_nodes g' ! ge_node1 e) \<and>
        0 \<le> gn_dataIndex (gr_nodes g' ! ge_node2 e)) = (i \<in> set ?erows)"
      using carries_shown [OF g'(6) i(1)] carries_shown [OF g'(5) b(1)] carries_shown [OF g'(5) b(2)] ends [OF i(2)]
      by (auto simp: Let_def both_shown_def)
  qed simp
  have "\<forall>n\<in>set ?rows. getNodeByIndex (gn_dataIndex (gr_nodes g' ! n)) g' = Some n"
    using g'(3,5) assms(3) len by (auto simp: in_set_conv_nth carries_def getNodeByIndex_def getRawIndex_def count_def Let_def)
  moreover have "\<forall>i\<in>set ?erows. getEdgeByIndex (ge_dataIndex (gr_edges g' ! i)) g' = Some i"
    using g'(6) srt(2) by (auto simp: in_set_conv_nth carries_def getEdgeByIndex_def getRawIndex_def count_def Let_def)
  ultimately show ?thesis using g'(1,3,4) nodes edges by (intro exI [of _ g']) simp
qed

lemma graph_update_shows_witness:
  "\<exists>g. graph_filter [] (\<lambda>_ i. i \<noteq> 2) False chain_value = Some g \<and> graph_eachNode g = [0, 1] \<and> eachEdge g = [0]"
proof -
  let ?g = "chain_value\<lparr>gr_data := filterSelf [] (\<lambda>_ i. i \<noteq> 2) False (gr_data chain_value)\<rparr>"
  have "graph_made (chain_value\<lparr>gr_data := filterSelf [] (\<lambda>_ i. i \<noteq> 2) False (gr_data chain_value), gr_edgeData := gr_edgeData chain_value\<rparr>)"
    by (rule graph_made.tabled [OF chain_made(2)])
  then have m: "graph_made ?g" by simp
  have r: "dl_indices (gr_data ?g) = [0, 1]" "dl_indices (gr_edgeData ?g) = [0, 1]"
    by (simp_all add: filterSelf_def Let_def count_def chain_made)
  have l: "length (gr_nodes ?g) = 3" "length (gr_edges ?g) = 2" by (simp_all add: chain_made chain_nodes_def chain_edges_def)
  obtain g where "graph_update ?g = Some g" "gr_data g = gr_data ?g" "graph_eachNode g = dl_indices (gr_data g)" "eachEdge g = dl_indices (gr_edgeData g)"
      "dl_indices (gr_edgeData g) = filter (\<lambda>i. both_shown [0, 1] (gr_edges ?g ! i)) [0, 1]"
    using graph_update_shows [OF m, unfolded r l] by auto
  moreover have "gr_edges ?g = chain_edges" by (simp add: chain_made)
  ultimately show ?thesis using r(1) by (simp add: graph_filter_def both_shown_def chain_edges_def)
qed


section \<open>Where the code falls short\<close>

text \<open>A walk does not mark its start, so it comes back to it.\<close>

lemma bfs_start_again:
  "\<exists>g. breadthFirstTraverse (\<lambda>_. False) (Node_Ref 0) Both chain_value = Some ([(0, None), (1, Some 0), (0, Some 1), (2, Some 1)], g)"
proof -
  have "bfsLoop (\<lambda>_. False) chain_edges Both chain_nodes [0] [(0, None)] =
      Some (map (\<lambda>n. n\<lparr>gn_visited := True\<rparr>) chain_nodes, [(0, None), (1, Some 0), (0, Some 1), (2, Some 1)])"
    by (simp add: bfsLoop.simps chain_edges_def chain_nodes_def otherNode_def set_visited_def Let_def)
  moreover have "map (\<lambda>n. n\<lparr>gn_visited := False\<rparr>) chain_nodes = chain_nodes" by (simp add: chain_nodes_def)
  ultimately show ?thesis by (simp add: breadthFirstTraverse_def chain_made Let_def)
qed

text \<open>Different pairs of nodes may share one key, and the second edge is dropped.\<close>

lemma edge_keys_collide:
  assumes "4 \<le> length (gr_nodes g)" "map gn_id (take 4 (gr_nodes g)) = [''a-b'', ''c'', ''a'', ''b-c'']"
  shows "addEdge (Node_Ref 2) (Node_Ref 3) j (link_edge 0 1 i g) = Some (None, link_edge 0 1 i g)"
proof -
  have "gn_id (gr_nodes g ! n) = [''a-b'', ''c'', ''a'', ''b-c''] ! n" if "n < 4" for n
    using arg_cong [OF assms(2), of "\<lambda>xs. xs ! n"] assms(1) that by simp
  from this [of 0] this [of 1] this [of 2] this [of 3]
  have ids: "gn_id (gr_nodes g ! 0) = ''a-b''" "gn_id (gr_nodes g ! 1) = ''c''" "gn_id (gr_nodes g ! 2) = ''a''" "gn_id (gr_nodes g ! 3) = ''b-c''"
    by simp_all
  have l: "0 < length (gr_nodes g)" "1 < length (gr_nodes g)" using assms(1) by linarith+
  have "edge_key 2 3 (link_edge 0 1 i g) = ''a-b-c''" unfolding edge_key_def link_edge_nodes [OF l] by (simp add: ids)
  moreover have "edge_key 0 1 g = ''a-b-c''" unfolding edge_key_def ids by simp
  ultimately show ?thesis by (simp add: addEdge_def resolve_def link_edge_fields has_key_def del: One_nat_def)
qed

text \<open>A node named like a member of every object is never added.\<close>

lemma inherited_name_dropped: "addNode (Some ''constructor'') i g = (None, g)"
  by (simp add: addNode_def has_key_def object_members_def)

text \<open>Two given nodes of one name leave a row without a node, and the first update raises.\<close>

lemma duplicate_nodes_raise:
  "(createGraphFromNodeEdge [given ''a'' 1, given ''a'' 2] [] False [Named ''value''] first_value :: (unit, unit) graph option) = None"
proof -
  obtain l where l: "initData (map gv_item [given ''a'' 1, given ''a'' 2]) [] first_value (newList (Some [Named ''value'']) :: (unit, unit) dlist) = Some l"
      "dl_indices l = [0, 1]"
    using first_value_init [of "map gv_item [given ''a'' 1, given ''a'' 2]" "[]"] by (auto simp: upt_rec numeral_eq_Suc)
  have g: "addNodes 0 [given ''a'' 1, given ''a'' 2] (newGraph False :: (unit, unit) graph) =
      (newGraph False)\<lparr>gr_nodes := [newNode ''a'' (Some 0)], gr_nodesMap := [''a'' \<mapsto> 0]\<rparr>"
    by (simp add: given_def addNode_def has_key_def object_members_def newGraph_def Let_def)
  show ?thesis
    unfolding createGraphFromNodeEdge_def g addLinks.simps bind.bind_lunit prod.case l(1)
    by (simp add: graph_update_def newGraph_def l(2) Let_def bind_eq_Some_conv split: option.split bind_split)
qed

end
