(* ===== verification/Throttle.thy ===== *)
theory Throttle
  imports Js_Prelude
begin

text \<open>
  Throttled functions, \<open>util/throttle\<close> (module 81). The state has the variables of the closure, the
  pending timers of the host and, for the theorems, what has happened so far. The clock is the
  argument \<open>now\<close>; a timer fires at its due time or later, and one that is cleared never fires.
  The function itself does not call its throttled version.
\<close>

section \<open>State\<close>

datatype 'a event = Called int 'a | Ran int "'a option"

record 'a throttled =
  th_delay :: int
  th_debounce :: bool
  th_lastCall :: int
  th_lastExec :: int
  th_timer :: "nat option"
  th_args :: "'a option"
  th_pending :: "(nat \<times> int) list"
  th_next :: nat
  th_log :: "'a event list"

text \<open>No delay is a delay of zero.\<close>

definition newThrottle :: "int option \<Rightarrow> bool \<Rightarrow> 'a throttled" where
  "newThrottle delay debounce = \<lparr>th_delay = (case delay of None \<Rightarrow> 0 | Some d \<Rightarrow> d), th_debounce = debounce,
     th_lastCall = 0, th_lastExec = 0, th_timer = None, th_args = None, th_pending = [], th_next = 1, th_log = []\<rparr>"

text \<open>The timers of the host: their numbers are positive, and a negative delay counts as none.\<close>

definition clearTimeout :: "nat option \<Rightarrow> 'a throttled \<Rightarrow> 'a throttled" where
  "clearTimeout t s = s\<lparr>th_pending := filter (\<lambda>(i, due). Some i \<noteq> t) (th_pending s)\<rparr>"

definition setTimeout :: "int \<Rightarrow> int \<Rightarrow> 'a throttled \<Rightarrow> 'a throttled" where
  "setTimeout now d s = s\<lparr>th_timer := Some (th_next s), th_pending := th_pending s @ [(th_next s, now + max d 0)],
     th_next := th_next s + 1\<rparr>"

section \<open>Operations\<close>

definition throttle_exec :: "int \<Rightarrow> 'a throttled \<Rightarrow> 'a throttled" where
  "throttle_exec now s = s\<lparr>th_lastExec := now, th_timer := None, th_log := th_log s @ [Ran now (th_args s)]\<rparr>"

definition throttle_call :: "int \<Rightarrow> 'a \<Rightarrow> 'a throttled \<Rightarrow> 'a throttled" where
  "throttle_call now args s =
     (let s = s\<lparr>th_args := Some args, th_log := th_log s @ [Called now args]\<rparr>;
          diff = now - (if th_debounce s then th_lastCall s else th_lastExec s) - th_delay s;
          s = clearTimeout (th_timer s) s;
          s = (if th_debounce s then setTimeout now (th_delay s) s
               else if diff \<ge> 0 then throttle_exec now s
               else setTimeout now (- diff) s) in
      s\<lparr>th_lastCall := now\<rparr>)"

definition throttle_clear :: "'a throttled \<Rightarrow> 'a throttled" where
  "throttle_clear s = (if th_timer s \<noteq> None then (clearTimeout (th_timer s) s)\<lparr>th_timer := None\<rparr> else s)"

text \<open>The host runs the function of a timer that is due.\<close>

definition throttle_fire :: "int \<Rightarrow> nat \<Rightarrow> 'a throttled \<Rightarrow> 'a throttled" where
  "throttle_fire now i s = throttle_exec now (clearTimeout (Some i) s)"

inductive throttle_run :: "int option \<Rightarrow> bool \<Rightarrow> int \<Rightarrow> 'a throttled \<Rightarrow> bool"
  for delay :: "int option" and debounce :: bool where
  start: "0 \<le> now \<Longrightarrow> throttle_run delay debounce now (newThrottle delay debounce)"
| called: "throttle_run delay debounce t s \<Longrightarrow> t \<le> now \<Longrightarrow> throttle_run delay debounce now (throttle_call now args s)"
| fired: "throttle_run delay debounce t s \<Longrightarrow> t \<le> now \<Longrightarrow> (i, due) \<in> set (th_pending s) \<Longrightarrow> due \<le> now \<Longrightarrow>
    throttle_run delay debounce now (throttle_fire now i s)"
| cleared: "throttle_run delay debounce t s \<Longrightarrow> t \<le> now \<Longrightarrow> throttle_run delay debounce now (throttle_clear s)"

section \<open>A method of an object\<close>

text \<open>A method as it was, or throttled with a rate and a type.\<close>

datatype 'f meth = Plain 'f | Throttled 'f int string

fun origin_method :: "'f meth \<Rightarrow> 'f" where
  "origin_method (Plain f) = f"
| "origin_method (Throttled f _ _) = f"

fun throttle_rate :: "'f meth \<Rightarrow> int option" where
  "throttle_rate (Plain _) = None"
| "throttle_rate (Throttled _ r _) = Some r"

fun throttle_type :: "'f meth \<Rightarrow> string option" where
  "throttle_type (Plain _) = None"
| "throttle_type (Throttled _ _ t) = Some t"

definition createOrUpdate :: "int option \<Rightarrow> string option \<Rightarrow> 'f meth option \<Rightarrow> 'f meth option" where
  "createOrUpdate rate throttleType attr =
     (case attr of
        None \<Rightarrow> None
      | Some fn \<Rightarrow>
          if throttle_rate fn \<noteq> rate \<or> throttle_type fn \<noteq> throttleType then
            case (rate, throttleType) of
              (Some r, Some t) \<Rightarrow> if t = '''' then Some (Plain (origin_method fn)) else Some (Throttled (origin_method fn) r t)
            | _ \<Rightarrow> Some (Plain (origin_method fn))
          else Some fn)"

definition throttle_restore :: "'f meth option \<Rightarrow> 'f meth option" where
  "throttle_restore attr = (case attr of Some (Throttled f _ _) \<Rightarrow> Some (Plain f) | _ \<Rightarrow> attr)"

lemma restore_create: "throttle_restore (createOrUpdate rate ty attr) = map_option (\<lambda>fn. Plain (origin_method fn)) attr"
  by (auto simp: throttle_restore_def createOrUpdate_def split: option.split meth.split)

section \<open>What a run keeps\<close>

definition last_called :: "'a event list \<Rightarrow> 'a option" where
  "last_called es = (case List.find (\<lambda>e. case e of Called _ _ \<Rightarrow> True | Ran _ _ \<Rightarrow> False) (rev es) of Some (Called _ a) \<Rightarrow> Some a | _ \<Rightarrow> None)"

lemma last_called_snoc [simp]:
  "last_called [] = None" "last_called (es @ [Called t a]) = Some a" "last_called (es @ [Ran t a']) = last_called es"
  by (simp_all add: last_called_def)

text \<open>What may follow what: runs of a fixed rate and runs of a debounced function.\<close>

fun spaced :: "bool \<Rightarrow> int \<Rightarrow> 'a event \<Rightarrow> 'a event \<Rightarrow> bool" where
  "spaced False d (Ran t _) (Ran t' _) = (t + d \<le> t')"
| "spaced True d (Called t _) (Ran t' _) = (t + d \<le> t')"
| "spaced _ _ _ _ = True"

fun before :: "int \<Rightarrow> 'a event \<Rightarrow> bool" where
  "before now (Called t _) = (t \<le> now)"
| "before now (Ran t _) = (t \<le> now)"

definition latest_runs :: "int \<Rightarrow> 'a event list \<Rightarrow> bool" where
  "latest_runs lastExec es \<longleftrightarrow> (\<forall>t a. Ran t a \<in> set es \<longrightarrow> t \<le> lastExec)"

definition latest_calls :: "int \<Rightarrow> 'a event list \<Rightarrow> bool" where
  "latest_calls lastCall es \<longleftrightarrow> (\<forall>t a. Called t a \<in> set es \<longrightarrow> t \<le> lastCall)"

definition fresh_args :: "'a event list \<Rightarrow> bool" where
  "fresh_args es \<longleftrightarrow> (\<forall>n t a. n < length es \<longrightarrow> es ! n = Ran t a \<longrightarrow> a \<noteq> None \<and> a = last_called (take n es))"

definition throttle_ok :: "int \<Rightarrow> bool \<Rightarrow> int \<Rightarrow> 'a throttled \<Rightarrow> bool" where
  "throttle_ok d b now s \<longleftrightarrow> th_delay s = d \<and> th_debounce s = b \<and> th_args s = last_called (th_log s) \<and>
     sorted_wrt (spaced b d) (th_log s) \<and> fresh_args (th_log s) \<and>
     latest_runs (th_lastExec s) (th_log s) \<and> latest_calls (th_lastCall s) (th_log s) \<and>
     (\<forall>(i, due)\<in>set (th_pending s). th_timer s = Some i \<and> i < th_next s \<and> (if b then th_lastCall s else th_lastExec s) + d \<le> due \<and> th_args s \<noteq> None) \<and>
     length (th_pending s) \<le> 1 \<and> (\<forall>i. th_timer s = Some i \<longrightarrow> i < th_next s) \<and> th_lastExec s \<le> now \<and> th_lastCall s \<le> now"

lemma fresh_args_snoc:
  "fresh_args es \<Longrightarrow> fresh_args (es @ [Called t a])"
  "fresh_args es \<Longrightarrow> last_called es \<noteq> None \<Longrightarrow> fresh_args (es @ [Ran t (last_called es)])"
  by (auto simp: fresh_args_def nth_append less_Suc_eq)

lemma spaced_snoc:
  "sorted_wrt (spaced b d) es \<Longrightarrow> sorted_wrt (spaced b d) (es @ [Called t a])"
  "sorted_wrt (spaced b d) es \<Longrightarrow> latest_runs r es \<Longrightarrow> latest_calls c es \<Longrightarrow> (if b then c else r) + d \<le> t \<Longrightarrow>
    sorted_wrt (spaced b d) (es @ [Ran t a'])"
proof -
  have "spaced b d e (Called t a)" for e by (cases b; cases e) simp_all
  then show "sorted_wrt (spaced b d) es \<Longrightarrow> sorted_wrt (spaced b d) (es @ [Called t a])" by (simp add: sorted_wrt_append)
  assume es: "sorted_wrt (spaced b d) es" "latest_runs r es" "latest_calls c es" "(if b then c else r) + d \<le> t"
  have "spaced b d e (Ran t a')" if "e \<in> set es" for e
  proof (cases e)
    case (Called t1 a1)
    then have "t1 \<le> c" using that es(3) unfolding latest_calls_def by blast
    then show ?thesis using Called es(4) by (cases b) simp_all
  next
    case (Ran t1 a1)
    then have "t1 \<le> r" using that es(2) unfolding latest_runs_def by blast
    then show ?thesis using Ran es(4) by (cases b) simp_all
  qed
  then show "sorted_wrt (spaced b d) (es @ [Ran t a'])" using es(1) by (simp add: sorted_wrt_append)
qed

lemma latest_snoc:
  "latest_runs r es \<Longrightarrow> r \<le> r' \<Longrightarrow> latest_runs r' (es @ [Called t a])" "latest_runs r es \<Longrightarrow> r \<le> t \<Longrightarrow> latest_runs t (es @ [Ran t a'])"
  "latest_calls c es \<Longrightarrow> c \<le> t \<Longrightarrow> latest_calls t (es @ [Called t a])" "latest_calls c es \<Longrightarrow> latest_calls c (es @ [Ran t a'])"
  by (fastforce simp: latest_runs_def latest_calls_def)+

lemma clear_timer_pending:
  assumes "throttle_ok d b now s"
  shows "th_pending (clearTimeout (th_timer s) s) = []"
  using assms by (fastforce simp: throttle_ok_def clearTimeout_def filter_empty_conv)

text \<open>One run of the function, when no timer is left.\<close>

lemma throttle_exec_ok:
  assumes "throttle_ok d b t (s\<lparr>th_pending := []\<rparr>)" "t \<le> now" "th_args s \<noteq> None"
    and "(if b then th_lastCall s else th_lastExec s) + d \<le> now"
  shows "throttle_ok d b now (throttle_exec now (s\<lparr>th_pending := []\<rparr>))"
proof -
  have "sorted_wrt (spaced b d) (th_log s)" "latest_runs (th_lastExec s) (th_log s)" "latest_calls (th_lastCall s) (th_log s)"
      "fresh_args (th_log s)" "th_args s = last_called (th_log s)" "th_lastExec s \<le> now" "th_lastCall s \<le> now"
    using assms(1,2) by (simp_all add: throttle_ok_def)
  then show ?thesis
    using assms spaced_snoc(2) [of b d "th_log s" "th_lastExec s" "th_lastCall s" now] fresh_args_snoc(2) [of "th_log s" now]
    by (simp add: throttle_ok_def throttle_exec_def latest_snoc)
qed


lemma throttle_call_ok:
  assumes ok: "throttle_ok d b t s" and "t \<le> now"
  shows "throttle_ok d b now (throttle_call now a s)"
proof -
  let ?s = "s\<lparr>th_args := Some a, th_log := th_log s @ [Called now a], th_pending := []\<rparr>"
  have clear: "(clearTimeout (th_timer s) (s\<lparr>th_args := Some a, th_log := th_log s @ [Called now a]\<rparr>)) = ?s"
    using clear_timer_pending [OF ok] by (simp add: clearTimeout_def)
  have f: "th_delay s = d" "th_debounce s = b" "latest_runs (th_lastExec s) (th_log s)" "latest_calls (th_lastCall s) (th_log s)"
      "sorted_wrt (spaced b d) (th_log s)" "fresh_args (th_log s)" "th_lastExec s \<le> now" "th_lastCall s \<le> now"
      "\<forall>i. th_timer s = Some i \<longrightarrow> i < th_next s"
    using assms by (simp_all add: throttle_ok_def)
  have base: "throttle_ok d b now (?s\<lparr>th_lastCall := now\<rparr>)"
    using f by (auto simp: throttle_ok_def spaced_snoc(1) fresh_args_snoc(1) latest_snoc(1) latest_snoc(3))
  show ?thesis
  proof (cases "\<not> b \<and> 0 \<le> now - th_lastExec s - d")
    case True
    have "throttle_ok d b now (throttle_exec now ((?s\<lparr>th_lastCall := now\<rparr>)\<lparr>th_pending := []\<rparr>))"
      by (rule throttle_exec_ok [where t = now]) (use base True in \<open>simp_all add: throttle_ok_def\<close>)
    then show ?thesis using True f(1,2) clear by (simp add: throttle_call_def Let_def throttle_exec_def throttle_ok_def)
  next
    case False
    then show ?thesis using base f(1,2,7) clear by (auto simp: throttle_call_def Let_def setTimeout_def throttle_ok_def)
  qed
qed

lemma throttle_run_ok:
  "throttle_run delay b now s \<Longrightarrow> throttle_ok (case delay of None \<Rightarrow> 0 | Some d \<Rightarrow> d) b now s"
proof (induction rule: throttle_run.induct)
  case (start now)
  then show ?case by (simp add: throttle_ok_def newThrottle_def fresh_args_def latest_runs_def latest_calls_def)
next
  case (called t s now args)
  show ?case by (rule throttle_call_ok [OF called.IH called.hyps(2)])
next
  case (fired t s now i due)
  let ?d = "case delay of None \<Rightarrow> 0 | Some d \<Rightarrow> d"
  have p: "th_timer s = Some i" "(if b then th_lastCall s else th_lastExec s) + ?d \<le> due" "th_args s \<noteq> None"
    using fired.IH fired.hyps(3) by (auto simp: throttle_ok_def)
  have "clearTimeout (Some i) s = s\<lparr>th_pending := []\<rparr>"
    using clear_timer_pending [OF fired.IH] p(1) by (simp add: clearTimeout_def)
  moreover have "throttle_ok ?d b t (s\<lparr>th_pending := []\<rparr>)" using fired.IH by (simp add: throttle_ok_def)
  then have "throttle_ok ?d b now (throttle_exec now (s\<lparr>th_pending := []\<rparr>))"
    by (rule throttle_exec_ok) (use fired.hyps p in auto)
  ultimately show ?case by (simp add: throttle_fire_def)
next
  case (cleared t s now)
  then show ?case using clear_timer_pending [OF cleared.IH]
    by (auto simp: throttle_clear_def throttle_ok_def clearTimeout_def)
qed

section \<open>Properties\<close>

text \<open>
  C27. However a throttled function is called, cleared and run by its timers: with a fixed rate two runs are
  at least the delay apart, with debounce no run comes within the delay after a call, each run
  has the arguments of the latest call, and a call is either run at once or left to a timer
  that is due within the delay and runs it.
\<close>

theorem throttle_keeps_rate:
  assumes "throttle_run (Some d) b now s" "now \<le> t"
  shows "sorted_wrt (spaced b d) (th_log s) \<and> fresh_args (th_log s) \<and>
    (let s' = throttle_call t a s in
      last (th_log s') = Ran t (Some a) \<and> th_pending s' = [] \<or>
      (\<exists>i due. th_pending s' = [(i, due)] \<and> due \<le> t + max d 0 \<and> (\<forall>t'. last (th_log (throttle_fire t' i s')) = Ran t' (Some a))))"
proof -
  have ok: "throttle_ok d b now s" using throttle_run_ok [OF assms(1)] by simp
  let ?s = "s\<lparr>th_args := Some a, th_log := th_log s @ [Called t a]\<rparr>"
  have clear: "th_pending (clearTimeout (th_timer s) ?s) = []" "th_log (clearTimeout (th_timer s) ?s) = th_log s @ [Called t a]"
      "th_args (clearTimeout (th_timer s) ?s) = Some a"
    using clear_timer_pending [OF ok] by (simp_all add: clearTimeout_def)
  have f: "th_delay s = d" "th_debounce s = b" "th_lastExec s \<le> t" using ok assms(2) by (simp_all add: throttle_ok_def)
  have "let s' = throttle_call t a s in
      last (th_log s') = Ran t (Some a) \<and> th_pending s' = [] \<or>
      (\<exists>i due. th_pending s' = [(i, due)] \<and> due \<le> t + max d 0 \<and> (\<forall>t'. last (th_log (throttle_fire t' i s')) = Ran t' (Some a)))"
    using clear f by (cases b) (auto simp: throttle_call_def Let_def throttle_exec_def setTimeout_def throttle_fire_def clearTimeout_def)
  then show ?thesis using ok by (simp add: throttle_ok_def)
qed

lemma throttle_keeps_rate_witness:
  "\<exists>s. throttle_run (Some 17) False 1017 s \<and> th_log s = [Called 1000 ''x'', Ran 1000 (Some ''x''), Called 1005 ''a'', Called 1010 ''b'', Ran 1017 (Some ''b'')] \<and>
    sorted_wrt (spaced False 17) (th_log s) \<and> last (th_log (throttle_call 1100 ''c'' s)) = Ran 1100 (Some ''c'')"
proof -
  let ?s = "throttle_call 1010 ''b'' (throttle_call 1005 ''a'' (throttle_call 1000 ''x'' (newThrottle (Some 17) False)))"
  note simps = throttle_call_def newThrottle_def throttle_exec_def setTimeout_def clearTimeout_def Let_def
  have "throttle_run (Some 17) False 1000 (newThrottle (Some 17) False)" by (rule throttle_run.start) simp
  then have r: "throttle_run (Some 17) False 1010 ?s"
    by (intro throttle_run.called [where t = 1005] throttle_run.called [where t = 1000]) simp_all
  have "throttle_run (Some 17) False 1017 (throttle_fire 1017 2 ?s)"
    by (rule throttle_run.fired [OF r, where due = 1017]) (simp_all add: simps)
  from this throttle_keeps_rate [OF this, of 1100 "''c''"] show ?thesis
    by (intro exI [of _ "throttle_fire 1017 2 ?s"]) (simp add: simps throttle_fire_def)
qed

end
