(* ===== verification/Zr_Util.thy ===== *)
theory Zr_Util
  imports Js_Strings "HOL-Library.AList"
begin

text \<open>
  Options as values, \<open>zrender/core/util\<close> (module 4): copying and merging, by which the options of a user, a
  theme and the defaults of a component become one. The members of an object are listed in the
  order they were set. Values are trees: an object that is reached twice is two values, so
  what a copy is about, that it shares nothing with its source, does not show here. Functions,
  elements of the page, dates and the like are \<open>Host\<close> values without members to walk.
\<close>

section \<open>Values\<close>

datatype host = Function | Builtin | Dom

datatype jsval = Undefined | Null | Bool bool | Number int | Text string
  | Arr "jsval list" | Obj "(string \<times> jsval) list" | Host host nat

fun isObject :: "jsval \<Rightarrow> bool" where
  "isObject (Arr _) = True"
| "isObject (Obj _) = True"
| "isObject (Host _ _) = True"
| "isObject _ = False"

definition is_nil :: "jsval \<Rightarrow> bool" where
  "is_nil v \<longleftrightarrow> v = Undefined \<or> v = Null"

type_synonym members = "(string \<times> jsval) list"

text \<open>
  Writing a member. The name \<open>__proto__\<close> sets the prototype instead, unless the object has a member of
  that name already, as an object read from a text may.
\<close>

definition put :: "string \<Rightarrow> jsval \<Rightarrow> members \<Rightarrow> members" where
  "put k v ms = (if k = ''__proto__'' \<and> map_of ms k = None then ms else AList.update k v ms)"

section \<open>Copying and merging\<close>

fun clone :: "jsval \<Rightarrow> jsval" where
  "clone (Arr xs) = Arr (map clone xs)"
| "clone (Obj ms) = Obj (map (\<lambda>(k, v). (k, clone v)) (filter (\<lambda>(k, v). k \<noteq> ''__proto__'') ms))"
| "clone v = v"

text \<open>The objects that are merged member by member: neither arrays nor host values.\<close>

fun plain :: "jsval \<Rightarrow> members option" where
  "plain (Obj ms) = Some ms"
| "plain _ = None"

lemma plain_Some [simp]: "plain v = Some ms \<longleftrightarrow> v = Obj ms" "Some ms = plain v \<longleftrightarrow> v = Obj ms"
  by (cases v; auto)+

text \<open>
  The loop over the members of the source. Two plain objects are merged in place; otherwise the value is
  copied if it may overwrite or the name is new, and an inherited name is never new. What a
  source does to \<open>Object.prototype\<close> under the name \<open>__proto__\<close> is outside the target.
\<close>

function merge_members :: "bool \<Rightarrow> members \<Rightarrow> members \<Rightarrow> members" where
  "merge_members overwrite target [] = target"
| "merge_members overwrite target ((k, sourceProp) # rest) =
     merge_members overwrite
       (case (plain sourceProp, Option.bind (map_of target k) plain) of
          (Some b, Some a) \<Rightarrow> put k (Obj (merge_members overwrite a b)) target
        | _ \<Rightarrow> if overwrite \<or> \<not> has_key (map_of target) k then put k (clone sourceProp) target else target)
       rest"
  by pat_completeness auto
termination
  by (relation "measure (\<lambda>(overwrite, target, source). size_list (size_prod (\<lambda>_. 0) size) source)") simp_all

text \<open>Arrays are merged by position.\<close>

fun merge_elems :: "bool \<Rightarrow> jsval list \<Rightarrow> jsval list \<Rightarrow> jsval list" where
  "merge_elems overwrite xs [] = xs"
| "merge_elems overwrite [] ys = map clone ys"
| "merge_elems overwrite (x # xs) (y # ys) =
     (case (plain x, plain y) of
        (Some a, Some b) \<Rightarrow> Obj (merge_members overwrite a b)
      | _ \<Rightarrow> if overwrite then clone y else x) # merge_elems overwrite xs ys"

text \<open>The cases that need members of an array or of a host value by name are not modelled, \<open>None\<close>.\<close>

definition merge :: "bool \<Rightarrow> jsval \<Rightarrow> jsval \<Rightarrow> jsval option" where
  "merge overwrite target source =
     (if \<not> isObject source \<or> \<not> isObject target then Some (if overwrite then clone source else target)
      else case (target, source) of
        (Obj a, Obj b) \<Rightarrow> Some (Obj (merge_members overwrite a b))
      | (Obj a, Arr ys) \<Rightarrow> Some (Obj (merge_members overwrite a (map (\<lambda>(i, y). (dec i, y)) (enumerate 0 ys))))
      | (Arr xs, Arr ys) \<Rightarrow> Some (Arr (merge_elems overwrite xs ys))
      | _ \<Rightarrow> None)"

fun mergeRest :: "bool \<Rightarrow> jsval \<Rightarrow> jsval list \<Rightarrow> jsval option" where
  "mergeRest overwrite result [] = Some result"
| "mergeRest overwrite result (s # ss) = Option.bind (merge overwrite result s) (\<lambda>r. mergeRest overwrite r ss)"

definition mergeAll :: "jsval list \<Rightarrow> bool \<Rightarrow> jsval option" where
  "mergeAll targetAndSources overwrite =
     (case targetAndSources of [] \<Rightarrow> Some Undefined | t # ss \<Rightarrow> mergeRest overwrite t ss)"

definition util_extend :: "members \<Rightarrow> members \<Rightarrow> members" where
  "util_extend target source = foldl (\<lambda>t (k, v). put k v t) target source"

definition defaults :: "bool \<Rightarrow> members \<Rightarrow> members \<Rightarrow> members" where
  "defaults overlay target source = foldl (\<lambda>t (k, v).
     if (if overlay then \<not> is_nil v
         else (case map_of t k of Some x \<Rightarrow> is_nil x | None \<Rightarrow> k \<notin> set object_members)) then put k v t else t) target source"

definition retrieve :: "jsval list \<Rightarrow> jsval" where
  "retrieve values = (case List.find (\<lambda>v. \<not> is_nil v) values of None \<Rightarrow> Undefined | Some v \<Rightarrow> v)"

section \<open>What a merge contains\<close>

lemma map_of_put [simp]:
  "map_of (put k v ms) k' = (if k' = k \<and> (k \<noteq> ''__proto__'' \<or> map_of ms k \<noteq> None) then Some v else map_of ms k')"
  by (auto simp: put_def update_conv')

lemma update_same: "map_of ms k = Some v \<Longrightarrow> AList.update k v ms = ms"
  by (induction ms) auto

definition merge_step :: "bool \<Rightarrow> members \<Rightarrow> string \<times> jsval \<Rightarrow> members" where
  "merge_step overwrite target = (\<lambda>(k, sourceProp).
     (case (plain sourceProp, Option.bind (map_of target k) plain) of
        (Some b, Some a) \<Rightarrow> put k (Obj (merge_members overwrite a b)) target
      | _ \<Rightarrow> if overwrite \<or> \<not> has_key (map_of target) k then put k (clone sourceProp) target else target))"

lemma merge_members_step: "merge_members overwrite target (m # rest) = merge_members overwrite (merge_step overwrite target m) rest"
  by (cases m) (simp add: merge_step_def)

text \<open>The member of a merged object, from the members of both.\<close>

definition merged :: "bool \<Rightarrow> string \<Rightarrow> jsval option \<Rightarrow> jsval option \<Rightarrow> jsval option" where
  "merged overwrite k t s = (case s of
     None \<Rightarrow> t
   | Some v \<Rightarrow>
       (case (plain v, Option.bind t plain) of
          (Some b, Some a) \<Rightarrow> Some (Obj (merge_members overwrite a b))
        | _ \<Rightarrow> (case t of
            None \<Rightarrow> if k = ''__proto__'' \<or> \<not> overwrite \<and> k \<in> set object_members then None else Some (clone v)
          | Some x \<Rightarrow> Some (if overwrite then clone v else x))))"

lemma merged_None [simp]: "merged overwrite k t None = t"
  by (simp add: merged_def)

lemma map_of_merge_step:
  "map_of (merge_step overwrite target (k, v)) k' = (if k' = k then merged overwrite k (map_of target k) (Some v) else map_of target k')"
proof (cases "plain v")
  case None
  then show ?thesis by (cases "map_of target k") (auto simp: merge_step_def merged_def has_key_def object_members_def)
next
  case (Some b)
  then show ?thesis
    by (cases "map_of target k"; cases "Option.bind (map_of target k) plain")
      (auto simp: merge_step_def merged_def has_key_def object_members_def)
qed

lemma map_of_merge_members:
  "distinct (map fst source) \<Longrightarrow>
    map_of (merge_members overwrite target source) k = merged overwrite k (map_of target k) (map_of source k)"
proof (induction source arbitrary: target)
  case Nil
  then show ?case by simp
next
  case (Cons m source)
  obtain k0 v where m: "m = (k0, v)" by fastforce
  have ih: "map_of (merge_members overwrite target (m # source)) k =
      merged overwrite k (map_of (merge_step overwrite target (k0, v)) k) (map_of source k)"
    using Cons by (simp add: merge_members_step m del: merge_members.simps)
  show ?case
  proof (cases "k = k0")
    case True
    then have "map_of source k = None" using Cons.prems m by (simp add: map_of_eq_None_iff)
    then show ?thesis unfolding ih using True by (simp add: map_of_merge_step m)
  next
    case False
    then show ?thesis unfolding ih by (simp add: map_of_merge_step m)
  qed
qed

text \<open>Objects whose members have different names, all the way down.\<close>

fun wf_val :: "jsval \<Rightarrow> bool" where
  "wf_val (Arr xs) = list_all wf_val xs"
| "wf_val (Obj ms) = (distinct (map fst ms) \<and> list_all (\<lambda>(k, v). wf_val v) ms)"
| "wf_val _ = True"

fun at_path :: "string list \<Rightarrow> jsval \<Rightarrow> jsval option" where
  "at_path [] v = Some v"
| "at_path (k # ks) v = Option.bind (Option.bind (plain v) (\<lambda>ms. map_of ms k)) (at_path ks)"

definition own_names :: "string list \<Rightarrow> bool" where
  "own_names ks \<longleftrightarrow> set ks \<inter> set object_members = {}"

lemma map_of_clone: "map_of (map (\<lambda>(k, v). (k, clone v)) (filter (\<lambda>(k, v). k \<noteq> ''__proto__'') ms)) k =
    (if k = ''__proto__'' then None else map_option clone (map_of ms k))"
  by (induction ms) auto

lemma at_path_clone: "own_names p \<Longrightarrow> at_path p (clone v) = map_option clone (at_path p v)"
proof (induction p arbitrary: v)
  case (Cons k p)
  have "k \<noteq> ''__proto__''" using Cons.prems by (auto simp: own_names_def object_members_def)
  moreover have "own_names p" using Cons.prems by (simp add: own_names_def)
  ultimately show ?case
    using Cons.IH by (cases v; cases "Option.bind (plain v) (\<lambda>ms. map_of ms k)") (auto simp: map_of_clone)
qed simp

lemma wf_member: "wf_val (Obj ms) \<Longrightarrow> map_of ms k = Some v \<Longrightarrow> wf_val v"
  by (auto simp: list_all_iff dest: map_of_SomeD)

lemma at_path_merge_over:
  assumes "wf_val (Obj s)" "own_names p" "at_path p (Obj s) = Some v" "plain v = None" 
  shows "at_path p (Obj (merge_members True t s)) = Some (clone v)"
  using assms
proof (induction p arbitrary: s t)
  case (Cons k p)
  then obtain x where x: "map_of s k = Some x" "at_path p x = Some v" by (auto simp: bind_eq_Some_conv)
  have k: "k \<noteq> ''__proto__''" "own_names p" using Cons.prems(2) by (auto simp: own_names_def object_members_def)
  have m: "map_of (merge_members True t s) k = merged True k (map_of t k) (Some x)"
    using map_of_merge_members [of s True t k] Cons.prems(1) x(1) by simp
  show ?case
  proof (cases "\<exists>a b. x = Obj b \<and> map_of t k = Some (Obj a)")
    case True
    then obtain a b where ab: "x = Obj b" "map_of t k = Some (Obj a)" by blast
    have "wf_val (Obj b)" using wf_member [OF Cons.prems(1) x(1)] ab(1) by simp
    then show ?thesis using Cons.IH [of b a] k(2) x(2) ab Cons.prems(4) m by (simp add: merged_def)
  next
    case False
    then have "map_of (merge_members True t s) k = Some (clone x)"
      using m k(1) by (cases "map_of t k"; cases "plain x") (auto simp: merged_def split: option.split)
    then show ?thesis using at_path_clone [OF k(2), of x] x(2) by simp
  qed
qed auto

lemma at_path_merge_keep:
  assumes "wf_val (Obj s)" "at_path p (Obj t) = Some v" "plain v = None"
  shows "at_path p (Obj (merge_members False t s)) = Some v"
  using assms
proof (induction p arbitrary: s t)
  case (Cons k p)
  then obtain x where x: "map_of t k = Some x" "at_path p x = Some v" by (auto simp: bind_eq_Some_conv)
  have m: "map_of (merge_members False t s) k = merged False k (Some x) (map_of s k)"
    using map_of_merge_members [of s False t k] Cons.prems(1) x(1) by simp
  show ?case
  proof (cases "\<exists>a b. x = Obj a \<and> map_of s k = Some (Obj b)")
    case True
    then obtain a b where ab: "x = Obj a" "map_of s k = Some (Obj b)" by blast
    have "wf_val (Obj b)" using wf_member [OF Cons.prems(1) ab(2)] .
    then show ?thesis using Cons.IH [of b a] x(2) ab Cons.prems(3) m by (simp add: merged_def)
  next
    case False
    then have "map_of (merge_members False t s) k = Some x"
      using m by (cases "map_of s k"; cases "plain x") (auto simp: merged_def split: option.split)
    then show ?thesis using x(2) by simp
  qed
qed auto


text \<open>A merge that has nothing to change.\<close>

lemma merge_step_same:
  assumes "merged overwrite k (map_of r k) (Some v) = map_of r k"
  shows "merge_step overwrite r (k, v) = r"
proof (cases "plain v")
  case None
  then show ?thesis
    using assms by (cases "map_of r k") (auto simp: merge_step_def merged_def update_same put_def has_key_def split: if_splits)
next
  case (Some b)
  then show ?thesis
    using assms by (cases "map_of r k"; cases "Option.bind (map_of r k) plain")
      (auto simp: merge_step_def merged_def update_same put_def has_key_def split: if_splits)
qed

lemma merge_absorbed: "(\<And>k v. (k, v) \<in> set s \<Longrightarrow> merged overwrite k (map_of r k) (Some v) = map_of r k) \<Longrightarrow> merge_members overwrite r s = r"
proof (induction s)
  case (Cons m s)
  obtain k v where m: "m = (k, v)" by fastforce
  then have "merge_step overwrite r m = r" using Cons.prems [of k v] merge_step_same by simp
  then show ?case using Cons merge_members_step [of overwrite r m s] by simp
qed simp

lemma wf_in: "wf_val (Obj s) \<Longrightarrow> (k, v) \<in> set s \<Longrightarrow> map_of s k = Some v \<and> wf_val v"
  by (auto simp: list_all_iff)

abbreviation cloned :: "members \<Rightarrow> members" where
  "cloned ms \<equiv> map (\<lambda>(k, v). (k, clone v)) (filter (\<lambda>(k, v). k \<noteq> ''__proto__'') ms)"

lemma plain_clone: "plain (clone v) = map_option cloned (plain v)"
  by (cases v) simp_all

lemma merge_cloned: "wf_val v \<Longrightarrow> plain v = Some s \<Longrightarrow> merge_members overwrite (cloned s) s = cloned s"
proof (induction v arbitrary: s)
  case (Obj ms)
  then have s: "s = ms" by simp
  show ?case
    unfolding s
  proof (rule merge_absorbed)
    fix k v assume kv: "(k, v) \<in> set ms"
    note w = wf_in [OF Obj.prems(1) kv]
    have "merged overwrite k (Some (clone v)) (Some v) = Some (clone v)"
    proof (cases "plain v")
      case (Some b)
      then have "merge_members overwrite (cloned b) b = cloned b" using Obj.IH [OF kv, of v b] w by simp
      then show ?thesis using Some by (simp add: merged_def plain_clone)
    qed (simp add: merged_def)
    moreover have "merged overwrite ''__proto__'' None (Some v) = None" by (simp add: merged_def split: option.split)
    ultimately show "merged overwrite k (map_of (cloned ms) k) (Some v) = map_of (cloned ms) k"
      using w by (auto simp: map_of_clone)
  qed
qed simp_all

lemma merge_again: "wf_val v \<Longrightarrow> plain v = Some s \<Longrightarrow> merge_members overwrite (merge_members overwrite t s) s = merge_members overwrite t s"
proof (induction v arbitrary: s t)
  case (Obj ms)
  then have s: "s = ms" by simp
  let ?r = "merge_members overwrite t ms"
  show ?case
    unfolding s
  proof (rule merge_absorbed)
    fix k v assume kv: "(k, v) \<in> set ms"
    note w = wf_in [OF Obj.prems(1) kv]
    have r: "map_of ?r k = merged overwrite k (map_of t k) (Some v)"
      using map_of_merge_members [of ms overwrite t k] Obj.prems(1) w by simp
    show "merged overwrite k (map_of ?r k) (Some v) = map_of ?r k"
    proof (cases "plain v")
      case None
      then show ?thesis unfolding r by (cases "map_of t k") (auto simp: merged_def)
    next
      case (Some b)
      have c: "merge_members overwrite (cloned b) b = cloned b" by (rule merge_cloned) (use w Some in simp_all)
      have a: "merge_members overwrite (merge_members overwrite a b) b = merge_members overwrite a b" for a
        by (rule Obj.IH [OF kv]) (use w Some in simp_all)
      show ?thesis
        unfolding r using Some a c
        by (cases "map_of t k"; cases "Option.bind (map_of t k) plain") (auto simp: merged_def plain_clone)
    qed
  qed
qed simp_all


section \<open>Properties\<close>

text \<open>
  C28. Merging options over others gives every setting of the source, merging them under others
  keeps every setting of the target, and merging the same options again changes nothing.
\<close>

theorem merge_settles:
  assumes "wf_val (Obj s)"
  shows "\<exists>over under. merge True (Obj t) (Obj s) = Some over \<and> merge False (Obj t) (Obj s) = Some under \<and>
    (\<forall>p v. own_names p \<longrightarrow> at_path p (Obj s) = Some v \<longrightarrow> plain v = None \<longrightarrow> at_path p over = Some (clone v)) \<and>
    (\<forall>p v. at_path p (Obj t) = Some v \<longrightarrow> plain v = None \<longrightarrow> at_path p under = Some v) \<and>
    merge True over (Obj s) = Some over \<and> merge False under (Obj s) = Some under"
  using at_path_merge_over [OF assms] at_path_merge_keep [OF assms] merge_again [OF assms]
  by (simp add: merge_def)

lemma merge_settles_witness:
  "\<exists>over under. merge True (Obj [(''a'', Obj [(''x'', Number 1), (''y'', Number 2)]), (''c'', Null)]) (Obj [(''a'', Obj [(''x'', Text ''u'')]), (''b'', Bool True)]) = Some over \<and>
    merge False (Obj [(''a'', Obj [(''x'', Number 1), (''y'', Number 2)]), (''c'', Null)]) (Obj [(''a'', Obj [(''x'', Text ''u'')]), (''b'', Bool True)]) = Some under \<and>
    at_path [''a'', ''x''] over = Some (Text ''u'') \<and> at_path [''a'', ''x''] under = Some (Number 1)"
proof -
  let ?t = "[(''a'', Obj [(''x'', Number 1), (''y'', Number 2)]), (''c'', Null)]" and ?s = "[(''a'', Obj [(''x'', Text ''u'')]), (''b'', Bool True)]"
  have w: "wf_val (Obj ?s)" by simp
  have p: "own_names [''a'', ''x'']" by (simp add: own_names_def object_members_def)
  obtain over under where m: "merge True (Obj ?t) (Obj ?s) = Some over" "merge False (Obj ?t) (Obj ?s) = Some under"
    and o: "\<forall>p v. own_names p \<longrightarrow> at_path p (Obj ?s) = Some v \<longrightarrow> plain v = None \<longrightarrow> at_path p over = Some (clone v)"
    and u: "\<forall>p v. at_path p (Obj ?t) = Some v \<longrightarrow> plain v = None \<longrightarrow> at_path p under = Some v"
    using merge_settles [OF w, of ?t] by blast
  have "at_path [''a'', ''x''] over = Some (clone (Text ''u''))" by (rule o [rule_format, OF p]) simp_all
  moreover have "at_path [''a'', ''x''] under = Some (Number 1)" by (rule u [rule_format]) simp_all
  ultimately show ?thesis using m by auto
qed

text \<open>An option named like an inherited member is dropped when it may not overwrite.\<close>

lemma inherited_option_dropped: "merge False (Obj []) (Obj [(''valueOf'', Number 1)]) = Some (Obj [])"
  by (simp add: merge_def has_key_def object_members_def)

text \<open>Reading an object that was extended by another.\<close>

lemma map_of_extend:
  "distinct (map fst source) \<Longrightarrow> k \<noteq> ''__proto__'' \<Longrightarrow>
    map_of (util_extend target source) k = (case map_of source k of None \<Rightarrow> map_of target k | Some v \<Rightarrow> Some v)"
proof (induction source arbitrary: target)
  case (Cons m source)
  obtain k0 v where m: "m = (k0, v)" by fastforce
  show ?case
  proof (cases "k = k0")
    case True
    then have "map_of source k = None" using Cons.prems(1) m by (simp add: map_of_eq_None_iff)
    then show ?thesis using Cons True m by (simp add: util_extend_def)
  qed (use Cons m in \<open>simp add: util_extend_def split: option.split\<close>)
qed (simp add: util_extend_def)

end
