(* ===== verification/Zoom_History.thy ===== *)
theory Zoom_History
  imports Zr_Util
begin

text \<open>
  Two small stores that interaction keeps on objects of the chart: the history of zooms, a
  stack of snapshots on the model (module 376), and who holds an interaction, on the renderer
  (module 177). A store is made when it is first asked for, so \<open>None\<close> is a store not made yet. Snapshots
  are plain objects: a name that every object inherits counts as present.
\<close>

section \<open>The history of zooms\<close>

type_synonym 'b snapshot = "(string \<times> 'b) list"

text \<open>The latest snapshot is the last one; the first holds what was there before the first zoom.\<close>

type_synonym 'b history = "'b snapshot list option"

definition giveStore :: "'b history \<Rightarrow> 'b snapshot list" where
  "giveStore h = (case h of None \<Rightarrow> [[]] | Some store \<Rightarrow> store)"

text \<open>
  A zoom that no snapshot knows yet gets its present range into the first snapshot, if the zoom
  exists; what it is then recorded with is the parameter \<open>ranges\<close>.
\<close>

definition record_range :: "(string \<Rightarrow> 'b option) \<Rightarrow> 'b snapshot list \<Rightarrow> string \<Rightarrow> 'b snapshot list" where
  "record_range ranges store dataZoomId =
     (if \<exists>snapshot\<in>set store. has_key (map_of snapshot) dataZoomId then store
      else case ranges dataZoomId of
        None \<Rightarrow> store
      | Some r \<Rightarrow> (case store of [] \<Rightarrow> [] | base # rest \<Rightarrow> AList.update dataZoomId r base # rest))"

definition history_push :: "(string \<Rightarrow> 'b option) \<Rightarrow> 'b snapshot \<Rightarrow> 'b history \<Rightarrow> 'b history" where
  "history_push ranges newSnapshot h =
     Some (foldl (\<lambda>store (dataZoomId, _). record_range ranges store dataZoomId) (giveStore h) newSnapshot @ [newSnapshot])"

text \<open>What a snapshot is read to hold: an entry, or an inherited member.\<close>

datatype 'b found = Entry 'b | Inherited

definition entry_of :: "'b snapshot \<Rightarrow> string \<Rightarrow> 'b found option" where
  "entry_of snapshot k = (case map_of snapshot k of Some b \<Rightarrow> Some (Entry b) | None \<Rightarrow> if k \<in> set object_members then Some Inherited else None)"

fun latest :: "'b snapshot list \<Rightarrow> string \<Rightarrow> 'b found option" where
  "latest [] k = None"
| "latest (s # below) k = (case entry_of s k of Some e \<Rightarrow> Some e | None \<Rightarrow> latest below k)"

text \<open>The loop from the last snapshot down is over the reversed store.\<close>

definition history_pop :: "'b history \<Rightarrow> (string \<times> 'b found) list \<times> 'b history" where
  "history_pop h =
     (let store = giveStore h; head = last store;
          store = (if length store > 1 then butlast store else store);
          snapshot = concat (map (\<lambda>(dataZoomId, _). case latest (rev store) dataZoomId of
            Some e \<Rightarrow> if dataZoomId = ''__proto__'' then [] else [(dataZoomId, e)] | None \<Rightarrow> []) head) in
      (snapshot, Some store))"

definition history_clear :: "'b history \<Rightarrow> 'b history" where
  "history_clear h = None"

definition history_count :: "'b history \<Rightarrow> nat" where
  "history_count h = length (giveStore h)"

section \<open>Who holds an interaction\<close>

text \<open>A resource that is released holds null; both stores are plain objects.\<close>

type_synonym mutex = "(string \<rightharpoonup> string option) option"

definition getStore :: "mutex \<Rightarrow> (string \<rightharpoonup> string option)" where
  "getStore m = (case m of None \<Rightarrow> Map.empty | Some store \<Rightarrow> store)"

definition mutex_take :: "string \<Rightarrow> string \<Rightarrow> mutex \<Rightarrow> mutex" where
  "mutex_take resourceKey userKey m =
     Some (if resourceKey = ''__proto__'' then getStore m else (getStore m)(resourceKey \<mapsto> Some userKey))"

definition mutex_release :: "string \<Rightarrow> string \<Rightarrow> mutex \<Rightarrow> mutex" where
  "mutex_release resourceKey userKey m =
     (let store = getStore m in
      Some (if store resourceKey = Some (Some userKey) then store(resourceKey \<mapsto> None) else store))"

definition isTaken :: "string \<Rightarrow> mutex \<Rightarrow> bool" where
  "isTaken resourceKey m = (case getStore m resourceKey of
     Some (Some u) \<Rightarrow> u \<noteq> '''' | Some None \<Rightarrow> False | None \<Rightarrow> resourceKey \<in> set object_members)"

text \<open>Only who took a resource last can release it; and taking it again takes it over.\<close>

lemma release_by_other:
  "r \<noteq> ''__proto__'' \<Longrightarrow> u \<noteq> u' \<Longrightarrow> isTaken r (mutex_release r u' (mutex_take r u m)) \<longleftrightarrow> u \<noteq> ''''"
  by (simp add: isTaken_def mutex_release_def mutex_take_def getStore_def)

lemma release_by_holder: "r \<noteq> ''__proto__'' \<Longrightarrow> \<not> isTaken r (mutex_release r u (mutex_take r u m))"
  by (simp add: isTaken_def mutex_release_def mutex_take_def getStore_def)

lemma take_over: "r \<noteq> ''__proto__'' \<Longrightarrow> \<not> isTaken r (mutex_release r u' (mutex_take r u' (mutex_take r u m)))"
  by (rule release_by_holder)

section \<open>Undoing a zoom\<close>

definition known :: "'b snapshot list \<Rightarrow> string \<Rightarrow> bool" where
  "known store k \<longleftrightarrow> (\<exists>s\<in>set store. map_of s k \<noteq> None)"

lemma latest_None: "k \<notin> set object_members \<Longrightarrow> latest store k = None \<longleftrightarrow> \<not> known store k"
  by (induction store) (auto simp: known_def entry_of_def split: option.split)

lemma latest_append: "latest (a @ b) k = (case latest a k of Some e \<Rightarrow> Some e | None \<Rightarrow> latest b k)"
  by (induction a) (auto split: option.split)

text \<open>What the store holds after the ranges of some zooms were recorded.\<close>

lemma record_range_latest:
  assumes "store \<noteq> []" "k \<notin> set object_members" "d \<notin> set object_members"
  shows "latest (rev (record_range ranges store d)) k =
      (if k = d \<and> latest (rev store) k = None then map_option Entry (ranges k) else latest (rev store) k)"
    and "record_range ranges store d \<noteq> []" "length (record_range ranges store d) = length store"
    and "tl (record_range ranges store d) = tl store"
proof -
  obtain base rest where s: "store = base # rest" using assms(1) by (cases store) auto
  have kn: "(\<exists>snapshot\<in>set store. has_key (map_of snapshot) d) \<longleftrightarrow> known store d" using assms(3) by (simp add: known_def has_key_def)
  show "latest (rev (record_range ranges store d)) k =
      (if k = d \<and> latest (rev store) k = None then map_option Entry (ranges k) else latest (rev store) k)"
  proof (cases "known store d \<or> ranges d = None")
    case True
    then have "record_range ranges store d = store" using kn by (auto simp: record_range_def split: option.split)
    moreover have "latest (rev store) d = None \<longleftrightarrow> \<not> known (rev store) d" by (rule latest_None [OF assms(3)])
    ultimately show ?thesis using True by (auto simp: known_def)
  next
    case False
    then obtain r where r: "ranges d = Some r" by auto
    have rr: "record_range ranges store d = AList.update d r base # rest"
      using False kn r by (simp add: record_range_def s)
    have "latest (rev rest) d = None" "map_of base d = None"
      using False latest_None [OF assms(3), of "rev rest"] by (auto simp: known_def s)
    then show ?thesis
      unfolding rr using r assms(2) by (auto simp: s latest_append entry_of_def update_conv' split: option.split)
  qed
  show "record_range ranges store d \<noteq> []" "length (record_range ranges store d) = length store"
    "tl (record_range ranges store d) = tl store"
    by (auto simp: record_range_def s split: option.split)
qed

definition plain_names :: "'b snapshot \<Rightarrow> bool" where
  "plain_names s \<longleftrightarrow> fst ` set s \<inter> set object_members = {}"

abbreviation record_all :: "(string \<Rightarrow> 'b option) \<Rightarrow> 'b snapshot list \<Rightarrow> 'b snapshot \<Rightarrow> 'b snapshot list" where
  "record_all ranges \<equiv> foldl (\<lambda>store (dataZoomId, _). record_range ranges store dataZoomId)"

lemma record_all_latest:
  assumes "store \<noteq> []" "plain_names s"
  shows "k \<notin> set object_members \<Longrightarrow> latest (rev (record_all ranges store s)) k =
      (if k \<in> fst ` set s \<and> latest (rev store) k = None then map_option Entry (ranges k) else latest (rev store) k)"
    and "record_all ranges store s \<noteq> []" "length (record_all ranges store s) = length store" "tl (record_all ranges store s) = tl store"
proof -
  have "(k \<notin> set object_members \<longrightarrow> latest (rev (record_all ranges store s)) k =
      (if k \<in> fst ` set s \<and> latest (rev store) k = None then map_option Entry (ranges k) else latest (rev store) k)) \<and>
    record_all ranges store s \<noteq> [] \<and> length (record_all ranges store s) = length store \<and> tl (record_all ranges store s) = tl store"
    using assms
  proof (induction s arbitrary: store)
    case (Cons e s)
    obtain d b where e: "e = (d, b)" by fastforce
    have d: "d \<notin> set object_members" "plain_names s" using Cons.prems(2) by (auto simp: plain_names_def e)
    let ?store = "record_range ranges store d"
    note r = record_range_latest [OF Cons.prems(1) _ d(1), where ranges = ranges]
    have e: "record_all ranges store (e # s) = record_all ranges ?store s" "fst ` set (e # s) = insert d (fst ` set s)" by (simp_all add: e)
    have ne: "?store \<noteq> []" and len: "length ?store = length store" and tl: "tl ?store = tl store"
      using record_range_latest(2-4) [OF Cons.prems(1) d(1) d(1), where ranges = ranges] .
    note ih = Cons.IH [OF ne d(2)]
    have "latest (rev (record_all ranges ?store s)) k =
        (if k \<in> insert d (fst ` set s) \<and> latest (rev store) k = None then map_option Entry (ranges k) else latest (rev store) k)"
      if k: "k \<notin> set object_members"
      using conjunct1 [OF ih, rule_format, OF k] unfolding r(1) [OF k] by (cases "k = d"; cases "k \<in> fst ` set s") simp_all
    then show ?case unfolding e using conjunct2 [OF ih] len tl by simp
  qed simp
  then show "k \<notin> set object_members \<Longrightarrow> latest (rev (record_all ranges store s)) k =
      (if k \<in> fst ` set s \<and> latest (rev store) k = None then map_option Entry (ranges k) else latest (rev store) k)"
    "record_all ranges store s \<noteq> []" "length (record_all ranges store s) = length store" "tl (record_all ranges store s) = tl store"
    by blast+
qed

lemma map_of_found:
  "distinct (map fst s) \<Longrightarrow> k \<noteq> ''__proto__'' \<Longrightarrow>
    map_of (concat (map (\<lambda>(d, _). case f d of Some e \<Rightarrow> if d = ''__proto__'' then [] else [(d, e)] | None \<Rightarrow> []) s)) k =
    (if k \<in> fst ` set s then f k else None)"
proof (induction s)
  case (Cons e s)
  obtain d b where "e = (d, b)" by fastforce
  then show ?case using Cons by (cases "f d") (auto simp: map_add_def split: option.split)
qed simp

section \<open>Properties\<close>

text \<open>
  C29. Undoing a zoom gives, for the zooms it set, the range each had before it, the range recorded when it
  was first set included, and leaves the history as it was up to those recorded ranges.
\<close>

theorem history_pop_undoes_push:
  assumes "giveStore h \<noteq> []" "plain_names s" "distinct (map fst s)"
  shows "\<exists>snapshot h'. history_pop (history_push ranges s h) = (snapshot, h') \<and>
    history_count h' = history_count h \<and> tl (giveStore h') = tl (giveStore h) \<and>
    (\<forall>k. k \<notin> set object_members \<longrightarrow>
      (let before = (case latest (rev (giveStore h)) k of Some e \<Rightarrow> Some e | None \<Rightarrow> map_option Entry (ranges k)) in
       map_of snapshot k = (if k \<in> fst ` set s then before else None) \<and>
       latest (rev (giveStore h')) k = (if k \<in> fst ` set s then before else latest (rev (giveStore h)) k)))"
proof -
  let ?store = "record_all ranges (giveStore h) s"
  note r = record_all_latest [OF assms(1,2), where ranges = ranges]
  let ?snap = "concat (map (\<lambda>(d, _). case latest (rev ?store) d of Some e \<Rightarrow> if d = ''__proto__'' then [] else [(d, e)] | None \<Rightarrow> []) s)"
  have pop: "history_pop (history_push ranges s h) = (?snap, Some ?store)"
    using r(2) by (simp add: history_pop_def history_push_def giveStore_def Let_def)
  have "map_of ?snap k = (if k \<in> fst ` set s then (case latest (rev (giveStore h)) k of Some e \<Rightarrow> Some e | None \<Rightarrow> map_option Entry (ranges k)) else None)"
    if k: "k \<notin> set object_members" for k
  proof -
    have "k \<noteq> ''__proto__''" using k by (auto simp: object_members_def)
    then show ?thesis using map_of_found [OF assms(3), of k "latest (rev ?store)"] r(1) [OF k] by (auto split: option.split)
  qed
  moreover have "latest (rev ?store) k = (if k \<in> fst ` set s then
      (case latest (rev (giveStore h)) k of Some e \<Rightarrow> Some e | None \<Rightarrow> map_option Entry (ranges k)) else latest (rev (giveStore h)) k)"
    if k: "k \<notin> set object_members" for k
    using r(1) [OF k] by (auto split: option.split)
  ultimately show ?thesis
    using r(3,4) by (intro exI [of _ ?snap] exI [of _ "Some ?store"] conjI [OF pop])
      (simp add: history_count_def giveStore_def Let_def)
qed

lemma history_pop_undoes_push_witness:
  "\<exists>snapshot h'. history_pop (history_push (\<lambda>k. Some (0, 100)) [(''x'', (20, 40))] (history_push (\<lambda>k. Some (0, 100)) [(''y'', (5 :: int, 6 :: int))] None)) = (snapshot, h') \<and>
    map_of snapshot ''x'' = Some (Entry (0, 100)) \<and> history_count h' = 2"
proof -
  let ?h = "history_push (\<lambda>k. Some (0, 100)) [(''y'', (5 :: int, 6 :: int))] None"
  have h: "giveStore ?h = [[(''y'', (0, 100))], [(''y'', (5, 6))]]"
    by (simp add: history_push_def giveStore_def record_range_def has_key_def object_members_def)
  have "plain_names [(''x'', (20 :: int, 40 :: int))]" by (simp add: plain_names_def object_members_def)
  from history_pop_undoes_push [OF _ this, of ?h "\<lambda>k. Some (0, 100)"]
  obtain snapshot h' where p: "history_pop (history_push (\<lambda>k. Some (0, 100)) [(''x'', (20, 40))] ?h) = (snapshot, h')" "history_count h' = history_count ?h"
    and l: "\<forall>k. k \<notin> set object_members \<longrightarrow>
      (let before = (case latest (rev (giveStore ?h)) k of Some e \<Rightarrow> Some e | None \<Rightarrow> map_option Entry (Some (0, 100))) in
       map_of snapshot k = (if k \<in> fst ` set [(''x'', (20 :: int, 40 :: int))] then before else None) \<and>
       latest (rev (giveStore h')) k = (if k \<in> fst ` set [(''x'', (20 :: int, 40 :: int))] then before else latest (rev (giveStore ?h)) k))"
    unfolding h by auto
  have "''x'' \<notin> set object_members" by (simp add: object_members_def)
  from l [rule_format, OF this] have "map_of snapshot ''x'' = Some (Entry (0, 100))"
    unfolding h by (simp add: Let_def entry_of_def object_members_def)
  then show ?thesis using p by (simp add: history_count_def h)
qed

end
