(* ===== verification/Link_List.thy ===== *)
theory Link_List
  imports Data_Graph_Facts "HOL-Library.AList"
begin

text \<open>
  Tables that belong together, \<open>data/helper/linkList\<close> (module 187): the tables of nodes and edges of a graph,
  or the one table of a tree, know each other through the main one, and a copy of one takes its
  place. Tables are shared and written to, so here they are references into a store; of a table only
  what links it is kept, the rest is in the model of tables. \<open>None\<close> is a \<open>TypeError\<close> or a failed assertion.
\<close>

section \<open>State\<close>

record ldata =
  ld_datas :: "(string \<times> nat) list option"
  ld_main :: "nat option"
  ld_type :: "string option"
  ld_struct :: bool

definition unlinked :: ldata where
  "unlinked = \<lparr>ld_datas = None, ld_main = None, ld_type = None, ld_struct = False\<rparr>"

text \<open>The store, the next free reference, and the attributes of the tree or graph that hold tables.\<close>

record lstore =
  ls_data :: "nat \<Rightarrow> ldata"
  ls_next :: nat
  ls_attr :: "string \<rightharpoonup> nat"

text \<open>Whether there is a tree or graph, and its attribute for each type of table.\<close>

record lopt =
  op_struct :: bool
  op_datasAttr :: "string \<rightharpoonup> string"

definition attr_for :: "lopt \<Rightarrow> string \<Rightarrow> string" where
  "attr_for opt t = (case op_datasAttr opt t of None \<Rightarrow> ''undefined'' | Some a \<Rightarrow> a)"

definition upd_data :: "nat \<Rightarrow> (ldata \<Rightarrow> ldata) \<Rightarrow> lstore \<Rightarrow> lstore" where
  "upd_data r f k = k\<lparr>ls_data := (ls_data k)(r := f (ls_data k r))\<rparr>"

section \<open>Linking\<close>

definition linkSingle :: "lopt \<Rightarrow> nat \<Rightarrow> string \<Rightarrow> nat \<Rightarrow> lstore \<Rightarrow> lstore option" where
  "linkSingle opt data dataType mainData k =
     (case ld_datas (ls_data k mainData) of
        None \<Rightarrow> None
      | Some ds \<Rightarrow>
          let k = upd_data mainData (\<lambda>d. d\<lparr>ld_datas := Some (AList.update dataType data ds)\<rparr>) k;
              k = upd_data data (\<lambda>d. d\<lparr>ld_main := Some mainData, ld_type := Some dataType\<rparr>) k in
          Some (if op_struct opt
                then (upd_data data (\<lambda>d. d\<lparr>ld_struct := True\<rparr>) k)\<lparr>ls_attr := (ls_attr k)(attr_for opt dataType \<mapsto> data)\<rparr>
                else k))"

fun linkEach :: "lopt \<Rightarrow> nat \<Rightarrow> (string \<times> nat) list \<Rightarrow> lstore \<Rightarrow> lstore option" where
  "linkEach opt mainData [] k = Some k"
| "linkEach opt mainData ((dataType, data) # ds) k =
     do { k \<leftarrow> linkSingle opt data dataType mainData k; linkEach opt mainData ds k }"

definition linkAll :: "lopt \<Rightarrow> nat \<Rightarrow> (string \<times> nat) list \<Rightarrow> lstore \<Rightarrow> lstore option" where
  "linkAll opt mainData datas k = linkEach opt mainData datas (upd_data mainData (\<lambda>d. d\<lparr>ld_datas := Some []\<rparr>) k)"

definition isMainData :: "nat \<Rightarrow> lstore \<Rightarrow> bool" where
  "isMainData r k \<longleftrightarrow> ld_main (ls_data k r) = Some r"

text \<open>Without the types of tables there is one, the main one, and the attribute for it.\<close>

definition linkList :: "lopt \<Rightarrow> nat \<Rightarrow> (string \<times> nat) list option \<Rightarrow> lstore \<Rightarrow> (lopt \<times> lstore) option" where
  "linkList opt mainData datas k =
     (let opt = (if datas = None then opt\<lparr>op_datasAttr := [''main'' \<mapsto> ''data'']\<rparr> else opt);
          datas = (case datas of None \<Rightarrow> [(''main'', mainData)] | Some ds \<Rightarrow> ds) in
      do { k \<leftarrow> linkAll opt mainData datas k;
           if Option.bind (ld_type (ls_data k mainData)) (map_of datas) = Some mainData then Some (opt, k) else None })"

section \<open>Copies of linked tables\<close>

text \<open>The copy of a main table becomes the main one; another copy takes the place of its original.\<close>

definition transferInjection :: "lopt \<Rightarrow> nat \<Rightarrow> nat \<Rightarrow> lstore \<Rightarrow> lstore option" where
  "transferInjection opt this res k =
     (let d = ls_data k this; t = (case ld_type d of None \<Rightarrow> ''undefined'' | Some t \<Rightarrow> t) in
      if isMainData this k then
        linkAll opt res (AList.update t res (case ld_datas d of None \<Rightarrow> [] | Some ds \<Rightarrow> ds)) k
      else case ld_main d of None \<Rightarrow> None | Some m \<Rightarrow> linkSingle opt res t m k)"

text \<open>A method that makes a new table, which has no links of its own, and is wrapped to hand them over.\<close>

definition transfer_method :: "lopt \<Rightarrow> nat \<Rightarrow> lstore \<Rightarrow> (nat \<times> lstore) option" where
  "transfer_method opt this k =
     (let res = ls_next k in
      do { k \<leftarrow> transferInjection opt this res (k\<lparr>ls_data := (ls_data k)(res := unlinked), ls_next := res + 1\<rparr>);
           Some (res, k) })"

fun cloneOthers :: "lopt \<Rightarrow> nat \<Rightarrow> (string \<times> nat) list \<Rightarrow> lstore \<Rightarrow> lstore option" where
  "cloneOthers opt res [] k = Some k"
| "cloneOthers opt res ((dataType, data) # ds) k =
     (if data \<noteq> res then do {
        (c, k) \<leftarrow> transfer_method opt data k;
        k \<leftarrow> linkSingle opt c dataType res k;
        cloneOthers opt res ds k }
      else cloneOthers opt res ds k)"

definition cloneShallowInjection :: "lopt \<Rightarrow> nat \<Rightarrow> lstore \<Rightarrow> lstore option" where
  "cloneShallowInjection opt res k = cloneOthers opt res (case ld_datas (ls_data k res) of None \<Rightarrow> [] | Some ds \<Rightarrow> ds) k"

definition main_cloneShallow :: "lopt \<Rightarrow> nat \<Rightarrow> lstore \<Rightarrow> (nat \<times> lstore) option" where
  "main_cloneShallow opt this k =
     do { (res, k) \<leftarrow> transfer_method opt this k;
          k \<leftarrow> cloneShallowInjection opt res k;
          Some (res, k) }"

text \<open>The main table, or the one of a type.\<close>

definition getLinkedData :: "string option \<Rightarrow> nat \<Rightarrow> lstore \<Rightarrow> nat option" where
  "getLinkedData dataType r k =
     (case ld_main (ls_data k r) of
        None \<Rightarrow> None
      | Some m \<Rightarrow> (case dataType of
          None \<Rightarrow> Some m
        | Some t \<Rightarrow> Option.bind (ld_datas (ls_data k m)) (\<lambda>ds. map_of ds t)))"

section \<open>Groups of linked tables\<close>

definition group :: "lopt \<Rightarrow> nat \<Rightarrow> (string \<times> nat) list \<Rightarrow> lstore \<Rightarrow> bool" where
  "group opt m ds k \<longleftrightarrow> ld_datas (ls_data k m) = Some ds \<and> distinct (map fst ds) \<and> distinct (map snd ds) \<and>
     inj_on (attr_for opt) (fst ` set ds) \<and>
     (\<forall>(t, r)\<in>set ds. r < ls_next k \<and> ld_main (ls_data k r) = Some m \<and> ld_type (ls_data k r) = Some t \<and>
        (op_struct opt \<longrightarrow> ld_struct (ls_data k r) \<and> ls_attr k (attr_for opt t) = Some r))"

definition linked :: "lopt \<Rightarrow> nat \<Rightarrow> (string \<times> nat) list \<Rightarrow> lstore \<Rightarrow> bool" where
  "linked opt m ds k \<longleftrightarrow> group opt m ds k \<and> m \<in> snd ` set ds"

lemma upd_data_simps [simp]:
  "ls_data (upd_data r f k) r' = (if r' = r then f (ls_data k r) else ls_data k r')"
  "ls_next (upd_data r f k) = ls_next k" "ls_attr (upd_data r f k) = ls_attr k"
  by (simp_all add: upd_data_def)

lemma linkSingle_run:
  assumes "ld_datas (ls_data k m) = Some ds"
  shows "\<exists>k'. linkSingle opt c t m k = Some k' \<and> ls_next k' = ls_next k \<and>
    ld_datas (ls_data k' m) = Some (AList.update t c ds) \<and> (\<forall>r. r \<noteq> m \<longrightarrow> ld_datas (ls_data k' r) = ld_datas (ls_data k r)) \<and>
    ld_main (ls_data k' c) = Some m \<and> ld_type (ls_data k' c) = Some t \<and>
    (\<forall>r. r \<noteq> c \<longrightarrow> ld_main (ls_data k' r) = ld_main (ls_data k r) \<and> ld_type (ls_data k' r) = ld_type (ls_data k r) \<and>
      ld_struct (ls_data k' r) = ld_struct (ls_data k r)) \<and>
    (if op_struct opt then ld_struct (ls_data k' c) \<and> ls_attr k' = (ls_attr k)(attr_for opt t \<mapsto> c) else ls_attr k' = ls_attr k)"
  using assms by (auto simp: linkSingle_def Let_def)

lemma update_old:
  assumes "distinct (map fst ds)" "(t, r0) \<in> set ds"
  shows "set (AList.update t c ds) = insert (t, c) (set ds - {(t, r0)})" "map fst (AList.update t c ds) = map fst ds"
  using assms by (induction ds) (auto simp: image_iff)

lemma update_old_snd:
  assumes "distinct (map fst ds)" "distinct (map snd ds)" "(t, r0) \<in> set ds" "c \<notin> snd ` (set ds - {(t, r0)})"
  shows "distinct (map snd (AList.update t c ds))"
  using assms
proof (induction ds)
  case (Cons e ds)
  obtain u r where e: "e = (u, r)" by fastforce
  show ?case
  proof (cases "u = t")
    case True
    then have "r = r0" using Cons.prems(1,3) e by force
    then have "set (e # ds) - {(t, r0)} = set ds" using Cons.prems(1) e True by force
    then show ?thesis using Cons.prems(2,4) e True by auto
  next
    case False
    then have m: "(t, r0) \<in> set ds" using Cons.prems(3) e by auto
    have "set (AList.update t c ds) = insert (t, c) (set ds - {(t, r0)})" using update_old(1) [OF _ m] Cons.prems(1) by simp
    moreover have "r \<noteq> c" using Cons.prems(4) e False by force
    ultimately have "r \<notin> snd ` set (AList.update t c ds)" using Cons.prems(2) e by auto
    moreover have "distinct (map snd (AList.update t c ds))" using Cons m by auto
    ultimately show ?thesis using e False by simp
  qed
qed simp

text \<open>One more table, and another table in the place of one.\<close>

lemma linkSingle_new:
  assumes g: "group opt m ds k" and t: "t \<notin> fst ` set ds" "c \<notin> snd ` set ds" "c < ls_next k" "attr_for opt t \<notin> attr_for opt ` fst ` set ds"
  shows "\<exists>k'. linkSingle opt c t m k = Some k' \<and> group opt m (ds @ [(t, c)]) k' \<and> ls_next k' = ls_next k \<and>
    (\<forall>r. r \<noteq> c \<longrightarrow> r \<noteq> m \<longrightarrow> ls_data k' r = ls_data k r)"
proof -
  have d: "ld_datas (ls_data k m) = Some ds" using g by (simp add: group_def)
  obtain k' where k': "linkSingle opt c t m k = Some k'" "ls_next k' = ls_next k"
      "ld_datas (ls_data k' m) = Some (ds @ [(t, c)])" "\<forall>r. r \<noteq> m \<longrightarrow> ld_datas (ls_data k' r) = ld_datas (ls_data k r)"
      "ld_main (ls_data k' c) = Some m" "ld_type (ls_data k' c) = Some t"
      "\<forall>r. r \<noteq> c \<longrightarrow> ld_main (ls_data k' r) = ld_main (ls_data k r) \<and> ld_type (ls_data k' r) = ld_type (ls_data k r) \<and>
        ld_struct (ls_data k' r) = ld_struct (ls_data k r)"
      "if op_struct opt then ld_struct (ls_data k' c) \<and> ls_attr k' = (ls_attr k)(attr_for opt t \<mapsto> c) else ls_attr k' = ls_attr k"
    using linkSingle_run [OF d, of opt c t] update_new [OF t(1), of c] by auto
  have "r < ls_next k' \<and> ld_main (ls_data k' r) = Some m \<and> ld_type (ls_data k' r) = Some u \<and>
      (op_struct opt \<longrightarrow> ld_struct (ls_data k' r) \<and> ls_attr k' (attr_for opt u) = Some r)" if "(u, r) \<in> set (ds @ [(t, c)])" for u r
  proof (cases "(u, r) = (t, c)")
    case False
    then have u: "(u, r) \<in> set ds" using that by auto
    then have "u \<in> fst ` set ds" "r \<in> snd ` set ds" by force+
    then have "r \<noteq> c" "attr_for opt u \<noteq> attr_for opt t" using t(2,4) by (auto simp: image_iff)
    then show ?thesis using g u k' by (auto simp: group_def split: if_splits)
  qed (use k' t in auto)
  moreover have "distinct (map fst (ds @ [(t, c)]))" "distinct (map snd (ds @ [(t, c)]))" using g t by (auto simp: group_def)
  moreover have "inj_on (attr_for opt) (fst ` set (ds @ [(t, c)]))" using g t(4) by (auto simp: group_def)
  ultimately have "group opt m (ds @ [(t, c)]) k'" using k'(3) by (auto simp: group_def)
  moreover have "ls_data k' r = ls_data k r" if "r \<noteq> c" "r \<noteq> m" for r
    using k'(4,7) that by (intro ldata.equality) simp_all
  ultimately show ?thesis using k'(1,2) by blast
qed


lemma linkSingle_place:
  assumes g: "group opt m ds k" and t: "(t, r0) \<in> set ds" "c \<notin> snd ` (set ds - {(t, r0)})" "c < ls_next k"
  shows "\<exists>k'. linkSingle opt c t m k = Some k' \<and> group opt m (AList.update t c ds) k' \<and> ls_next k' = ls_next k \<and>
    (\<forall>r. r \<noteq> c \<longrightarrow> r \<noteq> m \<longrightarrow> ls_data k' r = ls_data k r)"
proof -
  have d: "ld_datas (ls_data k m) = Some ds" "distinct (map fst ds)" "distinct (map snd ds)" "inj_on (attr_for opt) (fst ` set ds)"
    using g by (simp_all add: group_def)
  obtain k' where k': "linkSingle opt c t m k = Some k'" "ls_next k' = ls_next k"
      "ld_datas (ls_data k' m) = Some (AList.update t c ds)" "\<forall>r. r \<noteq> m \<longrightarrow> ld_datas (ls_data k' r) = ld_datas (ls_data k r)"
      "ld_main (ls_data k' c) = Some m" "ld_type (ls_data k' c) = Some t"
      "\<forall>r. r \<noteq> c \<longrightarrow> ld_main (ls_data k' r) = ld_main (ls_data k r) \<and> ld_type (ls_data k' r) = ld_type (ls_data k r) \<and>
        ld_struct (ls_data k' r) = ld_struct (ls_data k r)"
      "if op_struct opt then ld_struct (ls_data k' c) \<and> ls_attr k' = (ls_attr k)(attr_for opt t \<mapsto> c) else ls_attr k' = ls_attr k"
    using linkSingle_run [OF d(1), of opt c t] by auto
  note up = update_old [OF d(2) t(1), of c]
  have "r < ls_next k' \<and> ld_main (ls_data k' r) = Some m \<and> ld_type (ls_data k' r) = Some u \<and>
      (op_struct opt \<longrightarrow> ld_struct (ls_data k' r) \<and> ls_attr k' (attr_for opt u) = Some r)" if "(u, r) \<in> set (AList.update t c ds)" for u r
  proof (cases "(u, r) = (t, c)")
    case False
    then have u: "(u, r) \<in> set ds - {(t, r0)}" using that unfolding up by auto
    then have "r \<noteq> c" using t(2) by force
    moreover have "u \<noteq> t" using u t(1) d(2) by (auto dest: eq_key_imp_eq_value)
    then have "attr_for opt u \<noteq> attr_for opt t" using u t(1) d(4) by (force dest: inj_onD)
    ultimately show ?thesis using g u k' by (auto simp: group_def split: if_splits)
  qed (use k' t in auto)
  moreover have "distinct (map snd (AList.update t c ds))" by (rule update_old_snd [OF d(2,3) t(1,2)])
  moreover have "fst ` set (AList.update t c ds) = fst ` set ds" using arg_cong [OF up(2), of set] by simp
  ultimately have "group opt m (AList.update t c ds) k'" using k'(3) d up(2) by (auto simp: group_def)
  moreover have "ls_data k' r = ls_data k r" if "r \<noteq> c" "r \<noteq> m" for r
    using k'(4,7) that by (intro ldata.equality) simp_all
  ultimately show ?thesis using k'(1,2) by blast
qed


text \<open>All tables of a new group.\<close>

definition may_link :: "lopt \<Rightarrow> (string \<times> nat) list \<Rightarrow> lstore \<Rightarrow> bool" where
  "may_link opt ds k \<longleftrightarrow> distinct (map fst ds) \<and> distinct (map snd ds) \<and> inj_on (attr_for opt) (fst ` set ds) \<and>
     (\<forall>r\<in>snd ` set ds. r < ls_next k)"

lemma linkEach_run:
  assumes "group opt m acc k" "may_link opt (acc @ ds) k"
  shows "\<exists>k'. linkEach opt m ds k = Some k' \<and> group opt m (acc @ ds) k' \<and> ls_next k' = ls_next k \<and>
    (\<forall>r. r \<notin> snd ` set ds \<longrightarrow> r \<noteq> m \<longrightarrow> ls_data k' r = ls_data k r)"
  using assms
proof (induction ds arbitrary: acc k)
  case (Cons e ds)
  obtain t c where e: "e = (t, c)" by fastforce
  have new: "t \<notin> fst ` set acc" "c \<notin> snd ` set acc" "c < ls_next k" "attr_for opt t \<notin> attr_for opt ` fst ` set acc"
    using Cons.prems(2) by (auto simp: may_link_def e)
  obtain k1 where k1: "linkSingle opt c t m k = Some k1" "group opt m (acc @ [(t, c)]) k1" "ls_next k1 = ls_next k"
      "\<forall>r. r \<noteq> c \<longrightarrow> r \<noteq> m \<longrightarrow> ls_data k1 r = ls_data k r"
    using linkSingle_new [OF Cons.prems(1) new] by blast
  have "may_link opt ((acc @ [(t, c)]) @ ds) k1" using Cons.prems(2) k1(3) by (simp add: may_link_def e)
  from Cons.IH [OF k1(2) this] show ?case using k1(1,3,4) e by auto
qed simp

lemma linkAll_run:
  assumes "may_link opt ds k"
  shows "\<exists>k'. linkAll opt m ds k = Some k' \<and> group opt m ds k' \<and> ls_next k' = ls_next k \<and>
    (\<forall>r. r \<notin> snd ` set ds \<longrightarrow> r \<noteq> m \<longrightarrow> ls_data k' r = ls_data k r)"
proof -
  let ?k = "upd_data m (\<lambda>d. d\<lparr>ld_datas := Some []\<rparr>) k"
  have "group opt m [] ?k" by (simp add: group_def)
  moreover have "may_link opt ([] @ ds) ?k" using assms by (simp add: may_link_def)
  ultimately show ?thesis using linkEach_run [of opt m "[]" ?k ds] by (auto simp: linkAll_def)
qed

text \<open>The copy of a table takes its place; that of the main table leads the new group.\<close>

lemma transfer_run:
  assumes l: "linked opt m ds k" and t: "(t, r) \<in> set ds"
  shows "\<exists>k'. transfer_method opt r k = Some (ls_next k, k') \<and> ls_next k' = Suc (ls_next k) \<and>
    linked opt (if r = m then ls_next k else m) (AList.update t (ls_next k) ds) k' \<and>
    (\<forall>x<ls_next k. x \<notin> snd ` set (AList.update t (ls_next k) ds) \<longrightarrow> ls_data k' x = ls_data k x)"
proof -
  let ?c = "ls_next k"
  let ?k = "k\<lparr>ls_data := (ls_data k)(?c := unlinked), ls_next := ?c + 1\<rparr>"
  have g: "group opt m ds k" and m: "m \<in> snd ` set ds" using l by (simp_all add: linked_def)
  have d: "distinct (map fst ds)" "distinct (map snd ds)" "inj_on (attr_for opt) (fst ` set ds)" using g by (simp_all add: group_def)
  have lt: "x < ?c" if "x \<in> snd ` set ds" for x using that g by (auto simp: group_def)
  have r: "r \<noteq> ?c" "m \<noteq> ?c" "?c \<notin> snd ` set ds" using lt m t by force+
  have gk: "group opt m ds ?k" using g r(2) lt by (auto simp: group_def fun_upd_apply)
  have rt: "ld_main (ls_data k r) = Some m" "ld_type (ls_data k r) = Some t" "ld_datas (ls_data k m) = Some ds"
    using g t by (auto simp: group_def)
  have fr: "?c \<notin> snd ` (set ds - {(t, r)})" using r(3) by auto
  note up = update_old [OF d(1) t, of ?c]
  have in_t: "(t, ?c) \<in> set (AList.update t ?c ds)" unfolding up(1) by simp
  show ?thesis
  proof (cases "r = m")
    case True
    have "fst ` set (AList.update t ?c ds) = fst ` set ds" using arg_cong [OF up(2), of set] by simp
    moreover have "x < ls_next ?k" if "x \<in> snd ` set (AList.update t ?c ds)" for x
      using that lt unfolding up(1) by fastforce
    ultimately have "may_link opt (AList.update t ?c ds) ?k"
      using d up(2) update_old_snd [OF d(1,2) t fr] by (simp add: may_link_def)
    from linkAll_run [OF this, of ?c]
    obtain k' where k': "linkAll opt ?c (AList.update t ?c ds) ?k = Some k'" "group opt ?c (AList.update t ?c ds) k'"
        "ls_next k' = Suc ?c" "\<forall>x. x \<notin> snd ` set (AList.update t ?c ds) \<longrightarrow> x \<noteq> ?c \<longrightarrow> ls_data k' x = ls_data ?k x"
      by auto
    have "transfer_method opt r k = Some (?c, k')"
      using k'(1) rt True r by (simp add: transfer_method_def transferInjection_def isMainData_def Let_def)
    moreover have "ls_data k' x = ls_data k x" if "x < ?c" "x \<notin> snd ` set (AList.update t ?c ds)" for x
      using k'(4) that by simp
    moreover have "?c \<in> snd ` set (AList.update t ?c ds)" using in_t by force
    ultimately show ?thesis using k'(2,3) True by (simp add: linked_def)
  next
    case False
    obtain k' where k': "linkSingle opt ?c t m ?k = Some k'" "group opt m (AList.update t ?c ds) k'"
        "ls_next k' = Suc ?c" "\<forall>x. x \<noteq> ?c \<longrightarrow> x \<noteq> m \<longrightarrow> ls_data k' x = ls_data ?k x"
      using linkSingle_place [OF gk t fr] by auto
    have "transfer_method opt r k = Some (?c, k')"
      using k'(1) rt False r by (simp add: transfer_method_def transferInjection_def isMainData_def Let_def)
    moreover have mm: "m \<in> snd ` set (AList.update t ?c ds)" using m False unfolding up(1) by force
    moreover have "ls_data k' x = ls_data k x" if "x < ?c" "x \<notin> snd ` set (AList.update t ?c ds)" for x
    proof -
      have "x \<noteq> m" using that(2) mm by blast
      then show ?thesis using k'(4) that(1) by simp
    qed
    ultimately show ?thesis using k'(2,3) False by (simp add: linked_def)
  qed
qed


lemma update_middle: "distinct (map fst (pre @ (t, r) # ds)) \<Longrightarrow> AList.update t c (pre @ (t, r) # ds) = pre @ (t, c) # ds"
  by (induction pre) auto

lemma cloneOthers_run:
  assumes "linked opt m (pre @ ds) k"
  shows "\<exists>k' ds'. cloneOthers opt m ds k = Some k' \<and> linked opt m (pre @ ds') k' \<and> map fst ds' = map fst ds \<and>
    (\<forall>r\<in>snd ` set ds'. r = m \<or> ls_next k \<le> r) \<and> ls_next k \<le> ls_next k'"
  using assms
proof (induction ds arbitrary: pre k)
  case Nil
  then show ?case by (intro exI [of _ k] exI [of _ "[]"]) simp
next
  case (Cons e ds)
  obtain t r where e: "e = (t, r)" by fastforce
  have dist: "distinct (map fst (pre @ (t, r) # ds))" using Cons.prems by (simp add: linked_def group_def e)
  show ?case
  proof (cases "r = m")
    case True
    have "linked opt m ((pre @ [e]) @ ds) k" using Cons.prems by simp
    from Cons.IH [OF this] obtain k' ds' where "cloneOthers opt m ds k = Some k'" "linked opt m ((pre @ [e]) @ ds') k'"
        "map fst ds' = map fst ds" "\<forall>r\<in>snd ` set ds'. r = m \<or> ls_next k \<le> r" "ls_next k \<le> ls_next k'" by blast
    then show ?thesis using e True by (intro exI [of _ k'] exI [of _ "e # ds'"]) auto
  next
    case False
    let ?c = "ls_next k"
    have "(t, r) \<in> set (pre @ e # ds)" by (simp add: e)
    from transfer_run [OF Cons.prems this] obtain k1 where k1: "transfer_method opt r k = Some (?c, k1)" "ls_next k1 = Suc ?c"
        and "linked opt m (AList.update t ?c (pre @ e # ds)) k1" using False by auto
    then have l1: "linked opt m (pre @ (t, ?c) # ds) k1" unfolding e update_middle [OF dist] by blast
    have dist1: "distinct (map fst (pre @ (t, ?c) # ds))" using dist by simp
    have "distinct (map snd (pre @ (t, ?c) # ds))" using l1 by (simp add: linked_def group_def)
    then have "?c \<notin> snd ` (set (pre @ (t, ?c) # ds) - {(t, ?c)})" by auto
    then obtain k2 where k2: "linkSingle opt ?c t m k1 = Some k2" "group opt m (pre @ (t, ?c) # ds) k2" "ls_next k2 = Suc ?c"
      using linkSingle_place [of opt m "pre @ (t, ?c) # ds" k1 t ?c ?c] l1 k1(2) update_middle [OF dist1] by (auto simp: linked_def)
    have "linked opt m ((pre @ [(t, ?c)]) @ ds) k2" using k2(2) l1 by (simp add: linked_def)
    from Cons.IH [OF this] obtain k' ds' where "cloneOthers opt m ds k2 = Some k'" "linked opt m ((pre @ [(t, ?c)]) @ ds') k'"
        "map fst ds' = map fst ds" "\<forall>r\<in>snd ` set ds'. r = m \<or> ls_next k2 \<le> r" "ls_next k2 \<le> ls_next k'" by blast
    then show ?thesis using e False k1 k2 by (intro exI [of _ k'] exI [of _ "(t, ?c) # ds'"]) auto
  qed
qed

lemma main_cloneShallow_run:
  assumes "linked opt m ds k"
  shows "\<exists>k' ds'. main_cloneShallow opt m k = Some (ls_next k, k') \<and> linked opt (ls_next k) ds' k' \<and>
    map fst ds' = map fst ds \<and> (\<forall>r\<in>snd ` set ds'. ls_next k \<le> r)"
proof -
  obtain t where t: "(t, m) \<in> set ds" using assms by (auto simp: linked_def)
  obtain k1 where k1: "transfer_method opt m k = Some (ls_next k, k1)" "ls_next k1 = Suc (ls_next k)"
      "linked opt (ls_next k) (AList.update t (ls_next k) ds) k1"
    using transfer_run [OF assms t] by auto
  from k1(3) have "linked opt (ls_next k) ([] @ AList.update t (ls_next k) ds) k1" by simp
  from cloneOthers_run [OF this] obtain k' ds' where k': "cloneOthers opt (ls_next k) (AList.update t (ls_next k) ds) k1 = Some k'"
      "linked opt (ls_next k) ds' k'" "map fst ds' = map fst (AList.update t (ls_next k) ds)"
      "\<forall>r\<in>snd ` set ds'. r = ls_next k \<or> ls_next k1 \<le> r"
    by auto
  have d: "ld_datas (ls_data k1 (ls_next k)) = Some (AList.update t (ls_next k) ds)" using k1(3) by (simp add: linked_def group_def)
  have "distinct (map fst ds)" using assms by (simp add: linked_def group_def)
  then have "map fst ds' = map fst ds" using k'(3) update_old(2) [OF _ t] by simp
  then show ?thesis
    using k1(1,2) k'(1,2,4) d by (intro exI [of _ k'] exI [of _ ds']) (auto simp: main_cloneShallow_def cloneShallowInjection_def)
qed

section \<open>Properties\<close>

inductive link_made :: "lopt \<Rightarrow> nat \<Rightarrow> (string \<times> nat) list \<Rightarrow> lstore \<Rightarrow> bool" where
  joined: "linkList opt0 m datas k0 = Some (opt, k) \<Longrightarrow> ds = (case datas of None \<Rightarrow> [(''main'', m)] | Some ds \<Rightarrow> ds) \<Longrightarrow>
    may_link opt ds k0 \<Longrightarrow> link_made opt m ds k"
| copied: "link_made opt m ds k \<Longrightarrow> (t, r) \<in> set ds \<Longrightarrow> transfer_method opt r k = Some (c, k') \<Longrightarrow>
    link_made opt (if r = m then c else m) (AList.update t c ds) k'"
| cloned: "link_made opt m ds k \<Longrightarrow> main_cloneShallow opt m k = Some (c, k') \<Longrightarrow> ld_datas (ls_data k' c) = Some ds' \<Longrightarrow>
    link_made opt c ds' k'"

lemma link_made_linked: "link_made opt m ds k \<Longrightarrow> linked opt m ds k"
proof (induction rule: link_made.induct)
  case (joined opt0 m datas k0 opt k ds)
  then have "linkAll opt m ds k0 = Some k" "Option.bind (ld_type (ls_data k m)) (map_of ds) = Some m"
    by (auto simp: linkList_def Let_def bind_eq_Some_conv split: if_splits option.splits)
  moreover from this(2) have "m \<in> snd ` set ds" by (force simp: bind_eq_Some_conv dest: map_of_SomeD)
  ultimately show ?case using linkAll_run [OF joined.hyps(3), of m] by (auto simp: linked_def)
next
  case (copied opt m ds k t r c k')
  then show ?case using transfer_run [OF copied.IH copied.hyps(2)] by auto
next
  case (cloned opt m ds k c k' ds')
  then show ?case using main_cloneShallow_run [OF cloned.IH] by (auto simp: linked_def group_def)
qed

text \<open>
  C30. However the tables of a group are linked and copied, each of them finds the main one and the one of every
  type, and the tree or graph holds them; a clone of the main table leads a group of new
  tables of the same types.
\<close>

theorem linked_tables_agree:
  assumes "link_made opt m ds k"
  shows "(\<forall>(t, r)\<in>set ds. getLinkedData None r k = Some m \<and> (\<forall>t'. getLinkedData (Some t') r k = map_of ds t') \<and>
      (op_struct opt \<longrightarrow> ls_attr k (attr_for opt t) = Some r)) \<and>
    (\<exists>k' ds'. main_cloneShallow opt m k = Some (ls_next k, k') \<and> map fst ds' = map fst ds \<and>
      (\<forall>(t, r)\<in>set ds'. ls_next k \<le> r \<and> getLinkedData None r k' = Some (ls_next k) \<and>
        (\<forall>t'. getLinkedData (Some t') r k' = map_of ds' t')))"
proof -
  have l: "linked opt m ds k" by (rule link_made_linked [OF assms])
  have find: "\<forall>(t, r)\<in>set ds. getLinkedData None r k = Some m \<and> (\<forall>t'. getLinkedData (Some t') r k = map_of ds t') \<and>
      (op_struct opt \<longrightarrow> ls_attr k (attr_for opt t) = Some r)" if "linked opt m ds k" for m ds k
    using that by (auto simp: linked_def group_def getLinkedData_def)
  obtain k' ds' where c: "main_cloneShallow opt m k = Some (ls_next k, k')" "linked opt (ls_next k) ds' k'"
      "map fst ds' = map fst ds" "\<forall>r\<in>snd ` set ds'. ls_next k \<le> r"
    using main_cloneShallow_run [OF l] by blast
  have "\<forall>(t, r)\<in>set ds'. ls_next k \<le> r \<and> getLinkedData None r k' = Some (ls_next k) \<and> (\<forall>t'. getLinkedData (Some t') r k' = map_of ds' t')"
    using find [OF c(2)] c(4) by force
  then show ?thesis using find [OF l] c(1,3) by blast
qed


definition net_opt :: lopt where
  "net_opt = \<lparr>op_struct = True, op_datasAttr = [''node'' \<mapsto> ''data'', ''edge'' \<mapsto> ''edgeData'']\<rparr>"

definition net_start :: lstore where
  "net_start = \<lparr>ls_data = (\<lambda>_. unlinked), ls_next = 2, ls_attr = Map.empty\<rparr>"

lemma net_linked: "\<exists>k. linkList net_opt 0 (Some [(''node'', 0), (''edge'', 1)]) net_start = Some (net_opt, k) \<and>
    link_made net_opt 0 [(''node'', 0), (''edge'', 1)] k \<and> ls_next k = 2"
proof -
  have may: "may_link net_opt [(''node'', 0), (''edge'', 1)] net_start"
    by (simp add: may_link_def net_start_def net_opt_def attr_for_def)
  obtain k where k: "linkList net_opt 0 (Some [(''node'', 0), (''edge'', 1)]) net_start = Some (net_opt, k)" "ls_next k = 2"
    by (simp add: linkList_def linkAll_def linkSingle_def net_start_def unlinked_def upd_data_def net_opt_def Let_def)
  have "link_made net_opt 0 [(''node'', 0), (''edge'', 1)] k" by (rule link_made.joined [OF k(1) _ may]) simp
  then show ?thesis using k by blast
qed

lemma linked_tables_agree_witness:
  "\<exists>k k'. linkList net_opt 0 (Some [(''node'', 0), (''edge'', 1)]) net_start = Some (net_opt, k) \<and> getLinkedData (Some ''edge'') 0 k = Some 1 \<and>
    getLinkedData None 1 k = Some 0 \<and> main_cloneShallow net_opt 0 k = Some (2, k')"
proof -
  obtain k where k: "linkList net_opt 0 (Some [(''node'', 0), (''edge'', 1)]) net_start = Some (net_opt, k)"
      "link_made net_opt 0 [(''node'', 0), (''edge'', 1)] k" "ls_next k = 2" using net_linked by blast
  show ?thesis using linked_tables_agree [OF k(2)] k(1,3) by (auto simp: numeral_2_eq_2)
qed

text \<open>
  A main table that was copied still lists the other tables, but they follow the copy: the table of edges
  that the old table of nodes leads to has another table of nodes.
\<close>

lemma old_main_left:
  assumes "linked opt m ds k" "transfer_method opt m k = Some (c, k')" "(t, r) \<in> set ds" "r \<noteq> m"
  shows "getLinkedData (Some t) m k' = Some r \<and> getLinkedData None r k' = Some c"
proof -
  obtain u where u: "(u, m) \<in> set ds" using assms(1) by (auto simp: linked_def)
  have d: "ld_datas (ls_data k m) = Some ds" "distinct (map fst ds)" "ld_main (ls_data k m) = Some m" "ld_type (ls_data k m) = Some u"
    using assms(1) u by (auto simp: linked_def group_def)
  have c: "linked opt c (AList.update u c ds) k'" "c = ls_next k"
      "\<forall>x<ls_next k. x \<notin> snd ` set (AList.update u c ds) \<longrightarrow> ls_data k' x = ls_data k x"
    using transfer_run [OF assms(1) u] assms(2) by auto
  have m: "m < ls_next k" using assms(1) u by (auto simp: linked_def group_def)
  have up: "set (AList.update u c ds) = insert (u, c) (set ds - {(u, m)})" by (rule update_old(1) [OF d(2) u])
  have "distinct (map snd ds)" using assms(1) by (simp add: linked_def group_def)
  then have "m \<notin> snd ` (set ds - {(u, m)})" using u by (force simp: distinct_map inj_on_def)
  then have "ls_data k' m = ls_data k m" using c(2,3) m unfolding up by auto
  moreover have "(t, r) \<in> set (AList.update u c ds)" using assms(3,4) unfolding up by auto
  then have "ld_main (ls_data k' r) = Some c" using c(1) by (auto simp: linked_def group_def)
  ultimately show ?thesis using d assms(3) by (simp add: getLinkedData_def map_of_eq_Some_iff)
qed

end
