(* ===== verification/Option_Model.thy ===== *)
theory Option_Model
  imports Zr_Util
begin

text \<open>
  The model of options, \<open>model/Model\<close> (module 12): an option with a parent model that answers for what it
  does not set. The members of functions, dates and elements of the page are a parameter, \<open>host_prop\<close>.
\<close>

section \<open>Paths\<close>

text \<open>A path is left out, a text with dots, or a list of names.\<close>

datatype path = No_Path | Dotted string | Names "string list"

text \<open>What every array has besides its elements.\<close>

definition array_members :: "string list" where
  "array_members = [''concat'', ''join'', ''pop'', ''push'', ''reverse'', ''shift'', ''slice'', ''sort'', ''splice'', ''unshift'',
     ''indexOf'', ''lastIndexOf'', ''every'', ''some'', ''forEach'', ''map'', ''filter'', ''reduce'', ''reduceRight'']"

text \<open>Reading a member of a value of type object; what is inherited is a function or a prototype.\<close>

definition read_member :: "(host \<Rightarrow> nat \<Rightarrow> string \<Rightarrow> jsval) \<Rightarrow> jsval \<Rightarrow> string \<Rightarrow> jsval" where
  "read_member host_prop v k = (case v of
      Obj ms \<Rightarrow> (case map_of ms k of Some x \<Rightarrow> x
        | None \<Rightarrow> if k \<in> set object_members then Host (if k = ''__proto__'' then Builtin else Function) 0 else Undefined)
    | Arr xs \<Rightarrow> (case List.find (\<lambda>i. k = dec i) [0..<length xs] of Some i \<Rightarrow> xs ! i
        | None \<Rightarrow> if k = ''length'' then Number (int (length xs))
          else if k \<in> set object_members \<union> set array_members then Host (if k = ''__proto__'' then Builtin else Function) 0 else Undefined)
    | Host h n \<Rightarrow> host_prop h n k
    | _ \<Rightarrow> Undefined)"

text \<open>Functions are not of type object, the null value counts as false.\<close>

definition walkable :: "jsval \<Rightarrow> bool" where
  "walkable v \<longleftrightarrow> (case v of Obj _ \<Rightarrow> True | Arr _ \<Rightarrow> True | Host h _ \<Rightarrow> h \<noteq> Function | _ \<Rightarrow> False)"

fun walk :: "(host \<Rightarrow> nat \<Rightarrow> string \<Rightarrow> jsval) \<Rightarrow> jsval \<Rightarrow> string list \<Rightarrow> jsval" where
  "walk host_prop obj [] = obj"
| "walk host_prop obj (k # ks) =
     (if k = '''' then walk host_prop obj ks
      else let obj = (if walkable obj then read_member host_prop obj k else Null) in
        if is_nil obj then obj else walk host_prop obj ks)"

section \<open>Models\<close>

datatype model = Model (m_option: jsval) (m_parent: "model option")

fun get_names :: "(host \<Rightarrow> nat \<Rightarrow> string \<Rightarrow> jsval) \<Rightarrow> string list \<Rightarrow> bool \<Rightarrow> model \<Rightarrow> jsval" where
  "get_names host_prop path ignoreParent (Model opt parent) =
     (let obj = walk host_prop opt path in
      if is_nil obj \<and> \<not> ignoreParent then (case parent of None \<Rightarrow> obj | Some p \<Rightarrow> get_names host_prop path False p) else obj)"

definition model_get :: "(host \<Rightarrow> nat \<Rightarrow> string \<Rightarrow> jsval) \<Rightarrow> path \<Rightarrow> bool \<Rightarrow> model \<Rightarrow> jsval" where
  "model_get host_prop path ignoreParent m = (case path of
      No_Path \<Rightarrow> m_option m
    | Dotted s \<Rightarrow> if s = '''' then m_option m else get_names host_prop (split_dots s) ignoreParent m
    | Names ks \<Rightarrow> get_names host_prop ks ignoreParent m)"

text \<open>Members of texts and numbers are not looked at by this program, their \<open>getShallow\<close> is \<open>Undefined\<close>.\<close>

fun getShallow :: "(host \<Rightarrow> nat \<Rightarrow> string \<Rightarrow> jsval) \<Rightarrow> string \<Rightarrow> bool \<Rightarrow> model \<Rightarrow> jsval" where
  "getShallow host_prop key ignoreParent (Model opt parent) =
     (let val = (if is_nil opt then opt else read_member host_prop opt key) in
      if is_nil val \<and> \<not> ignoreParent then (case parent of None \<Rightarrow> val | Some p \<Rightarrow> getShallow host_prop key False p) else val)"

text \<open>A model of a part, whose parent is the one given or the model of the same part of the parent.\<close>

fun getModel :: "(host \<Rightarrow> nat \<Rightarrow> string \<Rightarrow> jsval) \<Rightarrow> path \<Rightarrow> model option \<Rightarrow> model \<Rightarrow> model" where
  "getModel host_prop path parentModel (Model opt parent) =
     Model (model_get host_prop path True (Model opt parent))
       (case parentModel of Some p \<Rightarrow> Some p
        | None \<Rightarrow> (case parent of None \<Rightarrow> None | Some p \<Rightarrow> Some (getModel host_prop path None p)))"

definition isEmpty :: "model \<Rightarrow> bool" where
  "isEmpty m \<longleftrightarrow> is_nil (m_option m)"

text \<open>The option is merged in place: the result of \<open>merge\<close> is not assigned, so an option that is no object stays.\<close>

definition mergeOption :: "jsval \<Rightarrow> model \<Rightarrow> model option" where
  "mergeOption opt m =
     (if isObject (m_option m) \<and> isObject opt then map_option (\<lambda>v. Model v (m_parent m)) (merge True (m_option m) opt)
      else Some m)"

definition model_clone :: "model \<Rightarrow> model" where
  "model_clone m = Model (clone (m_option m)) None"

section \<open>Properties\<close>

definition same_setting :: "jsval \<Rightarrow> jsval \<Rightarrow> bool" where
  "same_setting a b \<longleftrightarrow> a = b \<or> is_nil a \<and> is_nil b"

lemma walk_nil: "is_nil v \<Longrightarrow> is_nil (walk hp v ks)"
  by (induction ks) (auto simp: is_nil_def walkable_def Let_def)

lemma walk_append: "same_setting (walk hp (walk hp v p) q) (walk hp v (p @ q))"
proof (induction p arbitrary: v)
  case (Cons k p)
  show ?case
  proof (cases "k = ''''")
    case False
    let ?x = "if walkable v then read_member hp v k else Null"
    show ?thesis
    proof (cases "is_nil ?x")
      case True
      then show ?thesis using False walk_nil [OF True] by (simp add: same_setting_def Let_def)
    qed (use False Cons.IH [of ?x] in \<open>simp add: Let_def\<close>)
  qed (use Cons.IH in simp)
qed (simp add: same_setting_def)

lemma same_setting_nil: "same_setting a b \<Longrightarrow> is_nil a \<longleftrightarrow> is_nil b"
  by (auto simp: same_setting_def)

text \<open>
  Reading a path from the model of a part reads the longer path from the whole, through all
  parents: both give the same value, or both give none.
\<close>

theorem getModel_reads_part:
  "same_setting (get_names hp q False (getModel hp (Names p) None m)) (get_names hp (p @ q) False m)"
proof (induction m rule: measure_induct_rule [where f = size])
  case (less m)
  obtain opt parent where m: "m = Model opt parent" by (cases m)
  have own: "same_setting (walk hp (walk hp opt p) q) (walk hp opt (p @ q))" by (rule walk_append)
  show ?case
  proof (cases parent)
    case None
    then show ?thesis using own m by (simp add: model_get_def Let_def)
  next
    case (Some par)
    then have "same_setting (get_names hp q False (getModel hp (Names p) None par)) (get_names hp (p @ q) False par)"
      using less m by simp
    then show ?thesis using own same_setting_nil [OF own] m Some by (auto simp: model_get_def Let_def same_setting_def)
  qed
qed

lemma walk_at_path: "at_path ks v = Some x \<Longrightarrow> '''' \<notin> set ks \<Longrightarrow> walk hp v ks = x"
proof (induction ks arbitrary: v)
  case (Cons k ks)
  then obtain ms y where y: "v = Obj ms" "map_of ms k = Some y" "at_path ks y = Some x" by (auto simp: bind_eq_Some_conv)
  have "is_nil y \<Longrightarrow> y = x \<and> ks = []" using y(3) by (cases ks) (auto simp: is_nil_def)
  then show ?case using Cons y by (auto simp: walkable_def read_member_def Let_def)
qed simp

text \<open>
  What is merged into the option of a model is what reading its path then gives, whatever the
  parents say.
\<close>

theorem merged_option_is_read:
  assumes "m_option m = Obj t" "wf_val (Obj s)" "own_names p" "'''' \<notin> set p"
    and "at_path p (Obj s) = Some v" "plain v = None" "\<not> is_nil v"
  shows "\<exists>m'. mergeOption (Obj s) m = Some m' \<and> m_parent m' = m_parent m \<and> model_get hp (Names p) ignoreParent m' = clone v"
proof -
  let ?o = "Obj (merge_members True t s)"
  have "at_path p ?o = Some (clone v)" by (rule at_path_merge_over [OF assms(2,3,5,6)])
  then have w: "walk hp ?o p = clone v" by (rule walk_at_path [OF _ assms(4)])
  have "\<not> is_nil (clone v)" using assms(7) by (cases v) (auto simp: is_nil_def)
  then have "model_get hp (Names p) ignoreParent (Model ?o (m_parent m)) = clone v"
    using w by (simp add: model_get_def Let_def)
  moreover have "mergeOption (Obj s) m = Some (Model ?o (m_parent m))" using assms(1) by (simp add: mergeOption_def merge_def)
  ultimately show ?thesis by simp
qed

lemma merged_option_is_read_witness:
  "\<exists>m'. mergeOption (Obj [(''textStyle'', Obj [(''fontSize'', Number 20)])])
      (Model (Obj [(''textStyle'', Obj [(''color'', Text ''red'')])]) None) = Some m' \<and>
    model_get (\<lambda>_ _ _. Undefined) (Names [''textStyle'', ''fontSize'']) False m' = Number 20"
proof -
  have "own_names [''textStyle'', ''fontSize'']" by (simp add: own_names_def object_members_def)
  from merged_option_is_read [of "Model (Obj [(''textStyle'', Obj [(''color'', Text ''red'')])]) None"
      "[(''textStyle'', Obj [(''color'', Text ''red'')])]" "[(''textStyle'', Obj [(''fontSize'', Number 20)])]", OF _ _ this, of "Number 20" "\<lambda>_ _ _. Undefined" False]
  show ?thesis by (auto simp: is_nil_def)
qed

text \<open>A dotted path is the list of its names.\<close>

lemma split_dots_example: "split_dots ''a.bc..d'' = [''a'', ''bc'', '''', ''d'']"
  by simp

lemma split_dots_names: "\<forall>k\<in>set (split_dots s). CHR ''.'' \<notin> set k"
  by (induction s) (auto split: list.splits)

text \<open>Copies stand alone: what only the parent set is lost.\<close>

lemma model_clone_drops_parent: "model_get hp (Names [''x'']) False (model_clone (Model (Obj []) (Some (Model (Obj [(''x'', Number 1)]) None)))) = Undefined"
  by (simp add: model_clone_def model_get_def walkable_def read_member_def object_members_def is_nil_def Let_def)

end
