(* ===== verification/Class_Registry.thy ===== *)
theory Class_Registry
  imports Js_Strings "HOL-Library.AList"
begin

text \<open>
  The registry of classes of components, \<open>util/clazz\<close> (module 13), with the default sub types and unique names of
  \<open>util/component\<close> (module 20) and the registry of coordinate systems (module 26). Registries are plain
  objects: an inherited member is found where nothing was registered.
\<close>

section \<open>Types of components\<close>

definition IS_CONTAINER :: string where
  "IS_CONTAINER = ''___EC__COMPONENT__CONTAINER___''"

definition nth_name :: "nat \<Rightarrow> string list \<Rightarrow> string" where
  "nth_name i xs = (if i < length xs then xs ! i else '''')"

text \<open>The main and the sub type; without a type both are empty.\<close>

definition parseClassType :: "string \<Rightarrow> string \<times> string" where
  "parseClassType componentType =
     (if componentType = '''' then ('''', '''')
      else let parts = split_dots componentType in (nth_name 0 parts, nth_name 1 parts))"

section \<open>Registered classes\<close>

datatype 'c entry = Single 'c | Container "(string \<times> 'c) list"

type_synonym 'c registry = "(string \<times> 'c entry) list"

text \<open>What a look-up gives: a registered class, or a member that every object has.\<close>

datatype 'c found = Class 'c | Object_Member string

datatype 'c slot = Own "'c entry" | Alien string

text \<open>A read of the storage. Writing \<open>__proto__\<close> adds no member.\<close>

definition slot_of :: "'c registry \<Rightarrow> string \<Rightarrow> 'c slot option" where
  "slot_of reg main = (case map_of reg main of Some e \<Rightarrow> Some (Own e)
     | None \<Rightarrow> if main \<in> set object_members then Some (Alien main) else None)"

definition set_slot :: "string \<Rightarrow> 'c entry \<Rightarrow> 'c registry \<Rightarrow> 'c registry" where
  "set_slot main e reg = (if main = ''__proto__'' then reg else AList.update main e reg)"

definition makeContainer :: "'c registry \<Rightarrow> string \<Rightarrow> (string \<times> 'c) list" where
  "makeContainer reg main = (case slot_of reg main of Some (Own (Container cs)) \<Rightarrow> cs | _ \<Rightarrow> [])"

definition registerClass :: "'c \<Rightarrow> string \<Rightarrow> 'c registry \<Rightarrow> 'c registry" where
  "registerClass Clazz componentType reg =
     (if componentType = '''' then reg
      else let (main, sub) = parseClassType componentType in
        if sub = '''' then set_slot main (Single Clazz) reg
        else if sub \<noteq> IS_CONTAINER then
          set_slot main (Container (if sub = ''__proto__'' then makeContainer reg main else AList.update sub Clazz (makeContainer reg main))) reg
        else reg)"

datatype reg_error = Not_Exists string

definition sub_class :: "(string \<times> 'c) list \<Rightarrow> string \<Rightarrow> 'c found option" where
  "sub_class cs sub = (case map_of cs sub of Some c \<Rightarrow> Some (Class c)
     | None \<Rightarrow> if sub \<in> set object_members \<or> sub = IS_CONTAINER then Some (Object_Member sub) else None)"

text \<open>A missing sub type is the empty text.\<close>

definition getClass :: "string \<Rightarrow> string \<Rightarrow> bool \<Rightarrow> 'c registry \<Rightarrow> reg_error + 'c found option" where
  "getClass main subType throwWhenNotFound reg =
     (let Clazz = (case slot_of reg main of
            None \<Rightarrow> None
          | Some (Alien m) \<Rightarrow> Some (Object_Member m)
          | Some (Own (Single c)) \<Rightarrow> Some (Class c)
          | Some (Own (Container cs)) \<Rightarrow> if subType = '''' then None else sub_class cs subType) in
      if throwWhenNotFound \<and> Clazz = None
      then Inl (Not_Exists (''Component '' @ main @ ''.'' @ subType @ '' not exists. Load it first.''))
      else Inr Clazz)"

definition getClassesByMainType :: "string \<Rightarrow> 'c registry \<Rightarrow> 'c found option list" where
  "getClassesByMainType componentType reg =
     (case slot_of reg (fst (parseClassType componentType)) of
        Some (Own (Container cs)) \<Rightarrow> map (\<lambda>(_, c). Some (Class c)) cs
      | Some (Own (Single c)) \<Rightarrow> [Some (Class c)]
      | Some (Alien m) \<Rightarrow> [Some (Object_Member m)]
      | None \<Rightarrow> [None])"

definition hasClass :: "string \<Rightarrow> 'c registry \<Rightarrow> bool" where
  "hasClass componentType reg \<longleftrightarrow> slot_of reg (fst (parseClassType componentType)) \<noteq> None"

definition getAllClassMainTypes :: "'c registry \<Rightarrow> string list" where
  "getAllClassMainTypes reg = map fst reg"

definition hasSubTypes :: "string \<Rightarrow> 'c registry \<Rightarrow> bool" where
  "hasSubTypes componentType reg =
     (case slot_of reg (fst (parseClassType componentType)) of Some (Own (Container _)) \<Rightarrow> True | _ \<Rightarrow> False)"

section \<open>Default sub types and unique names\<close>

type_synonym 'o defaulters = "string \<rightharpoonup> ('o \<Rightarrow> string)"

definition registerSubTypeDefaulter :: "string \<Rightarrow> ('o \<Rightarrow> string) \<Rightarrow> 'o defaulters \<Rightarrow> 'o defaulters" where
  "registerSubTypeDefaulter componentType defaulter ds =
     (let main = fst (parseClassType componentType) in if main = ''__proto__'' then ds else ds(main \<mapsto> defaulter))"

text \<open>The type an option names, if any; else what the defaulter says, if there are sub types to choose from.\<close>

definition determineSubType :: "string \<Rightarrow> ('o \<Rightarrow> string) \<Rightarrow> 'o \<Rightarrow> 'c registry \<Rightarrow> 'o defaulters \<Rightarrow> string found option" where
  "determineSubType componentType type_of_option opt reg ds =
     (if type_of_option opt \<noteq> '''' then Some (Class (type_of_option opt))
      else let main = fst (parseClassType componentType) in
        if hasSubTypes componentType reg then
          (case ds main of Some f \<Rightarrow> Some (Class (f opt))
           | None \<Rightarrow> if main \<in> set object_members then Some (Object_Member main) else None)
        else None)"

text \<open>The counter and the random text make the name.\<close>

definition getUID :: "string \<Rightarrow> string \<Rightarrow> nat \<Rightarrow> string \<times> nat" where
  "getUID ty random base = (ty @ ''_'' @ dec base @ ''_'' @ random, base + 1)"

section \<open>Coordinate systems\<close>

text \<open>Creators by type, in the order they were registered; a creator may give no list.\<close>

type_synonym ('e, 's) creators = "(string \<times> ('e \<Rightarrow> 's list option)) list"

definition registerCoord :: "string \<Rightarrow> ('e \<Rightarrow> 's list option) \<Rightarrow> ('e, 's) creators \<Rightarrow> ('e, 's) creators" where
  "registerCoord ty creator cs = (if ty = ''__proto__'' then cs else AList.update ty creator cs)"

definition createCoords :: "'e \<Rightarrow> ('e, 's) creators \<Rightarrow> 's list" where
  "createCoords env cs = foldl (\<lambda>systems (_, creator). systems @ (case creator env of None \<Rightarrow> [] | Some l \<Rightarrow> l)) [] cs"

text \<open>Each system that can update itself does, in order.\<close>

definition updateCoords :: "('s \<Rightarrow> ('e \<Rightarrow> 's) option) \<Rightarrow> 'e \<Rightarrow> 's list \<Rightarrow> 's list" where
  "updateCoords update env systems = map (\<lambda>s. case update s of None \<Rightarrow> s | Some f \<Rightarrow> f env) systems"

section \<open>What was registered is found\<close>

lemma slot_of_set [simp]:
  "main' \<noteq> ''__proto__'' \<Longrightarrow> slot_of (set_slot main' e reg) main = (if main = main' then Some (Own e) else slot_of reg main)"
  by (simp add: slot_of_def set_slot_def update_conv')

lemma getClass_registered:
  assumes "parseClassType ct = (main, sub)" "ct \<noteq> ''''" "main \<noteq> ''__proto__''" "sub \<noteq> ''__proto__''" "sub \<noteq> IS_CONTAINER"
  shows "getClass main sub throw (registerClass c ct reg) = Inr (Some (Class c))"
    and "main' \<noteq> main \<Longrightarrow> getClass main' sub' throw (registerClass c ct reg) = getClass main' sub' throw reg"
  using assms by (simp_all add: registerClass_def getClass_def sub_class_def update_conv')

text \<open>Another sub type stays where it is; a class without sub types makes way for the container.\<close>

lemma getClass_other_sub:
  assumes "parseClassType ct = (main, sub)" "ct \<noteq> ''''" "main \<noteq> ''__proto__''" "sub \<noteq> ''''" "sub \<noteq> ''__proto__''" "sub \<noteq> IS_CONTAINER"
    and "hasSubTypes main reg" "parseClassType main = (main, '''')" "sub' \<noteq> sub"
  shows "getClass main sub' throw (registerClass c ct reg) = getClass main sub' throw reg"
  using assms by (auto simp: registerClass_def getClass_def sub_class_def update_conv' makeContainer_def hasSubTypes_def split: slot.splits entry.splits option.splits)

lemma sub_type_displaces_class: "getClass ''bar'' '''' False (registerClass c' ''bar.horizontal'' (registerClass c ''bar'' [])) = Inr None"
  by (simp add: registerClass_def parseClassType_def nth_name_def getClass_def makeContainer_def slot_of_def set_slot_def IS_CONTAINER_def)

lemma inherited_class_found: "getClass ''valueOf'' '''' True [] = Inr (Some (Object_Member ''valueOf''))"
  by (simp add: getClass_def slot_of_def object_members_def)

text \<open>Names with different counters are different, whatever the types and the random texts.\<close>

lemma last_mark:
  assumes "x @ c # y = x' @ c # y'" "c \<notin> set y" "c \<notin> set y'"
  shows "x = x' \<and> y = y'"
  using assms
proof (induction x arbitrary: x')
  case Nil
  then show ?case by (cases x') auto
next
  case (Cons a x)
  then show ?case by (cases x') auto
qed

lemma getUID_distinct:
  assumes "fst (getUID ty r b) = fst (getUID ty' r' b')" "CHR ''_'' \<notin> set r" "CHR ''_'' \<notin> set r'"
  shows "b = b'"
proof -
  have nd: "CHR ''_'' \<notin> set (dec n)" for n using dec_digits by (force simp: is_digit_def)
  have "(ty @ CHR ''_'' # dec b) @ CHR ''_'' # r = (ty' @ CHR ''_'' # dec b') @ CHR ''_'' # r'"
    using assms(1) by (simp add: getUID_def)
  then have "ty @ CHR ''_'' # dec b = ty' @ CHR ''_'' # dec b'" using last_mark [OF _ assms(2,3)] by metis
  then have "dec b = dec b'" using last_mark [OF _ nd nd] by metis
  then show ?thesis by simp
qed

lemma createCoords_in_order: "createCoords env cs = concat (map (\<lambda>(_, creator). case creator env of None \<Rightarrow> [] | Some l \<Rightarrow> l) cs)"
proof -
  have "foldl (\<lambda>systems (_, creator). systems @ (case creator env of None \<Rightarrow> [] | Some l \<Rightarrow> l)) acc cs =
      acc @ concat (map (\<lambda>(_, creator). case creator env of None \<Rightarrow> [] | Some l \<Rightarrow> l) cs)" for acc
    by (induction cs arbitrary: acc) auto
  then show ?thesis by (simp add: createCoords_def)
qed

end
