(* ===== verification/Component_Mapping.thy ===== *)
theory Component_Mapping
  imports Js_Strings "HOL-Library.Multiset" "HOL-Library.Monad_Syntax"
begin

text \<open>
  Which new option goes to which existing component, and what a component is called:
  \<open>mappingToExists\<close> and \<open>makeIdAndName\<close> of \<open>util/model\<close> (module 5). Identifiers and names are texts
  or other values with a text; what else a component or an option holds is a parameter type.
\<close>

section \<open>Components and options\<close>

text \<open>A key that is a text, or another value by its text and whether it counts as true.\<close>

datatype key = Key_Text string | Key_Other string bool

fun key_text :: "key \<Rightarrow> string" where
  "key_text (Key_Text s) = s"
| "key_text (Key_Other s _) = s"

fun key_true :: "key \<Rightarrow> bool" where
  "key_true (Key_Text s) = (s \<noteq> '''')"
| "key_true (Key_Other _ b) = b"

record 'v cpt =
  c_id :: "key option"
  c_name :: "key option"
  c_val :: 'v

definition inner_prefix :: string where
  "inner_prefix = [CHR 0x00] @ ''_ec_'' @ [CHR 0x00]"

definition isIdInner :: "'v cpt \<Rightarrow> bool" where
  "isIdInner c \<longleftrightarrow> (case c_id c of None \<Rightarrow> False | Some k \<Rightarrow> key_true k \<and> take (length inner_prefix) (key_text k) = inner_prefix)"

text \<open>One entry of the result: an existing component, an option, or both.\<close>

record ('e, 'o) entry =
  en_exist :: "'e cpt option"
  en_option :: "'o cpt option"

section \<open>Mapping\<close>

definition id_matches :: "'o cpt \<Rightarrow> ('e, 'o) entry \<Rightarrow> bool" where
  "id_matches opt it \<longleftrightarrow> en_option it = None \<and> (case (c_id opt, en_exist it) of
     (Some k, Some ex) \<Rightarrow> c_id ex = Some (Key_Text (key_text k)) | _ \<Rightarrow> False)"

definition name_matches :: "'o cpt \<Rightarrow> ('e, 'o) entry \<Rightarrow> bool" where
  "name_matches opt it \<longleftrightarrow> en_option it = None \<and> (case (c_name opt, en_exist it) of
     (Some n, Some ex) \<Rightarrow> (c_id ex = None \<or> c_id opt = None) \<and> \<not> isIdInner opt \<and> \<not> isIdInner ex \<and> c_name ex = Some (Key_Text (key_text n))
   | _ \<Rightarrow> False)"

definition free_for :: "'o cpt \<Rightarrow> ('e, 'o) entry \<Rightarrow> bool" where
  "free_for opt it \<longleftrightarrow> en_option it = None \<and> (case en_exist it of None \<Rightarrow> True | Some ex \<Rightarrow> \<not> isIdInner ex) \<and> c_id opt = None"

text \<open>The option is put at the first entry that passes a test, if there is one.\<close>

fun put_first :: "(('e, 'o) entry \<Rightarrow> bool) \<Rightarrow> 'o cpt \<Rightarrow> ('e, 'o) entry list \<Rightarrow> ('e, 'o) entry list option" where
  "put_first p opt [] = None"
| "put_first p opt (it # its) =
     (if p it then Some (it\<lparr>en_option := Some opt\<rparr> # its) else map_option ((#) it) (put_first p opt its))"

text \<open>By identifier or name: the entries, and what is left of the options. \<open>None\<close> is an option that is no object.\<close>

fun mapByKey :: "'o cpt option list \<Rightarrow> ('e, 'o) entry list \<Rightarrow> ('e, 'o) entry list \<times> 'o cpt option list" where
  "mapByKey [] result = (result, [])"
| "mapByKey (None # opts) result = (let (r, left) = mapByKey opts result in (r, None # left))"
| "mapByKey (Some opt # opts) result =
     (case put_first (id_matches opt) opt result of
        Some r \<Rightarrow> (let (r, left) = mapByKey opts r in (r, None # left))
      | None \<Rightarrow>
          (case put_first (name_matches opt) opt result of
             Some r \<Rightarrow> (let (r, left) = mapByKey opts r in (r, None # left))
           | None \<Rightarrow> (let (r, left) = mapByKey opts result in (r, Some opt # left))))"

text \<open>The rest by position, or at the end.\<close>

fun mapByIndex :: "'o cpt option list \<Rightarrow> ('e, 'o) entry list \<Rightarrow> ('e, 'o) entry list" where
  "mapByIndex [] result = result"
| "mapByIndex (None # opts) result = mapByIndex opts result"
| "mapByIndex (Some opt # opts) result =
     mapByIndex opts (case put_first (free_for opt) opt result of
        Some r \<Rightarrow> r | None \<Rightarrow> result @ [\<lparr>en_exist = None, en_option = Some opt\<rparr>])"

definition mappingToExists :: "'e cpt list \<Rightarrow> 'o cpt option list \<Rightarrow> ('e, 'o) entry list" where
  "mappingToExists exists newCptOptions =
     (let (result, left) = mapByKey newCptOptions (map (\<lambda>ex. \<lparr>en_exist = Some ex, en_option = None\<rparr>) exists) in
      mapByIndex left result)"

section \<open>Identifiers\<close>

text \<open>
  The dictionary of identifiers is a plain object of entries, here their positions. An
  existing component has an identifier; without one its key is the text \<open>undefined\<close>.
\<close>

definition exist_key :: "'e cpt \<Rightarrow> string" where
  "exist_key ex = (case c_id ex of None \<Rightarrow> ''undefined'' | Some k \<Rightarrow> key_text k)"

definition set_id :: "string \<Rightarrow> nat \<Rightarrow> (string \<rightharpoonup> nat) \<Rightarrow> (string \<rightharpoonup> nat)" where
  "set_id k i m = (if k = ''__proto__'' then m else m(k \<mapsto> i))"

definition noteExists :: "('e, 'o) entry list \<Rightarrow> (string \<rightharpoonup> nat)" where
  "noteExists its = foldl (\<lambda>m (i, it). case en_exist it of None \<Rightarrow> m | Some ex \<Rightarrow> set_id (exist_key ex) i m) Map.empty (enumerate 0 its)"

text \<open>An identifier that another entry has, or that every object has, fails the assertion.\<close>

fun noteOptions :: "(nat \<times> ('e, 'o) entry) list \<Rightarrow> (string \<rightharpoonup> nat) \<Rightarrow> (string \<rightharpoonup> nat) option" where
  "noteOptions [] m = Some m"
| "noteOptions ((i, it) # its) m =
     (case Option.bind (en_option it) c_id of
        None \<Rightarrow> noteOptions its m
      | Some k \<Rightarrow>
          if has_key m (key_text k) \<and> m (key_text k) \<noteq> Some i then None
          else noteOptions its (set_id (key_text k) i m))"

partial_function (option) freshId :: "string \<Rightarrow> nat \<Rightarrow> (string \<rightharpoonup> nat) \<Rightarrow> string option" where
  "freshId name idNum m =
     (let k = [CHR 0x00] @ name @ [CHR 0x00] @ dec idNum in
      if has_key m k then freshId name (idNum + 1) m else Some k)"

declare freshId.simps [code]

record keyinfo =
  ki_name :: string
  ki_id :: string

text \<open>The name that is given, or that of the existing component, or a mark; its own identifier stays.\<close>

definition name_for :: "('e, 'o) entry \<Rightarrow> string" where
  "name_for it = (case Option.bind (en_option it) c_name of
      Some n \<Rightarrow> key_text n
    | None \<Rightarrow> (case en_exist it of
        Some ex \<Rightarrow> (case c_name ex of None \<Rightarrow> ''undefined'' | Some n \<Rightarrow> key_text n)
      | None \<Rightarrow> [CHR 0x00, CHR ''-'']))"

definition id_for :: "('e, 'o) entry \<Rightarrow> (string \<rightharpoonup> nat) \<Rightarrow> string option" where
  "id_for it m = (case en_exist it of
      Some ex \<Rightarrow> Some (exist_key ex)
    | None \<Rightarrow> (case Option.bind (en_option it) c_id of
        Some k \<Rightarrow> Some (key_text k)
      | None \<Rightarrow> freshId (name_for it) 0 m))"

text \<open>Entries without an option get neither name nor identifier.\<close>

fun makeKeys :: "(nat \<times> ('e, 'o) entry) list \<Rightarrow> (string \<rightharpoonup> nat) \<Rightarrow> keyinfo option list option" where
  "makeKeys [] m = Some []"
| "makeKeys ((i, it) # its) m =
     (if en_option it = None then map_option ((#) None) (makeKeys its m)
      else do { k \<leftarrow> id_for it m;
                rest \<leftarrow> makeKeys its (set_id k i m);
                Some (Some \<lparr>ki_name = name_for it, ki_id = k\<rparr> # rest) })"

definition makeIdAndName :: "('e, 'o) entry list \<Rightarrow> keyinfo option list option" where
  "makeIdAndName its = do { m \<leftarrow> noteOptions (enumerate 0 its) (noteExists its); makeKeys (enumerate 0 its) m }"


section \<open>Nothing is lost\<close>

abbreviation objects :: "'o cpt option list \<Rightarrow> 'o cpt list" where
  "objects opts \<equiv> List.map_filter (\<lambda>x. x) opts"

abbreviation given :: "('e, 'o) entry list \<Rightarrow> 'o cpt list" where
  "given its \<equiv> List.map_filter en_option its"

lemma map_filter_simps [simp]:
  "List.map_filter f [] = []" "List.map_filter f (x # xs) = (case f x of None \<Rightarrow> [] | Some y \<Rightarrow> [y]) @ List.map_filter f xs"
  "List.map_filter f (xs @ ys) = List.map_filter f xs @ List.map_filter f ys"
  by (simp_all add: List.map_filter_def split: option.split)

lemma in_set_member_filter: "x \<in> set xs \<Longrightarrow> f x = Some y \<Longrightarrow> y \<in> set (List.map_filter f xs)"
  by (induction xs) (auto split: option.splits)

lemma put_first_given:
  assumes "put_first p opt its = Some r" "\<And>it. p it \<Longrightarrow> en_option it = None"
  shows "map en_exist r = map en_exist its \<and> mset (given r) = add_mset opt (mset (given its))"
  using assms(1)
proof (induction its arbitrary: r)
  case (Cons it its)
  show ?case
  proof (cases "p it")
    case True
    then show ?thesis using Cons.prems assms(2) by auto
  next
    case False
    then obtain r' where "put_first p opt its = Some r'" "r = it # r'" using Cons.prems by auto
    then show ?thesis using Cons.IH by (auto split: option.split)
  qed
qed simp

lemma tests_free: "id_matches opt it \<Longrightarrow> en_option it = None" "name_matches opt it \<Longrightarrow> en_option it = None" "free_for opt it \<Longrightarrow> en_option it = None"
  by (simp_all add: id_matches_def name_matches_def free_for_def)

lemma mapByKey_given:
  "mapByKey opts its = (r, left) \<Longrightarrow>
    map en_exist r = map en_exist its \<and> mset (given r) + mset (objects left) = mset (given its) + mset (objects opts)"
proof (induction opts its arbitrary: r left rule: mapByKey.induct)
  case (2 opts result)
  then show ?case by (auto simp: Let_def split: prod.splits)
next
  case (3 opt opts result)
  show ?case
  proof (cases "put_first (id_matches opt) opt result")
    case (Some r1)
    note g = put_first_given [OF Some tests_free(1)]
    obtain r2 l2 where m: "mapByKey opts r1 = (r2, l2)" by fastforce
    then have "r = r2 \<and> left = None # l2" using "3.prems" Some by simp
    then show ?thesis using "3.IH"(3) [OF Some m] g by simp
  next
    case None
    note n = None
    show ?thesis
    proof (cases "put_first (name_matches opt) opt result")
      case (Some r1)
      note g = put_first_given [OF Some tests_free(2)]
      obtain r2 l2 where m: "mapByKey opts r1 = (r2, l2)" by fastforce
      then have "r = r2 \<and> left = None # l2" using "3.prems" Some n by simp
      then show ?thesis using "3.IH"(2) [OF n Some m] g by simp
    next
      case None
      obtain r2 l2 where m: "mapByKey opts result = (r2, l2)" by fastforce
      then have "r = r2 \<and> left = Some opt # l2" using "3.prems" None n by simp
      then show ?thesis using "3.IH"(1) [OF n None m] by simp
    qed
  qed
qed simp

lemma mapByIndex_given:
  "\<exists>new. map en_exist (mapByIndex opts its) = map en_exist its @ replicate new None \<and>
    mset (given (mapByIndex opts its)) = mset (given its) + mset (objects opts)"
proof (induction opts its rule: mapByIndex.induct)
  case (1 result)
  then show ?case by (intro exI [of _ 0]) simp
next
  case (3 opt opts result)
  show ?case
  proof (cases "put_first (free_for opt) opt result")
    case (Some r1)
    note g = put_first_given [OF Some tests_free(3)]
    show ?thesis using "3.IH" g Some by simp
  next
    case None
    then obtain new where "map en_exist (mapByIndex (Some opt # opts) result) = (map en_exist result @ [None]) @ replicate new None"
        "mset (given (mapByIndex (Some opt # opts) result)) = mset (given result) + mset (objects (Some opt # opts))"
      using "3.IH" by auto
    then show ?thesis by (intro exI [of _ "Suc new"]) simp
  qed
qed simp

text \<open>
  Every existing component keeps its position, further entries are only added behind them, and
  every option that is an object is in exactly one entry.
\<close>

lemma mappingToExists_given:
  "\<exists>new. map en_exist (mappingToExists exists opts) = map Some exists @ replicate new None \<and>
    mset (given (mappingToExists exists opts)) = mset (objects opts)"
proof -
  let ?its = "map (\<lambda>ex. \<lparr>en_exist = Some ex, en_option = None\<rparr>) exists"
  obtain r left where m: "mapByKey opts ?its = (r, left)" by fastforce
  have "map en_exist ?its = map Some exists" "given ?its = []" by (induction exists) auto
  then have "map en_exist r = map Some exists" "mset (given r) + mset (objects left) = mset (objects opts)"
    using mapByKey_given [OF m] by simp_all
  moreover have "mappingToExists exists opts = mapByIndex left r" using m by (simp add: mappingToExists_def Let_def)
  ultimately show ?thesis using mapByIndex_given [of left r] by metis
qed

section \<open>Properties\<close>



section \<open>Identifiers are found, and are different\<close>

text \<open>The keys that an entry takes by what is given in it.\<close>

definition claims :: "('e, 'o) entry \<Rightarrow> string set" where
  "claims it = (case en_exist it of None \<Rightarrow> {} | Some ex \<Rightarrow> {exist_key ex}) \<union>
     (case Option.bind (en_option it) c_id of None \<Rightarrow> {} | Some k \<Rightarrow> {key_text k})"

lemma claimsI:
  "en_exist it = Some ex \<Longrightarrow> exist_key ex \<in> claims it"
  "Option.bind (en_option it) c_id = Some k \<Longrightarrow> key_text k \<in> claims it"
  by (simp_all add: claims_def)

abbreviation mark :: "string \<Rightarrow> nat \<Rightarrow> string" where
  "mark name i \<equiv> [CHR 0x00] @ name @ [CHR 0x00] @ dec i"

lemma freshId_returns:
  assumes "finite (dom m)"
  shows "\<exists>k. freshId name n m = Some k \<and> \<not> has_key m k"
proof -
  define taken where "taken = {i. has_key m (mark name i)}"
  have "inj (mark name)" by (rule injI) simp
  moreover have "taken \<subseteq> mark name -` (dom m \<union> set object_members)" by (auto simp: taken_def has_key_def)
  ultimately have fin: "finite taken"
    using finite_vimageI [of "dom m \<union> set object_members" "mark name"] assms by (meson finite_Un finite_set finite_subset)
  show ?thesis
  proof (induction "card {i \<in> taken. n \<le> i}" arbitrary: n rule: less_induct)
    case less
    show ?case
    proof (cases "n \<in> taken")
      case True
      then have "n \<in> {i \<in> taken. n \<le> i}" "n \<notin> {i \<in> taken. n + 1 \<le> i}" by simp_all
      moreover have "{i \<in> taken. n + 1 \<le> i} \<subseteq> {i \<in> taken. n \<le> i}" by (rule Collect_mono) simp
      ultimately have "{i \<in> taken. n + 1 \<le> i} \<subset> {i \<in> taken. n \<le> i}" by blast
      moreover have "finite {i \<in> taken. n \<le> i}" using fin by simp
      ultimately have "card {i \<in> taken. n + 1 \<le> i} < card {i \<in> taken. n \<le> i}" by (intro psubset_card_mono)
      from less [OF this] show ?thesis using True by (simp add: freshId.simps [of name n] taken_def)
    qed (simp add: freshId.simps [of name n] taken_def)
  qed
qed

text \<open>Entries with their positions, no two of which claim one key.\<close>

definition apart :: "(nat \<times> ('e, 'o) entry) set \<Rightarrow> bool" where
  "apart X \<longleftrightarrow> (\<forall>(i, it) \<in> X. \<forall>(j, it') \<in> X. claims it \<inter> claims it' \<noteq> {} \<longrightarrow> i = j)
     \<and> (\<forall>(i, it) \<in> X. ''__proto__'' \<notin> claims it)"

lemma apartD: "apart X \<Longrightarrow> (i, it) \<in> X \<Longrightarrow> (j, it') \<in> X \<Longrightarrow> k \<in> claims it \<Longrightarrow> k \<in> claims it' \<Longrightarrow> i = j"
  unfolding apart_def by blast

lemma apart_proto: "apart X \<Longrightarrow> (i, it) \<in> X \<Longrightarrow> k \<in> claims it \<Longrightarrow> k \<noteq> ''__proto__''"
  unfolding apart_def by blast

definition held :: "(nat \<times> ('e, 'o) entry) set \<Rightarrow> (string \<rightharpoonup> nat) \<Rightarrow> bool" where
  "held X m \<longleftrightarrow> finite (dom m) \<and> (\<forall>k i. m k = Some i \<longrightarrow> (\<exists>it. (i, it) \<in> X \<and> k \<in> claims it))"

lemma held_set_id: "held X m \<Longrightarrow> (i, it) \<in> X \<Longrightarrow> k \<in> claims it \<Longrightarrow> held X (set_id k i m)"
  unfolding held_def set_id_def by auto

lemma noteExists_held:
  assumes "apart X" "set xs \<subseteq> X"
  defines "m \<equiv> foldl (\<lambda>m (i, it). case en_exist it of None \<Rightarrow> m | Some ex \<Rightarrow> set_id (exist_key ex) i m) Map.empty xs"
  shows "held X m \<and> (\<forall>(i, it) \<in> set xs. \<forall>ex. en_exist it = Some ex \<longrightarrow> m (exist_key ex) = Some i)"
  using assms(2) unfolding m_def
proof (induction xs rule: rev_induct)
  case Nil
  then show ?case by (simp add: held_def)
next
  case (snoc x xs)
  obtain i it where x: "x = (i, it)" by fastforce
  let ?f = "\<lambda>m (i, it). case en_exist it of None \<Rightarrow> m | Some ex \<Rightarrow> set_id (exist_key ex) i m"
  let ?m = "foldl ?f Map.empty xs"
  have IH: "held X ?m" "\<And>j it' ex. (j, it') \<in> set xs \<Longrightarrow> en_exist it' = Some ex \<Longrightarrow> ?m (exist_key ex) = Some j"
    using snoc.IH snoc.prems by auto
  show ?case
  proof (cases "en_exist it")
    case None
    then show ?thesis using IH x by auto
  next
    case (Some ex)
    have c: "(i, it) \<in> X" "exist_key ex \<in> claims it" using snoc.prems x Some by (auto intro: claimsI)
    have "set_id (exist_key ex) i ?m (exist_key ex') = Some j" if "(j, it') \<in> set xs" "en_exist it' = Some ex'" for j it' ex'
    proof -
      have "(j, it') \<in> X" "exist_key ex' \<in> claims it'" using that snoc.prems by (auto intro: claimsI)
      then have "exist_key ex' = exist_key ex \<Longrightarrow> j = i" using apartD [OF assms(1) _ c(1)] c(2) by metis
      then show ?thesis using IH(2) [OF that] by (auto simp: set_id_def)
    qed
    moreover have "set_id (exist_key ex) i ?m (exist_key ex) = Some i" using apart_proto [OF assms(1) c] by (simp add: set_id_def)
    ultimately show ?thesis using held_set_id [OF IH(1) c] x Some by auto
  qed
qed

lemma noteOptions_held:
  assumes "apart X" "set xs \<subseteq> X" "held X m"
    and "\<forall>(i, it) \<in> set xs. \<forall>k. Option.bind (en_option it) c_id = Some k \<longrightarrow> key_text k \<notin> set object_members"
  shows "\<exists>m'. noteOptions xs m = Some m' \<and> held X m' \<and> m \<subseteq>\<^sub>m m' \<and>
    (\<forall>(i, it) \<in> set xs. \<forall>k. Option.bind (en_option it) c_id = Some k \<longrightarrow> m' (key_text k) = Some i)"
  using assms(2-)
proof (induction xs arbitrary: m)
  case (Cons x xs)
  obtain i it where x: "x = (i, it)" by fastforce
  have mem: "(i, it) \<in> X" "set xs \<subseteq> X" using Cons.prems(1) x by auto
  have plain: "\<forall>(i, it) \<in> set xs. \<forall>k. Option.bind (en_option it) c_id = Some k \<longrightarrow> key_text k \<notin> set object_members"
    using Cons.prems(3) by simp
  show ?case
  proof (cases "Option.bind (en_option it) c_id")
    case None
    then show ?thesis using Cons.IH [OF mem(2) Cons.prems(2) plain] x by auto
  next
    case (Some k)
    have c: "key_text k \<in> claims it" using Some by (rule claimsI)
    have own: "m (key_text k) = Some j \<Longrightarrow> j = i" for j
      using Cons.prems(2) apartD [OF assms(1) _ mem(1) _ c] unfolding held_def by blast
    let ?m = "set_id (key_text k) i m"
    have k: "key_text k \<notin> set object_members" using Cons.prems(3) Some x by simp
    then have np: "key_text k \<noteq> ''__proto__''" by (auto simp: object_members_def)
    have le: "m \<subseteq>\<^sub>m ?m" "?m (key_text k) = Some i" using own np by (auto simp: map_le_def set_id_def)
    have "\<not> (has_key m (key_text k) \<and> m (key_text k) \<noteq> Some i)" using k own by (cases "m (key_text k)") (auto simp: has_key_def)
    then have step: "noteOptions (x # xs) m = noteOptions xs ?m" using Some x by auto
    obtain m' where m': "noteOptions xs ?m = Some m'" "held X m'" "?m \<subseteq>\<^sub>m m'"
        "\<forall>(i, it) \<in> set xs. \<forall>k. Option.bind (en_option it) c_id = Some k \<longrightarrow> m' (key_text k) = Some i"
      using Cons.IH [OF mem(2) held_set_id [OF Cons.prems(2) mem(1) c] plain] by blast
    have "m' (key_text k) = Some i" using m'(3) le(2) by (metis domI map_le_def)
    then show ?thesis using step m' map_le_trans [OF le(1) m'(3)] Some x by auto
  qed
qed simp

text \<open>What an entry at a position gets.\<close>

definition keyed :: "(string \<rightharpoonup> nat) \<Rightarrow> nat \<times> ('e, 'o) entry \<Rightarrow> keyinfo option \<Rightarrow> bool" where
  "keyed m x k = (case x of (i, it) \<Rightarrow> (case k of None \<Rightarrow> en_option it = None
      | Some k \<Rightarrow> en_option it \<noteq> None \<and> ki_name k = name_for it \<and> m (ki_id k) = Some i \<and> (if claims it = {} then ki_id k \<notin> set object_members else ki_id k \<in> claims it)))"

lemma keyed_simps:
  "keyed m (i, it) None \<longleftrightarrow> en_option it = None"
  "keyed m (i, it) (Some k) \<longleftrightarrow> en_option it \<noteq> None \<and> ki_name k = name_for it \<and> m (ki_id k) = Some i \<and> (if claims it = {} then ki_id k \<notin> set object_members else ki_id k \<in> claims it)"
  by (simp_all add: keyed_def)

lemma proto_member: "''__proto__'' \<in> set object_members"
  by (simp add: object_members_def)

lemma makeKeys_claim:
  assumes "finite (dom m)" "\<And>i it k. (i, it) \<in> set xs \<Longrightarrow> k \<in> claims it \<Longrightarrow> m k = Some i"
    "\<And>i it. (i, it) \<in> set xs \<Longrightarrow> ''__proto__'' \<notin> claims it"
  shows "\<exists>ks m'. makeKeys xs m = Some ks \<and> m \<subseteq>\<^sub>m m' \<and>
    list_all2 (keyed m') xs ks"
  using assms
proof (induction xs arbitrary: m)
  case (Cons x xs)
  obtain i it where x: "x = (i, it)" by fastforce
  have later: "m k = Some j" "''__proto__'' \<notin> claims it'" if "(j, it') \<in> set xs" "k \<in> claims it'" for j it' k
    using Cons.prems(2,3) that by (metis list.set_intros(2))+
  show ?case
  proof (cases "en_option it = None")
    case True
    have "\<exists>ks m'. makeKeys xs m = Some ks \<and> m \<subseteq>\<^sub>m m' \<and>
      list_all2 (keyed m') xs ks"
      using Cons.prems(1) later by (intro Cons.IH) blast+
    then obtain ks m' where "makeKeys xs m = Some ks" "m \<subseteq>\<^sub>m m'"
      "list_all2 (keyed m') xs ks" by blast
    then show ?thesis using x True by (intro exI [of _ "None # ks"] exI [of _ m']) (simp add: keyed_simps)
  next
    case False
    have "\<exists>k. id_for it m = Some k \<and> k \<noteq> ''__proto__'' \<and> (m k = Some i \<or> m k = None) \<and> (if claims it = {} then k \<notin> set object_members else k \<in> claims it)"
    proof (cases "claims it = {}")
      case True
      then have "id_for it m = freshId (name_for it) 0 m"
        unfolding id_for_def claims_def by (auto split: option.splits)
      moreover obtain k where "freshId (name_for it) 0 m = Some k" "m k = None" "k \<notin> set object_members"
        using freshId_returns [OF Cons.prems(1), of "name_for it" 0] unfolding has_key_def by blast
      moreover from this(3) have "k \<noteq> ''__proto__''" using proto_member by blast
      ultimately show ?thesis using True by simp
    next
      case False
      then obtain k where k: "id_for it m = Some k" "k \<in> claims it"
        unfolding id_for_def claims_def by (auto split: option.splits)
      have "(i, it) \<in> set (x # xs)" using x by simp
      then have "m k = Some i" "''__proto__'' \<notin> claims it" using Cons.prems(2) [OF _ k(2)] Cons.prems(3) by blast+
      then have "k \<noteq> ''__proto__''" "m k = Some i" using k(2) by auto
      then show ?thesis using k False by simp
    qed
    then obtain k where k: "id_for it m = Some k" "k \<noteq> ''__proto__''" "m k = Some i \<or> m k = None" "if claims it = {} then k \<notin> set object_members else k \<in> claims it"
      by blast
    let ?m = "set_id k i m"
    have le: "m \<subseteq>\<^sub>m ?m" "?m k = Some i" using k by (auto simp: map_le_def set_id_def)
    have keep: "?m k' = Some j" if "m k' = Some j" for k' j using le(1) that by (metis domI map_le_def)
    have "finite (dom ?m)" using Cons.prems(1) by (simp add: set_id_def)
    then have "\<exists>ks m'. makeKeys xs ?m = Some ks \<and> ?m \<subseteq>\<^sub>m m' \<and>
      list_all2 (keyed m') xs ks"
      using keep later by (intro Cons.IH) blast+
    then obtain ks m' where r: "makeKeys xs ?m = Some ks" "?m \<subseteq>\<^sub>m m'"
      "list_all2 (keyed m') xs ks" by blast
    have "m' k = Some i" using r(2) le(2) by (metis domI map_le_def)
    then show ?thesis using x False k r map_le_trans [OF le(1) r(2)]
      by (intro exI [of _ "Some \<lparr>ki_name = name_for it, ki_id = k\<rparr> # ks"] exI [of _ m']) (simp add: keyed_simps)
  qed
next
  case Nil
  then show ?case by (auto intro: map_le_refl)
qed


lemma keys_noted:
  assumes "apart (set (enumerate 0 its))"
    and "\<forall>it \<in> set its. \<forall>k. Option.bind (en_option it) c_id = Some k \<longrightarrow> key_text k \<notin> set object_members"
  obtains m where "noteOptions (enumerate 0 its) (noteExists its) = Some m" "finite (dom m)"
    "\<forall>i < length its. \<forall>k \<in> claims (its ! i). m k = Some i"
proof -
  let ?xs = "enumerate 0 its"
  have X: "(i, it) \<in> set ?xs \<longleftrightarrow> i < length its \<and> it = its ! i" for i it by (auto simp: in_set_enumerate_eq)
  have e: "held (set ?xs) (noteExists its)" "\<forall>(i, it) \<in> set ?xs. \<forall>ex. en_exist it = Some ex \<longrightarrow> noteExists its (exist_key ex) = Some i"
    unfolding noteExists_def using noteExists_held [OF assms(1) subset_refl] by simp_all
  have plain: "\<forall>(i, it) \<in> set ?xs. \<forall>k. Option.bind (en_option it) c_id = Some k \<longrightarrow> key_text k \<notin> set object_members"
    using assms(2) by (auto simp: X)
  have "\<exists>m. noteOptions ?xs (noteExists its) = Some m \<and> held (set ?xs) m \<and> noteExists its \<subseteq>\<^sub>m m \<and>
      (\<forall>(i, it) \<in> set ?xs. \<forall>k. Option.bind (en_option it) c_id = Some k \<longrightarrow> m (key_text k) = Some i)"
    by (rule noteOptions_held [OF assms(1) subset_refl e(1) plain])
  then obtain m where m: "noteOptions ?xs (noteExists its) = Some m" "held (set ?xs) m" "noteExists its \<subseteq>\<^sub>m m"
      "\<forall>(i, it) \<in> set ?xs. \<forall>k. Option.bind (en_option it) c_id = Some k \<longrightarrow> m (key_text k) = Some i" by blast
  have "m k = Some i" if "i < length its" "k \<in> claims (its ! i)" for i k
  proof -
    have x: "(i, its ! i) \<in> set ?xs" using that(1) by (simp add: X)
    have "(\<exists>ex. en_exist (its ! i) = Some ex \<and> k = exist_key ex) \<or> (\<exists>k'. Option.bind (en_option (its ! i)) c_id = Some k' \<and> k = key_text k')"
      using that(2) unfolding claims_def by (auto split: option.splits)
    then consider ex where "en_exist (its ! i) = Some ex" "k = exist_key ex" | k' where "Option.bind (en_option (its ! i)) c_id = Some k'" "k = key_text k'"
      by blast
    then show ?thesis
    proof cases
      case (1 ex)
      then have "noteExists its k = Some i" using e(2) x by fast
      then show ?thesis using m(3) by (metis domI map_le_def)
    next
      case 2
      then show ?thesis using m(4) x by fast
    qed
  qed
  then show thesis using that m(1,2) unfolding held_def by blast
qed

text \<open>What a result of \<open>makeIdAndName\<close> says, when the existing components have different identifiers.\<close>

lemma noteOptions_sound:
  assumes "noteOptions xs m = Some m'" "\<forall>k \<in> set object_members. m k = None" "finite (dom m)"
  shows "m \<subseteq>\<^sub>m m' \<and> (\<forall>k \<in> set object_members. m' k = None) \<and> finite (dom m') \<and>
    (\<forall>(i, it) \<in> set xs. \<forall>k. Option.bind (en_option it) c_id = Some k \<longrightarrow> m' (key_text k) = Some i)"
  using assms
proof (induction xs arbitrary: m)
  case (Cons x xs)
  obtain i it where x: "x = (i, it)" by fastforce
  show ?case
  proof (cases "Option.bind (en_option it) c_id")
    case None
    then show ?thesis using Cons x by simp
  next
    case (Some k)
    let ?m = "set_id (key_text k) i m"
    have g: "\<not> (has_key m (key_text k) \<and> m (key_text k) \<noteq> Some i)" "noteOptions xs ?m = Some m'"
      using Cons.prems(1) Some x by (auto split: if_splits)
    then have k: "key_text k \<notin> set object_members" "m (key_text k) = None \<or> m (key_text k) = Some i"
      using Cons.prems(2) unfolding has_key_def by force+
    then have np: "key_text k \<noteq> ''__proto__''" by (auto simp: object_members_def)
    have le: "m \<subseteq>\<^sub>m ?m" "?m (key_text k) = Some i" using k(2) np by (auto simp: map_le_def set_id_def)
    have "\<forall>k \<in> set object_members. ?m k = None" "finite (dom ?m)" using Cons.prems(2,3) k(1) by (auto simp: set_id_def)
    note IH = Cons.IH [OF g(2) this]
    then have "m' (key_text k) = Some i" using le(2) by (metis domI map_le_def)
    then show ?thesis using IH map_le_trans [OF le(1)] Some x by auto
  qed
qed auto

abbreviation exist_keys :: "('e, 'o) entry list \<Rightarrow> string list" where
  "exist_keys its \<equiv> map exist_key (List.map_filter en_exist its)"

lemma noteExists_from:
  fixes its :: "('e, 'o) entry list" and m :: "string \<rightharpoonup> nat"
  assumes "distinct (exist_keys its)" "''__proto__'' \<notin> set (exist_keys its)"
  defines "note_in \<equiv> \<lambda>m (i, it). case en_exist it of None \<Rightarrow> m | Some ex \<Rightarrow> set_id (exist_key ex) i m"
  shows "(\<forall>k. k \<notin> set (exist_keys its) \<longrightarrow> foldl note_in m (enumerate n its) k = m k) \<and>
    (\<forall>i < length its. \<forall>ex. en_exist (its ! i) = Some ex \<longrightarrow> foldl note_in m (enumerate n its) (exist_key ex) = Some (n + i)) \<and>
    (finite (dom m) \<longrightarrow> finite (dom (foldl note_in m (enumerate n its))))"
  using assms(1,2)
proof (induction its arbitrary: m n)
  case (Cons it its)
  let ?m = "note_in m (n, it)"
  have IH: "\<And>k. k \<notin> set (exist_keys its) \<Longrightarrow> foldl note_in ?m (enumerate (Suc n) its) k = ?m k"
    "\<And>i ex. i < length its \<Longrightarrow> en_exist (its ! i) = Some ex \<Longrightarrow> foldl note_in ?m (enumerate (Suc n) its) (exist_key ex) = Some (Suc n + i)"
    "finite (dom ?m) \<Longrightarrow> finite (dom (foldl note_in ?m (enumerate (Suc n) its)))"
    using Cons.IH [of ?m "Suc n"] Cons.prems by (auto split: option.splits)
  have e: "foldl note_in m (enumerate n (it # its)) = foldl note_in ?m (enumerate (Suc n) its)" by simp
  have f: "finite (dom m) \<Longrightarrow> finite (dom ?m)" by (simp add: note_in_def set_id_def split: option.split)
  have a: "?m k = m k" if "k \<notin> set (exist_keys (it # its))" for k
    using that by (auto simp: note_in_def set_id_def split: option.splits)
  have b: "foldl note_in ?m (enumerate (Suc n) its) (exist_key ex) = Some n" if "en_exist it = Some ex" for ex
    using IH(1) [of "exist_key ex"] Cons.prems that by (auto simp: note_in_def set_id_def)
  show ?case unfolding e
  proof (intro conjI allI impI)
    fix k
    assume "k \<notin> set (exist_keys (it # its))"
    then show "foldl note_in ?m (enumerate (Suc n) its) k = m k" using IH(1) [of k] a [of k] by (cases "en_exist it") simp_all
  next
    fix i ex
    assume "i < length (it # its)" "en_exist ((it # its) ! i) = Some ex"
    then show "foldl note_in ?m (enumerate (Suc n) its) (exist_key ex) = Some (n + i)" using b IH(2) by (cases i) auto
  qed (use IH(3) f in blast)
qed simp

lemma noteExists_of:
  assumes "distinct (exist_keys its)" "set (exist_keys its) \<inter> set object_members = {}"
  shows "finite (dom (noteExists its))" "\<forall>k \<in> set object_members. noteExists its k = None"
    "\<And>i ex. i < length its \<Longrightarrow> en_exist (its ! i) = Some ex \<Longrightarrow> noteExists its (exist_key ex) = Some i"
proof -
  have "''__proto__'' \<notin> set (exist_keys its)" using assms(2) proto_member by blast
  note n = noteExists_from [OF assms(1) this, of Map.empty 0]
  have other: "noteExists its k = None" if "k \<notin> set (exist_keys its)" for k
    using n that unfolding noteExists_def by blast
  show "\<forall>k \<in> set object_members. noteExists its k = None" using other assms(2) by blast
  show "finite (dom (noteExists its))" "\<And>i ex. i < length its \<Longrightarrow> en_exist (its ! i) = Some ex \<Longrightarrow> noteExists its (exist_key ex) = Some i"
    using n unfolding noteExists_def by simp_all
qed

text \<open>
  Each entry has a position of its own in a dictionary that knows the identifier an existing
  component has and the one that is made.
\<close>

theorem makeIdAndName_result:
  assumes "makeIdAndName its = Some ks" "distinct (exist_keys its)" "set (exist_keys its) \<inter> set object_members = {}"
  shows "length ks = length its \<and> (\<exists>m. \<forall>i < length its.
      (\<forall>ex. en_exist (its ! i) = Some ex \<longrightarrow> m (exist_key ex) = Some i) \<and>
      (case ks ! i of None \<Rightarrow> en_option (its ! i) = None
       | Some k \<Rightarrow> en_option (its ! i) \<noteq> None \<and> m (ki_id k) = Some i \<and> ki_id k \<notin> set object_members))"
proof -
  let ?xs = "enumerate 0 its"
  note e = noteExists_of [OF assms(2,3)]
  obtain m where m: "noteOptions ?xs (noteExists its) = Some m" "makeKeys ?xs m = Some ks"
    using assms(1) by (auto simp: makeIdAndName_def split: Option.bind_splits)
  note o = noteOptions_sound [OF m(1) e(2,1)]
  have X: "(i, it) \<in> set ?xs \<longleftrightarrow> i < length its \<and> it = its ! i" for i it by (auto simp: in_set_enumerate_eq)
  have ex: "m (exist_key ex) = Some i" if "i < length its" "en_exist (its ! i) = Some ex" for i ex
    using e(3) [OF that] o by (metis domI map_le_def)
  have c: "m k = Some i" if "(i, it) \<in> set ?xs" "k \<in> claims it" for i it k
  proof -
    have "(\<exists>ex. en_exist it = Some ex \<and> k = exist_key ex) \<or> (\<exists>k'. Option.bind (en_option it) c_id = Some k' \<and> k = key_text k')"
      using that(2) unfolding claims_def by (auto split: option.splits)
    then show ?thesis using ex o that(1) X [of i it] by blast
  qed
  have nm: "k \<notin> set object_members" if "(i, it) \<in> set ?xs" "k \<in> claims it" for i it k
    using c [OF that] o by auto
  have np: "''__proto__'' \<notin> claims it" if "(i, it) \<in> set ?xs" for i it
    using nm [OF that, of "''__proto__''"] by (auto simp: object_members_def)
  have "\<exists>ks m'. makeKeys ?xs m = Some ks \<and> m \<subseteq>\<^sub>m m' \<and> list_all2 (keyed m') ?xs ks"
    by (rule makeKeys_claim [OF _ c np]) (use o in blast)
  then obtain m' where m': "m \<subseteq>\<^sub>m m'" "list_all2 (keyed m') ?xs ks" using m(2) by auto
  have "m' (exist_key ex) = Some i" if "i < length its" "en_exist (its ! i) = Some ex" for i ex
    using ex [OF that] m'(1) by (metis domI map_le_def)
  moreover have "case ks ! i of None \<Rightarrow> en_option (its ! i) = None
       | Some k \<Rightarrow> en_option (its ! i) \<noteq> None \<and> m' (ki_id k) = Some i \<and> ki_id k \<notin> set object_members" if "i < length its" for i
  proof -
    have "keyed m' (i, its ! i) (ks ! i)" using list_all2_nthD [OF m'(2), of i] that by (simp add: nth_enumerate_eq)
    then show ?thesis using nm [of i "its ! i"] that by (auto simp: keyed_simps X split: option.split if_splits)
  qed
  ultimately show ?thesis using list_all2_lengthD [OF m'(2)] by auto
qed

text \<open>
  C40. When no two entries claim one identifier, and no option has that of an inherited member,
  \<open>makeIdAndName\<close> returns; each entry with an option then has an identifier, a claimed one if there is
  one, which is that of no other entry and claimed by no other.
\<close>

theorem makeIdAndName_distinct:
  assumes "\<And>i j. i < length its \<Longrightarrow> j < length its \<Longrightarrow> i \<noteq> j \<Longrightarrow> claims (its ! i) \<inter> claims (its ! j) = {}"
    and "\<And>it. it \<in> set its \<Longrightarrow> ''__proto__'' \<notin> claims it"
    and "\<And>it k. it \<in> set its \<Longrightarrow> Option.bind (en_option it) c_id = Some k \<Longrightarrow> key_text k \<notin> set object_members"
  shows "\<exists>ks. makeIdAndName its = Some ks \<and> length ks = length its \<and>
    (\<forall>i < length its. case ks ! i of
        None \<Rightarrow> en_option (its ! i) = None
      | Some k \<Rightarrow> en_option (its ! i) \<noteq> None \<and> ki_name k = name_for (its ! i) \<and> (claims (its ! i) \<noteq> {} \<longrightarrow> ki_id k \<in> claims (its ! i)) \<and>
          (\<forall>j < length its. j \<noteq> i \<longrightarrow> ki_id k \<notin> claims (its ! j) \<and> (\<forall>k'. ks ! j = Some k' \<longrightarrow> ki_id k' \<noteq> ki_id k)))"
proof -
  let ?xs = "enumerate 0 its"
  have X: "(i, it) \<in> set ?xs \<longleftrightarrow> i < length its \<and> it = its ! i" for i it by (auto simp: in_set_enumerate_eq)
  have "apart (set ?xs)" unfolding apart_def using assms(1,2) by (force simp: X)
  moreover have "\<forall>it \<in> set its. \<forall>k. Option.bind (en_option it) c_id = Some k \<longrightarrow> key_text k \<notin> set object_members"
    using assms(3) by blast
  ultimately obtain m where m: "noteOptions ?xs (noteExists its) = Some m" "finite (dom m)"
      "\<forall>i < length its. \<forall>k \<in> claims (its ! i). m k = Some i" using keys_noted [of its] by blast
  have np: "''__proto__'' \<notin> claims it" if "(i, it) \<in> set ?xs" for i it using assms(2) [of it] that by (simp add: X)
  have c: "m k = Some i" if "(i, it) \<in> set ?xs" "k \<in> claims it" for i it k using m(3) that by (simp add: X)
  have "\<exists>ks m'. makeKeys ?xs m = Some ks \<and> m \<subseteq>\<^sub>m m' \<and> list_all2 (keyed m') ?xs ks"
    by (rule makeKeys_claim [OF m(2) c np])
  then obtain ks m' where ks: "makeKeys ?xs m = Some ks" "m \<subseteq>\<^sub>m m'" "list_all2 (keyed m') ?xs ks" by blast
  have key: "keyed m' (i, its ! i) (ks ! i)" if "i < length its" for i
    using list_all2_nthD [OF ks(3), of i] that by (simp add: nth_enumerate_eq)
  have own: "m' k = Some i" if "i < length its" "k \<in> claims (its ! i)" for i k
    using m(3) that ks(2) by (metis domI map_le_def)
  have alone: "ki_id k \<notin> claims (its ! j) \<and> (\<forall>k'. ks ! j = Some k' \<longrightarrow> ki_id k' \<noteq> ki_id k)"
    if "i < length its" "j < length its" "j \<noteq> i" "ks ! i = Some k" for i j k
    using key [OF that(1)] key [OF that(2)] own [OF that(2)] that(3,4) by (auto simp: keyed_simps)
  have "case ks ! i of None \<Rightarrow> en_option (its ! i) = None
      | Some k \<Rightarrow> en_option (its ! i) \<noteq> None \<and> ki_name k = name_for (its ! i) \<and> (claims (its ! i) \<noteq> {} \<longrightarrow> ki_id k \<in> claims (its ! i)) \<and>
          (\<forall>j < length its. j \<noteq> i \<longrightarrow> ki_id k \<notin> claims (its ! j) \<and> (\<forall>k'. ks ! j = Some k' \<longrightarrow> ki_id k' \<noteq> ki_id k))"
    if "i < length its" for i
    using key [OF that] alone [OF that] by (cases "ks ! i") (simp_all add: keyed_simps)
  moreover have "makeIdAndName its = Some ks" "length ks = length its"
    using ks(1) m(1) list_all2_lengthD [OF ks(3)] by (simp_all add: makeIdAndName_def)
  ultimately show ?thesis by blast
qed

abbreviation part :: "string option \<Rightarrow> string option \<Rightarrow> unit cpt" where
  "part i n \<equiv> \<lparr>c_id = map_option Key_Text i, c_name = map_option Key_Text n, c_val = ()\<rparr>"

lemma makeIdAndName_distinct_witness:
  defines "its \<equiv> [\<lparr>en_exist = Some (part (Some ''a'') (Some ''n'')), en_option = Some (part None None)\<rparr>,
      \<lparr>en_exist = None, en_option = Some (part (Some ''b'') (Some ''n''))\<rparr>, \<lparr>en_exist = None, en_option = Some (part None None)\<rparr>]"
  shows "\<exists>ks. makeIdAndName its = Some ks \<and> length ks = 3 \<and> (\<exists>k. ks ! 2 = Some k \<and> ki_id k \<noteq> ''a'')"
proof -
  have c: "claims (its ! 0) = {''a''}" "claims (its ! Suc 0) = {''b''}" "claims (its ! Suc (Suc 0)) = {}" "length its = Suc (Suc (Suc 0))"
    by (simp_all add: its_def claims_def exist_key_def)
  have "claims (its ! i) \<inter> claims (its ! j) = {}" if "i < length its" "j < length its" "i \<noteq> j" for i j
  proof -
    have "i = 0 \<or> i = Suc 0 \<or> i = Suc (Suc 0)" "j = 0 \<or> j = Suc 0 \<or> j = Suc (Suc 0)" using that(1,2) unfolding c(4) by linarith+
    then show ?thesis using that(3) by (elim disjE) (simp_all add: c)
  qed
  moreover have "''__proto__'' \<notin> claims it" if "it \<in> set its" for it
    using that by (auto simp: its_def claims_def exist_key_def)
  moreover have "key_text k \<notin> set object_members" if "it \<in> set its" "Option.bind (en_option it) c_id = Some k" for it k
    using that by (auto simp: its_def object_members_def)
  ultimately obtain ks where ks: "makeIdAndName its = Some ks" "length ks = length its"
     "\<forall>i < length its. case ks ! i of
        None \<Rightarrow> en_option (its ! i) = None
      | Some k \<Rightarrow> en_option (its ! i) \<noteq> None \<and> ki_name k = name_for (its ! i) \<and> (claims (its ! i) \<noteq> {} \<longrightarrow> ki_id k \<in> claims (its ! i)) \<and>
          (\<forall>j < length its. j \<noteq> i \<longrightarrow> ki_id k \<notin> claims (its ! j) \<and> (\<forall>k'. ks ! j = Some k' \<longrightarrow> ki_id k' \<noteq> ki_id k))"
    using makeIdAndName_distinct [of its] by blast
  have "en_option (its ! 2) \<noteq> None" by (simp add: its_def)
  then obtain k where "ks ! 2 = Some k" "ki_id k \<notin> claims (its ! 0)"
  proof (cases "ks ! 2")
    case None
    then show ?thesis using ks(3) [rule_format, of 2] c(4) \<open>en_option (its ! 2) \<noteq> None\<close> by simp
  next
    case (Some k)
    then have "\<forall>j < length its. j \<noteq> 2 \<longrightarrow> ki_id k \<notin> claims (its ! j)" using ks(3) [rule_format, of 2] c(4) by simp
    then have "ki_id k \<notin> claims (its ! 0)" using c(4) by (metis zero_less_Suc zero_neq_numeral)
    then show ?thesis using that Some by blast
  qed
  then show ?thesis using ks(1,2) c(1,4) by simp
qed

section \<open>Identifiers that are refused\<close>

text \<open>An option with only a name takes the component that a later option has the identifier of, and that identifier is then refused as a duplicate.\<close>

lemma name_taken_before_id:
  "makeIdAndName (mappingToExists [part (Some ''a'') (Some ''n'')] [Some (part None (Some ''n'')), Some (part (Some ''a'') None)]) = None"
  by code_simp

lemma id_first_is_kept:
  "makeIdAndName (mappingToExists [part (Some ''a'') (Some ''n'')] [Some (part (Some ''a'') None), Some (part None (Some ''n''))]) \<noteq> None"
  by code_simp

text \<open>The name of an inherited member is refused as a duplicate though nothing has it.\<close>

lemma inherited_id_refused:
  "makeIdAndName (mappingToExists ([] :: unit cpt list) [Some (part (Some ''constructor'') None)]) = None"
  by code_simp

end
