(* ===== verification/Global_Model.thy ===== *)
theory Global_Model
  imports Option_Model Class_Registry Component_Mapping Topological_Travel
begin

text \<open>
  The global model, \<open>model/Global\<close> (module 3), with \<open>normalizeToArray\<close> of \<open>util/model\<close> (module 5) and the
  dependencies of a component type (module 19): the components of a chart by main type, the settings
  that belong to no component, and the series that are shown. The classes of components are a
  parameter with their methods, which see the global model and change only their own component.
  An error leaves the model as it is at that moment; it is returned with the error.
\<close>

section \<open>Values read as texts and keys\<close>

fun join_texts :: "string list \<Rightarrow> string" where
  "join_texts [] = ''''"
| "join_texts [s] = s"
| "join_texts (s # ss) = s @ '','' @ join_texts ss"

text \<open>The text of a value; that of a function, a date or an element of the page is a parameter.\<close>

fun js_text :: "(host \<Rightarrow> nat \<Rightarrow> string) \<Rightarrow> jsval \<Rightarrow> string" where
  "js_text ht Undefined = ''undefined''"
| "js_text ht Null = ''null''"
| "js_text ht (Bool b) = (if b then ''true'' else ''false'')"
| "js_text ht (Number i) = text_of (Some i)"
| "js_text ht (Text s) = s"
| "js_text ht (Arr xs) = join_texts (map (\<lambda>x. if is_nil x then '''' else js_text ht x) xs)"
| "js_text ht (Obj ms) = ''[object Object]''"
| "js_text ht (Host h n) = ht h n"

definition truthy :: "jsval \<Rightarrow> bool" where
  "truthy v \<longleftrightarrow> \<not> (is_nil v \<or> v = Bool False \<or> v = Number 0 \<or> v = Text '''')"

definition key_of :: "(host \<Rightarrow> nat \<Rightarrow> string) \<Rightarrow> jsval \<Rightarrow> key option" where
  "key_of ht v = (if is_nil v then None else case v of Text s \<Rightarrow> Some (Key_Text s) | _ \<Rightarrow> Some (Key_Other (js_text ht v) (truthy v)))"

definition normalizeToArray :: "jsval \<Rightarrow> jsval list" where
  "normalizeToArray v = (case v of Arr xs \<Rightarrow> xs | _ \<Rightarrow> if is_nil v then [] else [v])"

section \<open>Components and the model\<close>

record ('c, 'm) component =
  cm_id :: string
  cm_name :: string
  cm_mainType :: string
  cm_subType :: string
  cm_componentIndex :: nat
  cm_class :: 'c
  cm_model :: 'm

text \<open>
  What is kept: the settings without a class, the components by main type in the order the types
  were first met, and the positions of the series that are shown, \<open>None\<close> before the first option. The option of
  a component is part of its \<open>cm_model\<close>.
\<close>

record ('c, 'm) gm =
  gm_settings :: members
  gm_components :: "(string \<times> ('c, 'm) component list) list"
  gm_seriesIndices :: "nat list option"

definition components_of :: "('c, 'm) gm \<Rightarrow> string \<Rightarrow> ('c, 'm) component list" where
  "components_of g mainType = (case map_of (gm_components g) mainType of None \<Rightarrow> [] | Some cs \<Rightarrow> cs)"

definition set_components :: "string \<Rightarrow> ('c, 'm) component list \<Rightarrow> ('c, 'm) gm \<Rightarrow> ('c, 'm) gm" where
  "set_components mainType cs g = g\<lparr>gm_components := AList.update mainType cs (gm_components g)\<rparr>"

text \<open>What a new component is given besides its option and the model.\<close>

record ('c, 'm) extra_opt =
  x_dependentModels :: "(string \<times> ('c, 'm) component list) list"
  x_componentIndex :: nat
  x_keyInfo :: keyinfo
  x_mainType :: string
  x_subType :: string

text \<open>
  The classes: what is registered, their dependencies, which class is a sub class of which, and the
  methods. \<open>e_create\<close> is the constructor with \<open>init\<close> and \<open>optionUpdated\<close>, \<open>e_merge\<close> is \<open>mergeOption\<close> with \<open>optionUpdated\<close>,
  \<open>e_restore\<close> is \<open>restoreData\<close>; they give the new contents of the component, or raise an error.
\<close>

record ('c, 'm) env =
  e_registry :: "'c registry"
  e_defaulters :: "jsval defaulters"
  e_dependencies :: "'c \<Rightarrow> string list"
  e_instance :: "'c \<Rightarrow> 'c \<Rightarrow> bool"
  e_create :: "'c \<Rightarrow> jsval \<Rightarrow> ('c, 'm) gm \<Rightarrow> ('c, 'm) extra_opt \<Rightarrow> 'm option"
  e_merge :: "jsval \<Rightarrow> ('c, 'm) gm \<Rightarrow> ('c, 'm) component \<Rightarrow> 'm option"
  e_restore :: "('c, 'm) component \<Rightarrow> 'm option"
  e_host_prop :: "host \<Rightarrow> nat \<Rightarrow> string \<Rightarrow> jsval"
  e_host_text :: "host \<Rightarrow> nat \<Rightarrow> string"

text \<open>\<open>Outside\<close> marks merges of settings that \<open>merge\<close> of \<open>Zr_Util\<close> leaves out.\<close>

datatype gm_error = Id_Duplicates | Empty_Definition | Class_Not_Found string | Not_A_Class | Own_Error
  | Circle_Dependency | Not_Initialized | Inner_Option | Not_Mounted | Outside

datatype 's outcome = Fine 's | Raise gm_error 's

fun and_then :: "'s outcome \<Rightarrow> ('s \<Rightarrow> 's outcome) \<Rightarrow> 's outcome" where
  "and_then (Fine s) f = f s"
| "and_then (Raise e s) f = Raise e s"

fun state_of :: "'s outcome \<Rightarrow> 's" where
  "state_of (Fine s) = s"
| "state_of (Raise e s) = s"

section \<open>One main type\<close>

definition option_cpt :: "('c, 'm) env \<Rightarrow> jsval \<Rightarrow> jsval cpt option" where
  "option_cpt env v = (if isObject v then Some \<lparr>c_id = key_of (e_host_text env) (read_member (e_host_prop env) v ''id''),
      c_name = key_of (e_host_text env) (read_member (e_host_prop env) v ''name''), c_val = v\<rparr> else None)"

definition exist_cpt :: "('c, 'm) component \<Rightarrow> ('c, 'm) component cpt" where
  "exist_cpt c = \<lparr>c_id = Some (Key_Text (cm_id c)), c_name = Some (Key_Text (cm_name c)), c_val = c\<rparr>"

definition option_type :: "('c, 'm) env \<Rightarrow> jsval \<Rightarrow> string" where
  "option_type env opt = (let t = read_member (e_host_prop env) opt ''type'' in if truthy t then js_text (e_host_text env) t else '''')"

definition gm_determineSubType :: "('c, 'm) env \<Rightarrow> string \<Rightarrow> jsval \<Rightarrow> ('c, 'm) component option \<Rightarrow> string" where
  "gm_determineSubType env mainType newCptOption existComponent =
     (if option_type env newCptOption \<noteq> '''' then option_type env newCptOption
      else case existComponent of
        Some c \<Rightarrow> cm_subType c
      | None \<Rightarrow> (case determineSubType mainType (option_type env) newCptOption (e_registry env) (e_defaulters env) of
          Some (Class s) \<Rightarrow> s | _ \<Rightarrow> ''''))"

definition getComponentsByTypes :: "('c, 'm) gm \<Rightarrow> string list \<Rightarrow> (string \<times> ('c, 'm) component list) list" where
  "getComponentsByTypes g types = foldl (\<lambda>ret ty. AList.update ty (components_of g ty) ret) [] types"

text \<open>
  One entry of the mapping: without an option the component takes an empty one; with one, it is merged into
  a component of the class, or a component is created. \<open>constructor\<close> is found in every container as the
  constructor of all objects, of which every component is an instance.
\<close>

definition mergeComponent :: "('c, 'm) env \<Rightarrow> jsval \<Rightarrow> ('c, 'm) gm \<Rightarrow> ('c, 'm) component \<Rightarrow> gm_error + ('c, 'm) component" where
  "mergeComponent env opt g c = (case e_merge env opt g c of None \<Rightarrow> Inl Own_Error | Some m \<Rightarrow> Inr (c\<lparr>cm_model := m\<rparr>))"

definition createComponent ::
  "('c, 'm) env \<Rightarrow> 'c \<Rightarrow> jsval \<Rightarrow> ('c, 'm) gm \<Rightarrow> ('c, 'm) extra_opt \<Rightarrow> gm_error + ('c, 'm) component" where
  "createComponent env Clazz opt g extra = (case e_create env Clazz opt g extra of
      None \<Rightarrow> Inl Own_Error
    | Some m \<Rightarrow> Inr \<lparr>cm_id = ki_id (x_keyInfo extra), cm_name = ki_name (x_keyInfo extra), cm_mainType = x_mainType extra,
        cm_subType = x_subType extra, cm_componentIndex = x_componentIndex extra, cm_class = Clazz, cm_model = m\<rparr>)"

definition visitItem ::
  "('c, 'm) env \<Rightarrow> string \<Rightarrow> (string \<times> ('c, 'm) component list) list \<Rightarrow> nat \<Rightarrow>
    (('c, 'm) component, jsval) Component_Mapping.entry \<times> keyinfo option \<times> string \<Rightarrow> ('c, 'm) gm \<Rightarrow> gm_error + ('c, 'm) component" where
  "visitItem env mainType dependents index = (\<lambda>(it, keyInfo, subType) g.
     case en_option it of
       None \<Rightarrow> (case en_exist it of None \<Rightarrow> Inl Empty_Definition | Some ex \<Rightarrow> mergeComponent env (Obj []) g (c_val ex))
     | Some opt \<Rightarrow>
         let k = the keyInfo;
             extra = \<lparr>x_dependentModels = dependents, x_componentIndex = index, x_keyInfo = k, x_mainType = mainType, x_subType = subType\<rparr> in
         case getClass mainType subType True (e_registry env) of
           Inl (Not_Exists msg) \<Rightarrow> Inl (Class_Not_Found msg)
         | Inr None \<Rightarrow> Inl Not_A_Class
         | Inr (Some (Object_Member m)) \<Rightarrow>
             (case en_exist it of
                Some ex \<Rightarrow> if m = ''constructor'' then mergeComponent env (c_val opt) g ((c_val ex)\<lparr>cm_name := ki_name k\<rparr>) else Inl Not_A_Class
              | None \<Rightarrow> Inl Not_A_Class)
         | Inr (Some (Class Clazz)) \<Rightarrow>
             (case en_exist it of
                Some ex \<Rightarrow>
                  if e_instance env (cm_class (c_val ex)) Clazz
                  then mergeComponent env (c_val opt) g ((c_val ex)\<lparr>cm_name := ki_name k\<rparr>)
                  else createComponent env Clazz (c_val opt) g extra
              | None \<Rightarrow> createComponent env Clazz (c_val opt) g extra))"

fun visitItems ::
  "('c, 'm) env \<Rightarrow> string \<Rightarrow> (string \<times> ('c, 'm) component list) list \<Rightarrow> nat \<Rightarrow>
    ((('c, 'm) component, jsval) Component_Mapping.entry \<times> keyinfo option \<times> string) list \<Rightarrow> ('c, 'm) gm \<Rightarrow> ('c, 'm) gm outcome" where
  "visitItems env mainType dependents index [] g = Fine g"
| "visitItems env mainType dependents index (it # its) g =
     (case visitItem env mainType dependents index it g of
        Inl e \<Rightarrow> Raise e g
      | Inr c \<Rightarrow> visitItems env mainType dependents (index + 1) its (set_components mainType (components_of g mainType @ [c]) g))"

definition createSeriesIndices :: "('c, 'm) component list \<Rightarrow> nat list" where
  "createSeriesIndices seriesModels = map cm_componentIndex seriesModels"

definition sub_types ::
  "('c, 'm) env \<Rightarrow> string \<Rightarrow> (('c, 'm) component, jsval) Component_Mapping.entry list \<Rightarrow> string list" where
  "sub_types env mainType its = map (\<lambda>it. case en_option it of None \<Rightarrow> ''''
     | Some opt \<Rightarrow> gm_determineSubType env mainType (c_val opt) (map_option c_val (en_exist it))) its"

definition mapped ::
  "('c, 'm) env \<Rightarrow> jsval \<Rightarrow> string \<Rightarrow> ('c, 'm) gm \<Rightarrow> (('c, 'm) component, jsval) Component_Mapping.entry list" where
  "mapped env newOption mainType g = mappingToExists (map exist_cpt (components_of g mainType))
     (map (option_cpt env) (normalizeToArray (read_member (e_host_prop env) newOption mainType)))"

definition visitComponent :: "('c, 'm) env \<Rightarrow> jsval \<Rightarrow> string \<times> string list \<Rightarrow> ('c, 'm) gm \<Rightarrow> ('c, 'm) gm outcome" where
  "visitComponent env newOption = (\<lambda>(mainType, dependencies) g.
     let mapResult = mapped env newOption mainType g in
     case makeIdAndName mapResult of
       None \<Rightarrow> Raise Id_Duplicates g
     | Some keys \<Rightarrow>
         and_then (visitItems env mainType (getComponentsByTypes g dependencies) 0
             (zip mapResult (zip keys (sub_types env mainType mapResult))) (set_components mainType [] g))
           (\<lambda>g. Fine (if mainType = ''series''
              then g\<lparr>gm_seriesIndices := Some (createSeriesIndices (components_of g ''series''))\<rparr> else g)))"

section \<open>Merging an option\<close>

definition mergeSetting :: "string \<Rightarrow> jsval \<Rightarrow> ('c, 'm) gm \<Rightarrow> ('c, 'm) gm outcome" where
  "mergeSetting mainType componentOption g =
     (let old = (case map_of (gm_settings g) mainType of None \<Rightarrow> Undefined | Some v \<Rightarrow> v) in
      case (if is_nil old then Some (clone componentOption) else merge True old componentOption) of
        None \<Rightarrow> Raise Outside g
      | Some v \<Rightarrow> Fine (g\<lparr>gm_settings := put mainType v (gm_settings g)\<rparr>))"

fun mergeSettings :: "('c, 'm) env \<Rightarrow> members \<Rightarrow> ('c, 'm) gm \<Rightarrow> ('c, 'm) gm outcome" where
  "mergeSettings env [] g = Fine g"
| "mergeSettings env ((mainType, componentOption) # ms) g =
     (if is_nil componentOption \<or> hasClass mainType (e_registry env) then mergeSettings env ms g
      else and_then (mergeSetting mainType componentOption g) (mergeSettings env ms))"

definition newCptTypes :: "('c, 'm) env \<Rightarrow> members \<Rightarrow> string list" where
  "newCptTypes env ms = map fst (filter (\<lambda>(mainType, v). \<not> is_nil v \<and> hasClass mainType (e_registry env)) ms)"

definition getDependencies :: "('c, 'm) env \<Rightarrow> string \<Rightarrow> string list" where
  "getDependencies env componentType = concat (map (\<lambda>Clazz. case Clazz of
       Some (Class c) \<Rightarrow> map (\<lambda>ty. fst (parseClassType ty)) (e_dependencies env c) | _ \<Rightarrow> [])
     (getClassesByMainType componentType (e_registry env)))"

fun visitAll :: "('c, 'm) env \<Rightarrow> jsval \<Rightarrow> (string \<times> string list) list \<Rightarrow> ('c, 'm) gm \<Rightarrow> ('c, 'm) gm outcome" where
  "visitAll env newOption [] g = Fine g"
| "visitAll env newOption (c # cs) g = and_then (visitComponent env newOption c g) (visitAll env newOption cs)"

text \<open>The traversal always ends, so \<open>Outside\<close> does not come from it.\<close>

definition mergeComponents :: "('c, 'm) env \<Rightarrow> members \<Rightarrow> ('c, 'm) gm \<Rightarrow> ('c, 'm) gm outcome" where
  "mergeComponents env newOption g =
     (case topologicalTravel (getDependencies env) (newCptTypes env newOption) (getAllClassMainTypes (e_registry env)) of
        None \<Rightarrow> Raise Outside g
      | Some (calls, circle) \<Rightarrow>
          and_then (visitAll env (Obj newOption) calls g) (\<lambda>g. if circle then Raise Circle_Dependency g else Fine g))"

definition gm_mergeOption :: "('c, 'm) env \<Rightarrow> members \<Rightarrow> ('c, 'm) gm \<Rightarrow> ('c, 'm) gm outcome" where
  "gm_mergeOption env newOption g =
     and_then (and_then (mergeSettings env newOption g) (mergeComponents env newOption))
       (\<lambda>g. Fine (g\<lparr>gm_seriesIndices := Some (case gm_seriesIndices g of None \<Rightarrow> [] | Some indices \<Rightarrow> indices)\<rparr>))"


section \<open>Starting with an option\<close>

definition OPTION_INNER_KEY :: string where
  "OPTION_INNER_KEY = [CHR 0x00] @ ''_ec_inner''"

text \<open>The defaults for the whole chart; the name of the platform is that of the browser.\<close>

definition globalDefault :: "string \<Rightarrow> members" where
  "globalDefault platform = [
     (''color'', Arr (map Text [''#c23531'', ''#2f4554'', ''#61a0a8'', ''#d48265'', ''#91c7ae'', ''#749f83'', ''#ca8622'', ''#bda29a'',
        ''#6e7074'', ''#546570'', ''#c4ccd3''])),
     (''textStyle'', Obj [(''fontFamily'', Text (if take 3 platform = ''Win'' then ''Microsoft YaHei'' else ''sans-serif'')),
        (''fontSize'', Number 12), (''fontStyle'', Text ''normal''), (''fontWeight'', Text ''normal'')]),
     (''blendMode'', Null), (''animation'', Bool True), (''animationDuration'', Number 1000), (''animationDurationUpdate'', Number 300),
     (''animationEasing'', Text ''exponentialOut''), (''animationEasingUpdate'', Text ''cubicOut''), (''animationThreshold'', Number 2000),
     (''progressiveThreshold'', Number 3000), (''progressive'', Number 400), (''hoverLayerThreshold'', Number 3000)]"

text \<open>Null is of type object as well, a function is not.\<close>

definition type_object :: "jsval \<Rightarrow> bool" where
  "type_object v \<longleftrightarrow> v = Null \<or> (isObject v \<and> (case v of Host h _ \<Rightarrow> h \<noteq> Function | _ \<Rightarrow> True))"

fun mergeTheme :: "('c, 'm) env \<Rightarrow> members \<Rightarrow> members \<Rightarrow> members option" where
  "mergeTheme env baseOption [] = Some baseOption"
| "mergeTheme env baseOption ((name, themeItem) # theme) =
     (let old = (case map_of baseOption name of None \<Rightarrow> Undefined | Some v \<Rightarrow> v) in
      if hasClass name (e_registry env) then mergeTheme env baseOption theme
      else if type_object themeItem
        then do { v \<leftarrow> (if \<not> truthy old then Some (clone themeItem) else merge False old themeItem); mergeTheme env (put name v baseOption) theme }
        else mergeTheme env (if is_nil old then put name themeItem baseOption else baseOption) theme)"

definition emptyModel :: "('c, 'm) gm" where
  "emptyModel = \<lparr>gm_settings = [(OPTION_INNER_KEY, Number 1)], gm_components = [], gm_seriesIndices = None\<rparr>"

definition initBase :: "('c, 'm) env \<Rightarrow> members \<Rightarrow> string \<Rightarrow> members \<Rightarrow> ('c, 'm) gm outcome" where
  "initBase env theme platform baseOption =
     (case mergeTheme env baseOption theme of
        None \<Rightarrow> Raise Outside emptyModel
      | Some b \<Rightarrow> gm_mergeOption env (merge_members False b (globalDefault platform)) emptyModel)"

section \<open>Reading the model\<close>

definition getOption :: "('c, 'm) env \<Rightarrow> ('m \<Rightarrow> jsval) \<Rightarrow> ('c, 'm) gm \<Rightarrow> members" where
  "getOption env option_of g =
     map (\<lambda>(k, v). (k, clone v)) (filter (\<lambda>(k, _). k \<noteq> OPTION_INNER_KEY) (gm_settings g)) @
     map (\<lambda>(mainType, cs). (mainType, Arr (filter (\<lambda>v. case option_cpt env v of None \<Rightarrow> True | Some c \<Rightarrow> \<not> isIdInner c)
        (map (\<lambda>c. clone (option_of (cm_model c))) cs)))) (gm_components g)"

definition getComponent :: "string \<Rightarrow> nat \<Rightarrow> ('c, 'm) gm \<Rightarrow> ('c, 'm) component option" where
  "getComponent mainType idx g = (let cs = components_of g mainType in if idx < length cs then Some (cs ! idx) else None)"

text \<open>A condition: positions, identifiers and names may each be left out, one value, or a list.\<close>

record condition =
  q_mainType :: string
  q_index :: jsval
  q_id :: jsval
  q_name :: jsval
  q_subType :: "string option"

definition at_index :: "'a list \<Rightarrow> jsval \<Rightarrow> 'a option" where
  "at_index xs v = (case v of
      Number i \<Rightarrow> if 0 \<le> i \<and> i < int (length xs) then Some (xs ! nat i) else None
    | Text s \<Rightarrow> map_option (nth xs) (List.find (\<lambda>i. dec i = s) [0..<length xs])
    | _ \<Rightarrow> None)"

definition one_of :: "jsval \<Rightarrow> string \<Rightarrow> bool" where
  "one_of v s \<longleftrightarrow> (case v of Arr xs \<Rightarrow> Text s \<in> set xs | _ \<Rightarrow> v = Text s)"

definition filterBySubType :: "string option \<Rightarrow> ('c, 'm) component list \<Rightarrow> ('c, 'm) component list" where
  "filterBySubType sub cs = (case sub of None \<Rightarrow> cs | Some s \<Rightarrow> filter (\<lambda>c. cm_subType c = s) cs)"

definition queryComponents :: "condition \<Rightarrow> ('c, 'm) gm \<Rightarrow> ('c, 'm) component list" where
  "queryComponents q g =
     (let cpts = components_of g (q_mainType q) in
      if q_mainType q = '''' \<or> cpts = [] then []
      else filterBySubType (q_subType q)
        (if \<not> is_nil (q_index q) then List.map_filter (at_index cpts) (case q_index q of Arr xs \<Rightarrow> xs | i \<Rightarrow> [i])
         else if \<not> is_nil (q_id q) then filter (\<lambda>c. one_of (q_id q) (cm_id c)) cpts
         else if \<not> is_nil (q_name q) then filter (\<lambda>c. one_of (q_name q) (cm_name c)) cpts
         else cpts))"

text \<open>The members of a query are named after the main type.\<close>

definition getQueryCond :: "string \<Rightarrow> members option \<Rightarrow> condition option" where
  "getQueryCond mainType q = (case q of None \<Rightarrow> None | Some ms \<Rightarrow>
     let own = (\<lambda>k. case map_of ms (mainType @ k) of None \<Rightarrow> Undefined | Some v \<Rightarrow> v) in
     if \<exists>k \<in> set [''Index'', ''Id'', ''Name'']. map_of ms (mainType @ k) \<noteq> None
     then Some \<lparr>q_mainType = mainType, q_index = own ''Index'', q_id = own ''Id'', q_name = own ''Name'', q_subType = None\<rparr>
     else None)"

definition findComponents ::
  "string \<Rightarrow> members option \<Rightarrow> string option \<Rightarrow> (('c, 'm) component \<Rightarrow> bool) \<Rightarrow> ('c, 'm) gm \<Rightarrow> ('c, 'm) component list" where
  "findComponents mainType query sub keep g =
     filter keep (filterBySubType sub (case getQueryCond mainType query of Some q \<Rightarrow> queryComponents q g | None \<Rightarrow> components_of g mainType))"

text \<open>The calls of a loop over components, with what the callback is given.\<close>

definition eachComponent :: "string \<Rightarrow> ('c, 'm) gm \<Rightarrow> (('c, 'm) component \<times> nat) list" where
  "eachComponent mainType g = (let cs = components_of g mainType in zip cs [0..<length cs])"

definition eachComponentOfAll :: "('c, 'm) gm \<Rightarrow> (string \<times> ('c, 'm) component \<times> nat) list" where
  "eachComponentOfAll g = concat (map (\<lambda>(ty, cs). map (Pair ty) (zip cs [0..<length cs])) (gm_components g))"

definition eachFound ::
  "string \<Rightarrow> members option \<Rightarrow> string option \<Rightarrow> (('c, 'm) component \<Rightarrow> bool) \<Rightarrow> ('c, 'm) gm \<Rightarrow> (('c, 'm) component \<times> nat) list" where
  "eachFound mainType query sub keep g = (let cs = findComponents mainType query sub keep g in zip cs [0..<length cs])"

section \<open>Series\<close>

definition getSeriesByName :: "string \<Rightarrow> ('c, 'm) gm \<Rightarrow> ('c, 'm) component list" where
  "getSeriesByName name g = filter (\<lambda>c. cm_name c = name) (components_of g ''series'')"

definition getSeriesByType :: "string \<Rightarrow> ('c, 'm) gm \<Rightarrow> ('c, 'm) component list" where
  "getSeriesByType sub g = filter (\<lambda>c. cm_subType c = sub) (components_of g ''series'')"

text \<open>A chart that never had series has no list of them, a TypeError here.\<close>

definition getSeries :: "('c, 'm) gm \<Rightarrow> ('c, 'm) component list option" where
  "getSeries g = map_of (gm_components g) ''series''"

definition getSeriesByIndex :: "nat \<Rightarrow> ('c, 'm) gm \<Rightarrow> ('c, 'm) component option option" where
  "getSeriesByIndex i g = map_option (\<lambda>cs. if i < length cs then Some (cs ! i) else None) (getSeries g)"

text \<open>The series that are shown, with their positions; \<open>None\<close> is a series that is not there.\<close>

definition shown :: "('c, 'm) gm \<Rightarrow> gm_error + (('c, 'm) component option \<times> nat) list" where
  "shown g = (case gm_seriesIndices g of None \<Rightarrow> Inl Not_Initialized
     | Some indices \<Rightarrow> Inr (map (\<lambda>i. (getComponent ''series'' i g, i)) indices))"

definition eachSeries :: "('c, 'm) gm \<Rightarrow> gm_error + (('c, 'm) component option \<times> nat) list" where
  "eachSeries g = shown g"

definition eachRawSeries :: "('c, 'm) gm \<Rightarrow> (('c, 'm) component \<times> nat) list" where
  "eachRawSeries g = eachComponent ''series'' g"

text \<open>The calls for the series of a type, and whether the loop ends in a TypeError at a series that is not there.\<close>

fun of_type :: "string \<Rightarrow> (('c, 'm) component option \<times> nat) list \<Rightarrow> (('c, 'm) component \<times> nat) list \<times> bool" where
  "of_type sub [] = ([], False)"
| "of_type sub ((None, i) # cs) = ([], True)"
| "of_type sub ((Some c, i) # cs) = (let (calls, raised) = of_type sub cs in
     (if cm_subType c = sub then (c, i) # calls else calls, raised))"

definition eachSeriesByType :: "string \<Rightarrow> ('c, 'm) gm \<Rightarrow> gm_error + (('c, 'm) component \<times> nat) list \<times> bool" where
  "eachSeriesByType sub g = (case shown g of Inl e \<Rightarrow> Inl e | Inr cs \<Rightarrow> Inr (of_type sub cs))"

definition eachRawSeriesByType :: "string \<Rightarrow> ('c, 'm) gm \<Rightarrow> (('c, 'm) component \<times> nat) list" where
  "eachRawSeriesByType sub g = (let cs = getSeriesByType sub g in zip cs [0..<length cs])"

definition isSeriesFiltered :: "('c, 'm) component \<Rightarrow> ('c, 'm) gm \<Rightarrow> gm_error + bool" where
  "isSeriesFiltered c g = (case gm_seriesIndices g of None \<Rightarrow> Inl Not_Initialized
     | Some indices \<Rightarrow> Inr (cm_componentIndex c \<notin> set indices))"

text \<open>All series are asked, those that are not shown as well.\<close>

definition filterSeries :: "(('c, 'm) component \<Rightarrow> nat \<Rightarrow> bool) \<Rightarrow> ('c, 'm) gm \<Rightarrow> ('c, 'm) gm outcome" where
  "filterSeries cb g = (if gm_seriesIndices g = None then Raise Not_Initialized g
     else Fine (g\<lparr>gm_seriesIndices := Some (createSeriesIndices (map fst (filter (\<lambda>(c, i). cb c i) (eachRawSeries g))))\<rparr>))"

fun restoreComponents :: "('c, 'm) env \<Rightarrow> string \<Rightarrow> nat \<Rightarrow> nat \<Rightarrow> ('c, 'm) gm \<Rightarrow> ('c, 'm) gm outcome" where
  "restoreComponents env ty i 0 g = Fine g"
| "restoreComponents env ty i (Suc n) g =
     (let cs = components_of g ty; c = cs ! i in
      case e_restore env c of None \<Rightarrow> Raise Own_Error g
      | Some m \<Rightarrow> restoreComponents env ty (i + 1) n (set_components ty (cs[i := c\<lparr>cm_model := m\<rparr>]) g))"

fun restoreTypes :: "('c, 'm) env \<Rightarrow> (string \<times> string list) list \<Rightarrow> ('c, 'm) gm \<Rightarrow> ('c, 'm) gm outcome" where
  "restoreTypes env [] g = Fine g"
| "restoreTypes env ((ty, deps) # cs) g = and_then (restoreComponents env ty 0 (length (components_of g ty)) g) (restoreTypes env cs)"

definition restoreData :: "('c, 'm) env \<Rightarrow> ('c, 'm) gm \<Rightarrow> ('c, 'm) gm outcome" where
  "restoreData env g =
     (let g = g\<lparr>gm_seriesIndices := Some (createSeriesIndices (components_of g ''series''))\<rparr> in
      case topologicalTravel (getDependencies env) (map fst (gm_components g)) (getAllClassMainTypes (e_registry env)) of
        None \<Rightarrow> Raise Outside g
      | Some (calls, circle) \<Rightarrow> and_then (restoreTypes env calls g) (\<lambda>g. if circle then Raise Circle_Dependency g else Fine g))"


section \<open>The class of all components\<close>

text \<open>
  \<open>model/Component\<close> (module 19) for components without a layout mode: the default option is that of the
  class merged over those of its super classes, an option takes from the theme and from it what it does not set.
\<close>

fun mergeDefaults :: "jsval \<Rightarrow> jsval list \<Rightarrow> jsval option" where
  "mergeDefaults defaultOption [] = Some defaultOption"
| "mergeDefaults defaultOption (o' # optList) = do { d \<leftarrow> merge True defaultOption o'; mergeDefaults d optList }"

text \<open>The options of the class and its super classes, the class first.\<close>

definition getDefaultOption :: "jsval list \<Rightarrow> jsval option" where
  "getDefaultOption optList = mergeDefaults (Obj []) (rev (filter truthy optList))"

definition mergeDefaultAndTheme :: "jsval \<Rightarrow> jsval list \<Rightarrow> jsval \<Rightarrow> jsval option" where
  "mergeDefaultAndTheme themeOption optList opt =
     do { opt \<leftarrow> merge False opt themeOption; d \<leftarrow> getDefaultOption optList; merge False opt d }"

definition component_mergeOption :: "jsval \<Rightarrow> jsval \<Rightarrow> jsval option" where
  "component_mergeOption old opt = (if isObject old \<and> isObject opt then merge True old opt else Some old)"

end
