(* ===== verification/Option_Manager.thy ===== *)
theory Option_Manager
  imports Global_Model
begin

text \<open>
  The options as the user gave them, \<open>model/OptionManager\<close> (module 27): what is taken apart from a raw option, kept
  and merged over the calls, and which media options apply to a size. Preprocessors and the registry
  of components are parameters. \<open>None\<close> marks what the values leave out: merges that \<open>merge\<close> leaves out, and arrays
  of components with an empty place, where the mapping raises a TypeError when it comes to it.
\<close>

section \<open>A raw option\<close>

definition own :: "jsval \<Rightarrow> string \<Rightarrow> jsval" where
  "own v k = (case v of Obj ms \<Rightarrow> (case map_of ms k of None \<Rightarrow> Undefined | Some x \<Rightarrow> x) | _ \<Rightarrow> Undefined)"

definition set_own :: "string \<Rightarrow> jsval \<Rightarrow> jsval \<Rightarrow> jsval" where
  "set_own k x v = (case v of Obj ms \<Rightarrow> Obj (put k x ms) | _ \<Rightarrow> v)"

record parsed =
  po_baseOption :: jsval
  po_timelineOptions :: "jsval list"
  po_mediaDefault :: jsval
  po_mediaList :: "jsval list"

definition elements :: "jsval \<Rightarrow> jsval list" where
  "elements v = (case v of Arr xs \<Rightarrow> xs | Obj ms \<Rightarrow> map snd ms | _ \<Rightarrow> [])"

text \<open>With an option and a query a media goes to the list, the first one with no query is the default.\<close>

definition addMedia :: "jsval list \<times> jsval \<Rightarrow> jsval \<Rightarrow> jsval list \<times> jsval" where
  "addMedia = (\<lambda>(mediaList, mediaDefault) single.
     if truthy single \<and> truthy (own single ''option'')
     then (if truthy (own single ''query'') then (mediaList @ [single], mediaDefault)
           else if \<not> truthy mediaDefault then (mediaList, single) else (mediaList, mediaDefault))
     else (mediaList, mediaDefault))"

definition parseRawOption :: "(jsval \<Rightarrow> bool \<Rightarrow> jsval) list \<Rightarrow> bool \<Rightarrow> jsval \<Rightarrow> parsed" where
  "parseRawOption optionPreprocessorFuncs isNew rawOption =
     (let timelineOpt = own rawOption ''timeline'';
          hasTimeline = truthy timelineOpt \<or> truthy (own rawOption ''options'');
          hasMedia = truthy (own rawOption ''media'');
          timelineOptions = (if hasTimeline then (case own rawOption ''options'' of Arr xs \<Rightarrow> xs | _ \<Rightarrow> []) else []);
          (mediaList, mediaDefault) = (if hasMedia then foldl addMedia ([], Undefined) (elements (own rawOption ''media'')) else ([], Undefined));
          baseOption = (if truthy (own rawOption ''baseOption'') then own rawOption ''baseOption''
            else if hasTimeline \<or> hasMedia then Obj [] else rawOption);
          baseOption = (if truthy (own baseOption ''timeline'') then baseOption else set_own ''timeline'' timelineOpt baseOption);
          preprocess = (\<lambda>opt. foldl (\<lambda>opt f. f opt isNew) opt optionPreprocessorFuncs) in
      \<lparr>po_baseOption = preprocess baseOption, po_timelineOptions = map preprocess timelineOptions, po_mediaDefault = mediaDefault,
        po_mediaList = map (\<lambda>m. set_own ''option'' (preprocess (own m ''option'')) m) mediaList\<rparr>)"

section \<open>What is kept\<close>

record manager =
  om_timelineOptions :: "jsval list"
  om_mediaList :: "jsval list"
  om_mediaDefault :: jsval
  om_currentMediaIndices :: "int list"
  om_optionBackup :: "parsed option"
  om_newBaseOption :: jsval

definition newManager :: manager where
  "newManager = \<lparr>om_timelineOptions = [], om_mediaList = [], om_mediaDefault = Undefined, om_currentMediaIndices = [],
     om_optionBackup = None, om_newBaseOption = Undefined\<rparr>"

text \<open>Components of a type are merged as the global model maps them, here on the options themselves.\<close>

definition mergeEntry :: "(jsval, jsval) Component_Mapping.entry \<Rightarrow> jsval option" where
  "mergeEntry it = (case (en_exist it, en_option it) of
      (Some ex, Some opt) \<Rightarrow> merge True (c_val ex) (c_val opt)
    | (Some ex, None) \<Rightarrow> Some (if truthy (c_val ex) then c_val ex else Undefined)
    | (None, Some opt) \<Rightarrow> Some (c_val opt)
    | (None, None) \<Rightarrow> Some Undefined)"

fun all_some :: "'a option list \<Rightarrow> 'a list option" where
  "all_some [] = Some []"
| "all_some (x # xs) = do { y \<leftarrow> x; ys \<leftarrow> all_some xs; Some (y # ys) }"

definition raw_cpt :: "('c, 'm) env \<Rightarrow> jsval \<Rightarrow> jsval cpt" where
  "raw_cpt env v = (case option_cpt env v of Some c \<Rightarrow> c | None \<Rightarrow> \<lparr>c_id = None, c_name = None, c_val = v\<rparr>)"

definition mergeRawComponents :: "('c, 'm) env \<Rightarrow> jsval \<Rightarrow> jsval \<Rightarrow> jsval option" where
  "mergeRawComponents env oldCptOpt newCptOpt =
     (let olds = normalizeToArray oldCptOpt in
      if list_ex is_nil olds then None
      else map_option Arr (all_some (map mergeEntry (mappingToExists (map (raw_cpt env) olds) (map (option_cpt env) (normalizeToArray newCptOpt))))))"

fun mergeRaw :: "('c, 'm) env \<Rightarrow> members \<Rightarrow> members \<Rightarrow> members option" where
  "mergeRaw env old [] = Some old"
| "mergeRaw env old ((mainType, newCptOpt) # ms) =
     (if is_nil newCptOpt then mergeRaw env old ms
      else let oldCptOpt = (case map_of old mainType of None \<Rightarrow> Undefined | Some v \<Rightarrow> v) in
        do { v \<leftarrow> (if hasClass mainType (e_registry env) then mergeRawComponents env oldCptOpt newCptOpt
                  else merge True oldCptOpt newCptOpt);
             mergeRaw env (put mainType v old) ms })"

definition mergeBackup :: "('c, 'm) env \<Rightarrow> jsval \<Rightarrow> jsval \<Rightarrow> jsval option" where
  "mergeBackup env old new = (case (old, new) of
      (Obj a, Obj b) \<Rightarrow> map_option Obj (mergeRaw env a b)
    | _ \<Rightarrow> None)"

definition om_setOption :: "('c, 'm) env \<Rightarrow> (jsval \<Rightarrow> bool \<Rightarrow> jsval) list \<Rightarrow> jsval \<Rightarrow> manager \<Rightarrow> manager option" where
  "om_setOption env optionPreprocessorFuncs rawOption om =
     (let new = parseRawOption optionPreprocessorFuncs (om_optionBackup om = None) (clone rawOption);
          om = om\<lparr>om_newBaseOption := po_baseOption new\<rparr> in
      case om_optionBackup om of
        None \<Rightarrow> Some (om\<lparr>om_optionBackup := Some new\<rparr>)
      | Some old \<Rightarrow> do {
          b \<leftarrow> mergeBackup env (po_baseOption old) (po_baseOption new);
          Some (om\<lparr>om_optionBackup := Some \<lparr>po_baseOption = b,
             po_timelineOptions = (if po_timelineOptions new \<noteq> [] then po_timelineOptions new else po_timelineOptions old),
             po_mediaDefault = (if truthy (po_mediaDefault new) then po_mediaDefault new else po_mediaDefault old),
             po_mediaList = (if po_mediaList new \<noteq> [] then po_mediaList new else po_mediaList old)\<rparr>\<rparr>) })"

text \<open>Without an option set before, a TypeError.\<close>

definition mountOption :: "bool \<Rightarrow> manager \<Rightarrow> (jsval \<times> manager) option" where
  "mountOption isRecreate om = (case om_optionBackup om of None \<Rightarrow> None
     | Some b \<Rightarrow> Some (clone (if isRecreate then po_baseOption b else om_newBaseOption om),
         om\<lparr>om_timelineOptions := map clone (po_timelineOptions b), om_mediaList := map clone (po_mediaList b),
            om_mediaDefault := clone (po_mediaDefault b), om_currentMediaIndices := []\<rparr>))"

text \<open>\<open>getCurrentIndex\<close> of the timeline component is a parameter.\<close>

definition getTimelineOption :: "(('c, 'm) component \<Rightarrow> int) \<Rightarrow> ('c, 'm) gm \<Rightarrow> manager \<Rightarrow> jsval" where
  "getTimelineOption getCurrentIndex g om =
     (if om_timelineOptions om = [] then Undefined
      else case getComponent ''timeline'' 0 g of None \<Rightarrow> Undefined
        | Some c \<Rightarrow> (let i = getCurrentIndex c in
            if 0 \<le> i \<and> i < int (length (om_timelineOptions om)) then clone (om_timelineOptions om ! nat i) else Undefined))"

section \<open>Media queries\<close>

definition lower :: "char \<Rightarrow> char" where
  "lower ch = (let n = (of_char ch :: nat) in if 65 \<le> n \<and> n \<le> 90 then char_of (n + 32) else ch)"

text \<open>The prefix and what follows it; a name without prefix has none.\<close>

definition query_attr :: "string \<Rightarrow> (string \<times> string) option" where
  "query_attr attr = (if take 3 attr \<in> set [''min'', ''max''] \<and> length attr > 3 then Some (take 3 attr, map lower (drop 3 attr)) else None)"

text \<open>A number that a bound is compared with. Sizes are natural numbers, the ratio is that of the sizes.\<close>

datatype real_value = Size nat | Ratio nat nat

text \<open>Bounds as numbers; a text of anything but digits is none, so every comparison with it fails.\<close>

definition to_number :: "jsval \<Rightarrow> int option" where
  "to_number v = (case v of Number i \<Rightarrow> Some i | Bool b \<Rightarrow> Some (if b then 1 else 0) | Null \<Rightarrow> Some 0
     | Text s \<Rightarrow> if list_all is_digit s then Some (foldl (\<lambda>n ch. 10 * n + (of_char ch - 48)) 0 s) else None
     | _ \<Rightarrow> None)"

text \<open>A ratio to nothing is infinite, or not a number when the width is nothing too.\<close>

definition at_least :: "real_value \<Rightarrow> int \<Rightarrow> bool" where
  "at_least r e \<longleftrightarrow> (case r of Size n \<Rightarrow> int n \<ge> e | Ratio w h \<Rightarrow> if h = 0 then w \<noteq> 0 else int w \<ge> e * int h)"

definition at_most :: "real_value \<Rightarrow> int \<Rightarrow> bool" where
  "at_most r e \<longleftrightarrow> (case r of Size n \<Rightarrow> int n \<le> e | Ratio w h \<Rightarrow> h \<noteq> 0 \<and> int w \<le> e * int h)"

definition real_map :: "nat \<Rightarrow> nat \<Rightarrow> string \<Rightarrow> real_value option" where
  "real_map ecWidth ecHeight attr = (if attr = ''width'' then Some (Size ecWidth) else if attr = ''height'' then Some (Size ecHeight)
     else if attr = ''aspectratio'' then Some (Ratio ecWidth ecHeight) else None)"

text \<open>Only the two prefixes reach this comparison.\<close>

definition compare :: "real_value option \<Rightarrow> jsval \<Rightarrow> string \<Rightarrow> bool" where
  "compare real expect operator = (case (real, to_number expect) of
      (Some r, Some e) \<Rightarrow> if operator = ''min'' then at_least r e else at_most r e
    | _ \<Rightarrow> False)"

definition applyMediaQuery :: "jsval \<Rightarrow> nat \<Rightarrow> nat \<Rightarrow> bool" where
  "applyMediaQuery query ecWidth ecHeight = (case query of
      Obj ms \<Rightarrow> list_all (\<lambda>(attr, value). case query_attr attr of None \<Rightarrow> True
        | Some (operator, realAttr) \<Rightarrow> compare (real_map ecWidth ecHeight realAttr) value operator) ms
    | _ \<Rightarrow> True)"

definition getMediaOption :: "nat \<Rightarrow> nat \<Rightarrow> manager \<Rightarrow> jsval list \<times> manager" where
  "getMediaOption ecWidth ecHeight om =
     (let mediaList = om_mediaList om; mediaDefault = om_mediaDefault om in
      if mediaList = [] \<and> \<not> truthy mediaDefault then ([], om)
      else let indices = map int (filter (\<lambda>i. applyMediaQuery (own (mediaList ! i) ''query'') ecWidth ecHeight) [0..<length mediaList]);
               indices = (if indices = [] \<and> truthy mediaDefault then [-1] else indices);
               result = (if indices \<noteq> [] \<and> indices \<noteq> om_currentMediaIndices om
                 then map (\<lambda>i. clone (own (if i = -1 then mediaDefault else mediaList ! nat i) ''option'')) indices else []) in
        (result, om\<lparr>om_currentMediaIndices := indices\<rparr>))"

section \<open>The model and its options\<close>

record ('c, 'm) chart =
  ch_model :: "('c, 'm) gm"
  ch_manager :: manager
  ch_started :: bool

text \<open>What the chart is given by its surroundings: the size, the theme and the platform.\<close>

record 'cm setting =
  st_width :: nat
  st_height :: nat
  st_theme :: members
  st_platform :: string
  st_currentIndex :: "'cm \<Rightarrow> int"

datatype reset = Whole | Recreate | Timeline | Media

definition on_model :: "('c, 'm) chart \<Rightarrow> ('c, 'm) gm outcome \<Rightarrow> ('c, 'm) chart outcome" where
  "on_model ch r = (case r of Fine g \<Rightarrow> Fine (ch\<lparr>ch_model := g\<rparr>) | Raise e g \<Rightarrow> Raise e (ch\<lparr>ch_model := g\<rparr>))"

text \<open>Merging a value that is not an object merges nothing.\<close>

definition mergeValue :: "('c, 'm) env \<Rightarrow> jsval \<Rightarrow> ('c, 'm) chart \<Rightarrow> ('c, 'm) chart outcome" where
  "mergeValue env v ch = on_model ch (gm_mergeOption env (case v of Obj ms \<Rightarrow> ms | _ \<Rightarrow> []) (ch_model ch))"

fun mergeValues :: "('c, 'm) env \<Rightarrow> jsval list \<Rightarrow> ('c, 'm) chart \<Rightarrow> ('c, 'm) chart outcome" where
  "mergeValues env [] ch = Fine ch"
| "mergeValues env (v # vs) ch = and_then (mergeValue env v ch) (mergeValues env vs)"

definition resetBase :: "('c, 'm) env \<Rightarrow> ('c, 'm) component setting \<Rightarrow> reset \<Rightarrow> ('c, 'm) chart \<Rightarrow> ('c, 'm) chart outcome" where
  "resetBase env st ty ch =
     (if ty = Whole \<or> ty = Recreate
      then (case mountOption (ty = Recreate) (ch_manager ch) of
          None \<Rightarrow> Raise Not_Mounted ch
        | Some (baseOption, om) \<Rightarrow>
            let ch = ch\<lparr>ch_manager := om\<rparr> in
            if \<not> ch_started ch \<or> ty = Recreate
            then on_model (ch\<lparr>ch_started := True\<rparr>) (initBase env (st_theme st) (st_platform st) (case baseOption of Obj ms \<Rightarrow> ms | _ \<Rightarrow> []))
            else and_then (on_model ch (restoreData env (ch_model ch))) (mergeValue env baseOption))
      else on_model ch (restoreData env (ch_model ch)))"

definition resetTimeline :: "('c, 'm) env \<Rightarrow> ('c, 'm) component setting \<Rightarrow> reset \<Rightarrow> ('c, 'm) chart \<Rightarrow> ('c, 'm) chart outcome" where
  "resetTimeline env st ty ch =
     (let timelineOption = getTimelineOption (st_currentIndex st) (ch_model ch) (ch_manager ch) in
      if ty \<noteq> Media \<and> truthy timelineOption then mergeValue env timelineOption ch else Fine ch)"

definition resetMedia :: "('c, 'm) env \<Rightarrow> ('c, 'm) component setting \<Rightarrow> reset \<Rightarrow> ('c, 'm) chart \<Rightarrow> ('c, 'm) chart outcome" where
  "resetMedia env st ty ch =
     (if ty = Timeline then Fine ch
      else let (mediaOptions, om) = getMediaOption (st_width st) (st_height st) (ch_manager ch) in
        mergeValues env mediaOptions (ch\<lparr>ch_manager := om\<rparr>))"

definition resetOption :: "('c, 'm) env \<Rightarrow> ('c, 'm) component setting \<Rightarrow> reset \<Rightarrow> ('c, 'm) chart \<Rightarrow> ('c, 'm) chart outcome" where
  "resetOption env st ty ch = and_then (and_then (resetBase env st ty ch) (resetTimeline env st ty)) (resetMedia env st ty)"

text \<open>An option that came from the chart with its inner mark fails an assertion.\<close>

definition setOption ::
  "('c, 'm) env \<Rightarrow> ('c, 'm) component setting \<Rightarrow> (jsval \<Rightarrow> bool \<Rightarrow> jsval) list \<Rightarrow> jsval \<Rightarrow> ('c, 'm) chart \<Rightarrow> ('c, 'm) chart outcome" where
  "setOption env st optionPreprocessorFuncs opt ch =
     (if own opt OPTION_INNER_KEY \<noteq> Undefined then Raise Inner_Option ch
      else case om_setOption env optionPreprocessorFuncs opt (ch_manager ch) of
        None \<Rightarrow> Raise Outside ch
      | Some om \<Rightarrow> resetOption env st Whole (ch\<lparr>ch_manager := om\<rparr>))"

definition newChart :: "('c, 'm) chart" where
  "newChart = \<lparr>ch_model = \<lparr>gm_settings = [], gm_components = [], gm_seriesIndices = None\<rparr>, ch_manager = newManager, ch_started = False\<rparr>"

end
