(* ===== verification/Chart_Core.thy ===== *)
theory Chart_Core
  imports Option_Manager
begin

text \<open>
  The chart and the page, module 1: actions and the events they become, charts that are connected, options set
  on a chart, resizing and frames. What an action does to the model of its chart, what an update
  draws, and what listeners of the page do are parameters. A task is a call that is under way; the
  tasks behind it are what its callers still have to do, and an error ends them all, since nothing catches it.
\<close>

section \<open>Actions\<close>

text \<open>Actions are kept in an array used as a dictionary: a member of all arrays is found under its name.\<close>

record action_info =
  ai_event :: string
  ai_update :: string

record registry_of_actions =
  ra_actions :: "(string \<times> action_info) list"
  ra_events :: "(string \<times> string) list"

definition lowercase :: "string \<Rightarrow> string" where
  "lowercase s = map lower s"

definition registerAction :: "string \<Rightarrow> string \<Rightarrow> string \<Rightarrow> registry_of_actions \<Rightarrow> registry_of_actions" where
  "registerAction actionType event update ra =
     (let eventName = lowercase (if event = '''' then actionType else event) in
      ra\<lparr>ra_actions := (if map_of (ra_actions ra) actionType = None \<and> actionType \<notin> set object_members \<union> set array_members
            then AList.update actionType \<lparr>ai_event = eventName, ai_update = update\<rparr> (ra_actions ra) else ra_actions ra),
         ra_events := AList.update eventName actionType (ra_events ra)\<rparr>)"

datatype wrap = No_Action | Info action_info | Alien_Action

definition action_of :: "registry_of_actions \<Rightarrow> string \<Rightarrow> wrap" where
  "action_of ra ty = (case map_of (ra_actions ra) ty of Some i \<Rightarrow> Info i
     | None \<Rightarrow> if ty \<in> set object_members \<union> set array_members then Alien_Action else No_Action)"

section \<open>Charts\<close>

type_synonym payload = members

definition ptype :: "payload \<Rightarrow> string" where
  "ptype p = (case map_of p ''type'' of Some (Text s) \<Rightarrow> s | _ \<Rightarrow> '''')"

text \<open>The status of a connected chart; one that was never connected has none. Nothing sets \<open>Updating\<close>.\<close>

datatype status = No_Status | Pending | Updating | Updated

record 'm inst =
  in_group :: "string option"
  in_model :: 'm
  in_mainProcess :: bool
  in_optionUpdated :: bool
  in_pendingActions :: "payload list"
  in_status :: status
  in_events :: "string list"

text \<open>All charts of the page by identifier, the connected groups, and the actions run so far, each with its chart.\<close>

record 'm world =
  w_instances :: "(string \<times> 'm inst) list"
  w_connected :: "(string \<times> bool) list"
  w_trace :: "(string \<times> payload) list"

text \<open>
  What the page provides. \<open>pg_action\<close> runs an action on the model of a chart and gives an event, if the action
  returns one; \<open>pg_update\<close> is an update method. Both may dispatch actions on their chart on the way and may
  raise an error. \<open>pg_listen\<close> gives the actions that the listeners of a chart dispatch at an event.
\<close>

record 'm page =
  pg_registry :: registry_of_actions
  pg_action :: "string \<Rightarrow> payload \<Rightarrow> 'm \<Rightarrow> (payload option \<times> 'm \<times> payload list) option"
  pg_update :: "string \<Rightarrow> payload option \<Rightarrow> 'm \<Rightarrow> ('m \<times> payload list) option"
  pg_listen :: "string \<Rightarrow> string \<Rightarrow> payload \<Rightarrow> (string \<times> payload) list"

datatype task = Dispatch string payload bool | Run string payload bool | Emit string string payload
  | Connected string payload | Notify string payload | Set_Status "string list" status | Flush string bool

definition inst_of :: "'m world \<Rightarrow> string \<Rightarrow> 'm inst option" where
  "inst_of w i = map_of (w_instances w) i"

definition upd_inst :: "string \<Rightarrow> ('m inst \<Rightarrow> 'm inst) \<Rightarrow> 'm world \<Rightarrow> 'm world" where
  "upd_inst i f w = w\<lparr>w_instances := map (\<lambda>(j, c). (j, if j = i then f c else c)) (w_instances w)\<rparr>"

section \<open>Running an action\<close>

definition batched :: "payload \<Rightarrow> bool" where
  "batched p \<longleftrightarrow> (case map_of p ''batch'' of Some v \<Rightarrow> truthy v | None \<Rightarrow> False)"

definition update_method :: "action_info \<Rightarrow> string" where
  "update_method info = (if ai_update info = '''' then ''update'' else ai_update info)"

text \<open>The items of a batch take from the payload what they do not set.\<close>

definition payloads_of :: "payload \<Rightarrow> payload list" where
  "payloads_of p = (if batched p
     then map (\<lambda>item. put ''batch'' Null (defaults False (case item of Obj ms \<Rightarrow> ms | _ \<Rightarrow> []) p))
       (case map_of p ''batch'' of Some (Arr items) \<Rightarrow> items | _ \<Rightarrow> [])
     else [p])"

text \<open>
  The loop over the items: the model, the events and the actions dispatched on the way; at highlighting
  each item is followed by an update.
\<close>

fun run_items :: "'m page \<Rightarrow> string \<Rightarrow> action_info \<Rightarrow> bool \<Rightarrow> payload list \<Rightarrow> 'm \<Rightarrow> (payload list \<times> 'm \<times> payload list) option" where
  "run_items pg ty info hl [] m = Some ([], m, [])"
| "run_items pg ty info hl (p # ps) m =
     do { (ev, m, pend) \<leftarrow> pg_action pg ty p m;
          (m, pend') \<leftarrow> (if hl then pg_update pg (update_method info) (Some p) m else Some (m, []));
          (evs, m, pend'') \<leftarrow> run_items pg ty info hl ps m;
          let ev = put ''type'' (Text (ai_event info)) (case ev of Some e \<Rightarrow> e | None \<Rightarrow> p) in
          Some (ev # evs, m, pend @ pend' @ pend'') }"

text \<open>The update after the items: with an option that waits for its update, everything is updated.\<close>

definition run_update :: "'m page \<Rightarrow> action_info \<Rightarrow> bool \<Rightarrow> payload \<Rightarrow> bool \<Rightarrow> 'm \<Rightarrow> ('m \<times> bool \<times> payload list) option" where
  "run_update pg info hl p optionUpdated m =
     (let updateMethod = update_method info in
      if updateMethod \<noteq> ''none'' \<and> \<not> hl
      then (if optionUpdated
            then map_option (\<lambda>(m, pend). (m, False, pend)) (pg_update pg ''prepareAndUpdate'' (Some p) m)
            else map_option (\<lambda>(m, pend). (m, optionUpdated, pend)) (pg_update pg updateMethod (Some p) m))
      else Some (m, optionUpdated, []))"

definition event_object :: "payload \<Rightarrow> action_info \<Rightarrow> payload list \<Rightarrow> payload" where
  "event_object p info evs =
     (if batched p then [(''type'', Text (ai_event info)), (''batch'', Arr (map Obj evs))] else case evs of [] \<Rightarrow> [] | e # _ \<Rightarrow> e)"

text \<open>
  \<open>doDispatchAction\<close>: the new world and the event, or, when the action or the update raises, the world with
  the flag of the main process still set. What the failing call changed in the model before is not kept track of.
\<close>

definition doDispatchAction :: "'m page \<Rightarrow> string \<Rightarrow> payload \<Rightarrow> action_info \<Rightarrow> 'm world \<Rightarrow> 'm world + payload \<times> 'm world" where
  "doDispatchAction pg i p info w = (case inst_of w i of
      None \<Rightarrow> Inl w
    | Some c \<Rightarrow>
        let hl = (ptype p = ''highlight'' \<or> ptype p = ''downplay'');
            w = upd_inst i (\<lambda>c. c\<lparr>in_mainProcess := True\<rparr>) (w\<lparr>w_trace := w_trace w @ [(i, p)]\<rparr>);
            r = do { (evs, m, pend) \<leftarrow> run_items pg (ptype p) info hl (payloads_of p) (in_model c);
                     (m, upd, pend') \<leftarrow> run_update pg info hl p (in_optionUpdated c) m;
                     Some (evs, m, upd, pend @ pend') } in
        case r of
          None \<Rightarrow> Inl w
        | Some (evs, m, upd, pend) \<Rightarrow>
            Inr (event_object p info evs, upd_inst i (\<lambda>c. c\<lparr>in_model := m, in_optionUpdated := upd,
              in_pendingActions := in_pendingActions c @ pend, in_mainProcess := False\<rparr>) w))"

section \<open>Connected charts\<close>

definition group_name :: "string option \<Rightarrow> string" where
  "group_name g = (case g of None \<Rightarrow> ''undefined'' | Some s \<Rightarrow> s)"

text \<open>The groups are kept in a plain object, where members of all objects are found.\<close>

definition group_connected :: "'m world \<Rightarrow> string option \<Rightarrow> bool" where
  "group_connected w g = (case map_of (w_connected w) (group_name g) of Some b \<Rightarrow> b | None \<Rightarrow> group_name g \<in> set object_members)"

definition others_of :: "'m world \<Rightarrow> string \<Rightarrow> 'm inst \<Rightarrow> string list" where
  "others_of w i c = map fst (filter (\<lambda>(j, d). j \<noteq> i \<and> in_group d = in_group c) (w_instances w))"

definition makeActionFromEvent :: "registry_of_actions \<Rightarrow> payload \<Rightarrow> payload" where
  "makeActionFromEvent ra ev = put ''type'' (case map_of (ra_events ra) (ptype ev) of Some t \<Rightarrow> Text t | None \<Rightarrow> Undefined) (util_extend [] ev)"

section \<open>One step\<close>

text \<open>What a task does, and the tasks it calls; \<open>Inl\<close> is an error that nobody catches.\<close>

definition step :: "'m page \<Rightarrow> task \<Rightarrow> 'm world \<Rightarrow> 'm world + task list \<times> 'm world" where
  "step pg t w = (case t of
     Dispatch i p silent \<Rightarrow>
       (case action_of (pg_registry pg) (ptype p) of
          No_Action \<Rightarrow> Inr ([], w)
        | _ \<Rightarrow> (case inst_of w i of None \<Rightarrow> Inl w
            | Some c \<Rightarrow> if in_mainProcess c then Inr ([], upd_inst i (\<lambda>c. c\<lparr>in_pendingActions := in_pendingActions c @ [p]\<rparr>) w)
                else Inr ([Run i p silent, Flush i silent], w)))
   | Run i p silent \<Rightarrow>
       (case action_of (pg_registry pg) (ptype p) of
          Info info \<Rightarrow> (case doDispatchAction pg i p info w of
              Inl w \<Rightarrow> Inl w
            | Inr (ev, w) \<Rightarrow> Inr (if silent then [] else [Emit i (ptype ev) ev], w))
        | _ \<Rightarrow> Inl w)
   | Emit i ty ev \<Rightarrow>
       (case inst_of w i of None \<Rightarrow> Inl w
        | Some c \<Rightarrow> if ty \<in> set (in_events c)
            then Inr (map (\<lambda>(j, p). Dispatch j p False) (pg_listen pg i ty ev) @ [Connected i ev], w) else Inr ([], w))
   | Connected i ev \<Rightarrow>
       (case inst_of w i of None \<Rightarrow> Inl w
        | Some c \<Rightarrow>
            if group_connected w (in_group c) \<and> in_status c \<noteq> Pending
            then let others = others_of w i c; p = makeActionFromEvent (pg_registry pg) ev in
              Inr (map (\<lambda>j. Notify j p) others @ [Set_Status others Updated],
                foldl (\<lambda>w j. upd_inst j (\<lambda>c. c\<lparr>in_status := Pending\<rparr>) w) w others)
            else Inr ([], w))
   | Notify j p \<Rightarrow>
       (case inst_of w j of None \<Rightarrow> Inr ([], w)
        | Some c \<Rightarrow> Inr (if in_status c = Updating then [] else [Dispatch j p False], w))
   | Set_Status js s \<Rightarrow> Inr ([], foldl (\<lambda>w j. upd_inst j (\<lambda>c. c\<lparr>in_status := s\<rparr>) w) w js)
   | Flush i silent \<Rightarrow>
       (case inst_of w i of None \<Rightarrow> Inr ([], w)
        | Some c \<Rightarrow> (case in_pendingActions c of [] \<Rightarrow> Inr ([], w)
            | p # ps \<Rightarrow> Inr ([Run i p silent, Flush i silent], upd_inst i (\<lambda>c. c\<lparr>in_pendingActions := ps\<rparr>) w))))"

text \<open>All tasks in order; \<open>None\<close> when they never end.\<close>

partial_function (option) run_tasks :: "'m page \<Rightarrow> task list \<Rightarrow> 'm world \<Rightarrow> ('m world + 'm world) option" where
  "run_tasks pg ts w = (case ts of [] \<Rightarrow> Some (Inr w)
     | t # ts \<Rightarrow> (case step pg t w of Inl w \<Rightarrow> Some (Inl w) | Inr (us, w) \<Rightarrow> run_tasks pg (us @ ts) w))"

declare run_tasks.simps [code]

definition dispatchAction :: "'m page \<Rightarrow> string \<Rightarrow> payload \<Rightarrow> bool \<Rightarrow> 'm world \<Rightarrow> ('m world + 'm world) option" where
  "dispatchAction pg i p silent w = run_tasks pg [Dispatch i p silent] w"

section \<open>Charts come and go\<close>

text \<open>The handlers of the events that are known at that time are registered with the chart.\<close>

definition chart_init :: "'m page \<Rightarrow> string \<Rightarrow> 'm \<Rightarrow> 'm world \<Rightarrow> 'm world" where
  "chart_init pg i m w = w\<lparr>w_instances := AList.update i
     \<lparr>in_group = None, in_model = m, in_mainProcess = False, in_optionUpdated = False, in_pendingActions = [],
      in_status = No_Status, in_events = map fst (ra_events (pg_registry pg))\<rparr> (w_instances w)\<rparr>"

definition connect :: "string \<Rightarrow> 'm world \<Rightarrow> 'm world" where
  "connect g w = w\<lparr>w_connected := AList.update g True (w_connected w)\<rparr>"

definition disConnect :: "string \<Rightarrow> 'm world \<Rightarrow> 'm world" where
  "disConnect g w = w\<lparr>w_connected := AList.update g False (w_connected w)\<rparr>"

text \<open>Charts are connected under the last group that one of them has, or a new one.\<close>

definition connect_charts :: "string list \<Rightarrow> string \<Rightarrow> 'm world \<Rightarrow> 'm world" where
  "connect_charts charts fresh w =
     (let groupId = foldl (\<lambda>g i. case Option.bind (inst_of w i) in_group of Some h \<Rightarrow> h | None \<Rightarrow> g) '''' charts;
          groupId = (if groupId = '''' then fresh else groupId) in
      connect groupId (foldl (\<lambda>w i. upd_inst i (\<lambda>c. c\<lparr>in_group := Some groupId\<rparr>) w) w charts))"

definition chart_dispose :: "string \<Rightarrow> 'm world \<Rightarrow> 'm world" where
  "chart_dispose i w = w\<lparr>w_instances := AList.delete i (w_instances w)\<rparr>"

section \<open>Options and frames\<close>

text \<open>
  The model of a chart is missing before its first option; \<open>h_lastOnlyGraphic\<close> tells that the last option held nothing
  but graphic elements, and \<open>h_drawn\<close> is what the chart shows.
\<close>

record ('c, 'cm, 'd) holder =
  h_chart :: "('c, 'cm) chart option"
  h_lastOnlyGraphic :: bool
  h_drawn :: 'd

definition onlyGraphic :: "jsval \<Rightarrow> bool" where
  "onlyGraphic opt = (case opt of
      Obj ms \<Rightarrow> (case map_of ms ''graphic'' of Some v \<Rightarrow> truthy v | None \<Rightarrow> False) \<and> (\<forall>(mainType, _) \<in> set ms. mainType = ''graphic'')
    | _ \<Rightarrow> False)"

definition in_process :: "string \<Rightarrow> 'm \<Rightarrow> 'm world \<Rightarrow> 'm world" where
  "in_process i m w = upd_inst i (\<lambda>c. c\<lparr>in_mainProcess := True, in_model := m\<rparr>) w"

text \<open>The end of a process: the flag is taken back, and what was dispatched on the way waits.\<close>

definition end_process :: "string \<Rightarrow> 'm \<Rightarrow> bool \<Rightarrow> payload list \<Rightarrow> 'm world \<Rightarrow> 'm world" where
  "end_process i m updated pend w = upd_inst i (\<lambda>c. c\<lparr>in_mainProcess := False, in_model := m, in_optionUpdated := updated,
     in_pendingActions := in_pendingActions c @ pend\<rparr>) w"

definition ec_setOption ::
  "('c, 'cm) env \<Rightarrow> ('c, 'cm) component setting \<Rightarrow> (jsval \<Rightarrow> bool \<Rightarrow> jsval) list \<Rightarrow> ('c, 'cm, 'd) holder page \<Rightarrow> string \<Rightarrow> jsval \<Rightarrow> bool \<Rightarrow> bool \<Rightarrow>
    ('c, 'cm, 'd) holder world \<Rightarrow> ('c, 'cm, 'd) holder world + task list \<times> ('c, 'cm, 'd) holder world" where
  "ec_setOption env st fs pg i opt notMerge lazyUpdate w = (case inst_of w i of
      None \<Rightarrow> Inl w
    | Some c \<Rightarrow>
        if in_mainProcess c then Inl w
        else let h = in_model c;
            ch = (case h_chart h of Some ch \<Rightarrow> if notMerge then newChart else ch | None \<Rightarrow> newChart);
            h = h\<lparr>h_lastOnlyGraphic := onlyGraphic opt\<rparr> in
          case setOption env st fs opt ch of
            Raise e ch \<Rightarrow> Inl (in_process i (h\<lparr>h_chart := Some ch\<rparr>) w)
          | Fine ch \<Rightarrow>
              let h = h\<lparr>h_chart := Some ch\<rparr> in
              if lazyUpdate then Inr ([Flush i False], end_process i h True [] w)
              else (case pg_update pg ''prepareAndUpdate'' None h of
                  None \<Rightarrow> Inl (in_process i h w)
                | Some (h, pend) \<Rightarrow> Inr ([Flush i False], end_process i h False pend w)))"

definition ec_resize ::
  "('c, 'cm) env \<Rightarrow> ('c, 'cm) component setting \<Rightarrow> ('c, 'cm, 'd) holder page \<Rightarrow> string \<Rightarrow>
    ('c, 'cm, 'd) holder world \<Rightarrow> ('c, 'cm, 'd) holder world + task list \<times> ('c, 'cm, 'd) holder world" where
  "ec_resize env st pg i w = (case inst_of w i of
      None \<Rightarrow> Inl w
    | Some c \<Rightarrow>
        if in_mainProcess c then Inl w
        else let h = in_model c in
          case (case h_chart h of None \<Rightarrow> Fine (None, False)
              | Some ch \<Rightarrow> (case resetOption env st Media ch of
                  Fine ch' \<Rightarrow> Fine (Some ch', fst (getMediaOption (st_width st) (st_height st) (ch_manager ch)) \<noteq> [])
                | Raise e ch' \<Rightarrow> Raise e (Some ch', False))) of
            Raise e (ch, _) \<Rightarrow> Inl (in_process i (h\<lparr>h_chart := ch\<rparr>) w)
          | Fine (ch, optionChanged) \<Rightarrow>
              let h = h\<lparr>h_chart := ch\<rparr> in
              (case pg_update pg (if optionChanged then ''prepareAndUpdate'' else ''update'') None h of
                 None \<Rightarrow> Inl (in_process i h w)
               | Some (h, pend) \<Rightarrow> Inr ([Flush i False], end_process i h (in_optionUpdated c) pend w)))"

text \<open>An option that waits is drawn at the next frame; actions that are dispatched then are not flushed.\<close>

definition onframe :: "'m page \<Rightarrow> string \<Rightarrow> 'm world \<Rightarrow> 'm world + 'm world" where
  "onframe pg i w = (case inst_of w i of
      None \<Rightarrow> Inr w
    | Some c \<Rightarrow> if \<not> in_optionUpdated c then Inr w
        else (case pg_update pg ''prepareAndUpdate'' None (in_model c) of
            None \<Rightarrow> Inl (in_process i (in_model c) w)
          | Some (m, pend) \<Rightarrow> Inr (end_process i m False pend w)))"

end
