(* ===== verification/Chart_Views.thy ===== *)
theory Chart_Views
  imports Chart_Core Timsort
begin

text \<open>
  What a chart draws, module 1: the functions that process data and encode visuals by priority, the views
  of components and series as the model changes, stacked series, and the update methods that
  actions name. Views are objects with an address; classes of views, processors and the creation of
  coordinate systems are parameters. An error ends the update, nothing catches it.
\<close>

section \<open>Functions by priority\<close>

record 'f prioritized =
  pf_prio :: int
  pf_func :: 'f
  pf_isLayout :: bool

definition PRIORITY_PROCESSOR_FILTER :: int where "PRIORITY_PROCESSOR_FILTER = 1000"
definition PRIORITY_VISUAL_LAYOUT :: int where "PRIORITY_VISUAL_LAYOUT = 1000"
definition PRIORITY_VISUAL_CHART :: int where "PRIORITY_VISUAL_CHART = 3000"

text \<open>A priority may be left out.\<close>

definition registerProcessor :: "int option \<Rightarrow> 'f \<Rightarrow> 'f prioritized list \<Rightarrow> 'f prioritized list" where
  "registerProcessor priority f fs =
     fs @ [\<lparr>pf_prio = (case priority of None \<Rightarrow> PRIORITY_PROCESSOR_FILTER | Some p \<Rightarrow> p), pf_func = f, pf_isLayout = False\<rparr>]"

definition registerLayout :: "int option \<Rightarrow> 'f \<Rightarrow> 'f prioritized list \<Rightarrow> 'f prioritized list" where
  "registerLayout priority f fs =
     fs @ [\<lparr>pf_prio = (case priority of None \<Rightarrow> PRIORITY_VISUAL_LAYOUT | Some p \<Rightarrow> p), pf_func = f, pf_isLayout = True\<rparr>]"

definition registerVisual :: "int option \<Rightarrow> 'f \<Rightarrow> 'f prioritized list \<Rightarrow> 'f prioritized list" where
  "registerVisual priority f fs =
     fs @ [\<lparr>pf_prio = (case priority of None \<Rightarrow> PRIORITY_VISUAL_CHART | Some p \<Rightarrow> p), pf_func = f, pf_isLayout = False\<rparr>]"

definition prioritySortFunc :: "'f prioritized \<Rightarrow> 'f prioritized \<Rightarrow> int" where
  "prioritySortFunc a b = pf_prio a - pf_prio b"

text \<open>The constructor of a chart sorts the functions of the page.\<close>

definition sortFuncs :: "'f prioritized list \<Rightarrow> 'f prioritized list option" where
  "sortFuncs fs = sort_array fs prioritySortFunc None None"

section \<open>Views\<close>

text \<open>A component of the model with the identifier of its view, once it has one.\<close>

record 'o viewed =
  vm_viewId :: "string option"
  vm_own :: 'o

text \<open>
  A view: its class, the marks of the last update, and where the component stands that it was last
  prepared for.
\<close>

record ('k, 'v) view =
  vw_class :: 'k
  vw_alive :: bool
  vw_id :: string
  vw_model :: "string \<times> nat"
  vw_own :: 'v
  vw_silent :: bool

text \<open>The list and the dictionary of views, by address; one pair for components, one for series.\<close>

record views =
  vs_list :: "nat list"
  vs_map :: "(string \<times> nat) list"

record background =
  bg_hasGradientOrPattern :: bool
  bg_clearColor :: jsval
  bg_style :: jsval

text \<open>\<open>dr_groups\<close> are the groups of views that the renderer shows, \<open>dr_heap\<close> are all views ever made.\<close>

record ('k, 'v) drawn =
  dr_components :: views
  dr_charts :: views
  dr_heap :: "('k, 'v) view list"
  dr_groups :: "nat list"
  dr_background :: background

datatype draw_error = No_Model | No_View | Alien_View | View_Error | Processor_Error | No_Method | Model_Error gm_error

fun followed_by :: "draw_error + 'a \<Rightarrow> ('a \<Rightarrow> draw_error + 'b) \<Rightarrow> draw_error + 'b" where
  "followed_by (Inl e) f = Inl e"
| "followed_by (Inr x) f = f x"

definition or_error :: "draw_error \<Rightarrow> 'a option \<Rightarrow> draw_error + 'a" where
  "or_error e r = (case r of None \<Rightarrow> Inl e | Some x \<Rightarrow> Inr x)"

definition of_outcome :: "'a outcome \<Rightarrow> draw_error + 'a" where
  "of_outcome r = (case r of Fine x \<Rightarrow> Inr x | Raise e _ \<Rightarrow> Inl (Model_Error e))"

fun each_of :: "('a \<Rightarrow> 's \<Rightarrow> draw_error + 's) \<Rightarrow> 'a list \<Rightarrow> 's \<Rightarrow> draw_error + 's" where
  "each_of f [] s = Inr s"
| "each_of f (x # xs) s = followed_by (f x s) (each_of f xs)"

text \<open>
  What the page provides: the types of component classes, the classes of views with their methods,
  processors and visual functions, coordinate systems, and what the core reads from
  and writes to the components. \<open>pt_method\<close> gives the view after the call and the actions it dispatched on its chart.
\<close>

record ('c, 'o, 'k, 'v) painting =
  pt_type :: "'c \<Rightarrow> string"
  pt_componentViews :: "'k registry"
  pt_chartViews :: "'k registry"
  pt_init :: "'k \<Rightarrow> ('c, 'o viewed) gm \<Rightarrow> 'v option"
  pt_method :: "string \<Rightarrow> 'k \<Rightarrow> ('c, 'o viewed) component \<Rightarrow> ('c, 'o viewed) gm \<Rightarrow> payload option \<Rightarrow> 'v \<Rightarrow> ('v \<times> payload list) option"
  pt_remove :: "'k \<Rightarrow> ('c, 'o viewed) gm \<Rightarrow> 'v \<Rightarrow> 'v option"
  pt_dispose :: "'k \<Rightarrow> ('c, 'o viewed) gm \<Rightarrow> 'v \<Rightarrow> 'v option"
  pt_processors :: "(('c, 'o viewed) gm \<Rightarrow> ('c, 'o viewed) gm option) prioritized list"
  pt_visuals :: "(payload option \<Rightarrow> ('c, 'o viewed) gm \<Rightarrow> ('c, 'o viewed) gm option) prioritized list"
  pt_createCoords :: "('c, 'o viewed) gm \<Rightarrow> ('c, 'o viewed) gm option"
  pt_updateCoords :: "('c, 'o viewed) gm \<Rightarrow> ('c, 'o viewed) gm option"
  pt_stack :: "('c, 'o viewed) component \<Rightarrow> jsval"
  pt_isList :: "('c, 'o viewed) component \<Rightarrow> bool"
  pt_setStackedOn :: "nat + string \<Rightarrow> 'o \<Rightarrow> 'o"
  pt_clearAllVisual :: "'o \<Rightarrow> 'o"
  pt_clearColorPalette :: "'o \<Rightarrow> 'o"
  pt_clearChartPalette :: "('c, 'o viewed) gm \<Rightarrow> ('c, 'o viewed) gm"
  pt_silent :: "('c, 'o viewed) component \<Rightarrow> bool"
  pt_singleCanvas :: bool
  pt_canvasSupported :: bool
  pt_rgb :: "jsval \<Rightarrow> (jsval \<times> bool) option"

definition upd_view :: "nat \<Rightarrow> (('k, 'v) view \<Rightarrow> ('k, 'v) view) \<Rightarrow> ('k, 'v) drawn \<Rightarrow> ('k, 'v) drawn" where
  "upd_view a f d = d\<lparr>dr_heap := (dr_heap d)[a := f (dr_heap d ! a)]\<rparr>"

definition views_of :: "bool \<Rightarrow> ('k, 'v) drawn \<Rightarrow> views" where
  "views_of isComponent d = (if isComponent then dr_components d else dr_charts d)"

definition set_views :: "bool \<Rightarrow> views \<Rightarrow> ('k, 'v) drawn \<Rightarrow> ('k, 'v) drawn" where
  "set_views isComponent vs d = (if isComponent then d\<lparr>dr_components := vs\<rparr> else d\<lparr>dr_charts := vs\<rparr>)"

text \<open>A write to a component at its place.\<close>

definition upd_component :: "string \<Rightarrow> nat \<Rightarrow> ('m \<Rightarrow> 'm) \<Rightarrow> ('c, 'm) gm \<Rightarrow> ('c, 'm) gm" where
  "upd_component mainType i f g = (let cs = components_of g mainType in
     if i < length cs then set_components mainType (cs[i := (cs ! i)\<lparr>cm_model := f (cm_model (cs ! i))\<rparr>]) g else g)"

section \<open>Preparing the views\<close>

text \<open>The components or the series shown, with their places; \<open>None\<close> where a shown series is not there.\<close>

definition to_prepare :: "bool \<Rightarrow> ('c, 'm) gm \<Rightarrow> draw_error + (('c, 'm) component option \<times> (string \<times> nat)) list" where
  "to_prepare isComponent g =
     (if isComponent
      then Inr (map (\<lambda>(ty, c, i). (Some c, (ty, i))) (filter (\<lambda>(ty, _). ty \<noteq> ''series'') (eachComponentOfAll g)))
      else case eachSeries g of Inl e \<Rightarrow> Inl (Model_Error e) | Inr cs \<Rightarrow> Inr (map (\<lambda>(c, i). (c, (''series'', i))) cs))"

definition view_class :: "('c, 'o, 'k, 'v) painting \<Rightarrow> bool \<Rightarrow> string \<Rightarrow> 'k found option" where
  "view_class pt isComponent ty =
     (let (main, sub) = parseClassType ty in
      case (if isComponent then getClass main sub False (pt_componentViews pt) else getClass sub '''' False (pt_chartViews pt)) of
        Inl _ \<Rightarrow> None | Inr f \<Rightarrow> f)"

definition mark_view ::
  "string \<Rightarrow> string \<times> nat \<Rightarrow> nat \<Rightarrow> ('c, 'o viewed) gm \<times> ('k, 'v) drawn \<Rightarrow> ('c, 'o viewed) gm \<times> ('k, 'v) drawn" where
  "mark_view viewId place a s =
     (upd_component (fst place) (snd place) (\<lambda>m. m\<lparr>vm_viewId := Some viewId\<rparr>) (fst s),
      upd_view a (\<lambda>v. v\<lparr>vw_alive := True, vw_id := viewId, vw_model := place\<rparr>) (snd s))"

definition prepareOne ::
  "('c, 'o, 'k, 'v) painting \<Rightarrow> bool \<Rightarrow> ('c, 'o viewed) component option \<times> (string \<times> nat) \<Rightarrow>
    ('c, 'o viewed) gm \<times> ('k, 'v) drawn \<Rightarrow> draw_error + ('c, 'o viewed) gm \<times> ('k, 'v) drawn" where
  "prepareOne pt isComponent = (\<lambda>(c, place) (g, d). case c of
      None \<Rightarrow> Inl (Model_Error Not_Initialized)
    | Some c \<Rightarrow>
        let ty = pt_type pt (cm_class c); viewId = cm_id c @ ''_'' @ ty; vs = views_of isComponent d in
        case map_of (vs_map vs) viewId of
          Some a \<Rightarrow> Inr (mark_view viewId place a (g, d))
        | None \<Rightarrow> (case view_class pt isComponent ty of
              None \<Rightarrow> Inr (g, d)
            | Some (Object_Member _) \<Rightarrow> Inl Alien_View
            | Some (Class k) \<Rightarrow> (case pt_init pt k g of
                  None \<Rightarrow> Inl View_Error
                | Some x \<Rightarrow>
                    let a = length (dr_heap d);
                        view = \<lparr>vw_class = k, vw_alive = True, vw_id = viewId, vw_model = place, vw_own = x, vw_silent = False\<rparr>;
                        d = d\<lparr>dr_heap := dr_heap d @ [view], dr_groups := dr_groups d @ [a]\<rparr>;
                        d = set_views isComponent \<lparr>vs_list = vs_list vs @ [a], vs_map = AList.update viewId a (vs_map vs)\<rparr> d in
                    Inr (mark_view viewId place a (g, d)))))"

text \<open>The views that were not marked go: out of the renderer, the list and the dictionary.\<close>

definition dispose_view ::
  "('c, 'o, 'k, 'v) painting \<Rightarrow> bool \<Rightarrow> ('c, 'o viewed) gm \<Rightarrow> nat \<Rightarrow> ('k, 'v) drawn \<Rightarrow> draw_error + ('k, 'v) drawn" where
  "dispose_view pt isComponent g a d =
     (let v = dr_heap d ! a in
      if vw_alive v then Inr d
      else followed_by (or_error View_Error (pt_dispose pt (vw_class v) g (vw_own v))) (\<lambda>x.
        let vs = views_of isComponent d;
            d = upd_view a (\<lambda>v. v\<lparr>vw_own := x\<rparr>) (d\<lparr>dr_groups := removeAll a (dr_groups d)\<rparr>) in
        Inr (set_views isComponent \<lparr>vs_list = remove1 a (vs_list vs), vs_map = AList.delete (vw_id v) (vs_map vs)\<rparr> d)))"

definition prepareView ::
  "('c, 'o, 'k, 'v) painting \<Rightarrow> bool \<Rightarrow> ('c, 'o viewed) gm \<times> ('k, 'v) drawn \<Rightarrow> draw_error + ('c, 'o viewed) gm \<times> ('k, 'v) drawn" where
  "prepareView pt isComponent s =
     (let (g, d) = s; d = foldl (\<lambda>d a. upd_view a (\<lambda>v. v\<lparr>vw_alive := False\<rparr>) d) d (vs_list (views_of isComponent d)) in
      followed_by (to_prepare isComponent g) (\<lambda>cs.
      followed_by (each_of (prepareOne pt isComponent) cs (g, d)) (\<lambda>(g, d).
      followed_by (each_of (dispose_view pt isComponent g) (vs_list (views_of isComponent d)) d) (\<lambda>d. Inr (g, d)))))"

section \<open>Data, stacks and visuals\<close>

definition processData :: "('c, 'o, 'k, 'v) painting \<Rightarrow> ('c, 'o viewed) gm \<Rightarrow> draw_error + ('c, 'o viewed) gm" where
  "processData pt g = each_of (\<lambda>process g. or_error Processor_Error (pf_func process g)) (pt_processors pt) g"

text \<open>
  The series that each one is stacked on: the last one before it under the same stack, kept in a plain object,
  where a member of all objects is found first. A series that is not there is a TypeError.
\<close>

fun stackedOn ::
  "('c, 'o, 'k, 'v) painting \<Rightarrow> (jsval \<Rightarrow> string) \<Rightarrow> (('c, 'o viewed) component option \<times> nat) list \<Rightarrow> (string \<times> nat) list \<Rightarrow>
    (nat \<times> (nat + string)) list option" where
  "stackedOn pt text [] stackedDataMap = Some []"
| "stackedOn pt text ((None, i) # cs) stackedDataMap = None"
| "stackedOn pt text ((Some c, i) # cs) stackedDataMap =
     (if truthy (pt_stack pt c) \<and> pt_isList pt c
      then let k = text (pt_stack pt c);
          previousStack = (case map_of stackedDataMap k of Some j \<Rightarrow> Some (Inl j)
            | None \<Rightarrow> if k \<in> set object_members then Some (Inr k) else None) in
        map_option (append (case previousStack of None \<Rightarrow> [] | Some p \<Rightarrow> [(i, p)])) (stackedOn pt text cs (AList.update k i stackedDataMap))
      else stackedOn pt text cs stackedDataMap)"

definition upd_own :: "('o \<Rightarrow> 'o) \<Rightarrow> 'o viewed \<Rightarrow> 'o viewed" where
  "upd_own f m = m\<lparr>vm_own := f (vm_own m)\<rparr>"

definition stackSeriesData ::
  "('c, 'o viewed) env \<Rightarrow> ('c, 'o, 'k, 'v) painting \<Rightarrow> ('c, 'o viewed) gm \<Rightarrow> draw_error + ('c, 'o viewed) gm" where
  "stackSeriesData env pt g = (case eachSeries g of
      Inl e \<Rightarrow> Inl (Model_Error e)
    | Inr cs \<Rightarrow> (case stackedOn pt (js_text (e_host_text env)) cs [] of
        None \<Rightarrow> Inl (Model_Error Not_Initialized)
      | Some ps \<Rightarrow> Inr (foldl (\<lambda>g (i, p). upd_component ''series'' i (upd_own (pt_setStackedOn pt p)) g) g ps)))"

text \<open>What is done to each series that is shown.\<close>

definition on_shown :: "('o \<Rightarrow> 'o) \<Rightarrow> ('c, 'o viewed) gm \<Rightarrow> draw_error + ('c, 'o viewed) gm" where
  "on_shown f g = (case eachSeries g of
      Inl e \<Rightarrow> Inl (Model_Error e)
    | Inr cs \<Rightarrow> each_of (\<lambda>(c, i) g. case c of None \<Rightarrow> Inl (Model_Error Not_Initialized)
        | Some _ \<Rightarrow> Inr (upd_component ''series'' i (upd_own f) g)) cs g)"

definition doLayout ::
  "('c, 'o, 'k, 'v) painting \<Rightarrow> payload option \<Rightarrow> ('c, 'o viewed) gm \<Rightarrow> draw_error + ('c, 'o viewed) gm" where
  "doLayout pt p g = each_of (\<lambda>visual g. if pf_isLayout visual then or_error Processor_Error (pf_func visual p g) else Inr g) (pt_visuals pt) g"

definition doVisualEncoding ::
  "('c, 'o, 'k, 'v) painting \<Rightarrow> payload option \<Rightarrow> ('c, 'o viewed) gm \<Rightarrow> draw_error + ('c, 'o viewed) gm" where
  "doVisualEncoding pt p g =
     followed_by (on_shown (pt_clearColorPalette pt) (pt_clearChartPalette pt g))
       (each_of (\<lambda>visual g. or_error Processor_Error (pf_func visual p g)) (pt_visuals pt))"

section \<open>Calls of views\<close>

text \<open>A method of a view, with the component it is for; what it dispatches waits with the rest.\<close>

definition call_view ::
  "('c, 'o, 'k, 'v) painting \<Rightarrow> string \<Rightarrow> payload option \<Rightarrow> ('c, 'o viewed) gm \<Rightarrow> nat \<Rightarrow> ('c, 'o viewed) component option \<Rightarrow>
    ('k, 'v) drawn \<times> payload list \<Rightarrow> draw_error + ('k, 'v) drawn \<times> payload list" where
  "call_view pt m p g a c = (\<lambda>(d, pend). case c of
      None \<Rightarrow> Inl View_Error
    | Some c \<Rightarrow> (case pt_method pt m (vw_class (dr_heap d ! a)) c g p (vw_own (dr_heap d ! a)) of
        None \<Rightarrow> Inl View_Error
      | Some (x, qs) \<Rightarrow> Inr (upd_view a (\<lambda>v. v\<lparr>vw_own := x\<rparr>) d, pend @ qs)))"

definition model_of_view :: "('c, 'm) gm \<Rightarrow> nat \<Rightarrow> ('k, 'v) drawn \<Rightarrow> ('c, 'm) component option" where
  "model_of_view g a d = getComponent (fst (vw_model (dr_heap d ! a))) (snd (vw_model (dr_heap d ! a))) g"

definition call_components ::
  "('c, 'o, 'k, 'v) painting \<Rightarrow> string \<Rightarrow> payload option \<Rightarrow> (nat \<Rightarrow> ('k, 'v) drawn \<Rightarrow> bool) \<Rightarrow> ('c, 'o viewed) gm \<Rightarrow>
    ('k, 'v) drawn \<times> payload list \<Rightarrow> draw_error + ('k, 'v) drawn \<times> payload list" where
  "call_components pt m p chosen g s =
     each_of (\<lambda>a s. if chosen a (fst s) then call_view pt m p g a (model_of_view g a (fst s)) s else Inr s) (vs_list (dr_components (fst s))) s"

text \<open>The view of a series by the identifier it was given; without one there is nothing to call.\<close>

definition chart_of :: "('c, 'o viewed) component \<Rightarrow> ('k, 'v) drawn \<Rightarrow> nat option" where
  "chart_of c d = (case vm_viewId (cm_model c) of None \<Rightarrow> None | Some viewId \<Rightarrow> map_of (vs_map (dr_charts d)) viewId)"

definition call_series ::
  "('c, 'o, 'k, 'v) painting \<Rightarrow> string \<Rightarrow> payload option \<Rightarrow> (nat \<Rightarrow> ('c, 'o viewed) component \<Rightarrow> ('k, 'v) view \<Rightarrow> ('k, 'v) view) \<Rightarrow>
    ('c, 'o viewed) gm \<Rightarrow> ('k, 'v) drawn \<times> payload list \<Rightarrow> draw_error + ('k, 'v) drawn \<times> payload list" where
  "call_series pt m p touch g s = (case eachSeries g of
      Inl e \<Rightarrow> Inl (Model_Error e)
    | Inr cs \<Rightarrow> each_of (\<lambda>(c, i) (d, pend). case c of
          None \<Rightarrow> Inl (Model_Error Not_Initialized)
        | Some c \<Rightarrow> (case chart_of c d of
              None \<Rightarrow> Inl No_View
            | Some a \<Rightarrow> followed_by (call_view pt m p g a (Some c) (d, pend)) (\<lambda>(d, pend). Inr (upd_view a (touch a c) d, pend)))) cs s)"

definition invokeUpdateMethod ::
  "('c, 'o, 'k, 'v) painting \<Rightarrow> string \<Rightarrow> payload option \<Rightarrow> ('c, 'o viewed) gm \<Rightarrow> ('k, 'v) drawn \<times> payload list \<Rightarrow>
    draw_error + ('k, 'v) drawn \<times> payload list" where
  "invokeUpdateMethod pt m p g s =
     followed_by (call_components pt m p (\<lambda>a d. True) g s) (call_series pt m p (\<lambda>a c v. v) g)"

text \<open>Series that are not shown have their views emptied.\<close>

definition remove_dead :: "('c, 'o, 'k, 'v) painting \<Rightarrow> ('c, 'o viewed) gm \<Rightarrow> ('k, 'v) drawn \<Rightarrow> draw_error + ('k, 'v) drawn" where
  "remove_dead pt g d = each_of (\<lambda>a d. let v = dr_heap d ! a in
     if vw_alive v then Inr d
     else followed_by (or_error View_Error (pt_remove pt (vw_class v) g (vw_own v))) (\<lambda>x. Inr (upd_view a (\<lambda>v. v\<lparr>vw_own := x\<rparr>) d)))
     (vs_list (dr_charts d)) d"

definition doRender ::
  "('c, 'o, 'k, 'v) painting \<Rightarrow> payload option \<Rightarrow> ('c, 'o viewed) gm \<Rightarrow> ('k, 'v) drawn \<times> payload list \<Rightarrow>
    draw_error + ('k, 'v) drawn \<times> payload list" where
  "doRender pt p g s =
     followed_by (call_components pt ''render'' p (\<lambda>a d. True) g s) (\<lambda>(d, pend).
     let d = foldl (\<lambda>d a. upd_view a (\<lambda>v. v\<lparr>vw_alive := False\<rparr>) d) d (vs_list (dr_charts d)) in
     followed_by (call_series pt ''render'' p (\<lambda>a c v. v\<lparr>vw_alive := True, vw_silent := pt_silent pt c\<rparr>) g (d, pend)) (\<lambda>(d, pend).
     followed_by (remove_dead pt g d) (\<lambda>d. Inr (d, pend))))"

section \<open>The background\<close>

text \<open>The color is drawn by the layer or given to the page; an element with color stops or an image needs the layer.\<close>

definition drawBackground ::
  "('c, 'o viewed) env \<Rightarrow> ('c, 'o, 'k, 'v) painting \<Rightarrow> ('c, 'o viewed) gm \<Rightarrow> background \<Rightarrow> draw_error + background" where
  "drawBackground env pt g b =
     (let v = (case map_of (gm_settings g) ''backgroundColor'' of Some v \<Rightarrow> v | None \<Rightarrow> Undefined);
          backgroundColor = (if truthy v then v else Text ''transparent'') in
      if pt_singleCanvas pt then Inr (b\<lparr>bg_clearColor := backgroundColor\<rparr>)
      else followed_by
        (if pt_canvasSupported pt then Inr backgroundColor
         else case pt_rgb pt backgroundColor of
             None \<Rightarrow> Inl View_Error
           | Some (rgb, clear) \<Rightarrow> Inr (if clear then Text ''transparent'' else rgb))
        (\<lambda>backgroundColor.
           if truthy (read_member (e_host_prop env) backgroundColor ''colorStops'') \<or> truthy (read_member (e_host_prop env) backgroundColor ''image'')
           then Inr \<lparr>bg_hasGradientOrPattern = True, bg_clearColor = backgroundColor, bg_style = Text ''transparent''\<rparr>
           else Inr \<lparr>bg_hasGradientOrPattern = False,
             bg_clearColor = (if bg_hasGradientOrPattern b then Null else bg_clearColor b), bg_style = backgroundColor\<rparr>))"

section \<open>Update methods\<close>

type_synonym ('c, 'o, 'k, 'v) canvas = "('c, 'o viewed, ('k, 'v) drawn) holder"

text \<open>The model of the chart and what is drawn, with the actions dispatched so far.\<close>

definition update_all ::
  "('c, 'o viewed) env \<Rightarrow> ('c, 'o, 'k, 'v) painting \<Rightarrow> payload option \<Rightarrow> ('c, 'o viewed) gm \<times> ('k, 'v) drawn \<Rightarrow>
    draw_error + (('c, 'o viewed) gm \<times> ('k, 'v) drawn) \<times> payload list" where
  "update_all env pt p = (\<lambda>(g, d).
     followed_by (of_outcome (restoreData env g)) (\<lambda>g.
     followed_by (or_error Processor_Error (pt_createCoords pt g)) (\<lambda>g.
     followed_by (processData pt g) (\<lambda>g.
     followed_by (stackSeriesData env pt g) (\<lambda>g.
     followed_by (or_error Processor_Error (pt_updateCoords pt g)) (\<lambda>g.
     followed_by (doVisualEncoding pt p g) (\<lambda>g.
     followed_by (doRender pt p g (d, [])) (\<lambda>(d, pend).
     followed_by (drawBackground env pt g (dr_background d)) (\<lambda>b. Inr ((g, d\<lparr>dr_background := b\<rparr>), pend))))))))))"

definition update_some ::
  "('c, 'o, 'k, 'v) painting \<Rightarrow> string \<Rightarrow> payload option \<Rightarrow> ('c, 'o viewed) gm \<times> ('k, 'v) drawn \<Rightarrow>
    draw_error + (('c, 'o viewed) gm \<times> ('k, 'v) drawn) \<times> payload list" where
  "update_some pt m p = (\<lambda>(g, d).
     followed_by
       (if m = ''updateLayout'' then doLayout pt p g
        else followed_by (on_shown (pt_clearAllVisual pt) g) (doVisualEncoding pt p))
       (\<lambda>g. followed_by (invokeUpdateMethod pt m p g (d, [])) (\<lambda>(d, pend). Inr ((g, d), pend))))"

definition toggleHighlight ::
  "('c, 'o, 'k, 'v) painting \<Rightarrow> string \<Rightarrow> payload option \<Rightarrow> ('c, 'o viewed) gm \<times> ('k, 'v) drawn \<Rightarrow>
    draw_error + (('c, 'o viewed) gm \<times> ('k, 'v) drawn) \<times> payload list" where
  "toggleHighlight pt m p = (\<lambda>(g, d).
     followed_by
       (each_of (\<lambda>(c, i) (d, pend). case chart_of c d of
            None \<Rightarrow> Inr (d, pend)
          | Some a \<Rightarrow> if vw_alive (dr_heap d ! a) then call_view pt m p g a (Some c) (d, pend) else Inr (d, pend))
          (eachFound ''series'' p None (\<lambda>c. True) g) (d, []))
       (\<lambda>(d, pend). Inr ((g, d), pend)))"

definition on_chart ::
  "('c, 'o, 'k, 'v) canvas \<Rightarrow>
    (('c, 'o viewed) gm \<times> ('k, 'v) drawn \<Rightarrow> draw_error + (('c, 'o viewed) gm \<times> ('k, 'v) drawn) \<times> payload list) \<Rightarrow>
    draw_error + ('c, 'o, 'k, 'v) canvas \<times> payload list" where
  "on_chart h f = (case h_chart h of
      None \<Rightarrow> Inr (h, [])
    | Some ch \<Rightarrow> followed_by (f (ch_model ch, h_drawn h))
        (\<lambda>((g, d), pend). Inr (h\<lparr>h_chart := Some (ch\<lparr>ch_model := g\<rparr>), h_drawn := d\<rparr>, pend)))"

text \<open>An option that held only graphic elements has just these drawn.\<close>

definition prepareAndUpdate ::
  "('c, 'o viewed) env \<Rightarrow> ('c, 'o, 'k, 'v) painting \<Rightarrow> payload option \<Rightarrow> ('c, 'o, 'k, 'v) canvas \<Rightarrow>
    draw_error + ('c, 'o, 'k, 'v) canvas \<times> payload list" where
  "prepareAndUpdate env pt p h =
     (if h_chart h = None then Inl No_Model
      else followed_by (on_chart h (\<lambda>s. followed_by (prepareView pt True s) (\<lambda>s. followed_by (prepareView pt False s) (\<lambda>s. Inr (s, [])))))
       (\<lambda>(h, _).
        if h_lastOnlyGraphic h
        then followed_by (on_chart h (\<lambda>(g, d).
            followed_by (call_components pt ''render'' p (\<lambda>a d. fst (vw_model (dr_heap d ! a)) = ''graphic'') g (d, []))
              (\<lambda>(d, pend). Inr ((g, d), pend))))
          (\<lambda>(h, pend). Inr (h\<lparr>h_lastOnlyGraphic := False\<rparr>, pend))
        else on_chart h (update_all env pt p)))"

definition updateMethods ::
  "('c, 'o viewed) env \<Rightarrow> ('c, 'o, 'k, 'v) painting \<Rightarrow> string \<Rightarrow> payload option \<Rightarrow> ('c, 'o, 'k, 'v) canvas \<Rightarrow>
    draw_error + ('c, 'o, 'k, 'v) canvas \<times> payload list" where
  "updateMethods env pt m p h =
     (if m = ''prepareAndUpdate'' then prepareAndUpdate env pt p h
      else if m = ''update'' then on_chart h (update_all env pt p)
      else if m \<in> set [''updateView'', ''updateVisual'', ''updateLayout''] then on_chart h (update_some pt m p)
      else if m \<in> set [''highlight'', ''downplay''] then on_chart h (toggleHighlight pt m p)
      else Inl No_Method)"

text \<open>The page that draws its charts so.\<close>

definition drawing ::
  "('c, 'o viewed) env \<Rightarrow> ('c, 'o, 'k, 'v) painting \<Rightarrow> ('c, 'o, 'k, 'v) canvas page \<Rightarrow> ('c, 'o, 'k, 'v) canvas page" where
  "drawing env pt pg = pg\<lparr>pg_update := (\<lambda>m p h. case updateMethods env pt m p h of Inl _ \<Rightarrow> None | Inr r \<Rightarrow> Some r)\<rparr>"

end
