(* ===== verification/Global_Props.thy ===== *)
theory Global_Props
  imports Option_Manager
begin

text \<open>
  What holds of the global model however options are set, reset and series filtered: components stand at the
  position they carry, under identifiers of their own, and the series that are shown are there.
\<close>

section \<open>Components at their places\<close>

definition well_placed :: "string \<Rightarrow> ('c, 'm) component list \<Rightarrow> bool" where
  "well_placed ty cs \<longleftrightarrow> (\<forall>i < length cs. cm_componentIndex (cs ! i) = i \<and> cm_mainType (cs ! i) = ty) \<and>
     distinct (map cm_id cs) \<and> set (map cm_id cs) \<inter> set object_members = {}"

definition gm_ok :: "('c, 'm) gm \<Rightarrow> bool" where
  "gm_ok g \<longleftrightarrow> (\<forall>ty. well_placed ty (components_of g ty))"

definition series_ok :: "('c, 'm) gm \<Rightarrow> bool" where
  "series_ok g \<longleftrightarrow> (\<forall>indices. gm_seriesIndices g = Some indices \<longrightarrow>
     sorted_wrt (<) indices \<and> (\<forall>i \<in> set indices. i < length (components_of g ''series'')))"

lemma well_placed_Nil [simp]: "well_placed ty []"
  by (simp add: well_placed_def)

lemma components_of_set [simp]:
  "components_of (set_components ty cs g) ty' = (if ty' = ty then cs else components_of g ty')"
  by (simp add: components_of_def set_components_def update_conv')

lemma set_components_keeps [simp]:
  "gm_settings (set_components ty cs g) = gm_settings g" "gm_seriesIndices (set_components ty cs g) = gm_seriesIndices g"
  by (simp_all add: set_components_def)

lemma components_of_more [simp]:
  "components_of (g\<lparr>gm_seriesIndices := x\<rparr>) = components_of g" "components_of (g\<lparr>gm_settings := y\<rparr>) = components_of g"
  by (simp_all add: components_of_def fun_eq_iff)

text \<open>What becomes of an entry: the component that was there, merged, or a new one at that position.\<close>

definition placed ::
  "string \<Rightarrow> nat \<Rightarrow> (('c, 'm) component, jsval) Component_Mapping.entry \<times> keyinfo option \<times> string \<Rightarrow> ('c, 'm) component \<Rightarrow> bool" where
  "placed ty i x c = (case x of (it, k, sub) \<Rightarrow>
     (\<exists>ex. en_exist it = Some ex \<and> cm_id c = cm_id (c_val ex) \<and> cm_mainType c = cm_mainType (c_val ex) \<and>
        cm_componentIndex c = cm_componentIndex (c_val ex))
   \<or> (en_option it \<noteq> None \<and> cm_id c = ki_id (the k) \<and> cm_mainType c = ty \<and> cm_componentIndex c = i))"

lemma mergeComponent_keeps:
  "mergeComponent env opt g c = Inr c' \<Longrightarrow> cm_id c' = cm_id c \<and> cm_mainType c' = cm_mainType c \<and> cm_componentIndex c' = cm_componentIndex c"
  by (auto simp: mergeComponent_def split: option.splits)

lemma createComponent_gives:
  "createComponent env Clazz opt g extra = Inr c \<Longrightarrow>
    cm_id c = ki_id (x_keyInfo extra) \<and> cm_mainType c = x_mainType extra \<and> cm_componentIndex c = x_componentIndex extra"
  by (auto simp: createComponent_def split: option.splits)

lemma visitItem_placed:
  assumes "visitItem env ty deps i (it, k, sub) g = Inr c"
  shows "placed ty i (it, k, sub) c"
proof (cases "en_option it")
  case None
  then obtain ex where "en_exist it = Some ex" "mergeComponent env (Obj []) g (c_val ex) = Inr c"
    using assms by (auto simp: visitItem_def split: option.splits)
  then show ?thesis using mergeComponent_keeps by (fastforce simp: placed_def)
next
  case (Some opt)
  let ?x = "\<lparr>x_dependentModels = deps, x_componentIndex = i, x_keyInfo = the k, x_mainType = ty, x_subType = sub\<rparr>"
  have "(\<exists>ex. en_exist it = Some ex \<and> mergeComponent env (c_val opt) g ((c_val ex)\<lparr>cm_name := ki_name (the k)\<rparr>) = Inr c)
      \<or> (\<exists>Clazz. createComponent env Clazz (c_val opt) g ?x = Inr c)"
    using assms Some by (auto simp: visitItem_def Let_def split: sum.splits reg_error.splits option.splits found.splits if_splits)
  then show ?thesis
  proof
    assume "\<exists>ex. en_exist it = Some ex \<and> mergeComponent env (c_val opt) g ((c_val ex)\<lparr>cm_name := ki_name (the k)\<rparr>) = Inr c"
    then show ?thesis using mergeComponent_keeps by (fastforce simp: placed_def)
  next
    assume "\<exists>Clazz. createComponent env Clazz (c_val opt) g ?x = Inr c"
    then show ?thesis using createComponent_gives Some by (fastforce simp: placed_def)
  qed
qed

lemma visitItems_placed:
  "\<exists>cs. components_of (state_of (visitItems env ty deps n its g)) ty = components_of g ty @ cs \<and> length cs \<le> length its \<and>
    (\<forall>i < length cs. placed ty (n + i) (its ! i) (cs ! i)) \<and>
    (\<forall>g'. visitItems env ty deps n its g = Fine g' \<longrightarrow> length cs = length its) \<and>
    (\<forall>ty'. ty' \<noteq> ty \<longrightarrow> components_of (state_of (visitItems env ty deps n its g)) ty' = components_of g ty') \<and>
    gm_seriesIndices (state_of (visitItems env ty deps n its g)) = gm_seriesIndices g"
proof (induction its arbitrary: n g)
  case (Cons x its)
  obtain it k sub where x: "x = (it, k, sub)" by (cases x)
  show ?case
  proof (cases "visitItem env ty deps n x g")
    case (Inl e)
    then show ?thesis by (intro exI [of _ "[]"]) simp
  next
    case (Inr c)
    let ?g = "set_components ty (components_of g ty @ [c]) g"
    have p: "placed ty n x c" using visitItem_placed Inr x by simp
    obtain cs where "components_of (state_of (visitItems env ty deps (n + 1) its ?g)) ty = components_of ?g ty @ cs" "length cs \<le> length its"
        "\<forall>i < length cs. placed ty (n + 1 + i) (its ! i) (cs ! i)"
        "\<forall>g'. visitItems env ty deps (n + 1) its ?g = Fine g' \<longrightarrow> length cs = length its"
        "\<forall>ty'. ty' \<noteq> ty \<longrightarrow> components_of (state_of (visitItems env ty deps (n + 1) its ?g)) ty' = components_of ?g ty'"
        "gm_seriesIndices (state_of (visitItems env ty deps (n + 1) its ?g)) = gm_seriesIndices ?g"
      using Cons.IH [of "n + 1" ?g] by blast
    then show ?thesis using Inr p by (intro exI [of _ "c # cs"]) (auto simp: nth_Cons split: nat.split)
  qed
qed simp


section \<open>The operations keep the places\<close>

lemma map_filter_replicate_None [simp]: "List.map_filter f (replicate n x) = (case f x of None \<Rightarrow> [] | Some y \<Rightarrow> replicate n y)"
  by (induction n) (auto split: option.split)

lemma map_filter_of_map: "map f xs = map Some ys @ replicate n None \<Longrightarrow> List.map_filter f xs = ys"
proof (induction xs arbitrary: ys)
  case (Cons x xs)
  show ?case
  proof (cases ys)
    case Nil
    then obtain n' where "n = Suc n'" using Cons.prems by (cases n) auto
    then have "f x = None" "map f xs = map Some [] @ replicate n' None" using Cons.prems Nil by auto
    then have "List.map_filter f xs = []" by (induction xs arbitrary: n') (auto simp: Cons_replicate_eq)
    then show ?thesis using Nil \<open>f x = None\<close> by simp
  next
    case (Cons y ys')
    then show ?thesis using Cons.prems Cons.IH [of ys'] by simp
  qed
qed simp

lemma mapped_exist:
  fixes env :: "('c, 'm) env"
  shows "\<exists>new. map en_exist (mapped env o' ty g) = map Some (map exist_cpt (components_of g ty)) @ replicate new None"
  using mappingToExists_given [of "map exist_cpt (components_of g ty)"] unfolding mapped_def by blast

lemma mapped_nth:
  assumes "i < length (mapped env o' ty g)"
  shows "en_exist (mapped env o' ty g ! i) = (if i < length (components_of g ty) then Some (exist_cpt (components_of g ty ! i)) else None)"
proof -
  obtain new where "map en_exist (mapped env o' ty g) = map Some (map exist_cpt (components_of g ty)) @ replicate new None"
    using mapped_exist by blast
  then have m: "map en_exist (mapped env o' ty g) = map (\<lambda>c. Some (exist_cpt c)) (components_of g ty) @ replicate new None" by simp
  then have "map en_exist (mapped env o' ty g) ! i = (map (\<lambda>c. Some (exist_cpt c)) (components_of g ty) @ replicate new None) ! i" by simp
  moreover have "length (mapped env o' ty g) = length (components_of g ty) + new" using arg_cong [OF m, of length] by simp
  ultimately show ?thesis using assms by (auto simp: nth_append)
qed

lemma visited_ids:
  fixes env :: "('c, 'm) env"
  assumes ok: "well_placed ty (components_of g ty)" and keys: "makeIdAndName (mapped env o' ty g) = Some keys"
    and n: "length cs \<le> length (mapped env o' ty g)"
    and cs: "\<And>i. i < length cs \<Longrightarrow> placed ty i (zip (mapped env o' ty g) (zip keys (sub_types env ty (mapped env o' ty g))) ! i) (cs ! i)"
  shows "well_placed ty cs"
proof -
  let ?its = "mapped env o' ty g" and ?old = "components_of g ty"
  obtain new where "map en_exist ?its = map Some (map exist_cpt ?old) @ replicate new None" using mapped_exist by blast
  from map_filter_of_map [OF this] have k: "exist_keys ?its = map cm_id ?old"
    by (simp add: exist_key_def exist_cpt_def comp_def)
  obtain m where len: "length keys = length ?its" and m: "\<And>i. i < length ?its \<Longrightarrow>
      (\<forall>ex. en_exist (?its ! i) = Some ex \<longrightarrow> m (exist_key ex) = Some i) \<and>
      (case keys ! i of None \<Rightarrow> en_option (?its ! i) = None
       | Some k \<Rightarrow> en_option (?its ! i) \<noteq> None \<and> m (ki_id k) = Some i \<and> ki_id k \<notin> set object_members)"
    using makeIdAndName_result [OF keys] ok unfolding k well_placed_def by blast
  have p: "m (cm_id (cs ! i)) = Some i \<and> cm_id (cs ! i) \<notin> set object_members \<and> cm_componentIndex (cs ! i) = i \<and> cm_mainType (cs ! i) = ty"
    if i: "i < length cs" for i
  proof -
    have "i < length ?its" using i n by simp
    then have z: "zip ?its (zip keys (sub_types env ty ?its)) ! i = (?its ! i, keys ! i, sub_types env ty ?its ! i)"
      using len by (simp add: sub_types_def)
    from cs [OF i] show ?thesis unfolding z placed_def prod.case
    proof (elim disjE exE conjE)
      fix ex
      assume ex: "en_exist (?its ! i) = Some ex" "cm_id (cs ! i) = cm_id (c_val ex)" "cm_mainType (cs ! i) = cm_mainType (c_val ex)"
        "cm_componentIndex (cs ! i) = cm_componentIndex (c_val ex)"
      then have o: "i < length ?old" "ex = exist_cpt (?old ! i)" using mapped_nth [of i env o' ty g] \<open>i < length ?its\<close> by (auto split: if_splits)
      then have "cm_id (?old ! i) \<in> set (map cm_id ?old)" by simp
      then have "cm_id (?old ! i) \<notin> set object_members" using ok unfolding well_placed_def by blast
      moreover have "m (cm_id (?old ! i)) = Some i" using m [OF \<open>i < length ?its\<close>] ex(1) o by (simp add: exist_key_def exist_cpt_def)
      moreover have "cm_componentIndex (?old ! i) = i \<and> cm_mainType (?old ! i) = ty" using ok o(1) unfolding well_placed_def by blast
      ultimately show ?thesis using ex o by (simp add: exist_cpt_def)
    next
      assume "en_option (?its ! i) \<noteq> None" "cm_id (cs ! i) = ki_id (the (keys ! i))" "cm_mainType (cs ! i) = ty" "cm_componentIndex (cs ! i) = i"
      then show ?thesis using m [OF \<open>i < length ?its\<close>] by (cases "keys ! i") auto
    qed
  qed
  have "distinct (map cm_id cs)" unfolding distinct_conv_nth using p by (metis length_map nth_map option.inject)
  moreover have "set (map cm_id cs) \<inter> set object_members = {}" using p by (force simp: in_set_conv_nth)
  ultimately show ?thesis using p unfolding well_placed_def by blast
qed

lemma visitComponent_keeps:
  fixes env :: "('c, 'm) env"
  assumes "gm_ok g"
  shows "gm_ok (state_of (visitComponent env o' c g)) \<and>
    (series_ok g \<longrightarrow> (\<forall>g'. visitComponent env o' c g = Fine g' \<longrightarrow> series_ok g'))"
proof -
  obtain ty deps where c: "c = (ty, deps)" by fastforce
  let ?its = "mapped env o' ty g"
  show ?thesis
  proof (cases "makeIdAndName ?its")
    case None
    then show ?thesis using assms c by (simp add: visitComponent_def Let_def)
  next
    case (Some keys)
    let ?xs = "zip ?its (zip keys (sub_types env ty ?its))"
    let ?r = "visitItems env ty (getComponentsByTypes g deps) 0 ?xs (set_components ty [] g)"
    obtain cs where cs: "components_of (state_of ?r) ty = cs" "length cs \<le> length ?xs" "\<And>i. i < length cs \<Longrightarrow> placed ty i (?xs ! i) (cs ! i)"
        "\<And>ty'. ty' \<noteq> ty \<Longrightarrow> components_of (state_of ?r) ty' = components_of g ty'" "gm_seriesIndices (state_of ?r) = gm_seriesIndices g"
      using visitItems_placed [of env ty "getComponentsByTypes g deps" 0 ?xs "set_components ty [] g"] by auto
    have wp: "well_placed ty cs" using visited_ids [OF _ Some _ cs(3)] assms cs(2) unfolding gm_ok_def by simp
    then have ok: "gm_ok (state_of ?r)" using assms cs(1,4) unfolding gm_ok_def by metis
    have v: "visitComponent env o' c g = and_then ?r (\<lambda>g. Fine (if ty = ''series''
              then g\<lparr>gm_seriesIndices := Some (createSeriesIndices (components_of g ''series''))\<rparr> else g))"
      using Some c by (simp add: visitComponent_def Let_def)
    have "createSeriesIndices cs = [0..<length cs]" if "ty = ''series''"
      using wp unfolding createSeriesIndices_def well_placed_def by (intro nth_equalityI) auto
    note all = this
    have "series_ok g'" if s: "series_ok g" and r: "visitComponent env o' c g = Fine g'" for g'
    proof -
      obtain h where h: "?r = Fine h" using r v by (cases ?r) auto
      show ?thesis
      proof (cases "ty = ''series''")
        case True
        then have "g' = h\<lparr>gm_seriesIndices := Some [0..<length cs]\<rparr>" "components_of h ''series'' = cs"
          using r v h cs(1) all by simp_all
        then show ?thesis by (simp add: series_ok_def)
      next
        case False
        then have "g' = h" "components_of h ''series'' = components_of g ''series''" using r v h cs(4) [of "''series''"] by auto
        then show ?thesis using s cs(5) h by (simp add: series_ok_def)
      qed
    qed
    then show ?thesis using v ok by (cases ?r) (auto simp: gm_ok_def)
  qed
qed

lemma visitAll_keeps:
  "gm_ok g \<Longrightarrow> gm_ok (state_of (visitAll env o' cs g)) \<and> (series_ok g \<longrightarrow> (\<forall>g'. visitAll env o' cs g = Fine g' \<longrightarrow> series_ok g'))"
proof (induction cs arbitrary: g)
  case (Cons c cs)
  show ?case using visitComponent_keeps [OF Cons.prems, of env o' c] Cons.IH by (cases "visitComponent env o' c g") auto
qed simp


lemma mergeSettings_keeps:
  "components_of (state_of (mergeSettings env ms g)) = components_of g \<and> gm_seriesIndices (state_of (mergeSettings env ms g)) = gm_seriesIndices g"
proof (induction ms arbitrary: g)
  case (Cons x ms)
  obtain k v where x: "x = (k, v)" by fastforce
  show ?case
  proof (cases "is_nil v \<or> hasClass k (e_registry env)")
    case False
    have "components_of (state_of (mergeSetting k v g)) = components_of g \<and> gm_seriesIndices (state_of (mergeSetting k v g)) = gm_seriesIndices g"
      by (simp add: mergeSetting_def Let_def split: option.split)
    then show ?thesis using False Cons.IH x by (cases "mergeSetting k v g") auto
  qed (use Cons.IH x in simp)
qed simp

lemma ok_of_same: "components_of g = components_of h \<Longrightarrow> gm_ok g = gm_ok h"
  "components_of g = components_of h \<Longrightarrow> gm_seriesIndices g = gm_seriesIndices h \<Longrightarrow> series_ok g = series_ok h"
  by (simp_all add: gm_ok_def series_ok_def)

lemma and_then_Fine: "and_then r f = Fine s' \<longleftrightarrow> (\<exists>s. r = Fine s \<and> f s = Fine s')"
  by (cases r) auto

text \<open>What an operation on the model may do: keep every component at its place, and if it ends well also the series shown.\<close>

definition keeps :: "(('c, 'm) gm \<Rightarrow> ('c, 'm) gm outcome) \<Rightarrow> bool" where
  "keeps f \<longleftrightarrow> (\<forall>g. gm_ok g \<longrightarrow> gm_ok (state_of (f g)) \<and> (series_ok g \<longrightarrow> (\<forall>g'. f g = Fine g' \<longrightarrow> series_ok g')))"

lemma keepsI:
  "(\<And>g. gm_ok g \<Longrightarrow> gm_ok (state_of (f g))) \<Longrightarrow> (\<And>g g'. gm_ok g \<Longrightarrow> series_ok g \<Longrightarrow> f g = Fine g' \<Longrightarrow> series_ok g') \<Longrightarrow> keeps f"
  by (simp add: keeps_def)

lemma keepsD: "keeps f \<Longrightarrow> gm_ok g \<Longrightarrow> gm_ok (state_of (f g))" "keeps f \<Longrightarrow> gm_ok g \<Longrightarrow> series_ok g \<Longrightarrow> f g = Fine g' \<Longrightarrow> series_ok g'"
  by (simp_all add: keeps_def)

lemma keeps_and_then:
  assumes "keeps f" "keeps h"
  shows "keeps (\<lambda>g. and_then (f g) h)"
proof (rule keepsI, goal_cases)
  case (1 g)
  then show ?case using keepsD(1) [OF assms(1) 1] keepsD(1) [OF assms(2)] by (cases "f g") auto
next
  case g: (2 g g')
  then obtain s where s: "f g = Fine s" "h s = Fine g'" by (auto simp: and_then_Fine)
  have "gm_ok s" using keepsD(1) [OF assms(1) g(1)] s by simp
  then show "series_ok g'" using keepsD(2) [OF assms(2)] keepsD(2) [OF assms(1) g(1,2)] s by blast
qed

lemma keeps_visitAll: "keeps (visitAll env o' cs)"
  using visitAll_keeps unfolding keeps_def by blast

lemma keeps_end: "keeps (\<lambda>g. if circle then Raise Circle_Dependency g else Fine g)"
  by (simp add: keeps_def)

lemma keeps_mergeComponents: "keeps (mergeComponents env ms)"
proof -
  obtain r where r: "topologicalTravel (getDependencies env) (newCptTypes env ms) (getAllClassMainTypes (e_registry env)) = r" by blast
  show ?thesis
  proof (cases r)
    case None
    then have "mergeComponents env ms = Raise Outside" using r by (simp add: mergeComponents_def fun_eq_iff)
    then show ?thesis by (simp add: keeps_def)
  next
    case (Some p)
    obtain calls circle where p: "p = (calls, circle)" by fastforce
    have "mergeComponents env ms = (\<lambda>g. and_then (visitAll env (Obj ms) calls g) (\<lambda>g. if circle then Raise Circle_Dependency g else Fine g))"
      using r Some p by (simp add: mergeComponents_def fun_eq_iff)
    then show ?thesis using keeps_and_then [OF keeps_visitAll keeps_end] by simp
  qed
qed

lemma keeps_mergeSettings: "keeps (mergeSettings env ms)"
proof (rule keepsI, goal_cases)
  case (1 g)
  then show ?case using mergeSettings_keeps [of env ms g] ok_of_same(1) by blast
next
  case (2 g g')
  then show ?case using mergeSettings_keeps [of env ms g] ok_of_same(2) [of g' g] by simp
qed

lemma keeps_mergeOption: "keeps (gm_mergeOption env ms)"
proof -
  have "keeps (\<lambda>g. Fine (g\<lparr>gm_seriesIndices := Some (case gm_seriesIndices g of None \<Rightarrow> [] | Some indices \<Rightarrow> indices)\<rparr>))"
    by (auto simp: keeps_def gm_ok_def series_ok_def split: option.splits)
  then show ?thesis
    unfolding gm_mergeOption_def using keeps_and_then [OF keeps_and_then [OF keeps_mergeSettings keeps_mergeComponents]] by blast
qed


definition place :: "('c, 'm) component \<Rightarrow> string \<times> string \<times> nat" where
  "place c = (cm_id c, cm_mainType c, cm_componentIndex c)"

lemma well_placed_place:
  assumes "map place cs = map place ds"
  shows "well_placed ty cs = well_placed ty ds"
proof -
  have l: "length cs = length ds" using assms by (rule map_eq_imp_length_eq)
  have p: "place (cs ! i) = place (ds ! i)" if "i < length ds" for i using assms that l by (metis nth_map)
  have "map cm_id cs = map cm_id ds" by (rule nth_equalityI) (use l p in \<open>simp_all add: place_def\<close>)
  then show ?thesis using l p unfolding well_placed_def place_def by (metis prod.inject)
qed

definition same_places :: "('c, 'm) gm \<Rightarrow> ('c, 'm) gm \<Rightarrow> bool" where
  "same_places g h \<longleftrightarrow> (\<forall>ty. map place (components_of g ty) = map place (components_of h ty)) \<and> gm_seriesIndices g = gm_seriesIndices h"

lemma same_places_ok: "same_places g h \<Longrightarrow> gm_ok g = gm_ok h" "same_places g h \<Longrightarrow> series_ok g = series_ok h"
  unfolding same_places_def gm_ok_def series_ok_def using well_placed_place map_eq_imp_length_eq by metis+

lemma same_places_refl [simp]: "same_places g g"
  by (simp add: same_places_def)

lemma same_places_trans: "same_places a b \<Longrightarrow> same_places b c \<Longrightarrow> same_places a c"
  by (simp add: same_places_def)

lemma restoreComponents_places: "i + n \<le> length (components_of g ty) \<Longrightarrow> same_places (state_of (restoreComponents env ty i n g)) g"
proof (induction env ty i n g rule: restoreComponents.induct)
  case (2 env ty i n g)
  let ?cs = "components_of g ty"
  show ?case
  proof (cases "e_restore env (?cs ! i)")
    case (Some m)
    let ?c = "?cs ! i"
    let ?h = "set_components ty (?cs[i := ?c\<lparr>cm_model := m\<rparr>]) g"
    have "map place (?cs[i := ?c\<lparr>cm_model := m\<rparr>]) = (map place ?cs)[i := place ?c]" by (simp add: map_update place_def)
    also have "\<dots> = map place ?cs" using 2(2) by (metis add_leD1 add_Suc_right Suc_le_lessD less_le_trans list_update_id map_update)
    finally have "same_places ?h g" by (simp add: same_places_def)
    moreover have "same_places (state_of (restoreComponents env ty (i + 1) n ?h)) ?h"
      using 2(1) [OF refl refl Some] 2(2) by simp
    ultimately show ?thesis using Some same_places_trans by (auto simp: Let_def)
  qed (simp add: Let_def)
qed simp

lemma restoreTypes_places: "same_places (state_of (restoreTypes env cs g)) g"
proof (induction env cs g rule: restoreTypes.induct)
  case (2 env ty deps cs g)
  have "same_places (state_of (restoreComponents env ty 0 (length (components_of g ty)) g)) g" by (rule restoreComponents_places) simp
  then show ?case using 2 by (cases "restoreComponents env ty 0 (length (components_of g ty)) g") (auto intro: same_places_trans)
qed simp

lemma all_indices: "well_placed ty cs \<Longrightarrow> createSeriesIndices cs = [0..<length cs]"
  unfolding createSeriesIndices_def well_placed_def by (intro nth_equalityI) auto

lemma restoreData_keeps:
  assumes "gm_ok g"
  shows "gm_ok (state_of (restoreData env g))" "restoreData env g = Fine g' \<Longrightarrow> series_ok g'"
proof -
  let ?h = "g\<lparr>gm_seriesIndices := Some (createSeriesIndices (components_of g ''series''))\<rparr>"
  have "createSeriesIndices (components_of g ''series'') = [0..<length (components_of g ''series'')]"
    using assms unfolding gm_ok_def by (intro all_indices) blast
  then have h: "gm_ok ?h" "series_ok ?h" using assms by (simp_all add: gm_ok_def series_ok_def)
  have "same_places (state_of (restoreData env g)) ?h"
  proof (cases "topologicalTravel (getDependencies env) (map fst (gm_components ?h)) (getAllClassMainTypes (e_registry env))")
    case (Some r)
    then show ?thesis using restoreTypes_places [of env "fst r" ?h]
      by (cases r; cases "restoreTypes env (fst r) ?h") (auto simp: restoreData_def Let_def)
  qed (simp add: restoreData_def Let_def)
  then show "gm_ok (state_of (restoreData env g))" "restoreData env g = Fine g' \<Longrightarrow> series_ok g'"
    using h same_places_ok by (metis, metis state_of.simps(1))
qed

lemma filterSeries_keeps: "keeps (filterSeries cb)"
proof (rule keepsI, goal_cases)
  case (1 g)
  then show ?case by (simp add: filterSeries_def gm_ok_def)
next
  case (2 g g')
  let ?cs = "components_of g ''series''"
  let ?kept = "filter (\<lambda>(c, i). cb c i) (zip ?cs [0..<length ?cs])"
  have g': "g' = g\<lparr>gm_seriesIndices := Some (map (cm_componentIndex \<circ> fst) ?kept)\<rparr>"
    using 2(3) by (auto simp: filterSeries_def eachRawSeries_def eachComponent_def Let_def createSeriesIndices_def split: if_splits)
  have "cm_componentIndex (fst x) = snd x" if "x \<in> set (zip ?cs [0..<length ?cs])" for x
  proof -
    have "well_placed ''series'' ?cs" using 2(1) unfolding gm_ok_def by blast
    then show ?thesis using that unfolding well_placed_def by (metis add_0 diff_zero in_set_zip length_upt nth_upt)
  qed
  then have e: "map (cm_componentIndex \<circ> fst) ?kept = map snd ?kept" by auto
  have "sorted_wrt (<) (map snd (zip ?cs [0..<length ?cs]))" by simp
  then have "sorted_wrt (<) (map snd ?kept)" unfolding sorted_wrt_map by (rule sorted_wrt_filter)
  moreover have "i < length ?cs" if "i \<in> set (map snd ?kept)" for i using that by (auto simp: in_set_zip)
  moreover have "series_ok (g\<lparr>gm_seriesIndices := Some ds\<rparr>)"
    if "sorted_wrt (<) ds" "\<And>i. i \<in> set ds \<Longrightarrow> i < length ?cs" for ds
    using that by (simp add: series_ok_def)
  ultimately show ?case unfolding g' e by blast
qed

lemma initBase_keeps:
  fixes env :: "('c, 'm) env"
  shows "gm_ok (state_of (initBase env theme platform o'))" "initBase env theme platform o' = Fine g' \<Longrightarrow> series_ok g'"
proof -
  have e: "gm_ok (emptyModel :: ('c, 'm) gm)" "series_ok (emptyModel :: ('c, 'm) gm)"
    by (simp_all add: gm_ok_def series_ok_def components_of_def emptyModel_def)
  show "gm_ok (state_of (initBase env theme platform o'))" "initBase env theme platform o' = Fine g' \<Longrightarrow> series_ok g'"
    using e keepsD(1) [OF keeps_mergeOption e(1)] keepsD(2) [OF keeps_mergeOption e] by (auto simp: initBase_def split: option.splits)
qed

section \<open>The chart\<close>

lemma mergeValue_keeps:
  "gm_ok (ch_model ch) \<Longrightarrow> gm_ok (ch_model (state_of (mergeValue env v ch)))"
  "gm_ok (ch_model ch) \<Longrightarrow> series_ok (ch_model ch) \<Longrightarrow> mergeValue env v ch = Fine ch' \<Longrightarrow> series_ok (ch_model ch')"
  using keepsD(1) [OF keeps_mergeOption, of "ch_model ch" env "case v of Obj ms \<Rightarrow> ms | _ \<Rightarrow> []"]
    keepsD(2) [OF keeps_mergeOption, of "ch_model ch" env "case v of Obj ms \<Rightarrow> ms | _ \<Rightarrow> []"]
  unfolding mergeValue_def on_model_def by (auto split: outcome.splits)

definition chart_ok :: "('c, 'm) chart outcome \<Rightarrow> bool" where
  "chart_ok r \<longleftrightarrow> gm_ok (ch_model (state_of r)) \<and> (\<forall>ch. r = Fine ch \<longrightarrow> series_ok (ch_model ch))"

lemma chart_ok_then:
  "chart_ok r \<Longrightarrow> (\<And>ch. gm_ok (ch_model ch) \<Longrightarrow> series_ok (ch_model ch) \<Longrightarrow> chart_ok (f ch)) \<Longrightarrow> chart_ok (and_then r f)"
  by (cases r) (auto simp: chart_ok_def)

lemma chart_ok_merge: "gm_ok (ch_model ch) \<Longrightarrow> series_ok (ch_model ch) \<Longrightarrow> chart_ok (mergeValue env v ch)"
  unfolding chart_ok_def using mergeValue_keeps by blast

lemma chart_ok_Fine: "chart_ok (Fine ch) \<longleftrightarrow> gm_ok (ch_model ch) \<and> series_ok (ch_model ch)"
  by (simp add: chart_ok_def)

lemma chart_ok_merges: "gm_ok (ch_model ch) \<Longrightarrow> series_ok (ch_model ch) \<Longrightarrow> chart_ok (mergeValues env vs ch)"
proof (induction vs arbitrary: ch)
  case (Cons v vs)
  then show ?case using chart_ok_then [OF chart_ok_merge [OF Cons.prems]] by simp
qed (simp add: chart_ok_Fine)

lemma chart_ok_on_model:
  assumes "gm_ok (state_of r)" "\<And>g. r = Fine g \<Longrightarrow> series_ok g"
  shows "chart_ok (on_model ch r)"
  using assms by (cases r) (auto simp: chart_ok_def on_model_def)

lemma chart_ok_base:
  assumes "gm_ok (ch_model ch)"
  shows "chart_ok (resetBase env st ty ch) \<or> (\<exists>e. resetBase env st ty ch = Raise e ch)"
proof -
  have r: "chart_ok (on_model ch' (restoreData env (ch_model ch')))" if "gm_ok (ch_model ch')" for ch'
    using restoreData_keeps [OF that] by (intro chart_ok_on_model)
  have i: "chart_ok (on_model ch' (initBase env (st_theme st) (st_platform st) b))" for ch' b
    using initBase_keeps by (intro chart_ok_on_model)
  have m: "chart_ok (and_then (on_model ch' (restoreData env (ch_model ch'))) (mergeValue env b))" if "gm_ok (ch_model ch')" for ch' b
    using chart_ok_then [OF r [OF that] chart_ok_merge] .
  show ?thesis
  proof (cases "mountOption (ty = Recreate) (ch_manager ch)")
    case None
    then show ?thesis using r [OF assms] by (simp add: resetBase_def)
  next
    case (Some p)
    obtain b om where p: "p = (b, om)" by fastforce
    then show ?thesis using Some r [OF assms] i m [of "ch\<lparr>ch_manager := om\<rparr>"] assms by (auto simp: resetBase_def Let_def)
  qed
qed

lemma resetOption_keeps:
  assumes "gm_ok (ch_model ch)"
  shows "gm_ok (ch_model (state_of (resetOption env st ty ch)))"
    "resetOption env st ty ch = Fine ch' \<Longrightarrow> series_ok (ch_model ch')"
proof -
  have t: "chart_ok (resetTimeline env st ty ch)" if "gm_ok (ch_model ch)" "series_ok (ch_model ch)" for ch :: "('a, 'b) chart"
    using that by (auto simp: resetTimeline_def Let_def chart_ok_Fine intro: chart_ok_merge)
  have m: "chart_ok (resetMedia env st ty ch)" if "gm_ok (ch_model ch)" "series_ok (ch_model ch)" for ch :: "('a, 'b) chart"
    using that by (auto simp: resetMedia_def Let_def chart_ok_Fine split: prod.split intro: chart_ok_merges)
  have c: "chart_ok (resetBase env st ty ch) \<Longrightarrow> chart_ok (resetOption env st ty ch)"
    unfolding resetOption_def by (intro chart_ok_then t m)
  have "chart_ok (resetOption env st ty ch) \<or> (\<exists>e. resetOption env st ty ch = Raise e ch)"
    using chart_ok_base [OF assms, of env st ty] c by (auto simp: resetOption_def)
  then show "gm_ok (ch_model (state_of (resetOption env st ty ch)))"
    "resetOption env st ty ch = Fine ch' \<Longrightarrow> series_ok (ch_model ch')"
    using assms by (auto simp: chart_ok_def)
qed


text \<open>Everything that may happen to a chart, errors included, and what may happen after a reset that ended well.\<close>

inductive chart_run :: "('c, 'm) env \<Rightarrow> ('c, 'm) chart \<Rightarrow> bool" for env where
  new: "chart_run env newChart"
| set_option: "chart_run env ch \<Longrightarrow> chart_run env (state_of (setOption env st fs opt ch))"
| reset: "chart_run env ch \<Longrightarrow> chart_run env (state_of (resetOption env st ty ch))"
| filter_series: "chart_run env ch \<Longrightarrow> chart_run env (ch\<lparr>ch_model := state_of (filterSeries cb (ch_model ch))\<rparr>)"

inductive sound_run :: "('c, 'm) env \<Rightarrow> ('c, 'm) chart \<Rightarrow> bool" for env where
  set_option: "chart_run env ch \<Longrightarrow> setOption env st fs opt ch = Fine ch' \<Longrightarrow> sound_run env ch'"
| reset: "chart_run env ch \<Longrightarrow> resetOption env st ty ch = Fine ch' \<Longrightarrow> sound_run env ch'"
| filter_series: "sound_run env ch \<Longrightarrow> filterSeries cb (ch_model ch) = Fine g \<Longrightarrow> sound_run env (ch\<lparr>ch_model := g\<rparr>)"

lemma setOption_keeps:
  assumes "gm_ok (ch_model ch)"
  shows "gm_ok (ch_model (state_of (setOption env st fs opt ch)))"
    "setOption env st fs opt ch = Fine ch' \<Longrightarrow> series_ok (ch_model ch')"
  using assms resetOption_keeps [of "ch\<lparr>ch_manager := om\<rparr>" env st Whole for om]
  by (auto simp: setOption_def split: option.splits if_splits)

lemma chart_run_ok: "chart_run env ch \<Longrightarrow> gm_ok (ch_model ch)"
proof (induction rule: chart_run.induct)
  case new
  then show ?case by (simp add: newChart_def gm_ok_def components_of_def)
qed (use setOption_keeps(1) resetOption_keeps(1) keepsD(1) [OF filterSeries_keeps] in auto)

lemma sound_run_ok: "sound_run env ch \<Longrightarrow> gm_ok (ch_model ch) \<and> series_ok (ch_model ch)"
proof (induction rule: sound_run.induct)
  case (set_option ch st fs opt ch')
  then show ?case using setOption_keeps [OF chart_run_ok] by (metis state_of.simps(1))
next
  case (reset ch st ty ch')
  then show ?case using resetOption_keeps [OF chart_run_ok] by (metis state_of.simps(1))
next
  case (filter_series ch cb g)
  then show ?case using keepsD [OF filterSeries_keeps, of "ch_model ch"] by auto (metis state_of.simps(1))
qed


lemma mergeValues_shows: "mergeValues env vs ch = Fine ch' \<Longrightarrow> gm_seriesIndices (ch_model ch) \<noteq> None \<or> vs \<noteq> [] \<Longrightarrow> gm_seriesIndices (ch_model ch') \<noteq> None"
proof (induction vs arbitrary: ch)
  case (Cons v vs)
  then obtain h where h: "mergeValue env v ch = Fine h" "mergeValues env vs h = Fine ch'" by (auto simp: and_then_Fine)
  then have "gm_seriesIndices (ch_model h) \<noteq> None"
    by (auto simp: mergeValue_def on_model_def gm_mergeOption_def and_then_Fine split: outcome.splits)
  then show ?case using Cons.IH h by blast
qed simp

lemma restoreData_shows: "restoreData env g = Fine g' \<Longrightarrow> gm_seriesIndices g' \<noteq> None"
proof -
  assume r: "restoreData env g = Fine g'"
  let ?h = "g\<lparr>gm_seriesIndices := Some (createSeriesIndices (components_of g ''series''))\<rparr>"
  obtain calls where "restoreTypes env calls ?h = Fine g'"
    using r by (auto simp: restoreData_def Let_def and_then_Fine split: option.splits prod.splits if_splits)
  then have "same_places g' ?h" using restoreTypes_places [of env calls ?h] by simp
  then show ?thesis by (simp add: same_places_def)
qed

lemma resetBase_shows: "resetBase env st ty ch = Fine ch' \<Longrightarrow> gm_seriesIndices (ch_model ch') \<noteq> None"
proof -
  have m: "gm_mergeOption env ms g = Fine g' \<Longrightarrow> gm_seriesIndices g' \<noteq> None" for ms and g g' :: "('a, 'b) gm"
    by (auto simp: gm_mergeOption_def and_then_Fine)
  assume "resetBase env st ty ch = Fine ch'"
  then show ?thesis
    by (auto simp: resetBase_def Let_def on_model_def and_then_Fine mergeValue_def initBase_def
      split: option.splits prod.splits if_splits outcome.splits dest!: m restoreData_shows)
qed

lemma resetOption_shows: "resetOption env st ty ch = Fine ch' \<Longrightarrow> gm_seriesIndices (ch_model ch') \<noteq> None"
proof -
  assume "resetOption env st ty ch = Fine ch'"
  then obtain a b where ab: "resetBase env st ty ch = Fine a" "resetTimeline env st ty a = Fine b" "resetMedia env st ty b = Fine ch'"
    by (auto simp: resetOption_def and_then_Fine)
  have "gm_seriesIndices (ch_model b) \<noteq> None"
    using ab(2) resetBase_shows [OF ab(1)] mergeValues_shows [of env "[getTimelineOption (st_currentIndex st) (ch_model a) (ch_manager a)]" a b]
    by (auto simp: resetTimeline_def Let_def and_then_Fine split: if_splits)
  then show ?thesis
    using ab(3) mergeValues_shows [of env "fst (getMediaOption (st_width st) (st_height st) (ch_manager b))"
        "b\<lparr>ch_manager := snd (getMediaOption (st_width st) (st_height st) (ch_manager b))\<rparr>" ch']
    by (auto simp: resetMedia_def split: if_splits prod.splits)
qed

lemma sound_run_shows: "sound_run env ch \<Longrightarrow> gm_seriesIndices (ch_model ch) \<noteq> None"
proof (induction rule: sound_run.induct)
  case (set_option ch st fs opt ch')
  then obtain om where "resetOption env st Whole (ch\<lparr>ch_manager := om\<rparr>) = Fine ch'" by (auto simp: setOption_def split: if_splits option.splits)
  then show ?case by (rule resetOption_shows)
qed (use resetOption_shows in \<open>auto simp: filterSeries_def split: if_splits\<close>)

section \<open>Properties\<close>

text \<open>
  C31. Whatever options a chart is given, with errors or not, each component of a main type carries that type and its
  position, and a query for its identifier finds it and nothing else.
\<close>

theorem components_keep_places:
  assumes "chart_run env ch" "i < length (components_of (ch_model ch) ty)" "ty \<noteq> ''''"
  shows "cm_componentIndex (components_of (ch_model ch) ty ! i) = i \<and> cm_mainType (components_of (ch_model ch) ty ! i) = ty \<and>
    getComponent ty i (ch_model ch) = Some (components_of (ch_model ch) ty ! i) \<and>
    queryComponents \<lparr>q_mainType = ty, q_index = Undefined, q_id = Text (cm_id (components_of (ch_model ch) ty ! i)), q_name = Undefined,
      q_subType = None\<rparr> (ch_model ch) = [components_of (ch_model ch) ty ! i]"
proof -
  let ?cs = "components_of (ch_model ch) ty"
  have w: "well_placed ty ?cs" using chart_run_ok [OF assms(1)] unfolding gm_ok_def by blast
  then have d: "distinct (map cm_id ?cs)" unfolding well_placed_def by blast
  have "filter (\<lambda>c. cm_id c = cm_id (cs ! i)) cs = [cs ! i]" if "distinct (map cm_id cs)" "i < length cs" for cs :: "('a, 'b) component list"
    using that
  proof (induction cs arbitrary: i)
    case (Cons c cs)
    then show ?case by (cases i) (auto simp: filter_empty_conv, metis nth_mem rev_image_eqI)
  qed simp
  from this [OF d assms(2)] have "filter (\<lambda>c. cm_id c = cm_id (?cs ! i)) ?cs = [?cs ! i]" .
  have "queryComponents \<lparr>q_mainType = ty, q_index = Undefined, q_id = Text (cm_id (?cs ! i)), q_name = Undefined,
      q_subType = None\<rparr> (ch_model ch) = [?cs ! i]"
  proof -
    have "?cs \<noteq> []" using assms(2) by auto
    moreover have "filter (\<lambda>c. one_of (Text (cm_id (?cs ! i))) (cm_id c)) ?cs = filter (\<lambda>c. cm_id c = cm_id (?cs ! i)) ?cs"
      by (rule filter_cong) (auto simp: one_of_def)
    ultimately show ?thesis using assms(3) \<open>filter (\<lambda>c. cm_id c = cm_id (?cs ! i)) ?cs = [?cs ! i]\<close>
      by (simp add: queryComponents_def is_nil_def filterBySubType_def)
  qed
  then show ?thesis using w assms(2) unfolding well_placed_def by (simp add: getComponent_def)
qed

text \<open>
  C32. After an option or a reset that ended well, and any filtering, the loop over the series calls back with
  series that are there, each at its position and in ascending order, and a series is filtered exactly if it is not called back.
\<close>

theorem shown_series_are_there:
  assumes "sound_run env ch"
  shows "\<exists>calls. eachSeries (ch_model ch) = Inr (map (\<lambda>(c, i). (Some c, i)) calls) \<and> sorted_wrt (<) (map snd calls) \<and>
    (\<forall>(c, i) \<in> set calls. i < length (components_of (ch_model ch) ''series'') \<and> components_of (ch_model ch) ''series'' ! i = c) \<and>
    (\<forall>c \<in> set (components_of (ch_model ch) ''series''). isSeriesFiltered c (ch_model ch) = Inr (c \<notin> fst ` set calls))"
proof -
  let ?cs = "components_of (ch_model ch) ''series''"
  obtain indices where s: "gm_seriesIndices (ch_model ch) = Some indices" using sound_run_shows [OF assms] by blast
  have ok: "well_placed ''series'' ?cs" "sorted_wrt (<) indices" "\<And>i. i \<in> set indices \<Longrightarrow> i < length ?cs"
    using sound_run_ok [OF assms] s unfolding gm_ok_def series_ok_def by blast+
  let ?calls = "map (\<lambda>i. (?cs ! i, i)) indices"
  have "eachSeries (ch_model ch) = Inr (map (\<lambda>(c, i). (Some c, i)) ?calls)"
    using s ok(3) by (simp add: eachSeries_def shown_def getComponent_def comp_def)
  moreover have "sorted_wrt (<) (map snd ?calls)" using ok(2) by (simp add: comp_def)
  moreover have "\<forall>(c, i) \<in> set ?calls. i < length ?cs \<and> ?cs ! i = c" using ok(3) by auto
  moreover have "\<forall>c \<in> set ?cs. isSeriesFiltered c (ch_model ch) = Inr (c \<notin> fst ` set ?calls)"
  proof
    fix c
    assume "c \<in> set ?cs"
    then obtain j where j: "j < length ?cs" "c = ?cs ! j" by (metis in_set_conv_nth)
    have idx: "cm_componentIndex (?cs ! k) = k" if "k < length ?cs" for k using ok(1) that unfolding well_placed_def by blast
    have "fst ` set ?calls = (\<lambda>i. ?cs ! i) ` set indices" by (simp add: image_image)
    moreover have "c \<in> (\<lambda>i. ?cs ! i) ` set indices \<longleftrightarrow> j \<in> set indices"
    proof
      assume "c \<in> (\<lambda>i. ?cs ! i) ` set indices"
      then obtain k where k: "k \<in> set indices" "c = ?cs ! k" by blast
      have "cm_componentIndex c = j" unfolding j(2) by (rule idx [OF j(1)])
      moreover have "cm_componentIndex c = k" unfolding k(2) by (rule idx [OF ok(3) [OF k(1)]])
      ultimately show "j \<in> set indices" using k(1) by simp
    qed (use j(2) in blast)
    ultimately show "isSeriesFiltered c (ch_model ch) = Inr (c \<notin> fst ` set ?calls)"
      using s idx [OF j(1)] j(2) by (simp add: isSeriesFiltered_def)
  qed
  ultimately show ?thesis by blast
qed


text \<open>An option reaches the types it names and those that depend on them; it adds components and takes none away.\<close>

lemma makeKeys_exist:
  "makeKeys xs m = Some ks \<Longrightarrow> i < length xs \<Longrightarrow> en_exist (snd (xs ! i)) = Some ex \<Longrightarrow> ks ! i = Some k \<Longrightarrow> ki_id k = exist_key ex"
proof (induction xs arbitrary: m ks i)
  case (Cons x xs)
  obtain n it where x: "x = (n, it)" by fastforce
  show ?case
  proof (cases "en_option it")
    case None
    then obtain rest where "makeKeys xs m = Some rest" "ks = None # rest" using Cons.prems(1) x by auto
    then show ?thesis using Cons.IH Cons.prems(2-4) x by (cases i) auto
  next
    case (Some opt)
    then obtain k' rest where r: "id_for it m = Some k'" "makeKeys xs (set_id k' n m) = Some rest" "ks = Some \<lparr>ki_name = name_for it, ki_id = k'\<rparr> # rest"
      using Cons.prems(1) x by (auto split: Option.bind_splits)
    then show ?thesis using Cons.IH Cons.prems(2-4) x by (cases i) (auto simp: id_for_def)
  qed
qed simp

lemma makeKeys_length: "makeKeys xs m = Some ks \<Longrightarrow> length ks = length xs"
  by (induction xs m arbitrary: ks rule: makeKeys.induct) (auto split: if_splits Option.bind_splits)

lemma makeKeys_None: "makeKeys xs m = Some ks \<Longrightarrow> i < length xs \<Longrightarrow> ks ! i = None \<Longrightarrow> en_option (snd (xs ! i)) = None"
proof (induction xs m arbitrary: ks i rule: makeKeys.induct)
  case (2 n it its m)
  then show ?case by (cases i) (auto split: if_splits Option.bind_splits)
qed simp

lemma visitComponent_ids:
  fixes env :: "('c, 'm) env"
  assumes "visitComponent env o' c g = Fine g'"
  shows "\<exists>new. map cm_id (components_of g' ty) = map cm_id (components_of g ty) @ new"
    "ty \<noteq> fst c \<Longrightarrow> components_of g' ty = components_of g ty"
proof -
  obtain t deps where c: "c = (t, deps)" by fastforce
  let ?its = "mapped env o' t g" and ?old = "components_of g t"
  obtain keys where keys: "makeIdAndName ?its = Some keys" using assms c by (auto simp: visitComponent_def Let_def split: option.splits)
  let ?xs = "zip ?its (zip keys (sub_types env t ?its))"
  obtain h where h: "visitItems env t (getComponentsByTypes g deps) 0 ?xs (set_components t [] g) = Fine h" "components_of g' = components_of h"
    using assms c keys by (auto simp: visitComponent_def Let_def and_then_Fine)
  obtain cs where cs: "components_of h t = cs" "length cs = length ?xs" "\<And>i. i < length cs \<Longrightarrow> placed t i (?xs ! i) (cs ! i)"
      "\<And>ty'. ty' \<noteq> t \<Longrightarrow> components_of h ty' = components_of g ty'"
    using visitItems_placed [of env t "getComponentsByTypes g deps" 0 ?xs "set_components t [] g"] h(1) by auto
  obtain new where "map en_exist ?its = map Some (map exist_cpt ?old) @ replicate new None" using mapped_exist by blast
  from arg_cong [OF this, of length] have old: "length ?old \<le> length ?its" by simp
  obtain m where mk: "makeKeys (enumerate 0 ?its) m = Some keys" using keys by (auto simp: makeIdAndName_def split: Option.bind_splits)
  have len: "length keys = length ?its" using mk by (metis length_enumerate makeKeys_length)
  have id: "cm_id (cs ! i) = cm_id (?old ! i)" if i: "i < length ?old" for i
  proof -
    have z: "i < length ?its" "?xs ! i = (?its ! i, keys ! i, sub_types env t ?its ! i)" "i < length cs"
      using i old len cs(2) by (simp_all add: sub_types_def)
    have ex: "en_exist (?its ! i) = Some (exist_cpt (?old ! i))" using mapped_nth [OF z(1)] i by simp
    have "ki_id k = cm_id (?old ! i)" if "keys ! i = Some k" for k
      using makeKeys_exist [OF mk, of i "exist_cpt (?old ! i)" k] that ex z(1) by (simp add: nth_enumerate_eq exist_key_def exist_cpt_def)
    moreover have "en_option (?its ! i) \<noteq> None \<Longrightarrow> keys ! i \<noteq> None" using makeKeys_None [OF mk, of i] z(1) by (cases "keys ! i") (auto simp: nth_enumerate_eq)
    ultimately show ?thesis using cs(3) [OF z(3)] ex unfolding z(2) placed_def by (auto simp: exist_cpt_def)
  qed
  have "map cm_id cs = map cm_id ?old @ map cm_id (drop (length ?old) cs)"
    by (rule nth_equalityI) (use old len cs(2) id in \<open>auto simp: nth_append sub_types_def\<close>)
  then show "\<exists>new. map cm_id (components_of g' ty) = map cm_id (components_of g ty) @ new"
    using h(2) cs(1,4) by (cases "ty = t") auto
  show "ty \<noteq> fst c \<Longrightarrow> components_of g' ty = components_of g ty" using h(2) cs(4) c by simp
qed

lemma visitAll_ids:
  "visitAll env o' cs g = Fine g' \<Longrightarrow>
    (\<exists>new. map cm_id (components_of g' ty) = map cm_id (components_of g ty) @ new) \<and>
    (ty \<notin> fst ` set cs \<longrightarrow> components_of g' ty = components_of g ty)"
proof (induction cs arbitrary: g)
  case (Cons c cs)
  then obtain h where h: "visitComponent env o' c g = Fine h" "visitAll env o' cs h = Fine g'" by (auto simp: and_then_Fine)
  show ?case using visitComponent_ids [OF h(1), of ty] Cons.IH [OF h(2)] by auto
qed simp

text \<open>
  C39. When an option is merged without an error, every component there was keeps its place and identifier, new ones
  come behind, and a main type changes only if the option has it or it depends on one that does.
\<close>

theorem option_adds_components:
  assumes "gm_mergeOption env opt g = Fine g'" "distinct (map fst (e_registry env))"
  shows "(\<exists>new. map cm_id (components_of g' ty) = map cm_id (components_of g ty) @ new) \<and>
    (\<not> affected (getDependencies env) (getAllClassMainTypes (e_registry env)) (newCptTypes env opt) ty \<longrightarrow>
      components_of g' ty = components_of g ty)"
proof -
  let ?deps = "getDependencies env" and ?full = "getAllClassMainTypes (e_registry env)" and ?targets = "newCptTypes env opt"
  obtain a b where ab: "mergeSettings env opt g = Fine a" "mergeComponents env opt a = Fine b" "components_of g' = components_of b"
    using assms(1) by (auto simp: gm_mergeOption_def and_then_Fine)
  have a: "components_of a = components_of g" using mergeSettings_keeps [of env opt g] ab(1) by simp
  obtain calls circle where calls: "topologicalTravel ?deps ?targets ?full = Some (calls, circle)"
      "visitAll env (Obj opt) calls a = Fine b"
    using ab(2) by (auto simp: mergeComponents_def and_then_Fine split: option.splits if_splits)
  have "fst ` set calls \<subseteq> {n. affected ?deps ?full ?targets n}"
  proof (cases "?targets = []")
    case True
    then show ?thesis using calls(1) by (simp add: topologicalTravel_def)
  next
    case False
    have "distinct ?full" using assms(2) by (simp add: getAllClassMainTypes_def)
    then show ?thesis using travel_result [OF _ False, of ?full ?deps] calls(1) by force
  qed
  then show ?thesis using visitAll_ids [OF calls(2), of ty] ab(3) a by auto
qed

section \<open>A chart with two lines\<close>

definition sample_env :: "(string, jsval) env" where
  "sample_env = \<lparr>e_registry = registerClass ''line'' ''series.line'' (registerClass ''grid'' ''grid'' []),
     e_defaulters = Map.empty, e_dependencies = (\<lambda>c. if c = ''line'' then [''grid''] else []), e_instance = (=),
     e_create = (\<lambda>c opt g x. mergeDefaultAndTheme Undefined [Obj [(''smooth'', Bool False)]] opt),
     e_merge = (\<lambda>opt g c. component_mergeOption (cm_model c) opt), e_restore = (\<lambda>c. Some (cm_model c)),
     e_host_prop = (\<lambda>_ _ _. Undefined), e_host_text = (\<lambda>_ _. '''')\<rparr>"

definition sample_setting :: "(string, jsval) component setting" where
  "sample_setting = \<lparr>st_width = 600, st_height = 400, st_theme = [], st_platform = '''', st_currentIndex = (\<lambda>_. 0)\<rparr>"

definition series_option :: "(string \<times> string) list \<Rightarrow> jsval" where
  "series_option xs = Obj [(''series'', Arr (map (\<lambda>(ty, name). Obj [(''type'', Text ty), (''name'', Text name)]) xs))]"

definition sample :: "(string, jsval) chart outcome" where
  "sample = setOption sample_env sample_setting [] (series_option [(''line'', ''a''), (''line'', ''b'')]) newChart"

definition fine :: "'s outcome \<Rightarrow> bool" where
  "fine r \<longleftrightarrow> (case r of Fine _ \<Rightarrow> True | Raise _ _ \<Rightarrow> False)"

lemma fine_state: "fine r \<Longrightarrow> r = Fine (state_of r)"
  by (cases r) (simp_all add: fine_def)

lemma sample_facts: "fine sample \<and> length (components_of (ch_model (state_of sample)) ''series'') = 2"
  by code_simp

lemma sample_run: "chart_run sample_env (state_of sample)"
  unfolding sample_def by (rule chart_run.set_option [OF chart_run.new])

lemma components_keep_places_witness:
  "cm_componentIndex (components_of (ch_model (state_of sample)) ''series'' ! 1) = 1 \<and>
   getComponent ''series'' 1 (ch_model (state_of sample)) = Some (components_of (ch_model (state_of sample)) ''series'' ! 1)"
  using components_keep_places [OF sample_run, of 1 "''series''"] sample_facts by simp

lemma shown_series_are_there_witness:
  "\<exists>calls. eachSeries (ch_model (state_of sample)) = Inr (map (\<lambda>(c, i). (Some c, i)) calls) \<and> sorted_wrt (<) (map snd calls)"
proof -
  have "setOption sample_env sample_setting [] (series_option [(''line'', ''a''), (''line'', ''b'')]) newChart = Fine (state_of sample)"
    using fine_state sample_facts unfolding sample_def by blast
  then have "sound_run sample_env (state_of sample)" by (rule sound_run.set_option [OF chart_run.new])
  from shown_series_are_there [OF this] show ?thesis by blast
qed

lemma option_adds_components_witness:
  defines "g \<equiv> ch_model (state_of sample)"
  shows "\<exists>new. map cm_id (components_of (state_of (gm_mergeOption sample_env [(''grid'', Obj [])] g)) ''grid'') = map cm_id (components_of g ''grid'') @ new"
proof -
  have "fine (gm_mergeOption sample_env [(''grid'', Obj [])] g)" "distinct (map fst (e_registry sample_env))" unfolding g_def by code_simp+
  then show ?thesis using option_adds_components [OF fine_state] by blast
qed

section \<open>What errors and resets leave behind\<close>

text \<open>
  An option that raises an error has emptied the list of the type it was at, while the positions of the
  series that are shown stay: the loop over the series then calls back with no series.
\<close>

lemma failed_option_drops_series:
  "eachSeries (ch_model (state_of (setOption sample_env sample_setting [] (series_option [(''pie'', ''a'')]) (state_of sample)))) =
    Inr [(None, 0), (None, 1)]"
  by code_simp

text \<open>Colors set later are merged by position into the default ones; after a reset to the options set they are not.\<close>

definition colors :: "(string, jsval) chart outcome \<Rightarrow> jsval option" where
  "colors r = map_of (gm_settings (ch_model (state_of r))) ''color''"

lemma recreate_gives_other_colors:
  "(case colors (setOption sample_env sample_setting [] (Obj [(''color'', Arr [Text ''red''])]) (state_of sample)) of
      Some (Arr cs) \<Rightarrow> length cs = 11 | _ \<Rightarrow> False)"
  "colors (resetOption sample_env sample_setting Recreate
      (state_of (setOption sample_env sample_setting [] (Obj [(''color'', Arr [Text ''red''])]) (state_of sample)))) = Some (Arr [Text ''red''])"
  by code_simp+

text \<open>A second filter asks all series again and brings back what the first one took away.\<close>

lemma filterSeries_forgets:
  "filterSeries cb g = Fine g' \<Longrightarrow> filterSeries cb' g' = filterSeries cb' g"
  by (auto simp: filterSeries_def eachRawSeries_def eachComponent_def split: if_splits)

text \<open>A setting named like an inherited member counts as a component without a place in the order.\<close>

lemma inherited_setting_raises:
  "(case setOption sample_env sample_setting [] (Obj [(''valueOf'', Number 1)]) newChart of
      Raise e _ \<Rightarrow> e = Circle_Dependency | Fine _ \<Rightarrow> False)"
  by code_simp

text \<open>Preprocessors see the media options with a query, not the default one.\<close>

lemma default_media_unprocessed:
  "po_mediaDefault (parseRawOption fs isNew (Obj [(''media'', Arr [Obj [(''option'', Obj ms)]])])) = Obj [(''option'', Obj ms)]"
  by (simp add: parseRawOption_def own_def truthy_def is_nil_def elements_def addMedia_def Let_def)

end
