(* ===== verification/Chart_Core_Props.thy ===== *)
theory Chart_Core_Props
  imports Chart_Core Global_Props
begin

text \<open>
  What holds of a page of charts while actions run: a page at rest is at rest again afterwards, connected
  charts each run an action once, and an error leaves its chart blocked.
\<close>

section \<open>Access\<close>

lemma inst_of_upd: "inst_of (upd_inst i f w) j = (if j = i then map_option f (inst_of w j) else inst_of w j)"
proof -
  have "map_of (map (\<lambda>(j, c). (j, if j = i then f c else c)) xs) j = (if j = i then map_option f (map_of xs j) else map_of xs j)" for xs
    by (induction xs) auto
  then show ?thesis by (simp add: inst_of_def upd_inst_def)
qed

lemma inst_of_trace [simp]: "inst_of (w\<lparr>w_trace := t\<rparr>) j = inst_of w j"
  by (simp add: inst_of_def)

lemma upd_inst_keeps [simp]:
  "w_connected (upd_inst i f w) = w_connected w" "w_trace (upd_inst i f w) = w_trace w"
  "map fst (w_instances (upd_inst i f w)) = map fst (w_instances w)"
  by (auto simp: upd_inst_def comp_def case_prod_beta)

lemma foldl_upd:
  "inst_of (foldl (\<lambda>w j. upd_inst j (\<lambda>c. c\<lparr>in_status := s\<rparr>) w) w js) i =
     (if i \<in> set js then map_option (\<lambda>c. c\<lparr>in_status := s\<rparr>) (inst_of w i) else inst_of w i)"
  by (induction js arbitrary: w) (auto simp: inst_of_upd option.map_comp comp_def split: option.split)

lemma foldl_upd_keeps [simp]:
  "w_connected (foldl (\<lambda>w j. upd_inst j (\<lambda>c. c\<lparr>in_status := s\<rparr>) w) w js) = w_connected w"
  "w_trace (foldl (\<lambda>w j. upd_inst j (\<lambda>c. c\<lparr>in_status := s\<rparr>) w) w js) = w_trace w"
  by (induction js arbitrary: w) auto

lemma run_tasks_simps [simp]:
  "run_tasks pg [] w = Some (Inr w)"
  "run_tasks pg (t # ts) w = (case step pg t w of Inl w \<Rightarrow> Some (Inl w) | Inr (us, w) \<Rightarrow> run_tasks pg (us @ ts) w)"
  by (subst run_tasks.simps, simp)+

section \<open>A page at rest\<close>

definition at_rest :: "'m world \<Rightarrow> bool" where
  "at_rest w \<longleftrightarrow> (\<forall>i c. inst_of w i = Some c \<longrightarrow> \<not> in_mainProcess c \<and> in_pendingActions c = [] \<and> in_status c \<noteq> Pending)"

text \<open>
  While tasks are under way no chart is in its main process between two of them; a chart with pending
  actions has a task that flushes them, and one that waits for connected charts a task that ends this.
\<close>

abbreviation flushed :: "task list \<Rightarrow> string \<Rightarrow> bool" where
  "flushed ts i \<equiv> list_ex (\<lambda>t. case t of Flush j s \<Rightarrow> j = i | _ \<Rightarrow> False) ts"

abbreviation freed :: "task list \<Rightarrow> string \<Rightarrow> bool" where
  "freed ts i \<equiv> list_ex (\<lambda>t. case t of Set_Status js s \<Rightarrow> i \<in> set js | _ \<Rightarrow> False) ts"

fun runs_flushed :: "task list \<Rightarrow> bool" where
  "runs_flushed [] = True"
| "runs_flushed (t # ts) = ((case t of Run i p s \<Rightarrow> flushed ts i | _ \<Rightarrow> True) \<and> runs_flushed ts)"

lemma runs_flushed_append: "runs_flushed us \<Longrightarrow> runs_flushed ts \<Longrightarrow> runs_flushed (us @ ts)"
  by (induction us) (auto split: task.splits)

definition under_way :: "task list \<Rightarrow> 'm world \<Rightarrow> bool" where
  "under_way ts w \<longleftrightarrow> (\<forall>i c. inst_of w i = Some c \<longrightarrow> \<not> in_mainProcess c \<and>
     (in_pendingActions c \<noteq> [] \<longrightarrow> flushed ts i) \<and> (in_status c = Pending \<longrightarrow> freed ts i))
   \<and> runs_flushed ts
   \<and> list_all (\<lambda>t. case t of Set_Status js s \<Rightarrow> s = Updated | _ \<Rightarrow> True) ts"

lemma not_listed [simp]:
  "list_ex (\<lambda>t. case t of Flush j s \<Rightarrow> j = i | _ \<Rightarrow> False) (map (\<lambda>x. Dispatch (f x) (g x) b) xs) = False"
  "list_ex (\<lambda>t. case t of Set_Status js s \<Rightarrow> i \<in> set js | _ \<Rightarrow> False) (map (\<lambda>x. Dispatch (f x) (g x) b) xs) = False"
  "runs_flushed (map (\<lambda>x. Dispatch (f x) (g x) b) xs)"
  "list_all (\<lambda>t. case t of Set_Status js s \<Rightarrow> s = Updated | _ \<Rightarrow> True) (map (\<lambda>x. Dispatch (f x) (g x) b) xs)"
  "list_ex (\<lambda>t. case t of Flush j s \<Rightarrow> j = i | _ \<Rightarrow> False) (map (\<lambda>x. Notify (f x) p) xs) = False"
  "list_ex (\<lambda>t. case t of Set_Status js s \<Rightarrow> i \<in> set js | _ \<Rightarrow> False) (map (\<lambda>x. Notify (f x) p) xs) = False"
  "runs_flushed (map (\<lambda>x. Notify (f x) p) xs)"
  "list_all (\<lambda>t. case t of Set_Status js s \<Rightarrow> s = Updated | _ \<Rightarrow> True) (map (\<lambda>x. Notify (f x) p) xs)"
  by (induction xs) simp_all

lemma under_way_end: "under_way [] w \<longleftrightarrow> at_rest w"
  by (auto simp: under_way_def at_rest_def)

lemma doDispatchAction_inst:
  assumes "doDispatchAction pg i p info w = Inr (ev, w')"
  shows "\<exists>m upd pend. inst_of w' = (inst_of w)(i := map_option (\<lambda>c. c\<lparr>in_mainProcess := False, in_model := m, in_optionUpdated := upd,
      in_pendingActions := in_pendingActions c @ pend\<rparr>) (inst_of w i)) \<and> w_connected w' = w_connected w \<and> w_trace w' = w_trace w @ [(i, p)]"
proof (cases "inst_of w i")
  case None
  then show ?thesis using assms by (simp add: doDispatchAction_def)
next
  case (Some c)
  obtain evs m upd pend where w': "w' = upd_inst i (\<lambda>c. c\<lparr>in_model := m, in_optionUpdated := upd,
              in_pendingActions := in_pendingActions c @ pend, in_mainProcess := False\<rparr>)
            (upd_inst i (\<lambda>c. c\<lparr>in_mainProcess := True\<rparr>) (w\<lparr>w_trace := w_trace w @ [(i, p)]\<rparr>))"
    using assms Some by (auto simp: doDispatchAction_def Let_def split: option.splits)
  show ?thesis unfolding w'
    by (intro exI [of _ m] exI [of _ upd] exI [of _ pend]) (use Some in \<open>auto simp: inst_of_upd fun_eq_iff\<close>)
qed

lemma under_way_step:
  assumes "under_way (t # ts) w" "step pg t w = Inr (us, w')"
  shows "under_way (us @ ts) w'"
proof (cases t)
  case (Dispatch i p silent)
  have "w' = w \<and> (us = [] \<or> us = [Run i p silent, Flush i silent])"
  proof (cases "action_of (pg_registry pg) (ptype p)")
    case No_Action
    then show ?thesis using assms(2) unfolding Dispatch step_def by simp
  next
    case (Info info)
    then obtain c where c: "inst_of w i = Some c" using assms(2) unfolding Dispatch step_def by (cases "inst_of w i") auto
    then have "\<not> in_mainProcess c" using assms(1) unfolding under_way_def by blast
    then show ?thesis using assms(2) c Info unfolding Dispatch step_def by auto
  next
    case Alien_Action
    then obtain c where c: "inst_of w i = Some c" using assms(2) unfolding Dispatch step_def by (cases "inst_of w i") auto
    then have "\<not> in_mainProcess c" using assms(1) unfolding under_way_def by blast
    then show ?thesis using assms(2) c Alien_Action unfolding Dispatch step_def by auto
  qed
  then show ?thesis using assms(1) unfolding Dispatch under_way_def by (elim conjE disjE) (simp_all add: runs_flushed_append)
next
  case (Run i p silent)
  obtain info ev where r: "doDispatchAction pg i p info w = Inr (ev, w')" "us = (if silent then [] else [Emit i (ptype ev) ev])"
    using assms(2) unfolding Run step_def by (auto split: wrap.splits sum.splits)
  obtain m upd pend where w': "inst_of w' = (inst_of w)(i := map_option (\<lambda>c. c\<lparr>in_mainProcess := False, in_model := m, in_optionUpdated := upd,
      in_pendingActions := in_pendingActions c @ pend\<rparr>) (inst_of w i))"
    using doDispatchAction_inst [OF r(1)] by blast
  have s: "flushed ts i" using assms(1) unfolding Run under_way_def by simp
  show ?thesis using assms(1) s unfolding Run under_way_def w' r(2) by (auto split: if_splits)
next
  case (Emit i ty ev)
  have "w' = w \<and> (us = [] \<or> us = map (\<lambda>x. Dispatch (fst x) (snd x) False) (pg_listen pg i ty ev) @ [Connected i ev])"
    using assms(2) unfolding Emit step_def by (auto simp: case_prod_beta split: option.splits if_splits)
  then show ?thesis using assms(1) unfolding Emit under_way_def by (elim conjE disjE) (simp_all add: runs_flushed_append)
next
  case (Connected i ev)
  show ?thesis
  proof (cases "us = []")
    case True
    then have "w' = w" using assms(2) unfolding Connected step_def by (auto simp: Let_def split: option.splits if_splits)
    then show ?thesis using assms(1) True unfolding Connected under_way_def by auto
  next
    case False
    then obtain c where c: "us = map (\<lambda>j. Notify j (makeActionFromEvent (pg_registry pg) ev)) (others_of w i c) @ [Set_Status (others_of w i c) Updated]"
        "w' = foldl (\<lambda>w j. upd_inst j (\<lambda>c. c\<lparr>in_status := Pending\<rparr>) w) w (others_of w i c)"
      using assms(2) unfolding Connected step_def by (auto simp: Let_def split: option.splits if_splits)
    show ?thesis using assms(1) unfolding Connected under_way_def c(2) foldl_upd c(1) by (auto simp: runs_flushed_append split: if_splits)
  qed
next
  case (Notify j p)
  have "w' = w \<and> (us = [] \<or> us = [Dispatch j p False])"
    using assms(2) unfolding Notify step_def by (auto split: option.splits if_splits)
  then show ?thesis using assms(1) unfolding Notify under_way_def by auto
next
  case (Set_Status js s)
  then have s: "s = Updated" "us = []" "w' = foldl (\<lambda>w j. upd_inst j (\<lambda>c. c\<lparr>in_status := s\<rparr>) w) w js"
    using assms unfolding under_way_def step_def by auto
  show ?thesis using assms(1) unfolding Set_Status under_way_def s foldl_upd by (auto split: if_splits)
next
  case (Flush i silent)
  show ?thesis
  proof (cases "Option.bind (inst_of w i) (\<lambda>c. Some (in_pendingActions c))")
    case None
    then have "us = []" "w' = w" "inst_of w i = None" using assms(2) unfolding Flush step_def by (auto split: option.splits)
    then show ?thesis using assms(1) unfolding Flush under_way_def by (force simp del: split_paired_All)
  next
    case (Some ps)
    then obtain c where c: "inst_of w i = Some c" "in_pendingActions c = ps" by (auto split: Option.bind_splits)
    show ?thesis
    proof (cases ps)
      case Nil
      then have "us = []" "w' = w" using assms(2) c unfolding Flush step_def by auto
      then show ?thesis using assms(1) c Nil unfolding Flush under_way_def by (force simp del: split_paired_All)
    next
      case (Cons p ps')
      then have "us = [Run i p silent, Flush i silent]" "w' = upd_inst i (\<lambda>c. c\<lparr>in_pendingActions := ps'\<rparr>) w"
        using assms(2) c unfolding Flush step_def by auto
      then show ?thesis using assms(1) unfolding Flush under_way_def by (auto simp: inst_of_upd split: if_splits)
    qed
  qed
qed

lemma run_tasks_rest: "run_tasks pg ts w = Some r \<Longrightarrow> under_way ts w \<Longrightarrow> r = Inr w' \<Longrightarrow> at_rest w'"
proof (induction pg ts w r arbitrary: w' rule: run_tasks.raw_induct [rotated, consumes 1])
  case (1 run pg ts w r)
  show ?case
  proof (cases ts)
    case Nil
    then show ?thesis using 1 by (simp add: under_way_end)
  next
    case (Cons t us)
    then show ?thesis using 1 under_way_step [of t us w pg] by (auto split: sum.splits prod.splits)
  qed
qed

text \<open>
  C33. A page where no chart is in its main process, has actions pending or waits for others is so again after an
  action that raised no error, whatever actions its listeners, its actions and its updates dispatched on the way.
\<close>

theorem page_comes_to_rest:
  assumes "at_rest w" "dispatchAction pg i p silent w = Some (Inr w')"
  shows "at_rest w'"
proof -
  have "under_way [Dispatch i p silent] w" using assms(1) by (simp add: under_way_def at_rest_def)
  then show ?thesis using run_tasks_rest assms(2) unfolding dispatchAction_def by blast
qed


section \<open>Connected charts\<close>

text \<open>A page whose actions and updates raise nothing and dispatch nothing on the way, and that nobody listens to.\<close>

definition quiet_page :: "'m page \<Rightarrow> bool" where
  "quiet_page pg \<longleftrightarrow> (\<forall>ty p m. \<exists>ev m'. pg_action pg ty p m = Some (ev, m', [])) \<and>
     (\<forall>u p m. \<exists>m'. pg_update pg u p m = Some (m', [])) \<and> (\<forall>i ty ev. pg_listen pg i ty ev = [])"

lemma ptype_put [simp]: "ptype (put ''type'' (Text s) e) = s"
  by (simp add: ptype_def put_def update_conv')

lemma run_items_quiet:
  assumes "quiet_page pg"
  shows "\<exists>evs m'. run_items pg ty info hl ps m = Some (evs, m', []) \<and> length evs = length ps \<and> (\<forall>ev \<in> set evs. ptype ev = ai_event info)"
proof (induction ps arbitrary: m)
  case (Cons p ps)
  obtain ev m1 where a: "pg_action pg ty p m = Some (ev, m1, [])" using assms unfolding quiet_page_def by blast
  obtain m2 where u: "(if hl then pg_update pg (update_method info) (Some p) m1 else Some (m1, [])) = Some (m2, [])"
  proof (cases hl)
    case True
    obtain m2 where "pg_update pg (update_method info) (Some p) m1 = Some (m2, [])" using assms unfolding quiet_page_def by blast
    then show ?thesis using that True by simp
  qed (use that in simp)
  show ?case using Cons.IH [of m2] a u by auto
qed simp

lemma doDispatchAction_quiet:
  assumes "quiet_page pg" "inst_of w i = Some c" "\<not> in_mainProcess c"
  shows "\<exists>ev w' m u. doDispatchAction pg i p info w = Inr (ev, w') \<and> ptype ev = ai_event info \<and>
    w' = upd_inst i (\<lambda>c. c\<lparr>in_model := m, in_optionUpdated := u, in_mainProcess := False\<rparr>)
           (upd_inst i (\<lambda>c. c\<lparr>in_mainProcess := True\<rparr>) (w\<lparr>w_trace := w_trace w @ [(i, p)]\<rparr>))"
proof -
  let ?hl = "ptype p = ''highlight'' \<or> ptype p = ''downplay''"
  obtain evs m where r: "run_items pg (ptype p) info ?hl (payloads_of p) (in_model c) = Some (evs, m, [])"
      "length evs = length (payloads_of p)" "\<forall>ev \<in> set evs. ptype ev = ai_event info"
    using run_items_quiet [OF assms(1)] by blast
  have "\<exists>m' u. run_update pg info ?hl p (in_optionUpdated c) m = Some (m', u, [])"
  proof -
    obtain m1 m2 where "pg_update pg ''prepareAndUpdate'' (Some p) m = Some (m1, [])" "pg_update pg (update_method info) (Some p) m = Some (m2, [])"
      using assms(1) unfolding quiet_page_def by meson
    then show ?thesis by (cases "in_optionUpdated c") (auto simp: run_update_def Let_def)
  qed
  then obtain m' u where u: "run_update pg info ?hl p (in_optionUpdated c) m = Some (m', u, [])" by blast
  have "ptype (event_object p info evs) = ai_event info"
  proof (cases "batched p")
    case False
    then have "length evs = 1" using r(2) by (simp add: payloads_of_def)
    then obtain e where "evs = [e]" by (cases evs) auto
    then show ?thesis using False r(3) by (simp add: event_object_def)
  qed (simp add: event_object_def ptype_def)
  moreover have "doDispatchAction pg i p info w = Inr (event_object p info evs, upd_inst i (\<lambda>c. c\<lparr>in_model := m', in_optionUpdated := u, in_mainProcess := False\<rparr>)
           (upd_inst i (\<lambda>c. c\<lparr>in_mainProcess := True\<rparr>) (w\<lparr>w_trace := w_trace w @ [(i, p)]\<rparr>)))"
    using assms(2) r(1) u by (simp add: doDispatchAction_def Let_def)
  ultimately show ?thesis by blast
qed

definition groups :: "'m world \<Rightarrow> (string \<times> string option) list" where
  "groups w = map (\<lambda>(j, d). (j, in_group d)) (w_instances w)"

lemma others_of_groups: "others_of w i c = map fst (filter (\<lambda>(j, g). j \<noteq> i \<and> g = in_group c) (groups w))"
proof -
  have "map fst (filter (\<lambda>(j, d). j \<noteq> i \<and> in_group d = in_group c) xs) =
      map fst (filter (\<lambda>(j, g). j \<noteq> i \<and> g = in_group c) (map (\<lambda>(j, d). (j, in_group d)) xs))" for xs :: "(string \<times> 'a inst) list"
    by (induction xs) auto
  then show ?thesis by (simp add: others_of_def groups_def)
qed

lemma groups_upd [simp]: "(\<And>c. in_group (f c) = in_group c) \<Longrightarrow> groups (upd_inst i f w) = groups w"
  by (auto simp: groups_def upd_inst_def)

lemma others_in: "j \<in> set (others_of w i c) \<Longrightarrow> j \<noteq> i \<and> inst_of w j \<noteq> None"
  unfolding others_of_def inst_of_def by (auto simp: map_of_eq_None_iff image_iff, force)

text \<open>The charts that wait are asked one after the other; each runs the action and tells nobody.\<close>

definition waiting :: "string list \<Rightarrow> 'm world \<Rightarrow> bool" where
  "waiting js w \<longleftrightarrow> (\<forall>j \<in> set js. \<exists>c. inst_of w j = Some c \<and> \<not> in_mainProcess c \<and> in_pendingActions c = [] \<and> in_status c = Pending)"

lemma notify_one:
  assumes "quiet_page pg" "action_of (pg_registry pg) (ptype q) = Info info" "inst_of w j = Some c" "\<not> in_mainProcess c"
    "in_pendingActions c = []" "in_status c = Pending"
  shows "\<exists>w'. run_tasks pg (Notify j q # ts) w = run_tasks pg ts w' \<and> w_trace w' = w_trace w @ [(j, q)] \<and>
    (\<forall>js. waiting js w \<longrightarrow> waiting js w') \<and> (\<forall>k. k \<noteq> j \<longrightarrow> inst_of w' k = inst_of w k)"
proof -
  obtain ev w' m u where d: "doDispatchAction pg j q info w = Inr (ev, w')" "ptype ev = ai_event info"
      "w' = upd_inst j (\<lambda>c. c\<lparr>in_model := m, in_optionUpdated := u, in_mainProcess := False\<rparr>)
           (upd_inst j (\<lambda>c. c\<lparr>in_mainProcess := True\<rparr>) (w\<lparr>w_trace := w_trace w @ [(j, q)]\<rparr>))"
    using doDispatchAction_quiet [OF assms(1,3,4)] by blast
  let ?c = "c\<lparr>in_mainProcess := False, in_model := m, in_optionUpdated := u\<rparr>"
  have i: "inst_of w' k = (if k = j then Some ?c else inst_of w k)" for k
    unfolding d(3) using assms(3) by (simp add: inst_of_upd)
  have l: "pg_listen pg j ty ev = []" for ty ev using assms(1) unfolding quiet_page_def by blast
  have f: "run_tasks pg (Flush j False # ts) w' = run_tasks pg ts w'" using i assms(5) by (simp add: step_def)
  have "run_tasks pg (Emit j (ptype ev) ev # Flush j False # ts) w' = run_tasks pg ts w'"
  proof (cases "ptype ev \<in> set (in_events ?c)")
    case True
    then show ?thesis using i l assms(5,6) by (simp add: step_def)
  next
    case False
    then show ?thesis using i assms(5) by (simp add: step_def)
  qed
  then have "run_tasks pg (Notify j q # ts) w = run_tasks pg ts w'"
    using assms(2,3,4,6) d(1) by (simp add: step_def [of pg "Notify j q"] step_def [of pg "Dispatch j q False"] step_def [of pg "Run j q False"])
  moreover have "w_trace w' = w_trace w @ [(j, q)]" unfolding d(3) by simp
  moreover have "waiting js w'" if "waiting js w" for js
    using that i assms(5,6) unfolding waiting_def by auto
  moreover have "inst_of w' k = inst_of w k" if "k \<noteq> j" for k using that i by simp
  ultimately show ?thesis by blast
qed

lemma notify_all:
  assumes "quiet_page pg" "action_of (pg_registry pg) (ptype q) = Info info" "waiting js w"
  shows "\<exists>w'. run_tasks pg (map (\<lambda>j. Notify j q) js @ ts) w = run_tasks pg ts w' \<and> w_trace w' = w_trace w @ map (\<lambda>j. (j, q)) js \<and>
    (\<forall>k. k \<notin> set js \<longrightarrow> inst_of w' k = inst_of w k)"
  using assms(3)
proof (induction js arbitrary: w)
  case (Cons j js)
  obtain c where c: "inst_of w j = Some c" "\<not> in_mainProcess c" "in_pendingActions c = []" "in_status c = Pending"
    using Cons.prems unfolding waiting_def by auto
  obtain w1 where w1: "run_tasks pg (Notify j q # map (\<lambda>j. Notify j q) js @ ts) w = run_tasks pg (map (\<lambda>j. Notify j q) js @ ts) w1"
      "w_trace w1 = w_trace w @ [(j, q)]" "waiting (j # js) w1" "\<forall>k. k \<noteq> j \<longrightarrow> inst_of w1 k = inst_of w k"
    using notify_one [OF assms(1,2) c, of "map (\<lambda>j. Notify j q) js @ ts"] Cons.prems by blast
  have "waiting js w1" using w1(3) unfolding waiting_def by simp
  then obtain w2 where "run_tasks pg (map (\<lambda>j. Notify j q) js @ ts) w1 = run_tasks pg ts w2" "w_trace w2 = w_trace w1 @ map (\<lambda>j. (j, q)) js"
      "\<forall>k. k \<notin> set js \<longrightarrow> inst_of w2 k = inst_of w1 k"
    using Cons.IH by blast
  then show ?case using w1(1,2,4) by (intro exI [of _ w2]) simp
next
  case Nil
  show ?case by (intro exI [of _ w]) simp
qed




section \<open>Two charts\<close>

definition select_registry :: registry_of_actions where
  "select_registry = registerAction ''legendSelect'' ''legendselected'' ''update'' \<lparr>ra_actions = [], ra_events = []\<rparr>"

definition count_page :: "nat page" where
  "count_page = \<lparr>pg_registry = select_registry, pg_action = (\<lambda>ty p m. Some (None, Suc m, [])), pg_update = (\<lambda>u p m. Some (m, [])),
     pg_listen = (\<lambda>i ty ev. [])\<rparr>"

definition two_charts :: "nat world" where
  "two_charts = connect_charts [''a'', ''b''] ''g'' (chart_init count_page ''b'' 0 (chart_init count_page ''a'' 0
     \<lparr>w_instances = [], w_connected = [], w_trace = []\<rparr>))"

definition select :: payload where
  "select = [(''type'', Text ''legendSelect''), (''name'', Text ''x'')]"

lemma quiet_count_page: "quiet_page count_page"
  by (simp add: quiet_page_def count_page_def)

lemma registry_facts:
  "action_of select_registry ''legendSelect'' = Info \<lparr>ai_event = ''legendselected'', ai_update = ''update''\<rparr>"
  "map_of (ra_events select_registry) ''legendselected'' = Some ''legendSelect''"
  by code_simp+

lemma two_charts_insts:
  "w_instances two_charts = map (\<lambda>i. (i, \<lparr>in_group = Some ''g'', in_model = 0, in_mainProcess = False, in_optionUpdated = False,
     in_pendingActions = [], in_status = No_Status, in_events = [''legendselected'']\<rparr>)) [''a'', ''b'']" "w_connected two_charts = [(''g'', True)]" "w_trace two_charts = []"
  by code_simp+

lemma two_charts_rest: "at_rest two_charts"
  by (auto simp: at_rest_def inst_of_def two_charts_insts split: if_splits)


lemma page_comes_to_rest_witness: "\<exists>w'. dispatchAction count_page ''b'' select True two_charts = Some (Inr w') \<and> at_rest w'"
proof -
  have "case dispatchAction count_page ''b'' select True two_charts of Some (Inr w') \<Rightarrow> True | _ \<Rightarrow> False" by code_simp
  then obtain w' where "dispatchAction count_page ''b'' select True two_charts = Some (Inr w')" by (auto split: option.splits sum.splits)
  then show ?thesis using page_comes_to_rest [OF two_charts_rest] by blast
qed

section \<open>What blocks and what is left\<close>

definition drawing_page :: "(string, jsval, unit) holder page" where
  "drawing_page = \<lparr>pg_registry = select_registry, pg_action = (\<lambda>ty p m. Some (None, m, [])), pg_update = (\<lambda>u p m. Some (m, [])),
     pg_listen = (\<lambda>i ty ev. [])\<rparr>"

definition one_chart :: "(string, jsval, unit) holder world" where
  "one_chart = chart_init drawing_page ''a'' \<lparr>h_chart = None, h_lastOnlyGraphic = False, h_drawn = ()\<rparr> \<lparr>w_instances = [], w_connected = [], w_trace = []\<rparr>"


lemma onframe_leaves_pending:
  assumes "inst_of w i = Some c" "in_optionUpdated c" "pg_update pg ''prepareAndUpdate'' None (in_model c) = Some (m, pend)"
  shows "\<exists>w' c'. onframe pg i w = Inr w' \<and> inst_of w' i = Some c' \<and> in_pendingActions c' = in_pendingActions c @ pend"
  using assms by (simp add: onframe_def end_process_def inst_of_upd)

lemma inherited_group_connected: "map_of (w_connected w) ''constructor'' = None \<Longrightarrow> group_connected w (Some ''constructor'')"
  by (simp add: group_connected_def group_name_def object_members_def)

lemma array_member_action_raises:
  assumes "map_of (ra_actions (pg_registry pg)) ''map'' = None" "inst_of w i = Some c" "\<not> in_mainProcess c"
  shows "dispatchAction pg i [(''type'', Text ''map'')] silent w = Some (Inl w)"
  using assms by (simp add: dispatchAction_def step_def action_of_def ptype_def array_members_def)

end
