(* ===== verification/Chart_Views_Props.thy ===== *)
theory Chart_Views_Props
  imports Chart_Views Timsort_Sort Chart_Core_Props
begin

text \<open>
  What a chart draws: functions run by priority, and the views of a chart
  are those of its components and series, each of the class of its type.
\<close>

section \<open>Functions by priority\<close>

datatype 'f page_event = Processor "int option" 'f | Layout "int option" 'f | Visual "int option" 'f | New_Chart

text \<open>The processors and the visual functions of the page after one event.\<close>

definition page_event :: "'f page_event \<Rightarrow> 'f prioritized list \<times> 'f prioritized list \<Rightarrow> ('f prioritized list \<times> 'f prioritized list) option" where
  "page_event e = (\<lambda>(ps, vs). case e of
      Processor q f \<Rightarrow> Some (registerProcessor q f ps, vs)
    | Layout q f \<Rightarrow> Some (ps, registerLayout q f vs)
    | Visual q f \<Rightarrow> Some (ps, registerVisual q f vs)
    | New_Chart \<Rightarrow> (case (sortFuncs ps, sortFuncs vs) of (Some ps, Some vs) \<Rightarrow> Some (ps, vs) | _ \<Rightarrow> None))"

fun page_run :: "'f page_event list \<Rightarrow> 'f prioritized list \<times> 'f prioritized list \<Rightarrow> ('f prioritized list \<times> 'f prioritized list) option" where
  "page_run [] s = Some s"
| "page_run (e # es) s = Option.bind (page_event e s) (page_run es)"

text \<open>What was registered, in that order.\<close>

definition registered_processors :: "'f page_event list \<Rightarrow> 'f prioritized list" where
  "registered_processors es = foldl (\<lambda>ps e. case e of Processor q f \<Rightarrow> registerProcessor q f ps | _ \<Rightarrow> ps) [] es"

definition registered_visuals :: "'f page_event list \<Rightarrow> 'f prioritized list" where
  "registered_visuals es = foldl (\<lambda>vs e. case e of Layout q f \<Rightarrow> registerLayout q f vs | Visual q f \<Rightarrow> registerVisual q f vs | _ \<Rightarrow> vs) [] es"

lemma sortFuncs_key: "length fs < 2 ^ 31 \<Longrightarrow> sortFuncs fs = Some (sort_key pf_prio fs)"
  using sort_array_key [of fs pf_prio] by (simp add: sortFuncs_def prioritySortFunc_def [abs_def] key_cmp_def [abs_def])

lemma sort_key_again: "sort_key f (sort_key f xs @ ys) = sort_key f (xs @ ys)"
proof (rule properties_for_sort_key [symmetric])
  fix k
  have "filter (\<lambda>x. f k = f x) (sort_key f zs) = filter (\<lambda>x. f k = f x) zs" for zs
    using sort_key_stable [where f = f and k = "f k"] by (simp add: eq_commute)
  then show "filter (\<lambda>x. f k = f x) (sort_key f (sort_key f xs @ ys)) = filter (\<lambda>x. f k = f x) (xs @ ys)" by simp
qed simp_all

text \<open>The functions stand in some order that sorting brings to that of the registrations.\<close>

definition sorts_as :: "'f prioritized list \<Rightarrow> 'f prioritized list \<Rightarrow> bool" where
  "sorts_as fs gs \<longleftrightarrow> length fs = length gs \<and> (\<forall>xs. sort_key pf_prio (fs @ xs) = sort_key pf_prio (gs @ xs))"

lemma sorts_as_append: "sorts_as fs gs \<Longrightarrow> sorts_as (fs @ xs) (gs @ xs)"
  by (simp add: sorts_as_def)

lemma sorts_as_sort: "sorts_as fs gs \<Longrightarrow> sorts_as (sort_key pf_prio fs) gs"
  by (simp add: sorts_as_def sort_key_again)

lemma sorts_as_key: "sorts_as fs gs \<Longrightarrow> sort_key pf_prio fs = sort_key pf_prio gs"
  unfolding sorts_as_def by (metis append_Nil2)

lemma registered_snoc:
  "registered_processors (es @ [e]) = (case e of Processor q f \<Rightarrow> registerProcessor q f (registered_processors es) | _ \<Rightarrow> registered_processors es)"
  "registered_visuals (es @ [e]) = (case e of Layout q f \<Rightarrow> registerLayout q f (registered_visuals es)
     | Visual q f \<Rightarrow> registerVisual q f (registered_visuals es) | _ \<Rightarrow> registered_visuals es)"
  by (cases e; simp add: registered_processors_def registered_visuals_def)+

lemma registered_length: "length (registered_processors es) \<le> length es" "length (registered_visuals es) \<le> length es"
  by (induction es rule: rev_induct)
    (auto simp: registered_snoc registered_processors_def [of "[]"] registered_visuals_def [of "[]"] registerProcessor_def registerLayout_def registerVisual_def
      split: page_event.splits)

lemma page_run_append: "page_run (es @ es') s = Option.bind (page_run es s) (page_run es')"
  by (induction es arbitrary: s) (auto split: bind_splits)

lemma page_run_sorts:
  assumes "length es < 2 ^ 31"
  shows "\<exists>ps vs. page_run es ([], []) = Some (ps, vs) \<and> sorts_as ps (registered_processors es) \<and> sorts_as vs (registered_visuals es)"
  using assms
proof (induction es rule: rev_induct)
  case Nil
  show ?case by (simp add: sorts_as_def registered_processors_def registered_visuals_def)
next
  case (snoc e es)
  then obtain ps vs where r: "page_run es ([], []) = Some (ps, vs)" "sorts_as ps (registered_processors es)" "sorts_as vs (registered_visuals es)"
    by auto
  have "length ps < 2 ^ 31" "length vs < 2 ^ 31"
    using r(2,3) registered_length [of es] snoc.prems unfolding sorts_as_def by simp_all
  then show ?case using r
    by (cases e) (simp_all add: page_run_append page_event_def registered_snoc registerProcessor_def registerLayout_def registerVisual_def
      sorts_as_append sortFuncs_key sorts_as_sort)
qed

text \<open>
  C37. Whatever the order of registrations and new charts, a new chart leaves the processors and the visual
  functions sorted by priority, and by the order of registration among equals; what is registered after the last
  new chart runs at the end, whatever its priority.
\<close>

theorem functions_run_by_priority:
  assumes "length es < 2 ^ 31 - 1" "New_Chart \<notin> set es'"
  shows "page_run (es @ New_Chart # es') ([], []) =
    Some (sort_key pf_prio (registered_processors es) @ registered_processors es', sort_key pf_prio (registered_visuals es) @ registered_visuals es')"
proof -
  obtain ps vs where r: "page_run es ([], []) = Some (ps, vs)" "sorts_as ps (registered_processors es)" "sorts_as vs (registered_visuals es)"
    using page_run_sorts [of es] assms(1) by auto
  have "length ps < 2 ^ 31" "length vs < 2 ^ 31" using r(2,3) registered_length [of es] assms(1) unfolding sorts_as_def by simp_all
  then have "page_event New_Chart (ps, vs) = Some (sort_key pf_prio (registered_processors es), sort_key pf_prio (registered_visuals es))"
    using sorts_as_key [OF r(2)] sorts_as_key [OF r(3)] by (simp add: page_event_def sortFuncs_key)
  moreover have "page_run es' (ps, vs) = Some (ps @ registered_processors es', vs @ registered_visuals es')" for ps vs
    using assms(2)
    by (induction es' rule: rev_induct)
      (auto simp: page_run_append registered_snoc registered_processors_def [of "[]"] registered_visuals_def [of "[]"] page_event_def
        registerProcessor_def registerLayout_def registerVisual_def split: page_event.splits)
  ultimately show ?thesis using r(1) by (simp add: page_run_append)
qed

lemma functions_run_by_priority_witness:
  "page_run [Processor (Some 5000) ''statistic'', Processor None ''filter'', Visual (Some 4000) ''component'', Layout None ''layout'', New_Chart,
      Processor (Some 1) ''late''] ([], []) =
    Some (map (\<lambda>(p, f). \<lparr>pf_prio = p, pf_func = f, pf_isLayout = False\<rparr>) [(1000, ''filter''), (5000, ''statistic''), (1, ''late'')],
      [\<lparr>pf_prio = 1000, pf_func = ''layout'', pf_isLayout = True\<rparr>, \<lparr>pf_prio = 4000, pf_func = ''component'', pf_isLayout = False\<rparr>])"
  using functions_run_by_priority [of "[Processor (Some 5000) ''statistic'', Processor None ''filter'', Visual (Some 4000) ''component'', Layout None ''layout'']"
      "[Processor (Some 1) ''late'']"]
  by (simp add: registered_processors_def registered_visuals_def registerProcessor_def registerLayout_def registerVisual_def
    PRIORITY_PROCESSOR_FILTER_def PRIORITY_VISUAL_LAYOUT_def)

section \<open>The views of a chart\<close>

definition view_id :: "('c, 'o, 'k, 'v) painting \<Rightarrow> ('c, 'm) component \<Rightarrow> string" where
  "view_id pt c = cm_id c @ ''_'' @ pt_type pt (cm_class c)"

definition has_view_class :: "('c, 'o, 'k, 'v) painting \<Rightarrow> bool \<Rightarrow> ('c, 'm) component \<Rightarrow> bool" where
  "has_view_class pt isComponent c \<longleftrightarrow> view_class pt isComponent (pt_type pt (cm_class c)) \<noteq> None"

text \<open>A view is of the class that is registered for the type at the end of its identifier.\<close>

definition fits :: "('c, 'o, 'k, 'v) painting \<Rightarrow> bool \<Rightarrow> ('k, 'v) view \<Rightarrow> bool" where
  "fits pt isComponent v \<longleftrightarrow>
     (\<exists>i ty. vw_id v = i @ ''_'' @ ty \<and> CHR ''_'' \<notin> set ty \<and> view_class pt isComponent ty = Some (Class (vw_class v)))"

definition good_side :: "('c, 'o, 'k, 'v) painting \<Rightarrow> bool \<Rightarrow> ('k, 'v) drawn \<Rightarrow> bool" where
  "good_side pt isComponent d \<longleftrightarrow> (let vs = views_of isComponent d in
     distinct (vs_list vs) \<and> distinct (map fst (vs_map vs)) \<and>
     set (vs_map vs) = (\<lambda>a. (vw_id (dr_heap d ! a), a)) ` set (vs_list vs) \<and>
     (\<forall>a \<in> set (vs_list vs). a < length (dr_heap d) \<and> fits pt isComponent (dr_heap d ! a)))"

text \<open>List and dictionary of both kinds agree, and what the renderer shows is these views.\<close>

definition good_views :: "('c, 'o, 'k, 'v) painting \<Rightarrow> ('k, 'v) drawn \<Rightarrow> bool" where
  "good_views pt d \<longleftrightarrow> (\<forall>isComponent. good_side pt isComponent d) \<and>
     set (vs_list (dr_components d)) \<inter> set (vs_list (dr_charts d)) = {} \<and>
     distinct (dr_groups d) \<and> set (dr_groups d) = set (vs_list (dr_components d)) \<union> set (vs_list (dr_charts d))"

lemma followed_by_Inr: "followed_by r f = Inr y \<longleftrightarrow> (\<exists>x. r = Inr x \<and> f x = Inr y)"
  by (cases r) auto

lemma each_of_run:
  assumes "each_of f xs s = Inr s'" "P [] s"
    and "\<And>xs1 x s1 s2. P xs1 s1 \<Longrightarrow> x \<in> set xs \<Longrightarrow> f x s1 = Inr s2 \<Longrightarrow> P (xs1 @ [x]) s2"
  shows "P xs s'"
proof -
  have "each_of f ys s1 = Inr s' \<Longrightarrow> P zs s1 \<Longrightarrow> set ys \<subseteq> set xs \<Longrightarrow> P (zs @ ys) s'" for ys zs s1
  proof (induction ys arbitrary: zs s1)
    case (Cons y ys)
    then obtain s2 where s2: "f y s1 = Inr s2" "each_of f ys s2 = Inr s'" by (auto simp: followed_by_Inr)
    have "P (zs @ [y]) s2" using assms(3) [OF Cons.prems(2) _ s2(1)] Cons.prems(3) by simp
    then show ?case using Cons.IH [OF s2(2), of "zs @ [y]"] Cons.prems(3) by simp
  qed simp
  from this [OF assms(1,2)] show ?thesis by simp
qed

lemma views_of_simps [simp]:
  "views_of b (upd_view a f d) = views_of b d"
  "views_of b (set_views b' vs d) = (if b = b' then vs else views_of b d)"
  "views_of b (d\<lparr>dr_heap := h\<rparr>) = views_of b d" "views_of b (d\<lparr>dr_groups := gs\<rparr>) = views_of b d"
  "dr_heap (set_views b vs d) = dr_heap d" "dr_groups (set_views b vs d) = dr_groups d"
  "dr_groups (upd_view a f d) = dr_groups d" "length (dr_heap (upd_view a f d)) = length (dr_heap d)"
  by (auto simp: views_of_def set_views_def upd_view_def)

lemma heap_upd [simp]: "b < length (dr_heap d) \<Longrightarrow> dr_heap (upd_view a f d) ! b = (if a = b then f (dr_heap d ! b) else dr_heap d ! b)"
  by (auto simp: upd_view_def)

lemma both_views: "dr_components d = views_of True d" "dr_charts d = views_of False d"
  by (simp_all add: views_of_def)

text \<open>Only class and identifier of the views matter.\<close>

lemma good_views_cong:
  assumes "good_views pt d" "\<And>b. views_of b d' = views_of b d" "dr_groups d' = dr_groups d" "length (dr_heap d) \<le> length (dr_heap d')"
    and "\<And>a. a < length (dr_heap d) \<Longrightarrow> vw_id (dr_heap d' ! a) = vw_id (dr_heap d ! a) \<and> vw_class (dr_heap d' ! a) = vw_class (dr_heap d ! a)"
  shows "good_views pt d'"
proof -
  have "good_side pt b d'" for b
  proof -
    have g: "good_side pt b d" using assms(1) unfolding good_views_def by blast
    have "\<forall>a \<in> set (vs_list (views_of b d)). vw_id (dr_heap d' ! a) = vw_id (dr_heap d ! a) \<and> fits pt b (dr_heap d' ! a) \<and> a < length (dr_heap d')"
    proof
      fix a
      assume a: "a \<in> set (vs_list (views_of b d))"
      then have "a < length (dr_heap d)" "fits pt b (dr_heap d ! a)" using g unfolding good_side_def Let_def by blast+
      then show "vw_id (dr_heap d' ! a) = vw_id (dr_heap d ! a) \<and> fits pt b (dr_heap d' ! a) \<and> a < length (dr_heap d')"
        using assms(4) assms(5) [of a] unfolding fits_def by simp
    qed
    moreover from this have "(\<lambda>a. (vw_id (dr_heap d' ! a), a)) ` set (vs_list (views_of b d)) = (\<lambda>a. (vw_id (dr_heap d ! a), a)) ` set (vs_list (views_of b d))"
      by (intro image_cong) simp_all
    ultimately show ?thesis using g assms(2) unfolding good_side_def Let_def by simp
  qed
  then show ?thesis using assms(1-3) unfolding good_views_def both_views by simp
qed

lemma good_upd_view:
  assumes "good_views pt d" "\<And>v. vw_id (f v) = vw_id v" "\<And>v. vw_class (f v) = vw_class v"
  shows "good_views pt (upd_view a f d)"
  by (rule good_views_cong [OF assms(1)]) (simp_all add: assms(2,3))

text \<open>An identifier ends in the type.\<close>

lemma fits_class:
  assumes "fits pt isComponent v" "vw_id v = view_id pt c" "CHR ''_'' \<notin> set (pt_type pt (cm_class c))"
  shows "view_class pt isComponent (pt_type pt (cm_class c)) = Some (Class (vw_class v))"
proof -
  obtain i ty where v: "vw_id v = i @ ''_'' @ ty" "CHR ''_'' \<notin> set ty" "view_class pt isComponent ty = Some (Class (vw_class v))"
    using assms(1) unfolding fits_def by blast
  have "takeWhile (\<lambda>x. x \<noteq> CHR ''_'') (rev (i @ ''_'' @ t)) = rev t" if "CHR ''_'' \<notin> set t" for i t
  proof -
    have "\<forall>x \<in> set (rev t). x \<noteq> CHR ''_''" using that by auto
    then show ?thesis by (simp add: takeWhile_append)
  qed
  note end_of = this [OF v(2), of i] this [OF assms(3), of "cm_id c"]
  have "i @ ''_'' @ ty = cm_id c @ ''_'' @ pt_type pt (cm_class c)" using v(1) assms(2) unfolding view_id_def by simp
  then have "rev ty = rev (pt_type pt (cm_class c))" using end_of by metis
  then have "ty = pt_type pt (cm_class c)" by simp
  then show ?thesis using v(3) by simp
qed

lemma map_of_side:
  assumes "good_side pt b d"
  shows "map_of (vs_map (views_of b d)) k = Some a \<longleftrightarrow> a \<in> set (vs_list (views_of b d)) \<and> vw_id (dr_heap d ! a) = k"
  using assms unfolding good_side_def Let_def by (auto simp: map_of_eq_Some_iff)

text \<open>Writes to a component leave all others and everything but their contents.\<close>

lemma getComponent_upd:
  "getComponent ty i (upd_component ty' i' f g) =
     map_option (\<lambda>c. if ty = ty' \<and> i = i' then c\<lparr>cm_model := f (cm_model c)\<rparr> else c) (getComponent ty i g)"
proof -
  have c: "components_of (set_components ty' cs g) ty = (if ty = ty' then cs else components_of g ty)" for cs
    by (simp add: components_of_def set_components_def update_conv')
  show ?thesis by (auto simp: getComponent_def upd_component_def Let_def c nth_list_update)
qed

definition prepared :: "('c, 'o, 'k, 'v) painting \<Rightarrow> bool \<Rightarrow> (('c, 'o viewed) component option \<times> (string \<times> nat)) list \<Rightarrow> string set" where
  "prepared pt b done_list = {view_id pt c | c pos. (Some c, pos) \<in> set done_list \<and> has_view_class pt b c}"

text \<open>What holds when some of the components were prepared, from the views \<open>d0\<close> without marks.\<close>

definition preparing ::
  "('c, 'o, 'k, 'v) painting \<Rightarrow> bool \<Rightarrow> ('k, 'v) drawn \<Rightarrow> (('c, 'o viewed) component option \<times> (string \<times> nat)) list \<Rightarrow>
    ('c, 'o viewed) gm \<times> ('k, 'v) drawn \<Rightarrow> bool" where
  "preparing pt b d0 xs s \<longleftrightarrow> (let (g, d) = s; vs = views_of b d; vs0 = views_of b d0 in
     good_views pt d \<and> views_of (\<not> b) d = views_of (\<not> b) d0 \<and>
     (\<forall>k a. map_of (vs_map vs0) k = Some a \<longrightarrow> map_of (vs_map vs) k = Some a) \<and>
     fst ` set (vs_map vs) = fst ` set (vs_map vs0) \<union> prepared pt b xs \<and>
     (\<forall>a \<in> set (vs_list vs). vw_alive (dr_heap d ! a) \<longleftrightarrow> vw_id (dr_heap d ! a) \<in> prepared pt b xs) \<and>
     (\<forall>c pos. (Some c, pos) \<in> set xs \<and> has_view_class pt b c \<longrightarrow>
        (\<exists>c'. getComponent (fst pos) (snd pos) g = Some c' \<and> cm_class c' = cm_class c \<and> cm_id c' = cm_id c \<and>
           vm_viewId (cm_model c') = Some (view_id pt c))) \<and>
     (\<forall>c pos. (Some c, pos) \<in> set xs \<and> has_view_class pt b c \<and> (\<forall>c' pos'. (Some c', pos') \<in> set xs \<and> view_id pt c' = view_id pt c \<longrightarrow> pos' = pos) \<longrightarrow>
        vw_model (dr_heap d ! the (map_of (vs_map vs) (view_id pt c))) = pos))"

lemma view_class_not_None:
  assumes "good_views pt d" "map_of (vs_map (views_of b d)) (view_id pt c) = Some a" "CHR ''_'' \<notin> set (pt_type pt (cm_class c))"
  shows "a < length (dr_heap d)" "a \<in> set (vs_list (views_of b d))"
    "view_class pt b (pt_type pt (cm_class c)) = Some (Class (vw_class (dr_heap d ! a)))" "has_view_class pt b c"
proof -
  have g: "good_side pt b d" using assms(1) unfolding good_views_def by blast
  then have a: "a \<in> set (vs_list (views_of b d))" "vw_id (dr_heap d ! a) = view_id pt c" using assms(2) by (simp_all add: map_of_side)
  then show "a < length (dr_heap d)" "a \<in> set (vs_list (views_of b d))" using g unfolding good_side_def Let_def by blast+
  have "fits pt b (dr_heap d ! a)" using g a unfolding good_side_def Let_def by blast
  then show "view_class pt b (pt_type pt (cm_class c)) = Some (Class (vw_class (dr_heap d ! a)))" using a(2) assms(3) by (rule fits_class)
  then show "has_view_class pt b c" by (simp add: has_view_class_def)
qed

definition add_view :: "bool \<Rightarrow> ('k, 'v) view \<Rightarrow> ('k, 'v) drawn \<Rightarrow> ('k, 'v) drawn" where
  "add_view b v d = (let a = length (dr_heap d); vs = views_of b d in
     set_views b \<lparr>vs_list = vs_list vs @ [a], vs_map = AList.update (vw_id v) a (vs_map vs)\<rparr>
       (d\<lparr>dr_heap := dr_heap d @ [v], dr_groups := dr_groups d @ [a]\<rparr>))"

lemma both_ways: "P b \<Longrightarrow> P (\<not> b) \<Longrightarrow> P b'"
  by (cases b; cases b') simp_all

lemma add_view_good:
  assumes "good_views pt d" "fits pt b v" "map_of (vs_map (views_of b d)) (vw_id v) = None"
  shows "good_views pt (add_view b v d)"
proof -
  let ?d = "add_view b v d" and ?n = "length (dr_heap d)"
  have sides: "good_side pt b' d" for b' using assms(1) unfolding good_views_def by blast
  have less: "a < ?n" if "a \<in> set (vs_list (views_of b' d))" for a b' using sides [of b'] that unfolding good_side_def Let_def by blast
  have vs: "views_of b ?d = \<lparr>vs_list = vs_list (views_of b d) @ [?n], vs_map = AList.update (vw_id v) ?n (vs_map (views_of b d))\<rparr>"
    "views_of (\<not> b) ?d = views_of (\<not> b) d" by (simp_all add: add_view_def Let_def)
  have h: "dr_heap ?d = dr_heap d @ [v]" "dr_groups ?d = dr_groups d @ [?n]" by (simp_all add: add_view_def Let_def)
  have img: "(\<lambda>a. (vw_id (dr_heap ?d ! a), a)) ` set (vs_list (views_of b' d)) = (\<lambda>a. (vw_id (dr_heap d ! a), a)) ` set (vs_list (views_of b' d))" for b'
    using less [of _ b'] by (intro image_cong) (simp_all add: h nth_append)
  have ok: "\<forall>a \<in> set (vs_list (views_of b' d)). a < length (dr_heap ?d) \<and> fits pt b' (dr_heap ?d ! a)" for b'
  proof
    fix a
    assume a: "a \<in> set (vs_list (views_of b' d))"
    have "fits pt b' (dr_heap d ! a)" using sides [of b'] a unfolding good_side_def Let_def by blast
    then show "a < length (dr_heap ?d) \<and> fits pt b' (dr_heap ?d ! a)" using less [OF a] by (simp add: h nth_append)
  qed
  have "set (AList.update (vw_id v) ?n (vs_map (views_of b d))) = insert (vw_id v, ?n) (set (vs_map (views_of b d)))"
    using assms(3) by (simp add: update_new map_of_eq_None_iff)
  then have "good_side pt b ?d"
    using sides [of b] ok [of b] img [of b] assms(2) less [of ?n b] unfolding good_side_def Let_def vs
    by (auto simp: h distinct_update)
  moreover have "good_side pt (\<not> b) ?d"
    using sides [of "\<not> b"] ok [of "\<not> b"] img [of "\<not> b"] unfolding good_side_def Let_def vs by simp
  ultimately have "good_side pt b' ?d" for b' by (rule both_ways)
  moreover have "?n \<notin> set (dr_groups d)" using assms(1) less unfolding good_views_def both_views by blast
  ultimately show ?thesis
    using assms(1) vs less [of ?n] unfolding good_views_def both_views h by (cases b) auto
qed

lemma prepareOne_cases:
  assumes "prepareOne pt b x s = Inr s'"
  obtains (old) c pos a where "x = (Some c, pos)" "map_of (vs_map (views_of b (snd s))) (view_id pt c) = Some a"
      "s' = mark_view (view_id pt c) pos a s"
    | (none) c pos where "x = (Some c, pos)" "map_of (vs_map (views_of b (snd s))) (view_id pt c) = None" "\<not> has_view_class pt b c" "s' = s"
    | (new) c pos k own where "x = (Some c, pos)" "map_of (vs_map (views_of b (snd s))) (view_id pt c) = None"
      "view_class pt b (pt_type pt (cm_class c)) = Some (Class k)"
      "s' = mark_view (view_id pt c) pos (length (dr_heap (snd s)))
        (fst s, add_view b \<lparr>vw_class = k, vw_alive = True, vw_id = view_id pt c, vw_model = pos, vw_own = own, vw_silent = False\<rparr> (snd s))"
proof -
  obtain g d where s: "s = (g, d)" by (cases s)
  obtain c' pos where x': "x = (c', pos)" by (cases x)
  then obtain c where x: "x = (Some c, pos)" using assms s by (cases c') (simp_all add: prepareOne_def)
  have run: "prepareOne pt b (Some c, pos) (g, d) = Inr s'" using assms x s by simp
  show thesis
  proof (cases "map_of (vs_map (views_of b d)) (view_id pt c)")
    case (Some a)
    then show thesis using run old [OF x] s Some by (simp add: prepareOne_def Let_def view_id_def)
  next
    case None
    note fresh = None
    show thesis
    proof (cases "view_class pt b (pt_type pt (cm_class c))")
      case None
      then show thesis using run none [OF x] s fresh by (simp add: prepareOne_def Let_def view_id_def has_view_class_def)
    next
      case (Some f)
      then obtain k where k: "view_class pt b (pt_type pt (cm_class c)) = Some (Class k)"
        using run fresh by (cases f) (simp_all add: prepareOne_def Let_def view_id_def)
      then obtain x' where "pt_init pt k g = Some x'"
        using run fresh by (cases "pt_init pt k g") (simp_all add: prepareOne_def Let_def view_id_def)
      then show thesis using run fresh k new [OF x _ k, of x'] s by (simp add: prepareOne_def Let_def view_id_def add_view_def)
    qed
  qed
qed

lemma prepared_simps [simp]:
  "prepared pt b [] = {}"
  "prepared pt b (xs @ [(Some c, pos)]) = (if has_view_class pt b c then insert (view_id pt c) (prepared pt b xs) else prepared pt b xs)"
  by (cases pos; auto simp: prepared_def)+

definition placed :: "(('c, 'm) component option \<times> (string \<times> nat)) list \<Rightarrow> ('c, 'm) gm \<Rightarrow> bool" where
  "placed cs g \<longleftrightarrow> (\<forall>c pos. (Some c, pos) \<in> set cs \<longrightarrow>
     (\<exists>c'. getComponent (fst pos) (snd pos) g = Some c' \<and> cm_class c' = cm_class c \<and> cm_id c' = cm_id c))"

text \<open>Where a component stands determines the identifier of its view.\<close>

definition one_per_place :: "('c, 'o, 'k, 'v) painting \<Rightarrow> (('c, 'm) component option \<times> (string \<times> nat)) list \<Rightarrow> bool" where
  "one_per_place pt cs \<longleftrightarrow> (\<forall>c c' pos. (Some c, pos) \<in> set cs \<and> (Some c', pos) \<in> set cs \<longrightarrow> view_id pt c = view_id pt c')"

lemma preparing_mark:
  fixes d1 :: "('k, 'v) drawn"
  assumes good: "good_views pt d1" and other: "views_of (\<not> b) d1 = views_of (\<not> b) d0"
    and ext: "\<forall>k a. map_of (vs_map (views_of b d0)) k = Some a \<longrightarrow> map_of (vs_map (views_of b d1)) k = Some a"
    and keys: "fst ` set (vs_map (views_of b d1)) = fst ` set (vs_map (views_of b d0)) \<union> insert (view_id pt c) (prepared pt b xs)"
    and alive: "\<forall>a' \<in> set (vs_list (views_of b d1)) - {a}. vw_alive (dr_heap d1 ! a') \<longleftrightarrow> vw_id (dr_heap d1 ! a') \<in> prepared pt b xs"
    and marked: "\<forall>c pos. (Some c, pos) \<in> set xs \<and> has_view_class pt b c \<longrightarrow>
        (\<exists>c'. getComponent (fst pos) (snd pos) g = Some c' \<and> cm_class c' = cm_class c \<and> cm_id c' = cm_id c \<and>
           vm_viewId (cm_model c') = Some (view_id pt c))"
    and models: "\<forall>c pos. (Some c, pos) \<in> set xs \<and> has_view_class pt b c \<and>
        (\<forall>c' pos'. (Some c', pos') \<in> set xs \<and> view_id pt c' = view_id pt c \<longrightarrow> pos' = pos) \<longrightarrow>
        vw_model (dr_heap d1 ! the (map_of (vs_map (views_of b d1)) (view_id pt c))) = pos"
    and a: "map_of (vs_map (views_of b d1)) (view_id pt c) = Some a" "has_view_class pt b c"
    and places: "placed (xs @ [(Some c, pos)]) g" "one_per_place pt (xs @ [(Some c, pos)])"
  shows "preparing pt b d0 (xs @ [(Some c, pos)]) (mark_view (view_id pt c) pos a (g, d1))"
proof -
  have side: "good_side pt b d1" using good unfolding good_views_def by blast
  have in_map: "map_of (vs_map (views_of b d1)) k = Some a' \<longleftrightarrow> a' \<in> set (vs_list (views_of b d1)) \<and> vw_id (dr_heap d1 ! a') = k" for k a'
    by (rule map_of_side [OF side])
  have less: "a' < length (dr_heap d1)" if "a' \<in> set (vs_list (views_of b d1))" for a' using side that unfolding good_side_def Let_def by blast
  have id_a: "a \<in> set (vs_list (views_of b d1))" "vw_id (dr_heap d1 ! a) = view_id pt c" using a(1) in_map by blast+
  let ?f = "\<lambda>v :: ('k, 'v) view. v\<lparr>vw_alive := True, vw_id := view_id pt c, vw_model := pos\<rparr>"
  let ?d = "upd_view a ?f d1" and ?g = "upd_component (fst pos) (snd pos) (\<lambda>m. m\<lparr>vm_viewId := Some (view_id pt c)\<rparr>) g" and ?x = "(Some c, pos)"
  have id_eq: "vw_id (dr_heap ?d ! a') = vw_id (dr_heap d1 ! a')" if "a' < length (dr_heap d1)" for a' using that id_a(2) by auto
  have g1: "good_views pt ?d" by (rule good_views_cong [OF good]) (use id_a(2) in auto)
  have g2: "\<forall>a' \<in> set (vs_list (views_of b ?d)). vw_alive (dr_heap ?d ! a') \<longleftrightarrow> vw_id (dr_heap ?d ! a') \<in> prepared pt b (xs @ [?x])"
  proof
    fix a'
    assume a': "a' \<in> set (vs_list (views_of b ?d))"
    then have l: "a' < length (dr_heap d1)" "a' \<in> set (vs_list (views_of b d1))" using less by simp_all
    show "vw_alive (dr_heap ?d ! a') \<longleftrightarrow> vw_id (dr_heap ?d ! a') \<in> prepared pt b (xs @ [?x])"
    proof (cases "a' = a")
      case True
      then show ?thesis using l a(2) by simp
    next
      case False
      have "vw_id (dr_heap d1 ! a') \<noteq> view_id pt c" using in_map [of "view_id pt c" a'] a(1) l(2) False by auto
      then show ?thesis using alive l False a(2) by simp
    qed
  qed
  have g3: "\<exists>c'. getComponent (fst p) (snd p) ?g = Some c' \<and> cm_class c' = cm_class e \<and> cm_id c' = cm_id e \<and> vm_viewId (cm_model c') = Some (view_id pt e)"
    if e: "(Some e, p) \<in> set (xs @ [?x])" "has_view_class pt b e" for e p
  proof -
    obtain c' where c': "getComponent (fst p) (snd p) g = Some c'" "cm_class c' = cm_class e" "cm_id c' = cm_id e"
      using places(1) e(1) unfolding placed_def by blast
    show ?thesis
    proof (cases "p = pos")
      case True
      have "view_id pt e = view_id pt c" using places(2) e(1) True unfolding one_per_place_def by (metis in_set_conv_decomp)
      then show ?thesis using c' True by (simp add: getComponent_upd)
    next
      case False
      then have "(Some e, p) \<in> set xs" using e(1) by simp
      then obtain c'' where c'': "getComponent (fst p) (snd p) g = Some c''" "cm_class c'' = cm_class e" "cm_id c'' = cm_id e"
          "vm_viewId (cm_model c'') = Some (view_id pt e)" using marked e(2) by blast
      then show ?thesis using False by (auto simp: getComponent_upd prod_eq_iff)
    qed
  qed
  have g4: "vw_model (dr_heap ?d ! the (map_of (vs_map (views_of b ?d)) (view_id pt e))) = p"
    if e: "(Some e, p) \<in> set (xs @ [?x])" "has_view_class pt b e"
      "\<forall>c' pos'. (Some c', pos') \<in> set (xs @ [?x]) \<and> view_id pt c' = view_id pt e \<longrightarrow> pos' = p" for e p
  proof -
    have "view_id pt e \<in> prepared pt b (xs @ [?x])" unfolding prepared_def using e(1,2) by blast
    then have "view_id pt e \<in> fst ` set (vs_map (views_of b d1))" using a(2) unfolding keys by auto
    then obtain a' where a': "map_of (vs_map (views_of b d1)) (view_id pt e) = Some a'" by (cases "map_of (vs_map (views_of b d1)) (view_id pt e)") (auto simp: map_of_eq_None_iff)
    then have l: "a' < length (dr_heap d1)" using in_map less by blast
    show ?thesis
    proof (cases "a' = a")
      case True
      then have "view_id pt c = view_id pt e" using a(1) a' in_map [of "view_id pt c" a] in_map [of "view_id pt e" a'] by simp
      moreover have "(Some c, pos) \<in> set (xs @ [?x])" by simp
      ultimately have "pos = p" using e(3) [rule_format, of c pos] by blast
      then show ?thesis using a' True l by simp
    next
      case False
      then have "view_id pt e \<noteq> view_id pt c" using a(1) a' by auto
      then have x: "(Some e, p) \<in> set xs" using e(1) by auto
      have "vw_model (dr_heap d1 ! the (map_of (vs_map (views_of b d1)) (view_id pt e))) = p"
      proof (rule models [rule_format, of e p], intro conjI allI impI)
        fix c' pos'
        assume "(Some c', pos') \<in> set xs \<and> view_id pt c' = view_id pt e"
        then have "(Some c', pos') \<in> set (xs @ [?x]) \<and> view_id pt c' = view_id pt e" by simp
        then show "pos' = p" using e(3) by blast
      qed (rule x, rule e(2))
      then show ?thesis using a' False l by simp
    qed
  qed
  show ?thesis
    unfolding preparing_def mark_view_def Let_def fst_conv snd_conv prod.case
    using g1 g2 g3 g4 other ext keys a(2) by simp
qed

text \<open>One component after the other.\<close>

lemma prepareOne_preparing:
  assumes "preparing pt b d0 xs s" "prepareOne pt b x s = Inr s'" "placed (xs @ [x]) (fst s)" "one_per_place pt (xs @ [x])"
    and plain: "\<And>k. CHR ''_'' \<notin> set (pt_type pt k)"
  shows "preparing pt b d0 (xs @ [x]) s'"
proof -
  obtain g d where s: "s = (g, d)" by (cases s)
  have p: "good_views pt d" "views_of (\<not> b) d = views_of (\<not> b) d0"
    "\<forall>k a. map_of (vs_map (views_of b d0)) k = Some a \<longrightarrow> map_of (vs_map (views_of b d)) k = Some a"
    "fst ` set (vs_map (views_of b d)) = fst ` set (vs_map (views_of b d0)) \<union> prepared pt b xs"
    "\<forall>a \<in> set (vs_list (views_of b d)). vw_alive (dr_heap d ! a) \<longleftrightarrow> vw_id (dr_heap d ! a) \<in> prepared pt b xs"
    "\<forall>c pos. (Some c, pos) \<in> set xs \<and> has_view_class pt b c \<longrightarrow>
        (\<exists>c'. getComponent (fst pos) (snd pos) g = Some c' \<and> cm_class c' = cm_class c \<and> cm_id c' = cm_id c \<and>
           vm_viewId (cm_model c') = Some (view_id pt c))"
    "\<forall>c pos. (Some c, pos) \<in> set xs \<and> has_view_class pt b c \<and> (\<forall>c' pos'. (Some c', pos') \<in> set xs \<and> view_id pt c' = view_id pt c \<longrightarrow> pos' = pos) \<longrightarrow>
        vw_model (dr_heap d ! the (map_of (vs_map (views_of b d)) (view_id pt c))) = pos"
    using assms(1) unfolding preparing_def s Let_def split by blast+
  from assms(2) show ?thesis
  proof (cases rule: prepareOne_cases)
    case (old c pos a)
    have a: "map_of (vs_map (views_of b d)) (view_id pt c) = Some a" using old(2) s by simp
    have h: "has_view_class pt b c" by (rule view_class_not_None(4) [OF p(1) a plain])
    have "view_id pt c \<in> fst ` set (vs_map (views_of b d))" using map_of_SomeD [OF a] by force
    then have k: "fst ` set (vs_map (views_of b d)) = fst ` set (vs_map (views_of b d0)) \<union> insert (view_id pt c) (prepared pt b xs)"
      using p(4) by blast
    have al: "\<forall>a' \<in> set (vs_list (views_of b d)) - {a}. vw_alive (dr_heap d ! a') \<longleftrightarrow> vw_id (dr_heap d ! a') \<in> prepared pt b xs" using p(5) by blast
    have "preparing pt b d0 (xs @ [(Some c, pos)]) (mark_view (view_id pt c) pos a (g, d))"
      by (rule preparing_mark [OF p(1-3) k al p(6,7) a h]) (use assms(3,4) old(1) s in simp_all)
    then show ?thesis using old(1,3) s by simp
  next
    case (none c pos)
    have "preparing pt b d0 (xs @ [(Some c, pos)]) (g, d)"
      unfolding preparing_def Let_def prod.case
    proof (intro conjI)
      show "\<forall>e q. (Some e, q) \<in> set (xs @ [(Some c, pos)]) \<and> has_view_class pt b e \<and>
          (\<forall>c' pos'. (Some c', pos') \<in> set (xs @ [(Some c, pos)]) \<and> view_id pt c' = view_id pt e \<longrightarrow> pos' = q) \<longrightarrow>
          vw_model (dr_heap d ! the (map_of (vs_map (views_of b d)) (view_id pt e))) = q"
      proof (intro allI impI)
        fix e q
        assume e: "(Some e, q) \<in> set (xs @ [(Some c, pos)]) \<and> has_view_class pt b e \<and>
          (\<forall>c' pos'. (Some c', pos') \<in> set (xs @ [(Some c, pos)]) \<and> view_id pt c' = view_id pt e \<longrightarrow> pos' = q)"
        then have "(Some e, q) \<in> set xs" using none(3) by auto
        moreover have "\<forall>c' pos'. (Some c', pos') \<in> set xs \<and> view_id pt c' = view_id pt e \<longrightarrow> pos' = q"
        proof (intro allI impI)
          fix c' pos'
          assume "(Some c', pos') \<in> set xs \<and> view_id pt c' = view_id pt e"
          then have "(Some c', pos') \<in> set (xs @ [(Some c, pos)]) \<and> view_id pt c' = view_id pt e" by simp
          then show "pos' = q" using e by blast
        qed
        ultimately show "vw_model (dr_heap d ! the (map_of (vs_map (views_of b d)) (view_id pt e))) = q"
          using p(7) [rule_format, of e q] e by blast
      qed
      show "\<forall>e q. (Some e, q) \<in> set (xs @ [(Some c, pos)]) \<and> has_view_class pt b e \<longrightarrow>
          (\<exists>c'. getComponent (fst q) (snd q) g = Some c' \<and> cm_class c' = cm_class e \<and> cm_id c' = cm_id e \<and>
             vm_viewId (cm_model c') = Some (view_id pt e))"
      proof (intro allI impI)
        fix e q
        assume e: "(Some e, q) \<in> set (xs @ [(Some c, pos)]) \<and> has_view_class pt b e"
        then have "(Some e, q) \<in> set xs" using none(3) by auto
        then show "\<exists>c'. getComponent (fst q) (snd q) g = Some c' \<and> cm_class c' = cm_class e \<and> cm_id c' = cm_id e \<and>
             vm_viewId (cm_model c') = Some (view_id pt e)" using p(6) e by blast
      qed
    qed (use p none(3) in simp_all)
    then show ?thesis using none(1,4) s by simp
  next
    case (new c pos k x')
    let ?n = "length (dr_heap d)"
    let ?v = "\<lparr>vw_class = k, vw_alive = True, vw_id = view_id pt c, vw_model = pos, vw_own = x', vw_silent = False\<rparr>"
    let ?d = "add_view b ?v d"
    have fresh: "map_of (vs_map (views_of b d)) (view_id pt c) = None" using new(2) s by simp
    have "fits pt b ?v" using new(3) plain [of "cm_class c"] unfolding fits_def view_id_def by auto
    then have g1: "good_views pt ?d" using add_view_good [OF p(1), of b ?v] fresh by simp
    have vs: "views_of b ?d = \<lparr>vs_list = vs_list (views_of b d) @ [?n], vs_map = vs_map (views_of b d) @ [(view_id pt c, ?n)]\<rparr>"
      "views_of (\<not> b) ?d = views_of (\<not> b) d" "dr_heap ?d = dr_heap d @ [?v]"
      using fresh by (simp_all add: add_view_def Let_def update_new map_of_eq_None_iff)
    have less: "a < ?n" if "a \<in> set (vs_list (views_of b d))" for a
      using p(1) that unfolding good_views_def good_side_def Let_def by blast
    have e: "map_of (vs_map (views_of b ?d)) i = (case map_of (vs_map (views_of b d)) i of Some a \<Rightarrow> Some a | None \<Rightarrow> if i = view_id pt c then Some ?n else None)" for i
      by (simp add: vs map_add_def split: option.splits)
    have g3: "\<forall>i a. map_of (vs_map (views_of b d0)) i = Some a \<longrightarrow> map_of (vs_map (views_of b ?d)) i = Some a"
      using p(3) by (simp add: e)
    have g4: "fst ` set (vs_map (views_of b ?d)) = fst ` set (vs_map (views_of b d0)) \<union> insert (view_id pt c) (prepared pt b xs)"
      using p(4) by (simp add: vs)
    have g5: "\<forall>a' \<in> set (vs_list (views_of b ?d)) - {?n}. vw_alive (dr_heap ?d ! a') \<longleftrightarrow> vw_id (dr_heap ?d ! a') \<in> prepared pt b xs"
      using p(5) less by (simp add: vs nth_append)
    have g7: "\<forall>c pos. (Some c, pos) \<in> set xs \<and> has_view_class pt b c \<and> (\<forall>c' pos'. (Some c', pos') \<in> set xs \<and> view_id pt c' = view_id pt c \<longrightarrow> pos' = pos) \<longrightarrow>
        vw_model (dr_heap ?d ! the (map_of (vs_map (views_of b ?d)) (view_id pt c))) = pos"
    proof (intro allI impI)
      fix e' q
      assume e': "(Some e', q) \<in> set xs \<and> has_view_class pt b e' \<and> (\<forall>c' pos'. (Some c', pos') \<in> set xs \<and> view_id pt c' = view_id pt e' \<longrightarrow> pos' = q)"
      then have "view_id pt e' \<in> prepared pt b xs" unfolding prepared_def by blast
      then have "view_id pt e' \<in> fst ` set (vs_map (views_of b d))" using p(4) by blast
      then obtain a where a: "map_of (vs_map (views_of b d)) (view_id pt e') = Some a"
        by (cases "map_of (vs_map (views_of b d)) (view_id pt e')") (auto simp: map_of_eq_None_iff)
      then have "a < ?n" using less view_class_not_None(1) [OF p(1) a plain] by blast
      then show "vw_model (dr_heap ?d ! the (map_of (vs_map (views_of b ?d)) (view_id pt e'))) = q"
        using p(7) [rule_format, OF e'] a by (simp add: e vs nth_append)
    qed
    have a: "map_of (vs_map (views_of b ?d)) (view_id pt c) = Some ?n" using fresh by (simp add: e)
    have h: "has_view_class pt b c" using new(3) by (simp add: has_view_class_def)
    have o1: "views_of (\<not> b) ?d = views_of (\<not> b) d0" using vs(2) p(2) by simp
    have "preparing pt b d0 (xs @ [(Some c, pos)]) (mark_view (view_id pt c) pos ?n (g, ?d))"
      by (rule preparing_mark [OF g1 o1 g3 g4 g5 p(6) g7 a h]) (use assms(3,4) new(1) s in simp_all)
    then show ?thesis using new(1,4) s by simp
  qed
qed

section \<open>Views that are not needed\<close>

lemma dispose_view_good:
  assumes "good_views pt d" "dispose_view pt b g a d = Inr d'" "a \<in> set (vs_list (views_of b d))"
  shows "good_views pt d'" "views_of (\<not> b) d' = views_of (\<not> b) d"
    "vs_list (views_of b d') = (if vw_alive (dr_heap d ! a) then vs_list (views_of b d) else remove1 a (vs_list (views_of b d)))"
    "\<forall>a'. a' < length (dr_heap d) \<longrightarrow> (\<exists>x. dr_heap d' ! a' = (dr_heap d ! a')\<lparr>vw_own := x\<rparr>)" "length (dr_heap d') = length (dr_heap d)"
proof -
  have side: "good_side pt b' d" for b' using assms(1) unfolding good_views_def by blast
  have less: "a' < length (dr_heap d)" if "a' \<in> set (vs_list (views_of b' d))" for a' b' using side that unfolding good_side_def Let_def by blast
  have all: "good_views pt d' \<and> views_of (\<not> b) d' = views_of (\<not> b) d \<and>
    vs_list (views_of b d') = (if vw_alive (dr_heap d ! a) then vs_list (views_of b d) else remove1 a (vs_list (views_of b d))) \<and>
    (\<forall>a'. a' < length (dr_heap d) \<longrightarrow> (\<exists>x. dr_heap d' ! a' = (dr_heap d ! a')\<lparr>vw_own := x\<rparr>)) \<and> length (dr_heap d') = length (dr_heap d)"
  proof (cases "vw_alive (dr_heap d ! a)")
    case True
    then have "d' = d" using assms(2) by (simp add: dispose_view_def)
    moreover have "\<exists>x. dr_heap d ! a' = (dr_heap d ! a')\<lparr>vw_own := x\<rparr>" for a' by (intro exI [of _ "vw_own (dr_heap d ! a')"]) simp
    ultimately show ?thesis using assms(1) True by simp
  next
    case False
    let ?vs = "views_of b d"
    obtain x where d': "d' = set_views b \<lparr>vs_list = remove1 a (vs_list ?vs), vs_map = AList.delete (vw_id (dr_heap d ! a)) (vs_map ?vs)\<rparr>
        (upd_view a (\<lambda>v. v\<lparr>vw_own := x\<rparr>) (d\<lparr>dr_groups := removeAll a (dr_groups d)\<rparr>))"
      using assms(2) False by (auto simp: dispose_view_def Let_def followed_by_Inr or_error_def)
    have h: "dr_heap d' = dr_heap (upd_view a (\<lambda>v. v\<lparr>vw_own := x\<rparr>) d)" "dr_groups d' = removeAll a (dr_groups d)"
      "views_of b d' = \<lparr>vs_list = remove1 a (vs_list ?vs), vs_map = AList.delete (vw_id (dr_heap d ! a)) (vs_map ?vs)\<rparr>"
      "views_of (\<not> b) d' = views_of (\<not> b) d" unfolding d' by (simp_all add: upd_view_def)
    have id_eq: "vw_id (dr_heap d' ! a') = vw_id (dr_heap d ! a')" "vw_class (dr_heap d' ! a') = vw_class (dr_heap d ! a')" if "a' < length (dr_heap d)" for a'
      using that by (simp_all add: h)
    have len: "length (dr_heap d') = length (dr_heap d)" by (simp add: h)
    have dist: "distinct (vs_list ?vs)" using side [of b] unfolding good_side_def Let_def by blast
    have s1: "good_side pt (\<not> b) d'"
    proof -
      have "(\<lambda>a. (vw_id (dr_heap d' ! a), a)) ` set (vs_list (views_of (\<not> b) d)) = (\<lambda>a. (vw_id (dr_heap d ! a), a)) ` set (vs_list (views_of (\<not> b) d))"
        using less [of _ "\<not> b"] id_eq by (intro image_cong) simp_all
      then show ?thesis using side [of "\<not> b"] less [of _ "\<not> b"] id_eq unfolding good_side_def Let_def h(4) len fits_def by simp
    qed
    have s2: "good_side pt b d'"
    proof -
      have ids: "vw_id (dr_heap d ! a') \<noteq> vw_id (dr_heap d ! a)" if "a' \<in> set (vs_list ?vs)" "a' \<noteq> a" for a'
        using map_of_side [OF side, of b "vw_id (dr_heap d ! a)"] that assms(3) by (metis option.inject)
      have "set (AList.delete (vw_id (dr_heap d ! a)) (vs_map ?vs)) = {x \<in> set (vs_map ?vs). fst x \<noteq> vw_id (dr_heap d ! a)}"
        by (auto simp: AList.delete_eq)
      also have "\<dots> = (\<lambda>a. (vw_id (dr_heap d ! a), a)) ` (set (vs_list ?vs) - {a})"
        using side [of b] ids unfolding good_side_def Let_def by auto
      also have "\<dots> = (\<lambda>a. (vw_id (dr_heap d' ! a), a)) ` (set (vs_list ?vs) - {a})"
        using less [of _ b] id_eq by (intro image_cong) simp_all
      finally have "set (AList.delete (vw_id (dr_heap d ! a)) (vs_map ?vs)) = (\<lambda>a. (vw_id (dr_heap d' ! a), a)) ` (set (vs_list ?vs) - {a})" .
      moreover have "\<forall>a' \<in> set (vs_list ?vs) - {a}. a' < length (dr_heap d') \<and> fits pt b (dr_heap d' ! a')"
        using side [of b] less [of _ b] id_eq unfolding good_side_def Let_def len fits_def by simp
      ultimately show ?thesis using side [of b] dist unfolding good_side_def Let_def h(3)
        by (simp add: distinct_delete)
    qed
    have sides: "good_side pt b' d'" for b' using s2 s1 by (rule both_ways)
    have "set (vs_list (views_of b d')) = set (vs_list ?vs) - {a}" using dist by (simp add: h)
    moreover have "a \<notin> set (vs_list (views_of (\<not> b) d))"
      using assms(1,3) unfolding good_views_def both_views by (cases b) auto
    ultimately have "good_views pt d'"
      using assms(1) sides h(2,4) unfolding good_views_def both_views by (cases b) (auto simp: distinct_removeAll)
    moreover have "\<exists>y. dr_heap d' ! a' = (dr_heap d ! a')\<lparr>vw_own := y\<rparr>" if "a' < length (dr_heap d)" for a'
    proof (cases "a' = a")
      case True
      then show ?thesis using that by (intro exI [of _ x]) (simp add: h)
    next
      case False
      then show ?thesis using that by (intro exI [of _ "vw_own (dr_heap d ! a')"]) (simp add: h)
    qed
    ultimately show ?thesis using h(3,4) len False by simp
  qed
  from all show "good_views pt d'" "views_of (\<not> b) d' = views_of (\<not> b) d"
    "vs_list (views_of b d') = (if vw_alive (dr_heap d ! a) then vs_list (views_of b d) else remove1 a (vs_list (views_of b d)))"
    "\<forall>a'. a' < length (dr_heap d) \<longrightarrow> (\<exists>x. dr_heap d' ! a' = (dr_heap d ! a')\<lparr>vw_own := x\<rparr>)" "length (dr_heap d') = length (dr_heap d)"
    by blast+
qed

text \<open>All of them.\<close>

lemma dispose_views:
  assumes "each_of (dispose_view pt b g) as d = Inr d'" "good_views pt d" "set as \<subseteq> set (vs_list (views_of b d))" "distinct as"
  shows "good_views pt d' \<and> views_of (\<not> b) d' = views_of (\<not> b) d \<and>
    set (vs_list (views_of b d')) = {a \<in> set (vs_list (views_of b d)). a \<in> set as \<longrightarrow> vw_alive (dr_heap d ! a)} \<and>
    (\<forall>a. a < length (dr_heap d) \<longrightarrow> (\<exists>x. dr_heap d' ! a = (dr_heap d ! a)\<lparr>vw_own := x\<rparr>)) \<and> length (dr_heap d') = length (dr_heap d)"
  using assms
proof (induction as arbitrary: d)
  case Nil
  have "\<exists>x. dr_heap d ! a = (dr_heap d ! a)\<lparr>vw_own := x\<rparr>" for a by (intro exI [of _ "vw_own (dr_heap d ! a)"]) simp
  then show ?case using Nil by simp
next
  case (Cons a as)
  obtain d1 where d1: "dispose_view pt b g a d = Inr d1" "each_of (dispose_view pt b g) as d1 = Inr d'"
    using Cons.prems(1) by (auto simp: followed_by_Inr)
  have a: "a \<in> set (vs_list (views_of b d))" using Cons.prems(3) by simp
  note one = dispose_view_good [OF Cons.prems(2) d1(1) a]
  have side: "good_side pt b d" using Cons.prems(2) unfolding good_views_def by blast
  then have dist: "distinct (vs_list (views_of b d))" and less: "\<And>x. x \<in> set (vs_list (views_of b d)) \<Longrightarrow> x < length (dr_heap d)"
    unfolding good_side_def Let_def by blast+
  have set1: "set (vs_list (views_of b d1)) = (if vw_alive (dr_heap d ! a) then set (vs_list (views_of b d)) else set (vs_list (views_of b d)) - {a})"
    unfolding one(3) using dist by simp
  then have sub: "set as \<subseteq> set (vs_list (views_of b d1))" using Cons.prems(3,4) by auto
  note rest = Cons.IH [OF d1(2) one(1) sub]
  have al: "vw_alive (dr_heap d1 ! x) = vw_alive (dr_heap d ! x)" if "x \<in> set (vs_list (views_of b d))" for x
    using one(4) less [OF that] by fastforce
  have "set (vs_list (views_of b d')) = {x \<in> set (vs_list (views_of b d1)). x \<in> set as \<longrightarrow> vw_alive (dr_heap d1 ! x)}"
    using rest Cons.prems(4) by simp
  also have "\<dots> = {x \<in> set (vs_list (views_of b d)). x \<in> set (a # as) \<longrightarrow> vw_alive (dr_heap d ! x)}"
    using set1 al a Cons.prems(4) by (auto split: if_splits)
  finally have 1: "set (vs_list (views_of b d')) = {x \<in> set (vs_list (views_of b d)). x \<in> set (a # as) \<longrightarrow> vw_alive (dr_heap d ! x)}" .
  have 2: "\<exists>x. dr_heap d' ! y = (dr_heap d ! y)\<lparr>vw_own := x\<rparr>" if y: "y < length (dr_heap d)" for y
  proof -
    obtain x1 where x1: "dr_heap d1 ! y = (dr_heap d ! y)\<lparr>vw_own := x1\<rparr>" using one(4) y by blast
    have "y < length (dr_heap d1)" using y one(5) by simp
    then obtain x2 where "dr_heap d' ! y = (dr_heap d1 ! y)\<lparr>vw_own := x2\<rparr>" using rest Cons.prems(4) by auto
    then have "dr_heap d' ! y = (dr_heap d ! y)\<lparr>vw_own := x2\<rparr>" using x1 by simp
    then show ?thesis by blast
  qed
  have 3: "good_views pt d'" "views_of (\<not> b) d' = views_of (\<not> b) d" "length (dr_heap d') = length (dr_heap d)"
    using rest Cons.prems(4) one(2,5) by simp_all
  show ?case using 1 2 3 by blast
qed

lemma unmark_all:
  "views_of b' (foldl (\<lambda>d a. upd_view a (\<lambda>v. v\<lparr>vw_alive := False\<rparr>) d) d as) = views_of b' d"
  "dr_groups (foldl (\<lambda>d a. upd_view a (\<lambda>v. v\<lparr>vw_alive := False\<rparr>) d) d as) = dr_groups d"
  "length (dr_heap (foldl (\<lambda>d a. upd_view a (\<lambda>v. v\<lparr>vw_alive := False\<rparr>) d) d as)) = length (dr_heap d)"
  "a < length (dr_heap d) \<Longrightarrow> dr_heap (foldl (\<lambda>d a. upd_view a (\<lambda>v. v\<lparr>vw_alive := False\<rparr>) d) d as) ! a =
     (if a \<in> set as then (dr_heap d ! a)\<lparr>vw_alive := False\<rparr> else dr_heap d ! a)"
  by (induction as arbitrary: d) auto

lemma placed_one: "placed cs g \<Longrightarrow> set xs \<subseteq> set cs \<Longrightarrow> placed xs g \<and> one_per_place pt xs"
proof (intro conjI)
  assume p: "placed cs g" and sub: "set xs \<subseteq> set cs"
  then show "placed xs g" unfolding placed_def by blast
  show "one_per_place pt xs" unfolding one_per_place_def
  proof (intro allI impI)
    fix c c' pos
    assume "(Some c, pos) \<in> set xs \<and> (Some c', pos) \<in> set xs"
    then have "(Some c, pos) \<in> set cs" "(Some c', pos) \<in> set cs" using sub by blast+
    then obtain e e' where "getComponent (fst pos) (snd pos) g = Some e" "cm_class e = cm_class c" "cm_id e = cm_id c"
        "getComponent (fst pos) (snd pos) g = Some e'" "cm_class e' = cm_class c'" "cm_id e' = cm_id c'"
      using p unfolding placed_def by blast
    then show "view_id pt c = view_id pt c'" unfolding view_id_def by simp
  qed
qed

lemma prepareOne_placed:
  assumes "prepareOne pt b x s = Inr s'" "placed cs (fst s)"
  shows "placed cs (fst s')"
proof -
  have upd: "placed cs (upd_component ty i f (fst s))" for ty i f
    unfolding placed_def
  proof (intro allI impI)
    fix c pos
    assume "(Some c, pos) \<in> set cs"
    then obtain c' where "getComponent (fst pos) (snd pos) (fst s) = Some c'" "cm_class c' = cm_class c" "cm_id c' = cm_id c"
      using assms(2) unfolding placed_def by blast
    then show "\<exists>c'. getComponent (fst pos) (snd pos) (upd_component ty i f (fst s)) = Some c' \<and> cm_class c' = cm_class c \<and> cm_id c' = cm_id c"
      by (simp add: getComponent_upd)
  qed
  from assms(1) show ?thesis by (cases rule: prepareOne_cases) (use upd assms(2) in \<open>simp_all add: mark_view_def\<close>)
qed

lemma prepare_all:
  assumes "each_of (prepareOne pt b) cs (g, d0) = Inr s'" "good_views pt d0" "\<forall>a \<in> set (vs_list (views_of b d0)). \<not> vw_alive (dr_heap d0 ! a)"
    and "\<And>k. CHR ''_'' \<notin> set (pt_type pt k)" "placed cs g"
  shows "preparing pt b d0 cs s'"
proof -
  have "preparing pt b d0 cs s' \<and> placed cs (fst s') \<and> set cs \<subseteq> set cs"
  proof (rule each_of_run [where P = "\<lambda>xs s. preparing pt b d0 xs s \<and> placed cs (fst s) \<and> set xs \<subseteq> set cs", OF assms(1)])
    show "preparing pt b d0 [] (g, d0) \<and> placed cs (fst (g, d0)) \<and> set [] \<subseteq> set cs"
      using assms(2,3,5) by (simp add: preparing_def Let_def)
    fix xs1 x s1 s2
    assume 1: "preparing pt b d0 xs1 s1 \<and> placed cs (fst s1) \<and> set xs1 \<subseteq> set cs" and x: "x \<in> set cs" and run: "prepareOne pt b x s1 = Inr s2"
    have sub: "set (xs1 @ [x]) \<subseteq> set cs" using 1 x by simp
    have p: "placed (xs1 @ [x]) (fst s1)" "one_per_place pt (xs1 @ [x])" using placed_one [OF _ sub, of "fst s1" pt] 1 by blast+
    have "preparing pt b d0 (xs1 @ [x]) s2" using prepareOne_preparing [OF _ run p assms(4)] 1 by blast
    then show "preparing pt b d0 (xs1 @ [x]) s2 \<and> placed cs (fst s2) \<and> set (xs1 @ [x]) \<subseteq> set cs"
      using prepareOne_placed [OF run] 1 sub by blast
  qed
  then show ?thesis by blast
qed

lemma prepareView_spec:
  assumes "good_views pt d" "to_prepare b g = Inr cs" "prepareView pt b (g, d) = Inr (g', d')"
    and "\<And>k. CHR ''_'' \<notin> set (pt_type pt k)" "placed cs g"
  shows "good_views pt d' \<and> views_of (\<not> b) d' = views_of (\<not> b) d \<and>
    (\<lambda>a. vw_id (dr_heap d' ! a)) ` set (vs_list (views_of b d')) = {view_id pt c | c pos. (Some c, pos) \<in> set cs \<and> has_view_class pt b c} \<and>
    (\<forall>c pos. (Some c, pos) \<in> set cs \<and> has_view_class pt b c \<longrightarrow>
      (\<exists>a. map_of (vs_map (views_of b d')) (view_id pt c) = Some a \<and>
        view_class pt b (pt_type pt (cm_class c)) = Some (Class (vw_class (dr_heap d' ! a))) \<and>
        (distinct (map (\<lambda>(c, pos). view_id pt (the c)) cs) \<longrightarrow> vw_model (dr_heap d' ! a) = pos) \<and>
        (\<forall>a0. map_of (vs_map (views_of b d)) (view_id pt c) = Some a0 \<longrightarrow> a = a0) \<and>
        map_option (\<lambda>c. vm_viewId (cm_model c)) (getComponent (fst pos) (snd pos) g') = Some (Some (view_id pt c))))"
proof -
  let ?d0 = "foldl (\<lambda>d a. upd_view a (\<lambda>v. v\<lparr>vw_alive := False\<rparr>) d) d (vs_list (views_of b d))"
  obtain g1 d1 where r: "each_of (prepareOne pt b) cs (g, ?d0) = Inr (g1, d1)" "each_of (dispose_view pt b g1) (vs_list (views_of b d1)) d1 = Inr d'" "g' = g1"
    using assms(2,3) by (auto simp: prepareView_def Let_def followed_by_Inr)
  have good0: "good_views pt ?d0" by (rule good_views_cong [OF assms(1)]) (simp_all add: unmark_all)
  have less: "a < length (dr_heap d)" if "a \<in> set (vs_list (views_of b d))" for a
    using assms(1) that unfolding good_views_def good_side_def Let_def by blast
  have "preparing pt b ?d0 cs (g1, d1)"
    by (rule prepare_all [OF r(1) good0 _ assms(4,5)]) (use less in \<open>simp add: unmark_all\<close>)
  then have p: "good_views pt d1" "views_of (\<not> b) d1 = views_of (\<not> b) d"
      "\<And>k a. map_of (vs_map (views_of b d)) k = Some a \<Longrightarrow> map_of (vs_map (views_of b d1)) k = Some a"
      "fst ` set (vs_map (views_of b d1)) = fst ` set (vs_map (views_of b d)) \<union> prepared pt b cs"
      "\<And>a. a \<in> set (vs_list (views_of b d1)) \<Longrightarrow> vw_alive (dr_heap d1 ! a) \<longleftrightarrow> vw_id (dr_heap d1 ! a) \<in> prepared pt b cs"
      "\<And>c pos. (Some c, pos) \<in> set cs \<Longrightarrow> has_view_class pt b c \<Longrightarrow>
        \<exists>c'. getComponent (fst pos) (snd pos) g1 = Some c' \<and> vm_viewId (cm_model c') = Some (view_id pt c)"
      "\<And>c pos. (Some c, pos) \<in> set cs \<Longrightarrow> has_view_class pt b c \<Longrightarrow> \<forall>c' pos'. (Some c', pos') \<in> set cs \<and> view_id pt c' = view_id pt c \<longrightarrow> pos' = pos \<Longrightarrow>
        vw_model (dr_heap d1 ! the (map_of (vs_map (views_of b d1)) (view_id pt c))) = pos"
    unfolding preparing_def Let_def split unmark_all by blast+
  have side1: "good_side pt b d1" using p(1) unfolding good_views_def by blast
  then have dist: "distinct (vs_list (views_of b d1))" and less1: "\<And>a. a \<in> set (vs_list (views_of b d1)) \<Longrightarrow> a < length (dr_heap d1)"
    unfolding good_side_def Let_def by blast+
  note q = dispose_views [OF r(2) p(1) subset_refl dist]
  have side': "good_side pt b d'" using q unfolding good_views_def by blast
  have same: "vw_id (dr_heap d' ! a) = vw_id (dr_heap d1 ! a) \<and> vw_class (dr_heap d' ! a) = vw_class (dr_heap d1 ! a) \<and>
      vw_model (dr_heap d' ! a) = vw_model (dr_heap d1 ! a)" if "a \<in> set (vs_list (views_of b d1))" for a
    using q less1 [OF that] by fastforce
  have left: "a \<in> set (vs_list (views_of b d')) \<longleftrightarrow> a \<in> set (vs_list (views_of b d1)) \<and> vw_id (dr_heap d1 ! a) \<in> prepared pt b cs" for a
    using q p(5) by auto
  have key: "\<exists>a. map_of (vs_map (views_of b d1)) k = Some a" if "k \<in> prepared pt b cs" for k
    using that p(4) by (cases "map_of (vs_map (views_of b d1)) k") (auto simp: map_of_eq_None_iff)
  have found: "map_of (vs_map (views_of b d')) k = Some a" if "map_of (vs_map (views_of b d1)) k = Some a" "k \<in> prepared pt b cs" for k a
  proof -
    have "a \<in> set (vs_list (views_of b d1))" "vw_id (dr_heap d1 ! a) = k" using map_of_side [OF side1, of k a] that(1) by simp_all
    then show ?thesis using map_of_side [OF side', of k a] left [of a] same [of a] that(2) by simp
  qed
  have ids: "(\<lambda>a. vw_id (dr_heap d' ! a)) ` set (vs_list (views_of b d')) = prepared pt b cs"
  proof (intro equalityI subsetI)
    fix k
    assume "k \<in> (\<lambda>a. vw_id (dr_heap d' ! a)) ` set (vs_list (views_of b d'))"
    then show "k \<in> prepared pt b cs" using left same by auto
  next
    fix k
    assume k: "k \<in> prepared pt b cs"
    then obtain a where "map_of (vs_map (views_of b d')) k = Some a" using key found by blast
    then show "k \<in> (\<lambda>a. vw_id (dr_heap d' ! a)) ` set (vs_list (views_of b d'))" using map_of_side [OF side', of k a] by auto
  qed
  have each: "\<exists>a. map_of (vs_map (views_of b d')) (view_id pt c) = Some a \<and>
        view_class pt b (pt_type pt (cm_class c)) = Some (Class (vw_class (dr_heap d' ! a))) \<and>
        (distinct (map (\<lambda>(c, pos). view_id pt (the c)) cs) \<longrightarrow> vw_model (dr_heap d' ! a) = pos) \<and>
        (\<forall>a0. map_of (vs_map (views_of b d)) (view_id pt c) = Some a0 \<longrightarrow> a = a0) \<and>
        map_option (\<lambda>c. vm_viewId (cm_model c)) (getComponent (fst pos) (snd pos) g') = Some (Some (view_id pt c))"
    if c: "(Some c, pos) \<in> set cs" "has_view_class pt b c" for c pos
  proof -
    have pr: "view_id pt c \<in> prepared pt b cs" using c unfolding prepared_def by blast
    then obtain a where a: "map_of (vs_map (views_of b d1)) (view_id pt c) = Some a" using key by blast
    note a' = found [OF a pr]
    have m: "vw_model (dr_heap d' ! a) = pos" if dist: "distinct (map (\<lambda>(c, pos). view_id pt (the c)) cs)"
    proof -
    have "\<forall>c' pos'. (Some c', pos') \<in> set cs \<and> view_id pt c' = view_id pt c \<longrightarrow> pos' = pos"
    proof (intro allI impI)
      fix c' pos'
      assume "(Some c', pos') \<in> set cs \<and> view_id pt c' = view_id pt c"
      then have "(Some c', pos') = (Some c, pos)" using dist c(1) inj_onD [of "\<lambda>(c, pos). view_id pt (the c)" "set cs" "(Some c', pos')" "(Some c, pos)"]
        unfolding distinct_map by simp
      then show "pos' = pos" by simp
    qed
    then have "vw_model (dr_heap d1 ! a) = pos" using p(7) [OF c] a by simp
    moreover have "a \<in> set (vs_list (views_of b d1))" using map_of_side [OF side1] a by blast
    ultimately show ?thesis using same by simp
    qed
    have k: "view_class pt b (pt_type pt (cm_class c)) = Some (Class (vw_class (dr_heap d' ! a)))"
      using q by (intro view_class_not_None(3) [OF _ a' assms(4)]) blast
    obtain c' where c': "getComponent (fst pos) (snd pos) g1 = Some c'" "vm_viewId (cm_model c') = Some (view_id pt c)" using p(6) [OF c] by blast
    have "\<forall>a0. map_of (vs_map (views_of b d)) (view_id pt c) = Some a0 \<longrightarrow> a = a0" using p(3) a by auto
    then show ?thesis using a' k m c' r(3) by simp
  qed
  show ?thesis using q p(2) ids each unfolding prepared_def by auto
qed

text \<open>
  C35. Preparing the views of components, or of series, keeps the list and the dictionary of views together, leaves the other
  kind alone, and ends with exactly one view, known to the renderer, for each component whose type has a class of views:
  an old one where there was one, each of the class that is registered for the type and standing for the component.
\<close>

theorem prepared_views_fit:
  assumes "good_views pt d" "to_prepare b g = Inr cs" "prepareView pt b (g, d) = Inr (g', d')"
    and "\<And>k. CHR ''_'' \<notin> set (pt_type pt k)" "placed cs g" "distinct (map (\<lambda>(c, pos). view_id pt (the c)) cs)"
  shows "good_views pt d' \<and> views_of (\<not> b) d' = views_of (\<not> b) d \<and>
    (\<lambda>a. vw_id (dr_heap d' ! a)) ` set (vs_list (views_of b d')) = {view_id pt c | c pos. (Some c, pos) \<in> set cs \<and> has_view_class pt b c} \<and>
    (\<forall>c pos. (Some c, pos) \<in> set cs \<and> has_view_class pt b c \<longrightarrow>
      (\<exists>a. map_of (vs_map (views_of b d')) (view_id pt c) = Some a \<and>
        view_class pt b (pt_type pt (cm_class c)) = Some (Class (vw_class (dr_heap d' ! a))) \<and> vw_model (dr_heap d' ! a) = pos \<and>
        (\<forall>a0. map_of (vs_map (views_of b d)) (view_id pt c) = Some a0 \<longrightarrow> a = a0) \<and>
        map_option (\<lambda>c. vm_viewId (cm_model c)) (getComponent (fst pos) (snd pos) g') = Some (Some (view_id pt c))))"
proof -
  note spec = prepareView_spec [OF assms(1-5)]
  have "\<exists>a. map_of (vs_map (views_of b d')) (view_id pt c) = Some a \<and>
        view_class pt b (pt_type pt (cm_class c)) = Some (Class (vw_class (dr_heap d' ! a))) \<and> vw_model (dr_heap d' ! a) = pos \<and>
        (\<forall>a0. map_of (vs_map (views_of b d)) (view_id pt c) = Some a0 \<longrightarrow> a = a0) \<and>
        map_option (\<lambda>c. vm_viewId (cm_model c)) (getComponent (fst pos) (snd pos) g') = Some (Some (view_id pt c))"
    if "(Some c, pos) \<in> set cs \<and> has_view_class pt b c" for c pos
    using spec that assms(6) by blast
  then show ?thesis using spec by blast
qed

end
