(* ===== verification/Chart_Draw.thy ===== *)
theory Chart_Draw
  imports Chart_Views_Props
begin

text \<open>
  A full update of a chart, from the option to the views: when all series are shown before, the
  update that prepares the views finds the view of every series, whatever processors hide. A way past this is
  shown on a concrete chart, which is resized before a lazily set option is drawn.
\<close>

section \<open>What the page may do to series\<close>

definition same_series :: "('c, 'o viewed) gm \<Rightarrow> ('c, 'o viewed) gm \<Rightarrow> bool" where
  "same_series g g' \<longleftrightarrow> (\<forall>i. map_option (\<lambda>c. (cm_class c, cm_id c, vm_viewId (cm_model c))) (getComponent ''series'' i g') =
     map_option (\<lambda>c. (cm_class c, cm_id c, vm_viewId (cm_model c))) (getComponent ''series'' i g))"

lemma same_series_refl [simp]: "same_series g g"
  by (simp add: same_series_def)

lemma same_series_trans: "same_series a b \<Longrightarrow> same_series b c \<Longrightarrow> same_series a c"
  by (simp add: same_series_def)

text \<open>Functions of the page leave series, their identifiers and the identifiers of their views alone.\<close>

definition tame :: "('c, 'o viewed) env \<Rightarrow> ('c, 'o, 'k, 'v) painting \<Rightarrow> bool" where
  "tame env pt \<longleftrightarrow>
     (\<forall>c m. e_restore env c = Some m \<longrightarrow> vm_viewId m = vm_viewId (cm_model c)) \<and>
     (\<forall>g g'. pt_createCoords pt g = Some g' \<longrightarrow> same_series g g') \<and> (\<forall>g g'. pt_updateCoords pt g = Some g' \<longrightarrow> same_series g g') \<and>
     (\<forall>f \<in> set (pt_processors pt). \<forall>g g'. pf_func f g = Some g' \<longrightarrow> same_series g g') \<and>
     (\<forall>f \<in> set (pt_visuals pt). \<forall>p g g'. pf_func f p g = Some g' \<longrightarrow> same_series g g') \<and>
     (\<forall>g. same_series g (pt_clearChartPalette pt g)) \<and> (\<forall>k. CHR ''_'' \<notin> set (pt_type pt k))"

lemma each_of_keeps:
  assumes "each_of f xs s = Inr s'" "P s" "\<And>x s1 s2. x \<in> set xs \<Longrightarrow> P s1 \<Longrightarrow> f x s1 = Inr s2 \<Longrightarrow> P s2"
  shows "P s'"
  by (rule each_of_run [where P = "\<lambda>_. P", OF assms(1,2)]) (use assms(3) in blast)

lemma same_series_upd:
  assumes "\<And>m. vm_viewId (f m) = vm_viewId m"
  shows "same_series g (upd_component ty i f g)"
  unfolding same_series_def getComponent_upd using assms by (auto simp: option.map_comp intro!: option.map_cong)

lemma upd_own_viewId [simp]: "vm_viewId (upd_own f m) = vm_viewId m"
  by (simp add: upd_own_def)

lemma restoreComponents_series:
  assumes "tame env pt"
  shows "restoreComponents env ty i n g = Fine g' \<Longrightarrow> i + n \<le> length (components_of g ty) \<Longrightarrow> same_series g g'"
proof (induction n arbitrary: i g)
  case (Suc n)
  let ?cs = "components_of g ty"
  obtain m where m: "e_restore env (?cs ! i) = Some m" "restoreComponents env ty (i + 1) n (set_components ty (?cs[i := (?cs ! i)\<lparr>cm_model := m\<rparr>]) g) = Fine g'"
    using Suc.prems(1) by (cases "e_restore env (?cs ! i)") (auto simp: Let_def)
  let ?h = "set_components ty (?cs[i := (?cs ! i)\<lparr>cm_model := m\<rparr>]) g"
  have h: "?h = upd_component ty i (\<lambda>_. m) g" using Suc.prems(2) by (simp add: upd_component_def Let_def)
  have "same_series g ?h" unfolding same_series_def h getComponent_upd
  proof (intro allI)
    fix j
    have "vm_viewId m = vm_viewId (cm_model (?cs ! i))" using assms m(1) unfolding tame_def by blast
    then show "map_option (\<lambda>c. (cm_class c, cm_id c, vm_viewId (cm_model c)))
        (map_option (\<lambda>c. if ''series'' = ty \<and> j = i then c\<lparr>cm_model := m\<rparr> else c) (getComponent ''series'' j g)) =
      map_option (\<lambda>c. (cm_class c, cm_id c, vm_viewId (cm_model c))) (getComponent ''series'' j g)"
      by (auto simp: getComponent_def Let_def)
  qed
  moreover have "length (components_of ?h ty) = length ?cs" by (simp add: components_of_def set_components_def update_conv')
  ultimately show ?case using Suc.IH [OF m(2)] Suc.prems(2) same_series_trans by simp
qed simp

lemma restoreTypes_series: "tame env pt \<Longrightarrow> restoreTypes env cs g = Fine g' \<Longrightarrow> same_series g g'"
proof (induction cs arbitrary: g)
  case (Cons x cs)
  obtain ty deps where x: "x = (ty, deps)" by (cases x)
  obtain h where h: "restoreComponents env ty 0 (length (components_of g ty)) g = Fine h" "restoreTypes env cs h = Fine g'"
    using Cons.prems(2) x by (auto simp: and_then_Fine)
  have "same_series g h" using restoreComponents_series [OF Cons.prems(1) h(1)] by simp
  then show ?case using Cons.IH [OF Cons.prems(1) h(2)] same_series_trans by blast
qed simp

lemma restoreData_series:
  assumes "tame env pt" "restoreData env g = Fine g'"
  shows "same_series g g'"
proof -
  let ?g = "g\<lparr>gm_seriesIndices := Some (createSeriesIndices (components_of g ''series''))\<rparr>"
  have "same_series g ?g" by (simp add: same_series_def getComponent_def components_of_def)
  moreover obtain calls where "restoreTypes env calls ?g = Fine g'"
    using assms(2) by (auto simp: restoreData_def Let_def and_then_Fine split: option.splits if_splits)
  ultimately show ?thesis using restoreTypes_series [OF assms(1)] same_series_trans by blast
qed

section \<open>No step misses a view\<close>

lemma followed_by_Inl: "followed_by r f = Inl e \<longleftrightarrow> r = Inl e \<or> (\<exists>x. r = Inr x \<and> f x = Inl e)"
  by (cases r) auto

text \<open>A call that keeps \<open>P\<close> and does not miss a view.\<close>

definition sure :: "('s \<Rightarrow> bool) \<Rightarrow> draw_error + 's \<Rightarrow> bool" where
  "sure P r \<longleftrightarrow> (case r of Inl e \<Rightarrow> e \<noteq> No_View | Inr s \<Rightarrow> P s)"

lemma sure_simps [simp]: "sure P (Inl e) \<longleftrightarrow> e \<noteq> No_View" "sure P (Inr s) \<longleftrightarrow> P s"
  by (simp_all add: sure_def)

lemma sure_follow: "sure P r \<Longrightarrow> (\<And>x. P x \<Longrightarrow> sure Q (f x)) \<Longrightarrow> sure Q (followed_by r f)"
  by (cases r) simp_all

lemma sure_each: "P s \<Longrightarrow> (\<And>x s. x \<in> set xs \<Longrightarrow> P s \<Longrightarrow> sure P (f x s)) \<Longrightarrow> sure P (each_of f xs s)"
proof (induction xs arbitrary: s)
  case (Cons x xs)
  have "sure P (f x s)" using Cons.prems by simp
  then show ?case unfolding each_of.simps
  proof (rule sure_follow)
    fix s'
    assume "P s'"
    then show "sure P (each_of f xs s')" using Cons.IH [of s'] Cons.prems(2) by simp
  qed
qed simp

lemma sure_or_error: "e \<noteq> No_View \<Longrightarrow> (\<And>x. r = Some x \<Longrightarrow> P x) \<Longrightarrow> sure P (or_error e r)"
  by (cases r) (simp_all add: or_error_def)

lemma sure_mono: "sure P r \<Longrightarrow> (\<And>x. P x \<Longrightarrow> Q x) \<Longrightarrow> sure Q r"
  by (cases r) simp_all

lemma on_shown_series: "sure (same_series g) (on_shown f g)"
proof (cases "eachSeries g")
  case (Inr cs)
  let ?f = "\<lambda>(c, i) g. case c of None \<Rightarrow> Inl (Model_Error Not_Initialized) | Some _ \<Rightarrow> Inr (upd_component ''series'' i (upd_own f) g)"
  have "sure (same_series g) (each_of ?f cs g)"
  proof (rule sure_each)
    fix x h
    assume "same_series g h"
    moreover have "same_series h (upd_component ''series'' i (upd_own f) h)" for i by (rule same_series_upd) simp
    ultimately have "same_series g (upd_component ''series'' i (upd_own f) h)" for i using same_series_trans by blast
    then show "sure (same_series g) (?f x h)" by (cases x; cases "fst x") simp_all
  qed simp
  then show ?thesis using Inr by (simp add: on_shown_def)
qed (simp add: on_shown_def)

lemma stack_series: "sure (same_series g) (stackSeriesData env pt g)"
proof -
  have "same_series g (foldl (\<lambda>g (i, p). upd_component ''series'' i (upd_own (pt_setStackedOn pt p)) g) g ps)" for ps
  proof (induction ps arbitrary: g)
    case (Cons x ps)
    obtain i p where x: "x = (i, p)" by (cases x)
    have "same_series g (upd_component ''series'' i (upd_own (pt_setStackedOn pt p)) g)" by (rule same_series_upd) simp
    then show ?case using Cons.IH same_series_trans unfolding foldl_Cons x prod.case by blast
  qed simp
  then show ?thesis by (simp add: stackSeriesData_def split: sum.splits option.splits)
qed

lemma process_series: "tame env pt \<Longrightarrow> sure (same_series g) (processData pt g)"
  unfolding processData_def tame_def by (rule sure_each) (auto intro!: sure_or_error intro: same_series_trans)

lemma visuals_series:
  assumes "tame env pt"
  shows "sure (same_series g) (doVisualEncoding pt p g)"
  unfolding doVisualEncoding_def
proof (rule sure_follow)
  show "sure (same_series g) (on_shown (pt_clearColorPalette pt) (pt_clearChartPalette pt g))"
  proof (rule sure_mono [OF on_shown_series])
    fix x
    assume "same_series (pt_clearChartPalette pt g) x"
    moreover have "same_series g (pt_clearChartPalette pt g)" using assms unfolding tame_def by blast
    ultimately show "same_series g x" using same_series_trans by blast
  qed
  fix h
  assume "same_series g h"
  then show "sure (same_series g) (each_of (\<lambda>visual g. or_error Processor_Error (pf_func visual p g)) (pt_visuals pt) h)"
    using assms unfolding tame_def by (intro sure_each) (auto intro!: sure_or_error intro: same_series_trans)
qed

text \<open>Every series finds its view.\<close>

definition sees :: "('c, 'o viewed) gm \<Rightarrow> ('k, 'v) drawn \<Rightarrow> bool" where
  "sees g d \<longleftrightarrow> (\<forall>i c. getComponent ''series'' i g = Some c \<longrightarrow> chart_of c d \<noteq> None)"

lemma sees_same: "same_series g g' \<Longrightarrow> sees g d \<Longrightarrow> sees g' d"
  unfolding sees_def same_series_def chart_of_def
proof (intro allI impI)
  fix i c'
  assume same: "\<forall>i. map_option (\<lambda>c. (cm_class c, cm_id c, vm_viewId (cm_model c))) (getComponent ''series'' i g') =
      map_option (\<lambda>c. (cm_class c, cm_id c, vm_viewId (cm_model c))) (getComponent ''series'' i g)"
    and old: "\<forall>i c. getComponent ''series'' i g = Some c \<longrightarrow>
      (case vm_viewId (cm_model c) of None \<Rightarrow> None | Some viewId \<Rightarrow> map_of (vs_map (dr_charts d)) viewId) \<noteq> None"
    and c': "getComponent ''series'' i g' = Some c'"
  obtain c where "getComponent ''series'' i g = Some c" "vm_viewId (cm_model c) = vm_viewId (cm_model c')"
    using same [rule_format, of i] c' by (cases "getComponent ''series'' i g") simp_all
  then show "(case vm_viewId (cm_model c') of None \<Rightarrow> None | Some viewId \<Rightarrow> map_of (vs_map (dr_charts d)) viewId) \<noteq> None"
    using old by metis
qed

lemma sees_views: "views_of False d' = views_of False d \<Longrightarrow> sees g d' = sees g d"
  unfolding sees_def chart_of_def both_views by presburger

lemma call_view_sure:
  fixes s :: "('k, 'v) drawn \<times> payload list"
  shows "sure (\<lambda>s'. \<forall>b. views_of b (fst s') = views_of b (fst s)) (call_view pt m p g a c s)"
  by (cases s) (auto simp: call_view_def split: option.splits)

lemma call_components_sure:
  fixes s :: "('k, 'v) drawn \<times> payload list"
  shows "sure (\<lambda>s'. \<forall>b. views_of b (fst s') = views_of b (fst s)) (call_components pt m p chosen g s)"
  unfolding call_components_def
proof (rule sure_each)
  fix a and s1 :: "('k, 'v) drawn \<times> payload list"
  assume s1: "\<forall>b. views_of b (fst s1) = views_of b (fst s)"
  show "sure (\<lambda>s'. \<forall>b. views_of b (fst s') = views_of b (fst s)) (if chosen a (fst s1) then call_view pt m p g a (model_of_view g a (fst s1)) s1 else Inr s1)"
  proof (cases "chosen a (fst s1)")
    case True
    have "sure (\<lambda>s'. \<forall>b. views_of b (fst s') = views_of b (fst s)) (call_view pt m p g a (model_of_view g a (fst s1)) s1)"
      by (rule sure_mono [OF call_view_sure]) (use s1 in simp)
    then show ?thesis using True by simp
  qed (use s1 in simp)
qed simp

lemma call_series_sure:
  fixes s :: "('k, 'v) drawn \<times> payload list"
  assumes "sees g (fst s)"
  shows "sure (\<lambda>s'. \<forall>b. views_of b (fst s') = views_of b (fst s)) (call_series pt m p touch g s)"
proof (cases "gm_seriesIndices g")
  case (Some indices)
  then have cs: "eachSeries g = Inr (map (\<lambda>i. (getComponent ''series'' i g, i)) indices)" by (simp add: eachSeries_def shown_def)
  show ?thesis
    unfolding call_series_def cs sum.case
  proof (rule sure_each)
    fix x and s1 :: "('k, 'v) drawn \<times> payload list"
    assume x: "x \<in> set (map (\<lambda>i. (getComponent ''series'' i g, i)) indices)" and s1: "\<forall>b. views_of b (fst s1) = views_of b (fst s)"
    obtain i where i: "x = (getComponent ''series'' i g, i)" using x by auto
    obtain d pend where d: "s1 = (d, pend)" by (cases s1)
    have vs: "views_of False d = views_of False (fst s)" using s1 d by simp
    have "sees g d" using assms unfolding sees_views [OF vs] .
    show "sure (\<lambda>s'. \<forall>b. views_of b (fst s') = views_of b (fst s)) ((\<lambda>(c, i) (d, pend). case c of
          None \<Rightarrow> Inl (Model_Error Not_Initialized)
        | Some c \<Rightarrow> (case chart_of c d of
              None \<Rightarrow> Inl No_View
            | Some a \<Rightarrow> followed_by (call_view pt m p g a (Some c) (d, pend)) (\<lambda>(d, pend). Inr (upd_view a (touch a c) d, pend)))) x s1)"
    proof (cases "getComponent ''series'' i g")
      case (Some c)
      then obtain a where a: "chart_of c d = Some a" using \<open>sees g d\<close> unfolding sees_def by blast
      have "sure (\<lambda>s'. \<forall>b. views_of b (fst s') = views_of b (fst s)) (call_view pt m p g a (Some c) (d, pend))"
        by (rule sure_mono [OF call_view_sure]) (use s1 d in simp)
      then have "sure (\<lambda>s'. \<forall>b. views_of b (fst s') = views_of b (fst s))
          (followed_by (call_view pt m p g a (Some c) (d, pend)) (\<lambda>(d, pend). Inr (upd_view a (touch a c) d, pend)))"
        by (rule sure_follow) (auto split: prod.splits)
      then show ?thesis using i d Some a by simp
    qed (use i d in simp)
  qed simp
qed (simp add: call_series_def eachSeries_def shown_def)

lemma remove_dead_sure:
  fixes pt :: "('c, 'o, 'k, 'v) painting" and d :: "('k, 'v) drawn"
  shows "sure (\<lambda>d'. True) (remove_dead pt g d)"
  unfolding remove_dead_def
proof (rule sure_each)
  fix a and d1 :: "('k, 'v) drawn"
  show "sure (\<lambda>d'. True) (let v = dr_heap d1 ! a in if vw_alive v then Inr d1
     else followed_by (or_error View_Error (pt_remove pt (vw_class v) g (vw_own v))) (\<lambda>x. Inr (upd_view a (\<lambda>v. v\<lparr>vw_own := x\<rparr>) d1)))"
    by (auto simp: Let_def or_error_def split: option.splits)
qed simp

lemma doRender_sure:
  fixes pt :: "('c, 'o, 'k, 'v) painting" and s :: "('k, 'v) drawn \<times> payload list"
  assumes "sees g (fst s)"
  shows "sure (\<lambda>_. True) (doRender pt p g s)"
  unfolding doRender_def
proof (rule sure_follow [OF call_components_sure])
  fix x :: "('k, 'v) drawn \<times> payload list"
  assume x: "\<forall>b. views_of b (fst x) = views_of b (fst s)"
  obtain d pend where d: "x = (d, pend)" by (cases x)
  let ?d = "foldl (\<lambda>d a. upd_view a (\<lambda>v. v\<lparr>vw_alive := False\<rparr>) d) d (vs_list (dr_charts d))"
  have "views_of False ?d = views_of False (fst s)" using x d by (simp add: unmark_all)
  then have "sees g (fst (?d, pend))" using assms sees_views [of ?d "fst s" g] by simp
  note series = call_series_sure [OF this, of pt "''render''" p "\<lambda>a c v. v\<lparr>vw_alive := True, vw_silent := pt_silent pt c\<rparr>"]
  have rest: "sure (\<lambda>_. True) (case y of (d, pend) \<Rightarrow> followed_by (remove_dead pt g d) (\<lambda>d. Inr (d, pend)))" for y
  proof (cases y)
    case (Pair d pend)
    have "sure (\<lambda>_. True) (followed_by (remove_dead pt g d) (\<lambda>d. Inr (d, pend)))" by (rule sure_follow [OF remove_dead_sure]) simp
    then show ?thesis using Pair by simp
  qed
  show "sure (\<lambda>_. True) (case x of (d, pend) \<Rightarrow>
     let d = foldl (\<lambda>d a. upd_view a (\<lambda>v. v\<lparr>vw_alive := False\<rparr>) d) d (vs_list (dr_charts d)) in
     followed_by (call_series pt ''render'' p (\<lambda>a c v. v\<lparr>vw_alive := True, vw_silent := pt_silent pt c\<rparr>) g (d, pend)) (\<lambda>(d, pend).
     followed_by (remove_dead pt g d) (\<lambda>d. Inr (d, pend))))"
    unfolding d prod.case Let_def by (rule sure_follow [OF series rest])
qed

lemma drawBackground_sure: "sure (\<lambda>_. True) (drawBackground env pt g b)"
  unfolding drawBackground_def Let_def
proof (cases "pt_singleCanvas pt", goal_cases)
  case 2
  have "sure (\<lambda>_. True) (if pt_canvasSupported pt then Inr v else case pt_rgb pt v of
      None \<Rightarrow> Inl View_Error | Some (rgb, clear) \<Rightarrow> Inr (if clear then Text ''transparent'' else rgb))" for v
    by (cases "pt_canvasSupported pt"; cases "pt_rgb pt v") auto
  then show ?case using 2 by (simp only: if_False) (rule sure_follow, assumption, simp)
qed simp

lemma update_all_sure:
  assumes "tame env pt" "sees (fst s) (snd s)"
  shows "sure (\<lambda>_. True) (update_all env pt p s)"
proof -
  obtain g d where s: "s = (g, d)" by (cases s)
  have restored: "sure (same_series g) (of_outcome (restoreData env g))"
    using restoreData_series [OF assms(1)] by (cases "restoreData env g") (auto simp: of_outcome_def)
  have next_step: "sure (same_series g) r" if "same_series g h" "sure (same_series h) r" for h r
    using that(2) by (rule sure_mono) (use that(1) same_series_trans in blast)
  have coords: "sure (same_series h) (or_error Processor_Error (pt_createCoords pt h))" "sure (same_series h) (or_error Processor_Error (pt_updateCoords pt h))" for h
    using assms(1) unfolding tame_def by (auto intro!: sure_or_error)
  have sees: "sees h d" if "same_series g h" for h using sees_same [OF that] assms(2) s by simp
  have last: "sure (\<lambda>_. True) (case y of (d, pend) \<Rightarrow> followed_by (drawBackground env pt g' (dr_background d)) (\<lambda>b. Inr ((g', d\<lparr>dr_background := b\<rparr>), pend)))" for g' y
  proof (cases y)
    case (Pair d pend)
    have "sure (\<lambda>_. True) (followed_by (drawBackground env pt g' (dr_background d)) (\<lambda>b. Inr ((g', d\<lparr>dr_background := b\<rparr>), pend)))"
      by (rule sure_follow [OF drawBackground_sure]) simp
    then show ?thesis using Pair by simp
  qed
  show ?thesis unfolding s update_all_def prod.case
    apply (rule sure_follow [OF restored])
    apply (rule sure_follow [OF next_step [OF _ coords(1)]], assumption)
    apply (rule sure_follow [OF next_step [OF _ process_series [OF assms(1)]]], assumption)
    apply (rule sure_follow [OF next_step [OF _ stack_series]], assumption)
    apply (rule sure_follow [OF next_step [OF _ coords(2)]], assumption)
    apply (rule sure_follow [OF next_step [OF _ visuals_series [OF assms(1)]]], assumption)
    apply (rule sure_follow [OF doRender_sure])
     apply (simp add: sees)
    by (rule last)
qed

section \<open>Prepared and updated\<close>

definition same_classes :: "('c, 'm) gm \<Rightarrow> ('c, 'm) gm \<Rightarrow> bool" where
  "same_classes g g' \<longleftrightarrow> gm_seriesIndices g' = gm_seriesIndices g \<and>
     (\<forall>ty i. map_option (\<lambda>c. (cm_class c, cm_id c)) (getComponent ty i g') = map_option (\<lambda>c. (cm_class c, cm_id c)) (getComponent ty i g))"

lemma same_classes_upd: "same_classes g (upd_component ty i f g)"
  unfolding same_classes_def getComponent_upd
  by (auto simp: option.map_comp upd_component_def set_components_def Let_def intro!: option.map_cong)

lemma prepareView_classes:
  assumes "prepareView pt b (g, d) = Inr (g', d')"
  shows "same_classes g g'"
proof -
  obtain cs d0 d1 where r: "each_of (prepareOne pt b) cs (g, d0) = Inr (g', d1)"
    using assms by (auto simp: prepareView_def Let_def followed_by_Inr)
  have "same_classes g (fst (g', d1))"
  proof (rule each_of_keeps [where P = "\<lambda>s. same_classes g (fst s)", OF r])
    fix x s1 s2
    assume s1: "same_classes g (fst s1)" and run: "prepareOne pt b x s1 = Inr s2"
    have "same_classes g (upd_component ty i f (fst s1))" for ty i f
      using s1 same_classes_upd [of "fst s1" ty i f] unfolding same_classes_def by simp
    then show "same_classes g (fst s2)" using s1 by (cases rule: prepareOne_cases [OF run]) (simp_all add: mark_view_def)
  qed (simp add: same_classes_def)
  then show ?thesis by simp
qed

lemma to_prepare_placed:
  assumes "to_prepare b g = Inr cs" "distinct (map fst (gm_components g))"
  shows "placed cs g"
proof -
  have "getComponent (fst pos) (snd pos) g = Some c" if c: "(Some c, pos) \<in> set cs" for c pos
  proof (cases b)
    case True
    obtain xs ty i where x: "(ty, xs) \<in> set (gm_components g)" "(c, i) \<in> set (zip xs [0..<length xs])" "pos = (ty, i)"
      using c assms(1) True by (auto simp: to_prepare_def eachComponentOfAll_def)
    have "components_of g ty = xs" using x(1) assms(2) by (simp add: components_of_def)
    moreover have "i < length xs" "xs ! i = c" using x(2) by (auto simp: set_zip)
    ultimately show ?thesis using x(3) by (simp add: getComponent_def)
  next
    case False
    then show ?thesis using c assms(1) by (auto simp: to_prepare_def eachSeries_def shown_def split: option.splits)
  qed
  then show ?thesis unfolding placed_def by blast
qed

lemma prepareView_sure: "sure (\<lambda>s'. prepareView pt b s = Inr s') (prepareView pt b s)"
proof (cases "prepareView pt b s")
  case (Inl e)
  have one: "sure (\<lambda>_. True) (prepareOne pt b x s)" for x s
    by (cases x; cases s) (auto simp: prepareOne_def Let_def split: option.splits found.splits)
  have gone: "sure (\<lambda>_. True) (dispose_view pt b g a d)" for g a d
    by (auto simp: dispose_view_def Let_def or_error_def split: option.splits)
  have start: "sure (\<lambda>_. True) (to_prepare b g)" for g by (auto simp: to_prepare_def split: sum.splits)
  obtain g d where s: "s = (g, d)" by (cases s)
  have "sure (\<lambda>_. True) (prepareView pt b (g, d))"
    unfolding prepareView_def Let_def split
  proof (rule sure_follow [OF start], rule sure_follow)
    show "sure (\<lambda>_. True) (each_of (prepareOne pt b) cs y)" for cs y by (rule sure_each [where P = "\<lambda>_. True"]) (simp_all add: one)
    show "sure (\<lambda>_. True) ((case y of (g, d) \<Rightarrow> followed_by (each_of (dispose_view pt b g) (vs_list (views_of b d)) d) (\<lambda>d. Inr (g, d))))" for y
    proof (cases y)
      case (Pair g d)
      have "sure (\<lambda>_. True) (followed_by (each_of (dispose_view pt b g) (vs_list (views_of b d)) d) (\<lambda>d. Inr (g, d)))"
        by (rule sure_follow [OF sure_each [where P = "\<lambda>_. True"]]) (simp_all add: gone)
      then show ?thesis using Pair by simp
    qed
  qed
  then show ?thesis using Inl s by simp
qed simp

lemma prepared_sees:
  assumes "tame env pt" "good_views pt d" "distinct (map fst (gm_components g))"
    and "gm_seriesIndices g = Some indices" "{..<length (components_of g ''series'')} \<subseteq> set indices"
    and "\<forall>c \<in> set (components_of g ''series''). has_view_class pt False c"
    and "prepareView pt True (g, d) = Inr (g1, d1)" "prepareView pt False (g1, d1) = Inr (g2, d2)"
  shows "sees g2 d2"
proof -
  have plain: "CHR ''_'' \<notin> set (pt_type pt k)" for k using assms(1) unfolding tame_def by blast
  have "\<exists>cs. to_prepare True g = Inr cs" by (simp add: to_prepare_def)
  then obtain cs where cs: "to_prepare True g = Inr cs" by blast
  have good1: "good_views pt d1"
    using prepareView_spec [OF assms(2) cs assms(7) plain to_prepare_placed [OF cs assms(3)]] by blast
  have same: "same_classes g g1" "same_classes g1 g2" using prepareView_classes assms(7,8) by blast+
  let ?cs = "map (\<lambda>i. (getComponent ''series'' i g1, (''series'', i))) indices"
  have cs1: "to_prepare False g1 = Inr ?cs"
    using same(1) assms(4) unfolding same_classes_def by (simp add: to_prepare_def eachSeries_def shown_def)
  have pl: "placed ?cs g1" unfolding placed_def
  proof (intro allI impI)
    fix c pos
    assume "(Some c, pos) \<in> set ?cs"
    then have "getComponent (fst pos) (snd pos) g1 = Some c" by auto
    then show "\<exists>c'. getComponent (fst pos) (snd pos) g1 = Some c' \<and> cm_class c' = cm_class c \<and> cm_id c' = cm_id c" by blast
  qed
  note prep = prepareView_spec [OF good1 cs1 assms(8) plain pl]
  show "sees g2 d2" unfolding sees_def
  proof (intro allI impI)
    fix i c2
    assume c2: "getComponent ''series'' i g2 = Some c2"
    have "map_option (\<lambda>c. (cm_class c, cm_id c)) (getComponent ''series'' i g1) = Some (cm_class c2, cm_id c2)"
      using same(2) [unfolded same_classes_def, THEN conjunct2, rule_format, of "''series''" i] c2 by simp
    then obtain c1 where c1: "getComponent ''series'' i g1 = Some c1" by (cases "getComponent ''series'' i g1") simp_all
    have "map_option (\<lambda>c. (cm_class c, cm_id c)) (getComponent ''series'' i g) = Some (cm_class c1, cm_id c1)"
      using same(1) [unfolded same_classes_def, THEN conjunct2, rule_format, of "''series''" i] c1 by simp
    then obtain c where c: "getComponent ''series'' i g = Some c" "cm_class c = cm_class c1" by (cases "getComponent ''series'' i g") simp_all
    then have i: "i < length (components_of g ''series'')" "c \<in> set (components_of g ''series'')"
      by (auto simp: getComponent_def Let_def split: if_splits)
    then have h: "has_view_class pt False c1" using bspec [OF assms(6) i(2)] c(2) unfolding has_view_class_def by metis
    have "i \<in> set indices" using i(1) assms(5) by blast
    then have m: "(Some c1, (''series'', i)) \<in> set ?cs" using c1 by force
    obtain a where a: "map_of (vs_map (views_of False d2)) (view_id pt c1) = Some a"
        "map_option (\<lambda>c. vm_viewId (cm_model c)) (getComponent ''series'' i g2) = Some (Some (view_id pt c1))"
      using prep [THEN conjunct2, THEN conjunct2, THEN conjunct2, THEN spec, THEN spec, THEN mp, OF conjI [OF m h]] by (elim exE conjE) (simp only: fst_conv snd_conv)
    then show "chart_of c2 d2 \<noteq> None" using c2 by (simp add: chart_of_def both_views)
  qed
qed

text \<open>
  C36. When all series are shown and their types have views, an update that prepares the views finds the view of every
  series that is drawn, whatever the processors of the page hide, and whatever else fails.
\<close>

theorem every_series_finds_its_view:
  assumes "tame env pt" "h_chart h = Some ch" "good_views pt (h_drawn h)" "distinct (map fst (gm_components (ch_model ch)))"
    and "gm_seriesIndices (ch_model ch) = Some indices" "{..<length (components_of (ch_model ch) ''series'')} \<subseteq> set indices"
    and "\<forall>c \<in> set (components_of (ch_model ch) ''series''). has_view_class pt False c"
  shows "prepareAndUpdate env pt p h \<noteq> Inl No_View"
proof
  assume missed: "prepareAndUpdate env pt p h = Inl No_View"
  let ?g = "ch_model ch" and ?d = "h_drawn h"
  have never: "prepareView pt b s \<noteq> Inl No_View" for b s using prepareView_sure [of pt b s] by auto
  have on: "on_chart h' f = Inl No_View \<longleftrightarrow> f (ch_model ch', h_drawn h') = Inl No_View" if "h_chart h' = Some ch'"
    for h' ch' and f :: "_ \<Rightarrow> draw_error + (_ \<times> _) \<times> _"
    using that by (auto simp: on_chart_def followed_by_Inl)
  obtain g1 d1 g2 d2 where r: "prepareView pt True (?g, ?d) = Inr (g1, d1)" "prepareView pt False (g1, d1) = Inr (g2, d2)"
    and rest: "(if h_lastOnlyGraphic h
      then on_chart (h\<lparr>h_chart := Some (ch\<lparr>ch_model := g2\<rparr>), h_drawn := d2\<rparr>) (\<lambda>(g, d).
        followed_by (call_components pt ''render'' p (\<lambda>a d. fst (vw_model (dr_heap d ! a)) = ''graphic'') g (d, []))
          (\<lambda>(d, pend). Inr ((g, d), pend)))
      else on_chart (h\<lparr>h_chart := Some (ch\<lparr>ch_model := g2\<rparr>), h_drawn := d2\<rparr>) (update_all env pt p)) = Inl No_View"
    using missed assms(2) never
    by (auto simp: prepareAndUpdate_def followed_by_Inl followed_by_Inr on_chart_def split: if_splits)
  have sees: "sees g2 d2" by (rule prepared_sees [OF assms(1,3-7) r])
  show False
  proof (cases "h_lastOnlyGraphic h")
    case True
    then show False using rest call_components_sure [of "(d2, [])" pt "''render''" p "\<lambda>a d. fst (vw_model (dr_heap d ! a)) = ''graphic''" g2]
      by (auto simp: on followed_by_Inl split: prod.splits)
  next
    case False
    then show False using rest update_all_sure [OF assms(1), of "(g2, d2)" p] sees by (simp add: on)
  qed
qed

section \<open>A page with lines\<close>

definition line_env :: "(string, jsval viewed) env" where
  "line_env = \<lparr>e_registry = registerClass ''line'' ''series.line'' (registerClass ''grid'' ''grid'' []),
     e_defaulters = Map.empty, e_dependencies = (\<lambda>c. if c = ''line'' then [''grid''] else []), e_instance = (=),
     e_create = (\<lambda>c opt g x. Some \<lparr>vm_viewId = None, vm_own = opt\<rparr>),
     e_merge = (\<lambda>opt g c. Some (cm_model c)), e_restore = (\<lambda>c. Some (cm_model c)),
     e_host_prop = (\<lambda>_ _ _. Undefined), e_host_text = (\<lambda>_ _. '''')\<rparr>"

text \<open>A legend that hides all series but the first while the chart has a setting \<open>hidden\<close>.\<close>

definition hide :: "(string, jsval viewed) gm \<Rightarrow> (string, jsval viewed) gm option" where
  "hide g = (if map_of (gm_settings g) ''hidden'' = Some (Bool True)
     then (case filterSeries (\<lambda>c i. i = 0) g of Fine g \<Rightarrow> Some g | Raise _ _ \<Rightarrow> None) else Some g)"

definition line_painting :: "(string, jsval, string, nat) painting" where
  "line_painting = \<lparr>pt_type = (\<lambda>c. if c = ''line'' then ''series.line'' else ''grid''),
     pt_componentViews = registerClass ''GridView'' ''grid'' [], pt_chartViews = registerClass ''LineView'' ''line'' [],
     pt_init = (\<lambda>k g. Some 0), pt_method = (\<lambda>m k c g p v. Some (Suc v, [])), pt_remove = (\<lambda>k g v. Some 0), pt_dispose = (\<lambda>k g v. Some v),
     pt_processors = [\<lparr>pf_prio = 1000, pf_func = hide, pf_isLayout = False\<rparr>], pt_visuals = [], pt_createCoords = Some, pt_updateCoords = Some,
     pt_stack = (\<lambda>c. Undefined), pt_isList = (\<lambda>c. True), pt_setStackedOn = (\<lambda>_ o'. o'), pt_clearAllVisual = (\<lambda>o'. o'),
     pt_clearColorPalette = (\<lambda>o'. o'), pt_clearChartPalette = (\<lambda>g. g), pt_silent = (\<lambda>c. False), pt_singleCanvas = False, pt_canvasSupported = True,
     pt_rgb = (\<lambda>_. None)\<rparr>"

definition blank_canvas :: "('k, 'v) drawn" where
  "blank_canvas = \<lparr>dr_components = \<lparr>vs_list = [], vs_map = []\<rparr>, dr_charts = \<lparr>vs_list = [], vs_map = []\<rparr>, dr_heap = [], dr_groups = [],
     dr_background = \<lparr>bg_hasGradientOrPattern = False, bg_clearColor = Undefined, bg_style = Undefined\<rparr>\<rparr>"

definition line_setting :: "nat \<Rightarrow> (string, jsval viewed) component setting" where
  "line_setting width = \<lparr>st_width = width, st_height = 400, st_theme = [], st_platform = '''', st_currentIndex = (\<lambda>_. 0)\<rparr>"

definition two_lines :: jsval where
  "two_lines = Obj [(''series'', Arr [Obj [(''type'', Text ''line''), (''name'', Text ''a'')], Obj [(''type'', Text ''line''), (''name'', Text ''b'')]])]"

definition line_model :: "(string, jsval viewed) chart" where
  "line_model = state_of (setOption line_env (line_setting 600) [] two_lines newChart)"

lemma line_model_facts:
  "distinct (map fst (gm_components (ch_model line_model)))" "gm_seriesIndices (ch_model line_model) = Some [0, 1]"
  "map cm_class (components_of (ch_model line_model) ''series'') = [''line'', ''line'']"
  by code_simp+

lemma blank_good: "good_views pt blank_canvas"
  by (simp add: good_views_def good_side_def blank_canvas_def views_of_def Let_def)

lemma line_tame: "tame line_env line_painting"
proof -
  have hide: "same_series g g'" if "hide g = Some g'" for g g'
  proof -
    have "gm_components g' = gm_components g" using that by (auto simp: hide_def filterSeries_def split: if_splits)
    then show ?thesis by (simp add: same_series_def getComponent_def components_of_def)
  qed
  have plain: "CHR ''_'' \<notin> set (pt_type line_painting k)" for k by (simp add: line_painting_def)
  show ?thesis unfolding tame_def
    by (intro conjI) (use hide plain in \<open>simp_all add: line_env_def line_painting_def\<close>)
qed

lemma every_series_finds_its_view_witness:
  "prepareAndUpdate line_env line_painting None \<lparr>h_chart = Some line_model, h_lastOnlyGraphic = False, h_drawn = blank_canvas\<rparr> \<noteq> Inl No_View"
proof (rule every_series_finds_its_view [OF line_tame])
  let ?cs = "components_of (ch_model line_model) ''series''"
  have "length ?cs = length (map cm_class ?cs)" "cm_class ` set ?cs = set (map cm_class ?cs)" by simp_all
  then have n: "length ?cs = 2" "cm_class ` set ?cs = {''line''}" unfolding line_model_facts by simp_all
  show "h_chart \<lparr>h_chart = Some line_model, h_lastOnlyGraphic = False, h_drawn = blank_canvas\<rparr> = Some line_model" by simp
  show "good_views line_painting (h_drawn \<lparr>h_chart = Some line_model, h_lastOnlyGraphic = False, h_drawn = blank_canvas\<rparr>)" by (simp add: blank_good)
  show "distinct (map fst (gm_components (ch_model line_model)))" "gm_seriesIndices (ch_model line_model) = Some [0, 1]" by (rule line_model_facts)+
  show "{..<length (components_of (ch_model line_model) ''series'')} \<subseteq> set [0, 1]" unfolding n by auto
  have "view_class line_painting False ''series.line'' \<noteq> None" by code_simp
  then show "\<forall>c \<in> set (components_of (ch_model line_model) ''series''). has_view_class line_painting False c"
    using n(2) by (auto simp: has_view_class_def line_painting_def)
qed

definition line_places :: "((string, jsval viewed) component option \<times> (string \<times> nat)) list" where
  "line_places = map (\<lambda>i. (getComponent ''series'' i (ch_model line_model), (''series'', i))) [0, 1]"

lemma line_places_facts:
  "distinct (map (\<lambda>(c, pos). view_id line_painting (the c)) line_places)"
  "case prepareView line_painting False (ch_model line_model, blank_canvas) of Inl _ \<Rightarrow> False | Inr _ \<Rightarrow> True"
  by code_simp+

lemma prepared_views_fit_witness:
  "\<exists>g' d'. prepareView line_painting False (ch_model line_model, blank_canvas) = Inr (g', d') \<and> good_views line_painting d' \<and>
    (\<lambda>a. vw_id (dr_heap d' ! a)) ` set (vs_list (views_of False d')) =
      {view_id line_painting c | c pos. (Some c, pos) \<in> set line_places \<and> has_view_class line_painting False c}"
proof -
  obtain g' d' where r: "prepareView line_painting False (ch_model line_model, blank_canvas) = Inr (g', d')"
    using line_places_facts(2) by (cases "prepareView line_painting False (ch_model line_model, blank_canvas)") auto
  have cs: "to_prepare False (ch_model line_model) = Inr line_places"
    unfolding to_prepare_def eachSeries_def shown_def line_model_facts(2) line_places_def by simp
  have plain: "CHR ''_'' \<notin> set (pt_type line_painting k)" for k by (simp add: line_painting_def)
  show ?thesis
    using r prepared_views_fit [OF blank_good cs r plain to_prepare_placed [OF cs line_model_facts(1)] line_places_facts(1)] by blast
qed

text \<open>A page with a chart that has no option yet.\<close>

definition line_page :: "(string, jsval, string, nat) canvas page" where
  "line_page = drawing line_env line_painting \<lparr>pg_registry = \<lparr>ra_actions = [], ra_events = []\<rparr>, pg_action = (\<lambda>_ _ _. None), pg_update = (\<lambda>_ _ _. None),
     pg_listen = (\<lambda>_ _ _. [])\<rparr>"

definition line_world :: "(string, jsval, string, nat) canvas world" where
  "line_world = chart_init line_page ''a'' \<lparr>h_chart = None, h_lastOnlyGraphic = False, h_drawn = blank_canvas\<rparr> \<lparr>w_instances = [], w_connected = [], w_trace = []\<rparr>"

definition result_of :: "'a + 'b \<times> 'a \<Rightarrow> 'a" where
  "result_of r = (case r of Inl w \<Rightarrow> w | Inr (_, w) \<Rightarrow> w)"

text \<open>A chart is resized before its lazily set option is drawn: it has no views yet, and the call raises an error.\<close>

lemma resize_before_lazy_update_raises:
  "let r = ec_setOption line_env (line_setting 600) [] line_page ''a'' two_lines False True line_world in
   isl r = False \<and> isl (ec_resize line_env (line_setting 500) line_page ''a'' (result_of r))"
  by code_simp

end
