(* ===== verification/Dark_Theme.thy ===== *)
theory Dark_Theme
  imports Chart_Draw
begin

text \<open>
  Themes: the registry of module 1, the dark theme of \<open>dark.js\<close> as a value, and what a theme does to an option.
  A chart is drawn with the dark theme at the end.
\<close>

section \<open>The registry\<close>

type_synonym theme_storage = "(string \<times> jsval) list"

definition registerTheme :: "string \<Rightarrow> jsval \<Rightarrow> theme_storage \<Rightarrow> theme_storage" where
  "registerTheme name theme ts = (if name = ''__proto__'' then ts else AList.update name theme ts)"

text \<open>
  The theme a chart is made with: a text names a registered one, a member of all objects is found as well; what the
  chart keeps is a copy, and without one there are no settings.
\<close>

definition theme_of :: "theme_storage \<Rightarrow> jsval \<Rightarrow> jsval" where
  "theme_of ts theme = (let theme = (case theme of
        Text name \<Rightarrow> (case map_of ts name of Some v \<Rightarrow> v
          | None \<Rightarrow> if name \<in> set object_members then Host (if name = ''__proto__'' then Builtin else Function) 0 else Undefined)
      | _ \<Rightarrow> theme) in
     let theme = clone theme in if truthy theme then theme else Obj [])"

text \<open>The settings of a theme, in order.\<close>

definition theme_members :: "jsval \<Rightarrow> members" where
  "theme_members theme = (case theme of Obj ms \<Rightarrow> ms | _ \<Rightarrow> [])"

section \<open>The dark theme\<close>

definition contrastColor :: jsval where
  "contrastColor = Text ''#eee''"

definition axisCommon :: members where
  "axisCommon =
     [(''axisLine'', Obj [(''lineStyle'', Obj [(''color'', contrastColor)])]),
      (''axisTick'', Obj [(''lineStyle'', Obj [(''color'', contrastColor)])]),
      (''axisLabel'', Obj [(''textStyle'', Obj [(''color'', contrastColor)])]),
      (''splitLine'', Obj [(''lineStyle'', Obj [(''type'', Text ''dashed''), (''color'', Text ''#aaa'')])]),
      (''splitArea'', Obj [(''areaStyle'', Obj [(''color'', contrastColor)])])]"

definition colorPalette :: "jsval list" where
  "colorPalette = map Text [''#dd6b66'', ''#759aa0'', ''#e69d87'', ''#8dc1a9'', ''#ea7e53'', ''#eedd78'', ''#73a373'', ''#73b9bc'', ''#7289ab'',
     ''#91ca8c'', ''#f49f42'']"

text \<open>The axis of categories has no split lines; its settings are a fresh object, which no other axis shares.\<close>

definition categoryAxis :: members where
  "categoryAxis = put ''splitLine''
     (Obj (put ''show'' (Bool False) (theme_members (case map_of axisCommon ''splitLine'' of Some v \<Rightarrow> v | None \<Rightarrow> Undefined)))) axisCommon"

definition dark_theme :: members where
  "dark_theme =
     [(''color'', Arr colorPalette), (''backgroundColor'', Text ''#333''),
      (''tooltip'', Obj [(''axisPointer'', Obj [(''lineStyle'', Obj [(''color'', contrastColor)]), (''crossStyle'', Obj [(''color'', contrastColor)])])]),
      (''legend'', Obj [(''textStyle'', Obj [(''color'', contrastColor)])]), (''textStyle'', Obj [(''color'', contrastColor)]),
      (''title'', Obj [(''textStyle'', Obj [(''color'', contrastColor)])]),
      (''toolbox'', Obj [(''iconStyle'', Obj [(''normal'', Obj [(''borderColor'', contrastColor)])])]),
      (''dataZoom'', Obj [(''textStyle'', Obj [(''color'', contrastColor)])]),
      (''timeline'', Obj
         [(''lineStyle'', Obj [(''color'', contrastColor)]), (''itemStyle'', Obj [(''normal'', Obj [(''color'', colorPalette ! 1)])]),
          (''label'', Obj [(''normal'', Obj [(''textStyle'', Obj [(''color'', contrastColor)])])]),
          (''controlStyle'', Obj [(''normal'', Obj [(''color'', contrastColor), (''borderColor'', contrastColor)])])]),
      (''timeAxis'', Obj axisCommon), (''logAxis'', Obj axisCommon), (''valueAxis'', Obj axisCommon), (''categoryAxis'', Obj categoryAxis),
      (''line'', Obj [(''symbol'', Text ''circle'')]), (''graph'', Obj [(''color'', Arr colorPalette)]),
      (''gauge'', Obj [(''title'', Obj [(''textStyle'', Obj [(''color'', contrastColor)])])]),
      (''candlestick'', Obj [(''itemStyle'', Obj [(''normal'', Obj
         [(''color'', Text ''#FD1050''), (''color0'', Text ''#0CF49B''), (''borderColor'', Text ''#FD1050''), (''borderColor0'', Text ''#0CF49B'')])])])]"

definition dark_storage :: "theme_storage \<Rightarrow> theme_storage" where
  "dark_storage ts = registerTheme ''dark'' (Obj dark_theme) ts"

section \<open>A theme under an option\<close>

lemma dark_theme_found: "theme_of (dark_storage ts) (Text ''dark'') = Obj dark_theme"
proof -
  have "clone (Obj dark_theme) = Obj dark_theme" by code_simp
  then show ?thesis by (simp add: theme_of_def dark_storage_def registerTheme_def update_conv' truthy_def is_nil_def Let_def del: clone.simps)
qed

text \<open>What becomes of one setting.\<close>

definition themed :: "jsval option \<Rightarrow> jsval \<Rightarrow> jsval option option" where
  "themed t item = (let old = (case t of None \<Rightarrow> Undefined | Some v \<Rightarrow> v) in
     if type_object item then (if \<not> truthy old then Some (Some (clone item)) else map_option Some (merge False old item))
     else Some (if is_nil old then Some item else t))"

lemma mergeTheme_one:
  assumes "mergeTheme env b ((k, item) # theme) = Some b'" "k \<noteq> ''__proto__''"
  obtains c where "mergeTheme env c theme = Some b'" "\<And>name. name \<noteq> k \<Longrightarrow> map_of c name = map_of b name"
    "hasClass k (e_registry env) \<Longrightarrow> map_of c k = map_of b k" "\<not> hasClass k (e_registry env) \<Longrightarrow> themed (map_of b k) item = Some (map_of c k)"
proof (cases "hasClass k (e_registry env)")
  case True
  then show thesis using that [of b] assms(1) by simp
next
  case False
  let ?old = "case map_of b k of None \<Rightarrow> Undefined | Some v \<Rightarrow> v"
  show thesis
  proof (cases "type_object item")
    case True
    then obtain v where v: "(if \<not> truthy ?old then Some (clone item) else merge False ?old item) = Some v" "mergeTheme env (put k v b) theme = Some b'"
      using assms(1) False by (auto simp: Let_def bind_eq_Some_conv)
    have "themed (map_of b k) item = Some (Some v)" using True v(1) by (auto simp: themed_def Let_def split: if_splits)
    then show thesis using that [OF v(2)] False assms(2) by simp
  next
    case False': False
    then have r: "mergeTheme env (if is_nil ?old then put k item b else b) theme = Some b'" using assms(1) False by (simp add: Let_def)
    show thesis by (rule that [OF r]) (use False False' assms(2) in \<open>simp_all add: themed_def Let_def\<close>)
  qed
qed

lemma mergeTheme_setting:
  assumes "mergeTheme env b theme = Some b'" "distinct (map fst theme)" "''__proto__'' \<notin> fst ` set theme"
  shows "case map_of theme name of None \<Rightarrow> map_of b' name = map_of b name
    | Some item \<Rightarrow> (if hasClass name (e_registry env) then map_of b' name = map_of b name else themed (map_of b name) item = Some (map_of b' name))"
  using assms
proof (induction theme arbitrary: b)
  case (Cons x theme)
  obtain k item where x: "x = (k, item)" by (cases x)
  have k: "k \<noteq> ''__proto__''" using Cons.prems(3) x by auto
  obtain c where c: "mergeTheme env c theme = Some b'" "\<And>name. name \<noteq> k \<Longrightarrow> map_of c name = map_of b name"
    "hasClass k (e_registry env) \<Longrightarrow> map_of c k = map_of b k" "\<not> hasClass k (e_registry env) \<Longrightarrow> themed (map_of b k) item = Some (map_of c k)"
    using mergeTheme_one [of env b k item theme b'] Cons.prems(1) k unfolding x by metis
  have IH: "case map_of theme name of None \<Rightarrow> map_of b' name = map_of c name
    | Some item \<Rightarrow> (if hasClass name (e_registry env) then map_of b' name = map_of c name else themed (map_of c name) item = Some (map_of b' name))"
    using Cons.IH [OF c(1)] Cons.prems(2,3) by simp
  show ?case
  proof (cases "name = k")
    case True
    then have "map_of theme name = None" using Cons.prems(2) x by (simp add: map_of_eq_None_iff)
    then show ?thesis using IH c(3,4) True x by simp
  next
    case False
    have keep: "map_of (x # theme) name = map_of theme name" using False x by simp
    show ?thesis using IH unfolding c(2) [OF False] keep .
  qed
qed simp

text \<open>Merging under an option keeps its leaves.\<close>

lemma merge_keeps_leaf:
  assumes "merge False old item = Some new" "wf_val item" "at_path ks old = Some v" "\<not> isObject v"
  shows "at_path ks new = Some v"
proof -
  have leaf: "plain v = None" using assms(4) by (cases v) auto
  show ?thesis
  proof (cases "isObject item \<and> isObject old")
    case False
    then have "new = old" using assms(1) by (simp add: merge_def)
    then show ?thesis using assms(3) by simp
  next
    case True
    then show ?thesis
    proof (cases old)
      case (Arr xs)
      then show ?thesis using assms(3,4) by (cases ks) auto
    next
      case (Obj a)
      show ?thesis
      proof (cases item)
        case (Obj m)
        then have "new = Obj (merge_members False a m)" using assms(1) \<open>old = Obj a\<close> by (simp add: merge_def)
        then show ?thesis using at_path_merge_keep [OF _ _ leaf] assms(2,3) Obj \<open>old = Obj a\<close> by blast
      next
        case (Arr ys)
        let ?m = "map (\<lambda>(i, y). (dec i, y)) (enumerate 0 ys)"
        have "map fst ?m = map dec [0..<length ys]" by (rule nth_equalityI) (simp_all add: enumerate_eq_zip case_prod_beta)
        moreover have "inj dec" by (rule injI) simp
        ultimately have "distinct (map fst ?m)" by (simp add: distinct_map inj_on_def)
        moreover have "list_all (\<lambda>(k, v). wf_val v) ?m"
          using assms(2) Arr by (auto simp: list_all_iff enumerate_eq_zip dest: set_zip_rightD)
        ultimately have "wf_val (Obj ?m)" by simp
        moreover have "new = Obj (merge_members False a ?m)" using assms(1) \<open>old = Obj a\<close> Arr by (simp add: merge_def)
        ultimately show ?thesis using at_path_merge_keep [OF _ _ leaf] assms(3) \<open>old = Obj a\<close> by blast
      qed (use True assms(1) \<open>old = Obj a\<close> in \<open>simp_all add: merge_def\<close>)
    qed (use True assms in \<open>simp_all add: merge_def split: jsval.splits\<close>)
  qed
qed

text \<open>
  A theme lies under an option: what the option sets to a value that is not false, null or an object stays, deep
  settings included, what it leaves out is a copy of what the theme sets, and components are left to themselves.
\<close>

theorem theme_under_option:
  assumes "mergeTheme env b theme = Some b'" "wf_val (Obj theme)" "''__proto__'' \<notin> fst ` set theme"
  shows "(\<forall>p v. at_path p (Obj b) = Some v \<and> \<not> isObject v \<and> truthy v \<longrightarrow> at_path p (Obj b') = Some v) \<and>
    (\<forall>name item. map_of theme name = Some item \<and> map_of b name = None \<longrightarrow>
      map_of b' name = (if hasClass name (e_registry env) then None else Some (if type_object item then clone item else item)))"
proof (intro conjI allI impI)
  have d: "distinct (map fst theme)" using assms(2) by simp
  note setting = mergeTheme_setting [OF assms(1) d assms(3)]
  fix name item
  assume "map_of theme name = Some item \<and> map_of b name = None"
  then show "map_of b' name = (if hasClass name (e_registry env) then None else Some (if type_object item then clone item else item))"
    using setting [of name] by (auto simp: themed_def truthy_def is_nil_def split: if_splits)
next
  have d: "distinct (map fst theme)" using assms(2) by simp
  note setting = mergeTheme_setting [OF assms(1) d assms(3)]
  fix p v
  assume v: "at_path p (Obj b) = Some v \<and> \<not> isObject v \<and> truthy v"
  show "at_path p (Obj b') = Some v"
  proof (cases p)
    case Nil
    then show ?thesis using v by auto
  next
    case (Cons name ks)
    then obtain old where old: "map_of b name = Some old" "at_path ks old = Some v" using v by (auto simp: bind_eq_Some_conv)
    have leaf: "plain v = None" using v by (cases v) auto
    have "\<exists>new. map_of b' name = Some new \<and> at_path ks new = Some v"
    proof (cases "map_of theme name")
      case None
      then show ?thesis using setting [of name] old by simp
    next
      case (Some item)
      show ?thesis
      proof (cases "hasClass name (e_registry env)")
        case True
        then show ?thesis using setting [of name] Some old by simp
      next
        case False
        then have t: "themed (Some old) item = Some (map_of b' name)" using setting [of name] Some old(1) by simp
        have truthy: "truthy old"
          using old(2) v by (cases ks; cases old) (auto simp: truthy_def is_nil_def bind_eq_Some_conv)
        show ?thesis
        proof (cases "type_object item")
          case True
          then obtain new where new: "merge False old item = Some new" "map_of b' name = Some new" 
            using t truthy by (cases "merge False old item") (simp_all add: themed_def)
          have "wf_val item" using wf_member [OF assms(2) Some] .
          then show ?thesis using merge_keeps_leaf [OF new(1) _ old(2)] new(2) v by blast
        next
          case False
          then have "Some old = map_of b' name" using t truthy by (simp add: themed_def truthy_def)
          then show ?thesis using old(2) by (intro exI [of _ old]) simp
        qed
      qed
    qed
    then show ?thesis using Cons by (auto simp: bind_eq_Some_conv)
  qed
qed

definition plain_option :: members where
  "plain_option = [(''backgroundColor'', Text ''#fff''), (''textStyle'', Obj [(''fontSize'', Number 20)])]"

lemma theme_under_option_witness:
  "\<exists>b'. mergeTheme line_env plain_option dark_theme = Some b' \<and> at_path [''textStyle'', ''fontSize''] (Obj b') = Some (Number 20) \<and>
    at_path [''backgroundColor''] (Obj b') = Some (Text ''#fff'') \<and> map_of b' ''color'' = Some (Arr colorPalette)"
proof -
  have r: "(case mergeTheme line_env plain_option dark_theme of None \<Rightarrow> False | Some _ \<Rightarrow> True)" and w: "wf_val (Obj dark_theme)" "''__proto__'' \<notin> fst ` set dark_theme"
    and o1: "at_path [''textStyle'', ''fontSize''] (Obj plain_option) = Some (Number 20)" "at_path [''backgroundColor''] (Obj plain_option) = Some (Text ''#fff'')"
    and t: "map_of dark_theme ''color'' = Some (Arr colorPalette)" "map_of plain_option ''color'' = None" "\<not> hasClass ''color'' (e_registry line_env)"
      "(if type_object (Arr colorPalette) then clone (Arr colorPalette) else Arr colorPalette) = Arr colorPalette"
    by code_simp+
  obtain b' where b': "mergeTheme line_env plain_option dark_theme = Some b'" using r by (cases "mergeTheme line_env plain_option dark_theme") auto
  note under = theme_under_option [OF b' w]
  have "map_of b' ''color'' = Some (Arr colorPalette)" using under [THEN conjunct2, rule_format, OF conjI [OF t(1,2)]] t(3,4) by simp
  moreover have "at_path [''textStyle'', ''fontSize''] (Obj b') = Some (Number 20)"
    by (rule under [THEN conjunct1, rule_format]) (simp only: o1, simp add: truthy_def is_nil_def)
  moreover have "at_path [''backgroundColor''] (Obj b') = Some (Text ''#fff'')"
    by (rule under [THEN conjunct1, rule_format]) (simp only: o1, simp add: truthy_def is_nil_def)
  ultimately show ?thesis using b' by blast
qed

text \<open>A chart made with the dark theme: its background is that of the theme, a shorter list of colors goes on with those of the theme.\<close>

definition dark_setting :: "(string, jsval viewed) component setting" where
  "dark_setting = (line_setting 600)\<lparr>st_theme := theme_members (theme_of (dark_storage []) (Text ''dark''))\<rparr>"

lemma dark_chart:
  "(case inst_of (result_of (ec_setOption line_env dark_setting [] line_page ''a''
        (Obj [(''color'', Arr [Text ''red'']), (''series'', Arr [Obj [(''type'', Text ''line'')]])]) False False line_world)) ''a'' of
      Some c \<Rightarrow> (bg_style (dr_background (h_drawn (in_model c))),
        map_option (\<lambda>ch. map_of (gm_settings (ch_model ch)) ''color'') (h_chart (in_model c)))
    | None \<Rightarrow> (Null, None)) =
   (Text ''#333'', Some (Some (Arr (Text ''red'' # tl colorPalette))))"
  by code_simp

end
