(* ===== verification/Spec2Isabelle.thy ===== *)
theory Spec2Isabelle
  imports Timsort_Sort Lru Eventful Data_Differ Topological_Travel Scene_Invariant Data_List_Props Data_Tree_Props Data_Graph_Props
    Throttle Zoom_History Link_List Dark_Theme
begin

text \<open>
  A verification library for the charting script of the monitoring page. The monitor of the cluster
  (\<open>system-monitor/monitor_center/templates/js\<close>) ships two scripts of its own page: \<open>echarts.js\<close>, the bundle of ECharts
  3.3.2 with the rendering library zrender, whose modules are numbered in the bundle, and \<open>dark.js\<close>, a theme. Below,
  module numbers are those of the bundle and function names those of the source.

  \<^bold>\<open>How the parts interact.\<close> A page makes charts (\<open>echarts.init\<close>) and sets options on them. A raw option is taken
  apart and kept by the option manager; the global model merges it into its settings and components, which are
  created in the order of their dependencies. Series hold tables of data, of which trees and graphs
  are made and which are copied when data is processed. An update restores the data, runs processors and visual functions by
  priority and has views draw; views put elements into groups, which the storage of the renderer lists for drawing, sorted.
  Actions change a model and become events, on which other connected charts act in turn.

  \<^bold>\<open>The ground.\<close> \<open>Js_Prelude\<close>: 32-bit operators, arrays with checked reads and writes, block copies. \<open>Js_Strings\<close>:
  decimal texts. \<open>Zr_Util\<close> (module 4): option values \<open>jsval\<close>, copying, merging, extending. Strings are lists of
  characters. Plain objects that serve as dictionaries are association lists or maps, and where the code finds inherited members
  such as \<open>constructor\<close> the models do as well (\<open>object_members\<close>).

  \<^bold>\<open>Sorting (module 86).\<close> \<open>Timsort\<close> has every function of the module, on arrays with the cursors of the code;
  \<open>Stable_Order\<close> has the contract of comparators as a locale, interpreted on the comparison by key and on that of elements;
  \<open>Timsort_Gallop\<close>, \<open>Timsort_Runs\<close>, \<open>Timsort_MergeLow\<close>, \<open>Timsort_MergeHigh\<close> and \<open>Timsort_Sort\<close> show that the array code
  writes stable merges, that the stack of runs keeps its invariant, and that sorting ends in the stable sort.

  \<^bold>\<open>Small components.\<close> \<open>Lru\<close> (module 62): the linked list in a store refines a list in order of use, through a locale for the
  list. \<open>Eventful\<close> (module 33): handlers that register, remove and trigger while they run. \<open>Data_Differ\<close> (module 99).
  \<open>Topological_Travel\<close> (module 20): the order of creation and its errors. \<open>Throttle\<close> (module 81): a closure with timers, by a step
  relation. \<open>Zoom_History\<close> (modules 376, 177): snapshots of zooms and who holds an interaction.

  \<^bold>\<open>The scene (modules 30, 85).\<close> \<open>Scene\<close>: elements in a store, groups, roots, the display list. \<open>Scene_Display\<close>: the list is that
  of the visible leaves in order; \<open>Scene_Invariant\<close>: the map of elements follows every operation, by a step relation.

  \<^bold>\<open>Tables (modules 98, 186, 199, 198, 187).\<close> \<open>Data_List\<close>, \<open>Data_Tree\<close>, \<open>Data_Graph\<close> and \<open>Link_List\<close> have the operations;
  \<open>_Facts\<close> theories what holds of them (a locale says how rows and their holders stay in step, interpreted for the nodes of trees and
  for nodes and edges of graphs), \<open>_Props\<close> theories the properties: caches, search, identifiers, walks, copies.

  \<^bold>\<open>Options and models.\<close> \<open>Option_Model\<close> (module 12): reading by path, parents, merging. \<open>Class_Registry\<close> (modules 13, 20, 26):
  classes, default sub types, unique names, coordinate systems. \<open>Component_Mapping\<close> (module 5): which option goes to which component,
  and identifiers. \<open>Global_Model\<close> (modules 3, 23, 19) and \<open>Option_Manager\<close> (module 27): the model with its errors, raw options, timeline and
  media options. \<open>Global_Props\<close>: what holds after any sequence of options, resets and filters.

  \<^bold>\<open>Charts (module 1).\<close> \<open>Chart_Core\<close>: actions, events, connected charts, pending actions, options, resizing, frames; calls under way
  are tasks, run one after the other. \<open>Chart_Views\<close>: functions by priority, views by address, stacks, the background and every update
  method. \<open>Chart_Core_Props\<close>: a page comes to rest, connected charts act once, an error blocks a chart.
  \<open>Chart_Views_Props\<close>: order of functions, views fit their components. \<open>Chart_Draw\<close>: a full update misses no view.
  \<open>Dark_Theme\<close>: the theme as a value, and what it does under an option.

  \<^bold>\<open>Loops and bounds.\<close> Loops that may not end are \<open>partial_function (option)\<close>, so that \<open>None\<close> is a call that never returns:
  the loops of sorting, the tasks of a page, the traversal of components, sampling, walks over the scene, trees and graphs, fresh identifiers. Where
  the code ends that is proved, as the existence of a result. Sorting holds for lengths below \<open>2 ^ 31\<close>, the range of the
  shifts the code uses; the overflow of the galloping offset within it is modelled. Numbers of options
  and priorities are integers; those of tables are integers, the infinities and NaN. Fractions are not modelled.

  \<^bold>\<open>Parameters.\<close> Methods of component classes, actions, listeners, processors, visual functions, views, preprocessors and
  the platform are arguments of the definitions that call them. What is asked of them is a named hypothesis where a property needs
  it (\<open>tame\<close>, \<open>quiet_page\<close>), met by the concrete pages of the witnesses.

  \<^bold>\<open>Not modelled.\<close> Drawing: painter and layers, paths, shapes, text, images and their geometry (modules 34 to 80, 92, 93), and the VML
  back end (382, 384): floating-point arithmetic and calls of the canvas. Animation (35 to 38, 87) and mouse events (83, 88, 90): clocks and
  the page. Coordinate systems, scales and layouts of series (114 to 130, 165 to 170, 226 to 231, 287 to 305 and the layouts of charts):
  floating-point geometry. The charts and components built on the core (bar, pie, map, legend, tooltip, toolbox, data zoom,
  visual map, brush, timeline, marks): classes that the core takes as parameters. Formatting of numbers, times and colors (6, 7,
  39). The web programs, jobs and scripts of the other directories are in Java, Python, SQL and shell, and are not part of this library;
  \<open>welcome_inbox/index.js\<close> is a comment.
\<close>

end
